(* ===== verification/Prelude.thy ===== *)
theory Prelude
  imports Main "HOL-Library.Word"
begin

unbundle bit_operations_syntax

section \<open>Shared types, character predicates and library lemmas\<close>

text \<open>
  The machine types of the code, the character predicates of
  JavaScriptCore/wtf/ASCIICType.h, and the generic lemmas on words and lists that the
  component theories share.

  A \<open>char\<close> or \<open>unsigned char\<close> is an 8-bit word, a \<open>UChar\<close> (UTF-16 code unit) a 16-bit
  word, a \<open>UChar32\<close> and an \<open>unsigned\<close> a 32-bit word. An \<open>int\<close> whose value is a count or
  an index is an unbounded \<open>int\<close> or \<open>nat\<close>; where its range matters the range is a
  hypothesis or a lemma.
\<close>

type_synonym byte = "8 word"
type_synonym uchar = "16 word"
type_synonym uchar32 = "32 word"
type_synonym u32 = "32 word"

text \<open>Facts that rewrite the value of a word expression to arithmetic on \<open>nat\<close>.\<close>

named_theorems word_value

subsection \<open>Characters\<close>

text \<open>A string literal of the source as UTF-16 code units, and as bytes.\<close>

definition ustr :: "string \<Rightarrow> uchar list" where
  "ustr s = map (\<lambda>c. of_nat (of_char c)) s"

definition bstr :: "string \<Rightarrow> byte list" where
  "bstr s = map (\<lambda>c. of_nat (of_char c)) s"

text \<open>
  WTF::isASCIIDigit and its companions, in the overload for \<open>unsigned short\<close>.
\<close>

definition isASCII :: "uchar \<Rightarrow> bool" where
  "isASCII c = (c AND NOT 0x7F = 0)"

definition isASCIIAlpha :: "uchar \<Rightarrow> bool" where
  "isASCIIAlpha c = (0x61 \<le> (c OR 0x20) \<and> (c OR 0x20) \<le> 0x7A)"

definition isASCIIDigit :: "uchar \<Rightarrow> bool" where
  "isASCIIDigit c = (0x30 \<le> c \<and> c \<le> 0x39)"

definition isASCIIHexDigit :: "uchar \<Rightarrow> bool" where
  "isASCIIHexDigit c =
     ((0x30 \<le> c \<and> c \<le> 0x39) \<or> (0x61 \<le> (c OR 0x20) \<and> (c OR 0x20) \<le> 0x66))"

definition isASCIISpace :: "uchar \<Rightarrow> bool" where
  "isASCIISpace c = (c \<le> 0x20 \<and> (c = 0x20 \<or> (c \<le> 0xD \<and> 0x9 \<le> c)))"

definition toASCIILower :: "uchar \<Rightarrow> uchar" where
  "toASCIILower c = c OR push_bit 5 (of_bool (0x41 \<le> c \<and> c \<le> 0x5A))"

definition toASCIIUpper :: "uchar \<Rightarrow> uchar" where
  "toASCIIUpper c = c AND NOT (push_bit 5 (of_bool (0x61 \<le> c \<and> c \<le> 0x7A)))"

text \<open>
  WTF::toASCIIHexValue on the \<open>int\<close> overload, and JSC::Lexer::convertHex and
  convertUnicode on top of it; the callers test every argument with isASCIIHexDigit.
\<close>

definition toASCIIHexValue :: "uchar \<Rightarrow> u32" where
  "toASCIIHexValue c =
     (let c = ucast c :: u32 in if c < 0x41 then c - 0x30 else (c - 0x41 + 10) AND 0xF)"

definition convertHex :: "uchar \<Rightarrow> uchar \<Rightarrow> byte" where
  "convertHex c1 c2 = ucast (push_bit 4 (toASCIIHexValue c1) OR toASCIIHexValue c2)"

definition convertUnicode :: "uchar \<Rightarrow> uchar \<Rightarrow> uchar \<Rightarrow> uchar \<Rightarrow> uchar" where
  "convertUnicode c1 c2 c3 c4 =
     ucast (push_bit 8 (ucast (convertHex c1 c2) :: u32) OR ucast (convertHex c3 c4))"

subsection \<open>Words as numbers\<close>

lemma unat_less_length: "unat (w :: 'a::len word) < 2 ^ LENGTH('a)"
  by (rule unsigned_less)

lemma unat_take_bit [word_value]: "unat (take_bit n w :: 'a::len word) = unat w mod 2 ^ n"
  unfolding unsigned_take_bit_eq by (rule take_bit_eq_mod)

lemma unat_and_mask: "unat (w AND mask n :: 'a::len word) = unat w mod 2 ^ n"
  by (metis take_bit_eq_mask unat_take_bit)

lemma unat_drop_bit [word_value]: "unat (drop_bit n w :: 'a::len word) = unat w div 2 ^ n"
  by (metis drop_bit_eq_div unat_drop_bit_eq)

lemma unat_ucast_mod [word_value]:
  "unat (ucast w :: 'b::len word) = unat (w :: 'a::len word) mod 2 ^ LENGTH('b)"
  unfolding unsigned_ucast_eq by (rule take_bit_eq_mod)

lemma or_disjoint: "(a :: 'a::len word) AND b = 0 \<Longrightarrow> a OR b = a + b"
  by (metis word_plus_and_or add_0)

lemma unat_or_disjoint:
  "(a :: 'a::len word) AND b = 0 \<Longrightarrow> unat a + unat b < 2 ^ LENGTH('a) \<Longrightarrow>
   unat (a OR b) = unat a + unat b"
  by (simp add: or_disjoint unat_word_ariths)

lemma and_not_mask_plus: "(w AND NOT (mask n)) + (w AND mask n) = (w :: 'a::len word)"
proof -
  have "(w AND NOT (mask n)) OR (w AND mask n) = w"
    by (simp flip: bit.conj_disj_distrib)
  moreover have "(w AND NOT (mask n)) AND (w AND mask n) = 0"
    by (rule bit_word_eqI) (simp add: bit_simps)
  ultimately show ?thesis by (metis or_disjoint)
qed

lemma unat_and_not_mask:
  "unat (w AND NOT (mask n) :: 'a::len word) = unat w div 2 ^ n * 2 ^ n"
proof -
  have "unat w = unat (w AND NOT (mask n)) + unat (w AND mask n)"
    by (metis and_not_mask_plus unat_plus_simple word_and_le2 le_word_or2
        bit.conj_disj_distrib bit.disj_cancel_right or_disjoint)
  then show ?thesis by (simp add: unat_and_mask minus_mod_eq_div_mult flip: minus_mod_eq_div_mult)
qed

lemma unat_and_7 [word_value]: "unat (w AND 7 :: 'a::len word) = unat w mod 8"
  using unat_and_mask [of w 3] by (simp add: mask_eq_exp_minus_1)

lemma unat_and_15 [word_value]: "unat (w AND 0xF :: 'a::len word) = unat w mod 16"
  using unat_and_mask [of w 4] by (simp add: mask_eq_exp_minus_1)

lemma unat_and_31 [word_value]: "unat (w AND 0x1F :: 'a::len word) = unat w mod 32"
  using unat_and_mask [of w 5] by (simp add: mask_eq_exp_minus_1)

lemma unat_and_63 [word_value]: "unat (w AND 0x3F :: 'a::len word) = unat w mod 64"
  using unat_and_mask [of w 6] by (simp add: mask_eq_exp_minus_1)

lemma unat_and_1023 [word_value]: "unat (w AND 0x3FF :: 'a::len word) = unat w mod 1024"
  using unat_and_mask [of w 10] by (simp add: mask_eq_exp_minus_1)

lemma unat_push_bit_small:
  "unat (w :: 'a::len word) * 2 ^ n < 2 ^ LENGTH('a) \<Longrightarrow> unat (push_bit n w) = unat w * 2 ^ n"
  unfolding unsigned_push_bit_eq by (simp add: take_bit_nat_def push_bit_nat_def)

lemma word_eqI_unat: "unat a = unat b \<Longrightarrow> a = (b :: 'a::len word)"
  by (simp add: word_unat_eq_iff)

subsection \<open>Lists\<close>

text \<open>
  The interface between an encoder that writes one symbol after the other and a decoder
  that reads a list from its front: what the decoder promises for the encoding of one
  symbol gives what it does on the encoding of a list of them.
\<close>

locale stream_decoder =
  fixes valid :: "'a \<Rightarrow> bool"
    and put :: "'a \<Rightarrow> 'b list"
    and out :: "'a \<Rightarrow> 'c list"
    and run :: "'b list \<Rightarrow> 'c list option"
  assumes run_Nil: "run [] = Some []"
    and run_put: "valid a \<Longrightarrow> run (put a @ rest) = map_option ((@) (out a)) (run rest)"
begin

lemma run_prefix:
  "list_all valid as \<Longrightarrow> run (concat (map put as) @ rest) = map_option ((@) (concat (map out as))) (run rest)"
  by (cases "run rest"; induction as) (simp_all add: run_put)

lemma run_all: "list_all valid as \<Longrightarrow> run (concat (map put as)) = Some (concat (map out as))"
  using run_prefix [of as "[]"] by (simp add: run_Nil)

end

lemma take_Suc_nth: "n < length xs \<Longrightarrow> take (Suc n) xs = take n xs @ [xs ! n]"
  by (rule take_Suc_conv_app_nth)

end
