(* ===== verification/Utf8.thy ===== *)
theory Utf8
  imports Prelude "HOL-Library.Monad_Syntax"
begin

section \<open>UTF-8 conversion (JavaScriptCore/wtf/unicode/UTF8.cpp)\<close>

text \<open>
  The two converters between UTF-16 and UTF-8, the one-sequence decoder, and the byte
  checks they share. A pair of pointers \<open>[start, end)\<close> into a source buffer is the list of
  the units still to be read; a pair of pointers into a target buffer is the number of
  free units together with the list written so far. A converter that stops moves its
  source pointer back to the first unit it did not convert: the model returns the list
  that starts there.

  The specification is \<open>utf8_of\<close> and \<open>utf16_of\<close>, the encodings of one scalar value, in
  the arithmetic of the Unicode standard.
\<close>

datatype ConversionResult = conversionOK | sourceExhausted | targetExhausted | sourceIllegal

subsection \<open>Sequence lengths and the decoder of one sequence\<close>

definition inlineUTF8SequenceLengthNonASCII :: "byte \<Rightarrow> int" where
  "inlineUTF8SequenceLengthNonASCII b0 =
     (if b0 AND 0xC0 \<noteq> 0xC0 then 0
      else if b0 AND 0xE0 = 0xC0 then 2
      else if b0 AND 0xF0 = 0xE0 then 3
      else if b0 AND 0xF8 = 0xF0 then 4
      else 0)"

definition UTF8SequenceLength :: "byte \<Rightarrow> int" where
  "UTF8SequenceLength b0 =
     (if b0 AND 0x80 = 0 then 1 else inlineUTF8SequenceLengthNonASCII b0)"

text \<open>A read of a \<open>char\<close> buffer: \<open>None\<close> outside the buffer.\<close>

definition rd :: "'a list \<Rightarrow> nat \<Rightarrow> 'a option" where
  "rd s i = (if i < length s then Some (s ! i) else None)"

text \<open>
  decodeUTF8Sequence reads a NUL-terminated buffer byte by byte; \<open>None\<close> is a read past
  its end, \<open>Some (-1)\<close> the error value of the code.
\<close>

definition decodeUTF8Sequence :: "byte list \<Rightarrow> int option" where
  "decodeUTF8Sequence s = do {
     b0 \<leftarrow> rd s 0;
     let len = UTF8SequenceLength b0;
     if len = 0 then Some (-1) else do {
       b1 \<leftarrow> rd s 1;
       if len = 1 then Some (if b1 \<noteq> 0 then -1 else uint b0)
       else if b1 AND 0xC0 \<noteq> 0x80 then Some (-1)
       else do {
         b2 \<leftarrow> rd s 2;
         if len = 2 then
           Some (if b2 \<noteq> 0 then -1
             else let c = push_bit 6 (ucast b0 AND 0x1F) OR (ucast b1 AND 0x3F) :: u32
               in if c < 0x80 then -1 else uint c)
         else if b2 AND 0xC0 \<noteq> 0x80 then Some (-1)
         else do {
           b3 \<leftarrow> rd s 3;
           if len = 3 then
             Some (if b3 \<noteq> 0 then -1
               else let c = push_bit 12 (ucast b0 AND 0xF) OR push_bit 6 (ucast b1 AND 0x3F)
                          OR (ucast b2 AND 0x3F) :: u32
                 in if c < 0x800 then -1
                    else if 0xD800 \<le> c \<and> c \<le> 0xDFFF then -1
                    else uint c)
           else if b3 AND 0xC0 \<noteq> 0x80 then Some (-1)
           else do {
             b4 \<leftarrow> rd s 4;
             if len = 4 then
               Some (if b4 \<noteq> 0 then -1
                 else let c = push_bit 18 (ucast b0 AND 7) OR push_bit 12 (ucast b1 AND 0x3F)
                            OR push_bit 6 (ucast b2 AND 0x3F) OR (ucast b3 AND 0x3F) :: u32
                   in if c < 0x10000 \<or> 0x10FFFF < c then -1 else uint c)
             else Some (-1)
           }
         }
       }
     }
   }"

subsection \<open>From UTF-16 to UTF-8\<close>

definition firstByteMark :: "uchar32 list" where
  "firstByteMark = [0x00, 0x00, 0xC0, 0xE0, 0xF0, 0xF8, 0xFC]"

text \<open>
  One iteration reads a code point: the unit, or the surrogate pair, or the reason to stop.
\<close>

definition readUTF16 :: "bool \<Rightarrow> uchar list \<Rightarrow> ConversionResult + (uchar32 \<times> uchar list)" where
  "readUTF16 strict source =
     (let ch = ucast (hd source) :: uchar32; rest = tl source in
      if 0xD800 \<le> ch \<and> ch \<le> 0xDBFF then
        (case rest of
           [] \<Rightarrow> Inl sourceExhausted
         | u2 # rest2 \<Rightarrow>
            (let ch2 = ucast u2 :: uchar32 in
             if 0xDC00 \<le> ch2 \<and> ch2 \<le> 0xDFFF then
               Inr (push_bit 10 (ch - 0xD800) + (ch2 - 0xDC00) + 0x10000, rest2)
             else if strict then Inl sourceIllegal
             else Inr (ch, rest)))
      else if strict \<and> 0xDC00 \<le> ch \<and> ch \<le> 0xDFFF then Inl sourceIllegal
      else Inr (ch, rest))"

text \<open>The number of bytes to write, and the replacement for a value out of range.\<close>

definition bytesNeeded :: "uchar32 \<Rightarrow> nat \<times> uchar32" where
  "bytesNeeded ch =
     (if ch < 0x80 then (1, ch)
      else if ch < 0x800 then (2, ch)
      else if ch < 0x10000 then (3, ch)
      else if ch < 0x110000 then (4, ch)
      else (3, 0xFFFD))"

text \<open>
  The fall-through switch that writes the bytes from the last to the first; its label
  counts down to 1, and the bytes written so far follow the next one.
\<close>

fun putUTF8 :: "nat \<Rightarrow> nat \<Rightarrow> uchar32 \<Rightarrow> byte list \<Rightarrow> byte list" where
  "putUTF8 0 bytesToWrite ch target = target"
| "putUTF8 (Suc 0) bytesToWrite ch target =
     ucast (ch OR firstByteMark ! bytesToWrite) # target"
| "putUTF8 (Suc (Suc n)) bytesToWrite ch target =
     putUTF8 (Suc n) bytesToWrite (drop_bit 6 ch) (ucast ((ch OR 0x80) AND 0xBF) # target)"

lemma readUTF16_shorter:
  "source \<noteq> [] \<Longrightarrow> readUTF16 strict source = Inr (ch, rest) \<Longrightarrow> length rest < length source"
  by (cases source) (auto simp: readUTF16_def Let_def split: list.splits if_splits)

function convertUTF16ToUTF8 ::
  "bool \<Rightarrow> uchar list \<Rightarrow> nat \<Rightarrow> byte list \<Rightarrow> ConversionResult \<times> uchar list \<times> byte list" where
  "convertUTF16ToUTF8 strict source room target =
     (if source = [] then (conversionOK, [], target)
      else case readUTF16 strict source of
        Inl result \<Rightarrow> (result, source, target)
      | Inr (ch, rest) \<Rightarrow>
          (let (bytesToWrite, ch) = bytesNeeded ch in
           if room < bytesToWrite then (targetExhausted, source, target)
           else convertUTF16ToUTF8 strict rest (room - bytesToWrite)
                  (target @ putUTF8 bytesToWrite bytesToWrite ch [])))"
  by pat_completeness auto
termination
  by (relation "measure (\<lambda>(strict, source, room, target). length source)")
    (auto dest: readUTF16_shorter)

declare convertUTF16ToUTF8.simps [simp del]

subsection \<open>From UTF-8 to UTF-16\<close>

text \<open>
  isLegalUTF8: the outer switch falls through from the last byte to the first; \<open>a\<close> holds
  the second byte when the inner switch on the first byte is reached.
\<close>

definition isLegalSecondByte :: "byte \<Rightarrow> byte \<Rightarrow> bool" where
  "isLegalSecondByte b0 a =
     (if b0 = 0xE0 then 0xA0 \<le> a
      else if b0 = 0xED then a \<le> 0x9F
      else if b0 = 0xF0 then 0x90 \<le> a
      else if b0 = 0xF4 then a \<le> 0x8F
      else 0x80 \<le> a)"

definition isLegalUTF8 :: "byte list \<Rightarrow> int \<Rightarrow> bool" where
  "isLegalUTF8 source len =
     (if len < 1 \<or> 4 < len then False
      else if len = 4 \<and> (source ! 3 < 0x80 \<or> 0xBF < source ! 3) then False
      else if 3 \<le> len \<and> (source ! 2 < 0x80 \<or> 0xBF < source ! 2) then False
      else if 2 \<le> len \<and> 0xBF < source ! 1 then False
      else if 2 \<le> len \<and> \<not> isLegalSecondByte (source ! 0) (source ! 1) then False
      else if 0x80 \<le> source ! 0 \<and> source ! 0 < 0xC2 then False
      else source ! 0 \<le> 0xF4)"

definition offsetsFromUTF8 :: "uchar32 list" where
  "offsetsFromUTF8 = [0x00000000, 0x00003080, 0x000E2080, 0x03C82080, 0xFA082080, 0x82082080]"

text \<open>The fall-through switch that adds up the bytes of the sequence.\<close>

fun sumUTF8 :: "byte list \<Rightarrow> uchar32 \<Rightarrow> uchar32" where
  "sumUTF8 [] ch = ch"
| "sumUTF8 [b] ch = ch + ucast b"
| "sumUTF8 (b # b' # bs) ch = sumUTF8 (b' # bs) (push_bit 6 (ch + ucast b))"

text \<open>What one code point adds to the target, or the reason to stop.\<close>

definition putUTF16 :: "bool \<Rightarrow> nat \<Rightarrow> uchar32 \<Rightarrow> ConversionResult + uchar list" where
  "putUTF16 strict room ch =
     (if room = 0 then Inl targetExhausted
      else if ch \<le> 0xFFFF then
        (if 0xD800 \<le> ch \<and> ch \<le> 0xDFFF then
           (if strict then Inl sourceIllegal else Inr [0xFFFD])
         else Inr [ucast ch])
      else if 0x10FFFF < ch then
        (if strict then Inl sourceIllegal else Inr [0xFFFD])
      else if room \<le> 1 then Inl targetExhausted
      else let ch = ch - 0x10000 in
        Inr [ucast (drop_bit 10 ch + 0xD800), ucast ((ch AND 0x3FF) + 0xDC00)])"

function convertUTF8ToUTF16 ::
  "bool \<Rightarrow> byte list \<Rightarrow> nat \<Rightarrow> uchar list \<Rightarrow> ConversionResult \<times> byte list \<times> uchar list" where
  "convertUTF8ToUTF16 strict source room target =
     (if source = [] then (conversionOK, [], target)
      else let extraBytesToRead = UTF8SequenceLength (hd source) - 1 in
        if int (length source) \<le> extraBytesToRead then (sourceExhausted, source, target)
        else if \<not> isLegalUTF8 source (extraBytesToRead + 1) then (sourceIllegal, source, target)
        else
          (let n = nat (extraBytesToRead + 1);
               ch = sumUTF8 (take n source) 0 - offsetsFromUTF8 ! nat extraBytesToRead
           in case putUTF16 strict room ch of
                Inl result \<Rightarrow> (result, source, target)
              | Inr units \<Rightarrow>
                  convertUTF8ToUTF16 strict (drop n source) (room - length units) (target @ units)))"
  by pat_completeness auto
termination
  by (relation "measure (\<lambda>(strict, source, room, target). length source)")
    (auto simp: isLegalUTF8_def split: if_splits)

declare convertUTF8ToUTF16.simps [simp del]

subsection \<open>The specification: one scalar value in each encoding\<close>

text \<open>
  A scalar value is a code point that is not a surrogate. \<open>utf8_of\<close> and \<open>utf16_of\<close> are its
  encodings as numbers; \<open>utf8_bytes\<close> and \<open>utf16_units\<close> are the same as words.
\<close>

definition scalar :: "nat \<Rightarrow> bool" where
  "scalar c \<longleftrightarrow> c < 0x110000 \<and> \<not> (0xD800 \<le> c \<and> c \<le> 0xDFFF)"

definition utf8_of :: "nat \<Rightarrow> nat list" where
  "utf8_of c =
     (if c < 0x80 then [c]
      else if c < 0x800 then [0xC0 + c div 64, 0x80 + c mod 64]
      else if c < 0x10000 then [0xE0 + c div 4096, 0x80 + c div 64 mod 64, 0x80 + c mod 64]
      else [0xF0 + c div 262144, 0x80 + c div 4096 mod 64, 0x80 + c div 64 mod 64, 0x80 + c mod 64])"

definition utf16_of :: "nat \<Rightarrow> nat list" where
  "utf16_of c =
     (if c < 0x10000 then [c]
      else [0xD800 + (c - 0x10000) div 1024, 0xDC00 + (c - 0x10000) mod 1024])"

definition utf8_bytes :: "nat \<Rightarrow> byte list" where
  "utf8_bytes c = map of_nat (utf8_of c)"

definition utf16_units :: "nat \<Rightarrow> uchar list" where
  "utf16_units c = map of_nat (utf16_of c)"

lemma put_tail_word: "((ch :: uchar32) OR 0x80) AND 0xBF = (ch AND 0x3F) + 0x80"
proof -
  have "(ch OR 0x80) AND (0x3F OR 0x80) = (ch AND 0x3F) OR 0x80"
    by (simp only: bit.disj_conj_distrib2)
  then have "(ch OR 0x80) AND 0xBF = (ch AND 0x3F) OR 0x80" by simp
  also have "\<dots> = (ch AND 0x3F) + 0x80"
    by (rule or_disjoint) (simp add: and.assoc)
  finally show ?thesis .
qed

lemma ucast_of_natI:
  "unat (w :: 'a::len word) mod 2 ^ LENGTH('b) = n mod 2 ^ LENGTH('b) \<Longrightarrow> ucast w = (of_nat n :: 'b::len word)"
  by (metis unat_ucast_mod unat_of_nat word_eqI_unat)

lemma put_tail: "ucast (((ch :: uchar32) OR 0x80) AND 0xBF) = (of_nat (0x80 + unat ch mod 64) :: byte)"
  by (rule ucast_of_natI, unfold put_tail_word) (simp add: unat_word_ariths unat_and_63)

lemma or_small:
  fixes m :: "'a::len word"
  assumes "unat m mod 2 ^ n = 0" "unat a < 2 ^ n" "unat a + unat m < 2 ^ LENGTH('a)"
  shows "unat (a OR m) = unat a + unat m"
proof (rule unat_or_disjoint)
  have m: "take_bit n m = 0" using assms(1)
    by (intro word_eqI_unat) (simp add: unat_take_bit)
  have a: "take_bit n a = a" using assms(2)
    by (intro word_eqI_unat) (simp add: unat_take_bit)
  show "a AND m = 0"
    by (metis a m take_bit_and and_zero_eq bit.conj_zero_right take_bit_eq_mask and.assoc and.commute)
  show "unat a + unat m < 2 ^ LENGTH('a)" by fact
qed

lemma put_first1: "ucast ((ch :: uchar32) OR firstByteMark ! 1) = (of_nat (unat ch) :: byte)"
  by (rule ucast_of_natI) (simp add: firstByteMark_def)

lemma put_first:
  "unat (ch :: uchar32) < 0x20 \<Longrightarrow> ucast (ch OR firstByteMark ! 2) = (of_nat (0xC0 + unat ch) :: byte)"
  "unat ch < 0x10 \<Longrightarrow> ucast (ch OR firstByteMark ! 3) = (of_nat (0xE0 + unat ch) :: byte)"
  "unat ch < 0x8 \<Longrightarrow> ucast (ch OR firstByteMark ! 4) = (of_nat (0xF0 + unat ch) :: byte)"
  subgoal using or_small [of "0xC0 :: uchar32" 5 ch]
    by (intro ucast_of_natI) (simp add: firstByteMark_def)
  subgoal using or_small [of "0xE0 :: uchar32" 4 ch]
    by (intro ucast_of_natI) (simp add: firstByteMark_def)
  subgoal using or_small [of "0xF0 :: uchar32" 3 ch]
    by (intro ucast_of_natI) (simp add: firstByteMark_def)
  done

lemma putUTF8_unfold:
  "putUTF8 (Suc 0) b ch [] = [ucast (ch OR firstByteMark ! b)]"
  "putUTF8 2 b ch [] = [ucast (drop_bit 6 ch OR firstByteMark ! b), ucast ((ch OR 0x80) AND 0xBF)]"
  "putUTF8 3 b ch [] = [ucast (drop_bit 12 ch OR firstByteMark ! b),
     ucast ((drop_bit 6 ch OR 0x80) AND 0xBF), ucast ((ch OR 0x80) AND 0xBF)]"
  "putUTF8 4 b ch [] = [ucast (drop_bit 18 ch OR firstByteMark ! b),
     ucast ((drop_bit 12 ch OR 0x80) AND 0xBF),
     ucast ((drop_bit 6 ch OR 0x80) AND 0xBF), ucast ((ch OR 0x80) AND 0xBF)]"
  by (simp_all add: numeral_eq_Suc)

lemma putUTF8_bytes:
  assumes "unat ch < 0x110000" "bytesNeeded ch = (n, ch')"
  shows "ch' = ch \<and> n = length (utf8_of (unat ch)) \<and> putUTF8 n n ch [] = utf8_bytes (unat ch)"
proof -
  have m: "map of_nat xs = ys \<longleftrightarrow> ys = map of_nat xs" for xs and ys :: "byte list" by auto
  consider "unat ch < 0x80" | "0x80 \<le> unat ch" "unat ch < 0x800" | "0x800 \<le> unat ch" "unat ch < 0x10000"
    | "0x10000 \<le> unat ch" by linarith
  then show ?thesis
  proof cases
    case 1
    with assms(2) show ?thesis
      by (auto simp add: bytesNeeded_def word_less_nat_alt utf8_bytes_def utf8_of_def putUTF8_unfold
        put_first1 [unfolded One_nat_def])
  next
    case 2
    with assms(2) show ?thesis
      by (simp add: bytesNeeded_def word_less_nat_alt utf8_bytes_def utf8_of_def putUTF8_unfold put_first
        put_tail unat_drop_bit del: of_nat_add)
  next
    case 3
    with assms(2) show ?thesis
      by (auto simp add: bytesNeeded_def word_less_nat_alt utf8_bytes_def utf8_of_def putUTF8_unfold put_first
        put_tail unat_drop_bit simp del: of_nat_add)
  next
    case 4
    with assms show ?thesis
      by (auto simp add: bytesNeeded_def word_less_nat_alt utf8_bytes_def utf8_of_def putUTF8_unfold put_first
        put_tail unat_drop_bit simp del: of_nat_add)
  qed
qed

subsection \<open>Reading a code point of UTF-16\<close>

lemma pair_value:
  assumes "0xD800 \<le> unat (h :: uchar32)" "unat h \<le> 0xDBFF" "0xDC00 \<le> unat (l :: uchar32)" "unat l \<le> 0xDFFF"
  shows "unat (push_bit 10 (h - 0xD800) + (l - 0xDC00) + 0x10000)
    = (unat h - 0xD800) * 1024 + (unat l - 0xDC00) + 0x10000"
proof -
  have h: "unat (h - 0xD800) = unat h - 0xD800"
    using assms by (subst unat_sub) (simp_all add: word_le_nat_alt)
  have l: "unat (l - 0xDC00) = unat l - 0xDC00"
    using assms by (subst unat_sub) (simp_all add: word_le_nat_alt)
  have p: "unat (push_bit 10 (h - 0xD800)) = (unat h - 0xD800) * 1024"
    using assms by (subst unat_push_bit_small) (simp_all add: h)
  show ?thesis using assms by (simp add: unat_word_ariths p l)
qed

lemma unat_ucast_uchar: "unat (ucast (u :: uchar) :: uchar32) = unat u"
  using unat_less_length [of u] by (simp add: unat_ucast_mod)

lemma pair_units:
  assumes "0xD800 \<le> unat (h :: uchar)" "unat h \<le> 0xDBFF" "0xDC00 \<le> unat (l :: uchar)" "unat l \<le> 0xDFFF"
    and c: "c = (unat h - 0xD800) * 1024 + (unat l - 0xDC00) + 0x10000"
  shows "scalar c \<and> utf16_units c = [h, l]"
proof -
  define x where "x = unat h - 0xD800"
  define y where "y = unat l - 0xDC00"
  have xy: "x < 1024" "y < 1024" "unat h = 0xD800 + x" "unat l = 0xDC00 + y" "c = x * 1024 + y + 0x10000"
    using assms by (auto simp: x_def y_def)
  then have "(c - 0x10000) div 1024 = x" "(c - 0x10000) mod 1024 = y" "0x10000 \<le> c" "c < 0x110000"
    by auto
  then show ?thesis
    using xy by (simp add: scalar_def utf16_units_def utf16_of_def word_unat_eq_iff unat_of_nat del: of_nat_add)
qed

lemma readUTF16_Inr:
  assumes "source \<noteq> []" "readUTF16 True source = Inr (ch, rest)"
  shows "scalar (unat ch) \<and> source = utf16_units (unat ch) @ rest"
proof -
  obtain u us where s: "source = u # us" using assms(1) by (cases source) auto
  show ?thesis
  proof (cases "0xD800 \<le> unat u \<and> unat u \<le> 0xDBFF")
    case True
    with assms(2) obtain l where l: "us = l # rest" "0xDC00 \<le> unat l" "unat l \<le> 0xDFFF"
      and ch: "ch = push_bit 10 (ucast u - 0xD800) + (ucast l - 0xDC00) + 0x10000"
      by (auto simp: readUTF16_def s Let_def word_le_nat_alt unat_ucast_uchar split: list.splits if_splits)
    have "unat ch = (unat u - 0xD800) * 1024 + (unat l - 0xDC00) + 0x10000"
      unfolding ch using True l by (subst pair_value) (auto simp: unat_ucast_uchar)
    with True l show ?thesis using pair_units [of u l "unat ch"] by (simp add: s)
  next
    case False
    with assms(2) have "ch = ucast u" "rest = us" "\<not> (0xD800 \<le> unat u \<and> unat u \<le> 0xDFFF)"
      by (auto simp: readUTF16_def s Let_def word_le_nat_alt unat_ucast_uchar split: list.splits if_splits)
    moreover have "unat u < 0x10000" using unat_less_length [of u] by simp
    ultimately show ?thesis
      by (simp add: s scalar_def unat_ucast_uchar utf16_units_def utf16_of_def)
  qed
qed

lemma utf16_units_cases:
  assumes "scalar c"
  obtains (bmp) u where "utf16_units c = [u]" "unat u = c" "\<not> (0xD800 \<le> unat u \<and> unat u \<le> 0xDFFF)"
  | (pair) h l where "utf16_units c = [h, l]" "0xD800 \<le> unat h" "unat h \<le> 0xDBFF" "0xDC00 \<le> unat l" "unat l \<le> 0xDFFF"
     "c = (unat h - 0xD800) * 1024 + (unat l - 0xDC00) + 0x10000"
proof (cases "c < 0x10000")
  case True
  show ?thesis using assms True
    by (intro bmp [of "of_nat c"]) (auto simp: utf16_units_def utf16_of_def scalar_def unat_of_nat)
next
  case False
  define x where "x = (c - 0x10000) div 1024"
  define y where "y = (c - 0x10000) mod 1024"
  have "y < 1024" "x < 1024" "c = x * 1024 + y + 0x10000"
    using False assms by (auto simp: x_def y_def scalar_def)
  then show ?thesis using False
    by (intro pair [of "of_nat (0xD800 + x)" "of_nat (0xDC00 + y)"])
      (auto simp: utf16_units_def utf16_of_def unat_of_nat simp flip: x_def y_def simp del: of_nat_add)
qed

lemma readUTF16_units:
  assumes "scalar c"
  shows "readUTF16 strict (utf16_units c @ rest) = Inr (of_nat c, rest)"
  using assms
proof (cases rule: utf16_units_cases)
  case (bmp u)
  then show ?thesis
    by (auto simp: readUTF16_def Let_def word_le_nat_alt unat_ucast_uchar word_unat_eq_iff)
next
  case (pair h l)
  have "unat (push_bit 10 (ucast h - 0xD800) + (ucast l - 0xDC00) + 0x10000 :: uchar32) = c"
    unfolding pair(6) using pair by (subst pair_value) (auto simp: unat_ucast_uchar)
  then have "push_bit 10 (ucast h - 0xD800) + (ucast l - 0xDC00) + 0x10000 = (of_nat c :: uchar32)"
    by (metis of_nat_unat ucast_id)
  then show ?thesis using pair
    by (simp add: readUTF16_def Let_def word_le_nat_alt unat_ucast_uchar)
qed

subsection \<open>The converter from UTF-16 stops for the reason it reports\<close>

lemma utf16_units_nonempty [simp]: "utf16_units c \<noteq> []"
  by (simp add: utf16_units_def utf16_of_def)

lemma bytesNeeded_scalar:
  "scalar (unat ch) \<Longrightarrow> bytesNeeded ch = (length (utf8_of (unat ch)), ch)"
  using putUTF8_bytes [of ch] by (cases "bytesNeeded ch") (auto simp: scalar_def)

lemma convertUTF16ToUTF8_step:
  assumes "scalar c"
  shows "convertUTF16ToUTF8 strict (utf16_units c @ rest) room target =
    (if room < length (utf8_bytes c) then (targetExhausted, utf16_units c @ rest, target)
     else convertUTF16ToUTF8 strict rest (room - length (utf8_bytes c)) (target @ utf8_bytes c))"
proof -
  have u: "unat (of_nat c :: uchar32) = c"
    using assms by (simp add: scalar_def unat_of_nat)
  have b: "bytesNeeded (of_nat c) = (length (utf8_of c), of_nat c)"
    using bytesNeeded_scalar [of "of_nat c"] assms by (simp add: u)
  have p: "putUTF8 (length (utf8_of c)) (length (utf8_of c)) (of_nat c) [] = utf8_bytes c"
    using putUTF8_bytes [OF _ b] assms by (simp add: u scalar_def)
  show ?thesis
    by (subst convertUTF16ToUTF8.simps) (simp add: readUTF16_units [OF assms] b p utf8_bytes_def)
qed

definition is_high :: "uchar \<Rightarrow> bool" where
  "is_high u \<longleftrightarrow> 0xD800 \<le> unat u \<and> unat u \<le> 0xDBFF"

definition is_low :: "uchar \<Rightarrow> bool" where
  "is_low u \<longleftrightarrow> 0xDC00 \<le> unat u \<and> unat u \<le> 0xDFFF"

definition stop_reason16 :: "ConversionResult \<Rightarrow> uchar list \<Rightarrow> nat \<Rightarrow> bool" where
  "stop_reason16 r rest room = (case r of
     conversionOK \<Rightarrow> rest = []
   | sourceExhausted \<Rightarrow> (\<exists>h. rest = [h] \<and> is_high h)
   | sourceIllegal \<Rightarrow> (\<exists>u us. rest = u # us \<and> (is_low u \<or> is_high u \<and> us \<noteq> [] \<and> \<not> is_low (hd us)))
   | targetExhausted \<Rightarrow> (\<exists>c us. scalar c \<and> rest = utf16_units c @ us \<and> room < length (utf8_bytes c)))"

lemma readUTF16_Inl:
  assumes "source \<noteq> []" "readUTF16 True source = Inl r"
  shows "stop_reason16 r source room"
proof -
  obtain u us where s: "source = u # us" using assms(1) by (cases source) auto
  with assms(2) show ?thesis
    by (auto simp: readUTF16_def stop_reason16_def is_high_def is_low_def Let_def word_le_nat_alt
        unat_ucast_uchar split: list.splits if_splits)
qed

lemma convertUTF16ToUTF8_strict_gen:
  "case convertUTF16ToUTF8 True source room target of (r, rest, out) \<Rightarrow>
     \<exists>cs. list_all scalar cs \<and> source = concat (map utf16_units cs) @ rest \<and>
       out = target @ concat (map utf8_bytes cs) \<and>
       length (concat (map utf8_bytes cs)) \<le> room \<and>
       stop_reason16 r rest (room - length (concat (map utf8_bytes cs)))"
proof (induction "length source" arbitrary: source room target rule: less_induct)
  case less
  show ?case
  proof (cases "source = []")
    case True
    then show ?thesis by (auto simp: convertUTF16ToUTF8.simps stop_reason16_def)
  next
    case ne: False
    show ?thesis
    proof (cases "readUTF16 True source")
      case (Inl r)
      then show ?thesis using readUTF16_Inl [OF ne Inl] ne
        by (subst convertUTF16ToUTF8.simps) (auto intro: exI [of _ "[]"])
    next
      case (Inr p)
      obtain ch rest where r: "readUTF16 True source = Inr (ch, rest)" using Inr by (cases p) auto
      note s = readUTF16_Inr [OF ne r]
      show ?thesis
      proof (cases "room < length (utf8_bytes (unat ch))")
        case True
        then have "stop_reason16 targetExhausted source room"
          using s unfolding stop_reason16_def by auto
        moreover have "convertUTF16ToUTF8 True source room target = (targetExhausted, source, target)"
          using s True by (auto simp: convertUTF16ToUTF8_step)
        ultimately show ?thesis by (simp add: exI [of _ "[]"])
      next
        case False
        have "length rest < length source" using s by (cases "utf16_units (unat ch)") auto
        from less [OF this, of "target @ utf8_bytes (unat ch)" "room - length (utf8_bytes (unat ch))"]
        show ?thesis using False s
          by (auto simp: convertUTF16ToUTF8_step intro: exI [of _ "unat ch # _"])
      qed
    qed
  qed
qed

subsection \<open>Legal sequences of bytes\<close>

text \<open>
  \<open>legal_bytes\<close> is the table of well-formed byte sequences of the Unicode standard, and
  \<open>bytes_value\<close> the scalar value such a sequence stands for.
\<close>

lemma unat_and_top_bits:
  "unat (b AND 0x80 :: byte) = unat b div 128 * 128"
  "unat (b AND 0xC0 :: byte) = unat b div 64 * 64"
  "unat (b AND 0xE0 :: byte) = unat b div 32 * 32"
  "unat (b AND 0xF0 :: byte) = unat b div 16 * 16"
  "unat (b AND 0xF8 :: byte) = unat b div 8 * 8"
proof -
  have "(0x80 :: byte) = NOT (mask 7)" "(0xC0 :: byte) = NOT (mask 6)" "(0xE0 :: byte) = NOT (mask 5)"
    "(0xF0 :: byte) = NOT (mask 4)" "(0xF8 :: byte) = NOT (mask 3)"
    by (simp_all add: mask_eq_exp_minus_1 word_unat_eq_iff)
  then show "unat (b AND 0x80 :: byte) = unat b div 128 * 128"
    "unat (b AND 0xC0 :: byte) = unat b div 64 * 64"
    "unat (b AND 0xE0 :: byte) = unat b div 32 * 32"
    "unat (b AND 0xF0 :: byte) = unat b div 16 * 16"
    "unat (b AND 0xF8 :: byte) = unat b div 8 * 8"
    by (simp_all only: unat_and_not_mask) simp_all
qed

definition sequence_length :: "nat \<Rightarrow> nat" where
  "sequence_length b =
     (if b < 0x80 then 1 else if b < 0xC0 then 0 else if b < 0xE0 then 2
      else if b < 0xF0 then 3 else if b < 0xF8 then 4 else 0)"

lemma div_mult_eq_iff: "0 < d \<Longrightarrow> (n::nat) div d * d = k * d \<longleftrightarrow> k * d \<le> n \<and> n < Suc k * d"
  by (metis div_nat_eqI le_div_geq less_eq_div_iff_mult_less_eq mult.commute mult_cancel2 not_less_eq_eq
   div_less_iff_less_mult le_antisym less_Suc_eq_le nle_le not_gr_zero times_div_less_eq_dividend)

lemma UTF8SequenceLength_eq: "UTF8SequenceLength b = int (sequence_length (unat b))"
proof -
  have l: "unat b < 256" using unat_less_length [of b] by simp
  have e: "b AND 0x80 = 0 \<longleftrightarrow> unat b < 0x80"
    "b AND 0xC0 = 0xC0 \<longleftrightarrow> 0xC0 \<le> unat b"
    "b AND 0xE0 = 0xC0 \<longleftrightarrow> 0xC0 \<le> unat b \<and> unat b < 0xE0"
    "b AND 0xF0 = 0xE0 \<longleftrightarrow> 0xE0 \<le> unat b \<and> unat b < 0xF0"
    "b AND 0xF8 = 0xF0 \<longleftrightarrow> 0xF0 \<le> unat b \<and> unat b < 0xF8"
    using l div_mult_eq_iff [of 128 "unat b" 0] div_mult_eq_iff [of 64 "unat b" 3] div_mult_eq_iff [of 32 "unat b" 6]
      div_mult_eq_iff [of 16 "unat b" 14] div_mult_eq_iff [of 8 "unat b" 30]
    by (simp_all add: word_unat_eq_iff unat_and_top_bits)
  show ?thesis
    unfolding UTF8SequenceLength_def inlineUTF8SequenceLengthNonASCII_def e sequence_length_def by simp
qed

definition legal_bytes :: "nat list \<Rightarrow> bool" where
  "legal_bytes bs = (case bs of
     [a] \<Rightarrow> a < 0x80
   | [a, b] \<Rightarrow> 0xC2 \<le> a \<and> a < 0xE0 \<and> 0x80 \<le> b \<and> b < 0xC0
   | [a, b, c] \<Rightarrow> 0xE0 \<le> a \<and> a < 0xF0 \<and> (if a = 0xE0 then 0xA0 else 0x80) \<le> b \<and> b < (if a = 0xED then 0xA0 else 0xC0)
        \<and> 0x80 \<le> c \<and> c < 0xC0
   | [a, b, c, d] \<Rightarrow> 0xF0 \<le> a \<and> a < 0xF5 \<and> (if a = 0xF0 then 0x90 else 0x80) \<le> b \<and> b < (if a = 0xF4 then 0x90 else 0xC0)
        \<and> 0x80 \<le> c \<and> c < 0xC0 \<and> 0x80 \<le> d \<and> d < 0xC0
   | _ \<Rightarrow> False)"

lemma three_byte_digits:
  assumes "(c::nat) < 0x10000"
  shows "c div 4096 < 16" "0x800 \<le> c \<Longrightarrow> c div 4096 = 0 \<Longrightarrow> 32 \<le> c div 64 mod 64"
    "c < 0xD800 \<or> 0xDFFF < c \<Longrightarrow> c div 4096 = 13 \<Longrightarrow> c div 64 mod 64 < 32"
proof -
  show "c div 4096 < 16" using assms by auto
  show "0x800 \<le> c \<Longrightarrow> c div 4096 = 0 \<Longrightarrow> 32 \<le> c div 64 mod 64" by auto
  assume c: "c < 0xD800 \<or> 0xDFFF < c" "c div 4096 = 13"
  then have "c div 64 div 64 = 13" by (simp add: div_mult2_eq)
  then have "c div 64 = 832 + c div 64 mod 64"
    using div_mult_mod_eq [of "c div 64" 64] by simp
  moreover have "c div 64 < 864" using c by auto
  ultimately show "c div 64 mod 64 < 32" by linarith
qed

lemma four_byte_digits:
  assumes "(c::nat) < 0x110000" "0x10000 \<le> c"
  shows "c div 262144 < 5" "c div 262144 = 0 \<Longrightarrow> 16 \<le> c div 4096 mod 64"
    "c div 262144 = 4 \<Longrightarrow> c div 4096 mod 64 < 16"
proof -
  show "c div 262144 < 5" using assms by auto
  show "c div 262144 = 0 \<Longrightarrow> 16 \<le> c div 4096 mod 64" using assms by auto
  assume c: "c div 262144 = 4"
  then have "c div 4096 div 64 = 4" by (simp add: div_mult2_eq)
  then have "c div 4096 = 256 + c div 4096 mod 64"
    using div_mult_mod_eq [of "c div 4096" 64] by simp
  moreover have "c div 4096 < 272" using assms by auto
  ultimately show "c div 4096 mod 64 < 16" by linarith
qed

lemma scalar_bytes_legal: "scalar c \<Longrightarrow> legal_bytes (utf8_of c)"
proof -
  assume s: "scalar c"
  consider "c < 0x80" | "0x80 \<le> c" "c < 0x800" | "0x800 \<le> c" "c < 0x10000" | "0x10000 \<le> c" by linarith
  then show ?thesis
  proof cases
    case 2
    then have "2 \<le> c div 64" "c div 64 < 32" by auto
    then show ?thesis using 2 by (simp add: utf8_of_def legal_bytes_def)
  next
    case 3
    then show ?thesis using three_byte_digits [of c] s
      by (auto simp: utf8_of_def legal_bytes_def scalar_def)
  next
    case 4
    then show ?thesis using four_byte_digits [of c] s
      by (auto simp: utf8_of_def legal_bytes_def scalar_def)
  qed (simp add: utf8_of_def legal_bytes_def)
qed

definition bytes_value :: "nat list \<Rightarrow> nat" where
  "bytes_value bs = (case bs of
     [a] \<Rightarrow> a
   | [a, b] \<Rightarrow> a * 64 + b - 0x3080
   | [a, b, c] \<Rightarrow> a * 4096 + b * 64 + c - 0xE2080
   | [a, b, c, d] \<Rightarrow> a * 262144 + b * 4096 + c * 64 + d - 0x3C82080
   | _ \<Rightarrow> 0)"

lemma legal_bytes_cases:
  assumes "legal_bytes bs"
  obtains (one) a where "bs = [a]" "a < 0x80"
  | (two) x y where "bs = [0xC0 + x, 0x80 + y]" "2 \<le> x" "x < 0x20" "y < 64"
  | (three) x y z where "bs = [0xE0 + x, 0x80 + y, 0x80 + z]" "x < 16" "y < 64" "z < 64" "x = 0 \<Longrightarrow> 32 \<le> y" "x = 13 \<Longrightarrow> y < 32"
  | (four) x y z w where "bs = [0xF0 + x, 0x80 + y, 0x80 + z, 0x80 + w]" "x < 5" "y < 64" "z < 64" "w < 64"
      "x = 0 \<Longrightarrow> 16 \<le> y" "x = 4 \<Longrightarrow> y < 16"
proof -
  consider a where "bs = [a]" "a < 0x80"
    | a b where "bs = [a, b]" "0xC2 \<le> a" "a < 0xE0" "0x80 \<le> b" "b < 0xC0"
    | a b c where "bs = [a, b, c]" "0xE0 \<le> a" "a < 0xF0" "(if a = 0xE0 then 0xA0 else 0x80) \<le> b" "b < (if a = 0xED then 0xA0 else 0xC0)"
        "0x80 \<le> c" "c < 0xC0"
    | a b c d where "bs = [a, b, c, d]" "0xF0 \<le> a" "a < 0xF5" "(if a = 0xF0 then 0x90 else 0x80) \<le> b" "b < (if a = 0xF4 then 0x90 else 0xC0)"
        "0x80 \<le> c" "c < 0xC0" "0x80 \<le> d" "d < 0xC0"
    using assms unfolding legal_bytes_def by (auto split: list.splits)
  then show thesis
  proof cases
    case (1 a) then show ?thesis by (rule one)
  next
    case (2 a b) then show ?thesis by (intro two [of "a - 0xC0" "b - 0x80"]) auto
  next
    case (3 a b c) then show ?thesis
      by (intro three [of "a - 0xE0" "b - 0x80" "c - 0x80"]) (auto split: if_splits)
  next
    case (4 a b c d) then show ?thesis
      by (intro four [of "a - 0xF0" "b - 0x80" "c - 0x80" "d - 0x80"]) (auto split: if_splits)
  qed
qed

lemma digits_div: "y < d \<Longrightarrow> (x * d + y) div d = (x::nat)" by simp

lemma digits_mod: "y < d \<Longrightarrow> (x * d + y) mod d = (y::nat)" by simp

lemma legal_bytes_value:
  assumes "legal_bytes bs"
  shows "scalar (bytes_value bs) \<and> utf8_of (bytes_value bs) = bs"
  using assms
proof (cases rule: legal_bytes_cases)
  case (one a)
  then show ?thesis by (simp add: bytes_value_def scalar_def utf8_of_def)
next
  case (two x y)
  have v: "bytes_value bs = x * 64 + y" using two by (simp add: bytes_value_def algebra_simps)
  show ?thesis unfolding v scalar_def utf8_of_def using two by simp
next
  case (three x y z)
  have v: "bytes_value bs = x * 4096 + y * 64 + z" using three by (simp add: bytes_value_def)
  have e: "x * 4096 + y * 64 + z = (x * 64 + y) * 64 + z" by simp
  have "(x * 4096 + y * 64 + z) div 4096 = x" using three by auto
  moreover have "(x * 4096 + y * 64 + z) div 64 mod 64 = y" "(x * 4096 + y * 64 + z) mod 64 = z"
    unfolding e using three digits_div [of z 64 "x * 64 + y"] digits_mod [of z 64 "x * 64 + y"] by simp_all
  moreover have "0x800 \<le> x * 4096 + y * 64 + z" using three by (cases "x = 0") auto
  moreover have "x * 4096 + y * 64 + z < 0x10000" using three by auto
  moreover have "\<not> (0xD800 \<le> x * 4096 + y * 64 + z \<and> x * 4096 + y * 64 + z \<le> 0xDFFF)"
    using three by (cases "x = 13"; cases "x < 13") auto
  ultimately show ?thesis unfolding v scalar_def utf8_of_def using three by auto
next
  case (four x y z w)
  have v: "bytes_value bs = x * 262144 + y * 4096 + z * 64 + w" using four by (simp add: bytes_value_def)
  have e: "x * 262144 + y * 4096 + z * 64 + w = ((x * 64 + y) * 64 + z) * 64 + w"
    and e': "x * 262144 + y * 4096 + z * 64 + w = (x * 64 + y) * 4096 + (z * 64 + w)" by simp_all
  have "(x * 262144 + y * 4096 + z * 64 + w) div 262144 = x" using four by auto
  moreover have "(x * 262144 + y * 4096 + z * 64 + w) div 4096 mod 64 = y"
    unfolding e' using four digits_div [of "z * 64 + w" 4096 "x * 64 + y"] digits_mod [of y 64 x] by simp
  moreover have "(x * 262144 + y * 4096 + z * 64 + w) div 64 mod 64 = z"
    "(x * 262144 + y * 4096 + z * 64 + w) mod 64 = w"
    unfolding e using four digits_div [of w 64 "(x * 64 + y) * 64 + z"] digits_mod [of w 64 "(x * 64 + y) * 64 + z"]
      digits_mod [of z 64 "x * 64 + y"] by simp_all
  moreover have "0x10000 \<le> x * 262144 + y * 4096 + z * 64 + w" using four by (cases "x = 0") auto
  moreover have "x * 262144 + y * 4096 + z * 64 + w < 0x110000" using four by (cases "x = 4") auto
  ultimately show ?thesis unfolding v scalar_def utf8_of_def using four by auto
qed

lemma take_prefixes: 
  "Suc 0 \<le> length s \<Longrightarrow> take (Suc 0) s = [s ! 0]"
  "2 \<le> length s \<Longrightarrow> take 2 s = [s ! 0, s ! 1]"
  "3 \<le> length s \<Longrightarrow> take 3 s = [s ! 0, s ! 1, s ! 2]"
  "4 \<le> length s \<Longrightarrow> take 4 s = [s ! 0, s ! 1, s ! 2, s ! 3]"
  by (auto simp: Suc_le_length_iff numeral_eq_Suc)

definition unchecked_bytes :: "nat list \<Rightarrow> bool" where
  "unchecked_bytes bs = (case bs of
     [a, b, c] \<Rightarrow> a = 0xED \<and> b < 0x80 \<and> 0x80 \<le> c \<and> c < 0xC0
   | [a, b, c, d] \<Rightarrow> a = 0xF4 \<and> b < 0x80 \<and> 0x80 \<le> c \<and> c < 0xC0 \<and> 0x80 \<le> d \<and> d < 0xC0
   | _ \<Rightarrow> False)"

lemma isLegalUTF8_iff:
  assumes "source \<noteq> []" "sequence_length (unat (hd source)) \<le> length source"
  shows "isLegalUTF8 source (UTF8SequenceLength (hd source)) \<longleftrightarrow>
    legal_bytes (map unat (take (sequence_length (unat (hd source))) source)) \<or>
    unchecked_bytes (map unat (take (sequence_length (unat (hd source))) source))"
proof -
  have h: "hd source = source ! 0" using assms(1) by (simp add: hd_conv_nth)
  have l: "unat (source ! 0) < 256" "unat (source ! 1) < 256" using unat_less_length [of "source ! 0"] unat_less_length [of "source ! 1"] by simp_all
  consider "unat (source ! 0) < 0x80" | "0x80 \<le> unat (source ! 0)" "unat (source ! 0) < 0xC0"
    | "0xC0 \<le> unat (source ! 0)" "unat (source ! 0) < 0xE0"
    | "0xE0 \<le> unat (source ! 0)" "unat (source ! 0) < 0xF0"
    | "0xF0 \<le> unat (source ! 0)" "unat (source ! 0) < 0xF8" | "0xF8 \<le> unat (source ! 0)" by linarith
  then show ?thesis
  proof cases
    case 1
    then show ?thesis using assms unfolding UTF8SequenceLength_eq h sequence_length_def
      by (cases source) (simp_all add: take_prefixes isLegalUTF8_def legal_bytes_def unchecked_bytes_def word_less_nat_alt word_le_nat_alt word_unat_eq_iff)
  next
    case 2
    then show ?thesis using assms unfolding UTF8SequenceLength_eq h sequence_length_def
      by (simp add: take_prefixes isLegalUTF8_def legal_bytes_def unchecked_bytes_def)
  next
    case 3
    then have "2 \<le> length source" using assms(2) unfolding h sequence_length_def by simp
    with 3 show ?thesis unfolding UTF8SequenceLength_eq h sequence_length_def
      by (auto simp add: take_prefixes isLegalUTF8_def legal_bytes_def unchecked_bytes_def isLegalSecondByte_def word_less_nat_alt word_le_nat_alt word_unat_eq_iff)
  next
    case 4
    then have "3 \<le> length source" using assms(2) unfolding h sequence_length_def by simp
    with 4 show ?thesis unfolding UTF8SequenceLength_eq h sequence_length_def
      by (auto simp add: take_prefixes isLegalUTF8_def legal_bytes_def unchecked_bytes_def isLegalSecondByte_def word_less_nat_alt word_le_nat_alt word_unat_eq_iff)
  next
    case 5
    then have "4 \<le> length source" using assms(2) unfolding h sequence_length_def by simp
    with 5 show ?thesis unfolding UTF8SequenceLength_eq h sequence_length_def
      by (auto simp add: take_prefixes isLegalUTF8_def legal_bytes_def unchecked_bytes_def isLegalSecondByte_def word_less_nat_alt word_le_nat_alt word_unat_eq_iff)
  next
    case 6
    then show ?thesis using assms unfolding UTF8SequenceLength_eq h sequence_length_def
      by (simp add: take_prefixes isLegalUTF8_def legal_bytes_def unchecked_bytes_def)
  qed
qed

lemma sequence_length_utf8_of:
  "scalar c \<Longrightarrow> sequence_length (hd (utf8_of c)) = length (utf8_of c)"
  using scalar_bytes_legal [of c]
  by (auto simp: sequence_length_def legal_bytes_def utf8_of_def split: if_splits)

lemma utf8_of_byte: "scalar c \<Longrightarrow> list_all (\<lambda>b. b < 256) (utf8_of c)"
  using scalar_bytes_legal [of c] by (auto simp: legal_bytes_def split: list.splits if_splits)

lemma map_unat_utf8_bytes: "scalar c \<Longrightarrow> map unat (utf8_bytes c) = utf8_of c"
  using utf8_of_byte [of c] unfolding utf8_bytes_def list_all_iff
  by (auto simp: unat_of_nat intro: map_idI)

lemma utf8_bytes_nonempty [simp]: "utf8_bytes c \<noteq> []"
  by (simp add: utf8_bytes_def utf8_of_def)

lemma sumUTF8_value:
  assumes "legal_bytes (map unat bs) \<or> unchecked_bytes (map unat bs)"
  shows "sumUTF8 bs 0 - offsetsFromUTF8 ! (length bs - 1) = of_nat (bytes_value (map unat bs))"
proof -
  have u: "ucast b = (of_nat (unat b) :: uchar32)" for b :: byte by simp
  consider a where "bs = [a]" | a b where "bs = [a, b]" "0xC2 \<le> unat a" "0x80 \<le> unat b"
    | a b c where "bs = [a, b, c]" "0xE0 \<le> unat a" "unat a = 0xE0 \<Longrightarrow> 0xA0 \<le> unat b" "0x80 \<le> unat c" "unat b < 0x80 \<Longrightarrow> unat a = 0xED"
    | a b c d where "bs = [a, b, c, d]" "0xF0 \<le> unat a" "unat a = 0xF0 \<Longrightarrow> 0x90 \<le> unat b" "0x80 \<le> unat c" "0x80 \<le> unat d" "unat b < 0x80 \<Longrightarrow> unat a = 0xF4"
    using assms by (auto simp: legal_bytes_def unchecked_bytes_def split: list.splits if_splits)
  then show ?thesis
  proof cases
    case (1 a)
    then show ?thesis by (simp add: offsetsFromUTF8_def bytes_value_def)
  next
    case (2 a b)
    then show ?thesis
      by (simp add: offsetsFromUTF8_def bytes_value_def push_bit_eq_mult of_nat_diff algebra_simps)
  next
    case (3 a b c)
    have "0xE2080 \<le> unat a * 4096 + unat b * 64 + unat c"
      using 3 by (cases "unat b < 0x80"; cases "unat a = 0xE0") auto
    then show ?thesis using 3
      by (simp add: offsetsFromUTF8_def bytes_value_def push_bit_eq_mult of_nat_diff algebra_simps)
  next
    case (4 a b c d)
    have "0x3C82080 \<le> unat a * 262144 + unat b * 4096 + unat c * 64 + unat d"
      using 4 by (cases "unat b < 0x80"; cases "unat a = 0xF0") auto
    then show ?thesis using 4
      by (simp add: offsetsFromUTF8_def bytes_value_def push_bit_eq_mult of_nat_diff algebra_simps)
  qed
qed

lemma unchecked_value: "unchecked_bytes bs \<Longrightarrow> scalar (bytes_value bs)"
  by (auto simp: unchecked_bytes_def scalar_def bytes_value_def split: list.splits if_splits)

lemma putUTF16_scalar:
  assumes "scalar c"
  shows "putUTF16 strict room (of_nat c) =
    (if room < length (utf16_units c) then Inl targetExhausted else Inr (utf16_units c))"
proof -
  have u: "unat (of_nat c :: uchar32) = c" using assms by (simp add: scalar_def unat_of_nat)
  show ?thesis
  proof (cases "c < 0x10000")
    case True
    have "ucast (of_nat c :: uchar32) = (of_nat c :: uchar)" by (rule ucast_of_natI) (simp add: u)
    then show ?thesis using assms True
      by (auto simp: putUTF16_def utf16_units_def utf16_of_def word_le_nat_alt word_less_nat_alt u scalar_def)
  next
    case False
    have d: "unat (of_nat c - 0x10000 :: uchar32) = c - 0x10000"
      using False by (subst unat_sub) (simp_all add: word_le_nat_alt u)
    have hi: "(c - 0x10000) div 1024 < 1024" using assms by (auto simp: scalar_def)
    have lo: "(c - 0x10000) mod 1024 < 1024" by simp
    have "unat (drop_bit 10 (of_nat c - 0x10000 :: uchar32) + 0xD800) = 0xD800 + (c - 0x10000) div 1024"
      using hi by (simp add: unat_word_ariths unat_drop_bit d)
    moreover have "unat (((of_nat c - 0x10000 :: uchar32) AND 0x3FF) + 0xDC00) = 0xDC00 + (c - 0x10000) mod 1024"
      using lo by (simp add: unat_word_ariths unat_and_1023 d)
    ultimately have "ucast (drop_bit 10 (of_nat c - 0x10000 :: uchar32) + 0xD800) = (of_nat (0xD800 + (c - 0x10000) div 1024) :: uchar)"
      "ucast (((of_nat c - 0x10000 :: uchar32) AND 0x3FF) + 0xDC00) = (of_nat (0xDC00 + (c - 0x10000) mod 1024) :: uchar)"
      by (intro ucast_of_natI, simp)+
    moreover have "\<not> 0x10FFFF < (of_nat c :: uchar32)" using assms by (simp add: word_less_nat_alt u scalar_def)
    moreover have "\<not> (of_nat c :: uchar32) \<le> 0xFFFF" using False by (simp add: word_le_nat_alt u)
    ultimately show ?thesis using False
      by (simp add: putUTF16_def utf16_units_def utf16_of_def Let_def)
  qed
qed

subsection \<open>The converter from UTF-8 stops for the reason it reports\<close>

text \<open>
  \<open>decodes bs c\<close>: the converter takes the bytes \<open>bs\<close> for the scalar value \<open>c\<close>. That holds of
  every well-formed sequence and, because isLegalUTF8 has no lower bound for the second
  byte after 0xED and 0xF4, of the sequences of \<open>unchecked_bytes\<close>.
\<close>

definition decodes :: "byte list \<Rightarrow> nat \<Rightarrow> bool" where
  "decodes bs c \<longleftrightarrow> (legal_bytes (map unat bs) \<or> unchecked_bytes (map unat bs)) \<and> c = bytes_value (map unat bs)"

lemma decodes_scalar: "decodes bs c \<Longrightarrow> scalar c"
  by (auto simp: decodes_def dest: legal_bytes_value unchecked_value)

lemma decodes_length: "decodes bs c \<Longrightarrow> bs \<noteq> [] \<and> sequence_length (unat (hd bs)) = length bs"
  by (auto simp: decodes_def legal_bytes_def unchecked_bytes_def sequence_length_def split: list.splits if_splits)

lemma bytes_value_utf8_of: "scalar c \<Longrightarrow> bytes_value (utf8_of c) = c"
proof -
  have a: "c div 64 * 64 + c mod 64 = c" "c div 4096 * 64 + c div 64 mod 64 = c div 64"
    "c div 262144 * 64 + c div 4096 mod 64 = c div 4096"
    using div_mult_mod_eq [of c 64] div_mult_mod_eq [of "c div 64" 64] div_mult_mod_eq [of "c div 4096" 64]
    by (simp_all add: div_mult2_eq [symmetric])
  show ?thesis unfolding utf8_of_def bytes_value_def by (simp, intro conjI impI; insert a, linarith)
qed

lemma decodes_utf8_bytes: "scalar c \<Longrightarrow> decodes (utf8_bytes c) c"
  by (simp add: decodes_def map_unat_utf8_bytes scalar_bytes_legal bytes_value_utf8_of)

definition stop_reason8 :: "ConversionResult \<Rightarrow> byte list \<Rightarrow> nat \<Rightarrow> bool" where
  "stop_reason8 r rest room = (case r of
     conversionOK \<Rightarrow> rest = []
   | sourceExhausted \<Rightarrow> rest \<noteq> [] \<and> length rest < sequence_length (unat (hd rest))
   | sourceIllegal \<Rightarrow> rest \<noteq> [] \<and> \<not> (\<exists>bs bs' c. decodes bs c \<and> rest = bs @ bs')
   | targetExhausted \<Rightarrow> (\<exists>bs bs' c. decodes bs c \<and> rest = bs @ bs' \<and> room < length (utf16_units c)))"

lemma decodes_prefix:
  assumes "decodes bs c" "source = bs @ rest"
  shows "take (sequence_length (unat (hd source))) source = bs \<and> drop (sequence_length (unat (hd source))) source = rest"
  using assms decodes_length [OF assms(1)] by simp

lemma convertUTF8ToUTF16_step:
  assumes d: "decodes bs c"
  shows "convertUTF8ToUTF16 strict (bs @ rest) room target =
    (if room < length (utf16_units c) then (targetExhausted, bs @ rest, target)
     else convertUTF8ToUTF16 strict rest (room - length (utf16_units c)) (target @ utf16_units c))"
proof -
  note l = decodes_length [OF d]
  have h: "hd (bs @ rest) = hd bs" using l by simp
  have leg: "isLegalUTF8 (bs @ rest) (UTF8SequenceLength (hd bs))"
    using isLegalUTF8_iff [of "bs @ rest"] l d by (simp add: decodes_def)
  have pos: "0 < length bs" using l by simp
  have "sumUTF8 bs 0 - offsetsFromUTF8 ! (length bs - 1) = of_nat c"
    using sumUTF8_value [of bs] d by (simp add: decodes_def)
  moreover have "nat (int (length bs) - 1) = length bs - 1" by simp
  ultimately show ?thesis using l leg
    by (subst convertUTF8ToUTF16.simps)
      (simp add: UTF8SequenceLength_eq putUTF16_scalar [OF decodes_scalar [OF d]] Let_def)
qed

lemma convertUTF8ToUTF16_gen:
  "case convertUTF8ToUTF16 strict source room target of (r, rest, out) \<Rightarrow>
     \<exists>ps. list_all (\<lambda>(bs, c). decodes bs c) ps \<and> source = concat (map fst ps) @ rest \<and>
       out = target @ concat (map (utf16_units \<circ> snd) ps) \<and>
       length (concat (map (utf16_units \<circ> snd) ps)) \<le> room \<and>
       stop_reason8 r rest (room - length (concat (map (utf16_units \<circ> snd) ps)))"
proof (induction "length source" arbitrary: source room target rule: less_induct)
  case less
  let ?n = "sequence_length (unat (hd source))"
  consider "source = []" | "source \<noteq> []" "length source < ?n"
    | "source \<noteq> []" "?n \<le> length source" "\<nexists>c. decodes (take ?n source) c"
    | c where "source \<noteq> []" "?n \<le> length source" "decodes (take ?n source) c"
    by (meson linorder_not_less)
  then show ?case
  proof cases
    case 1
    then show ?thesis by (simp add: convertUTF8ToUTF16.simps stop_reason8_def exI [of _ "[]"])
  next
    case 2
    then have "convertUTF8ToUTF16 strict source room target = (sourceExhausted, source, target)"
      by (subst convertUTF8ToUTF16.simps) (simp add: UTF8SequenceLength_eq)
    then show ?thesis using 2 by (auto simp: stop_reason8_def intro!: exI [of _ "[]"])
  next
    case 3
    have il: "\<not> isLegalUTF8 source (UTF8SequenceLength (hd source))"
      unfolding isLegalUTF8_iff [OF 3(1,2)] using 3(3) by (simp add: decodes_def)
    then have "convertUTF8ToUTF16 strict source room target = (sourceIllegal, source, target)"
      using 3(1,2) by (subst convertUTF8ToUTF16.simps) (simp add: UTF8SequenceLength_eq)
    moreover have "\<not> (decodes bs c \<and> source = bs @ bs')" for bs bs' c
      using 3(3) decodes_prefix [of bs c source bs'] by auto
    then have "stop_reason8 sourceIllegal source room"
      using 3(1) unfolding stop_reason8_def by auto
    ultimately show ?thesis by (simp add: exI [of _ "[]"])
  next
    case (4 c)
    define bs where "bs = take ?n source"
    define rest where "rest = drop ?n source"
    have s: "source = bs @ rest" by (simp add: bs_def rest_def)
    have d: "decodes bs c" using 4 by (simp add: bs_def)
    show ?thesis
    proof (cases "room < length (utf16_units c)")
      case True
      then have "stop_reason8 targetExhausted source room"
        using d unfolding stop_reason8_def s by auto
      moreover have "convertUTF8ToUTF16 strict source room target = (targetExhausted, source, target)"
        using True by (simp add: s convertUTF8ToUTF16_step [OF d])
      ultimately show ?thesis by (simp add: exI [of _ "[]"])
    next
      case False
      have "length rest < length source" using decodes_length [OF d] by (auto simp: s)
      from less [OF this, of "target @ utf16_units c" "room - length (utf16_units c)"]
      obtain r rest' out ps where p: "convertUTF8ToUTF16 strict rest (room - length (utf16_units c)) (target @ utf16_units c) = (r, rest', out)"
        "list_all (\<lambda>(bs, c). decodes bs c) ps" "rest = concat (map fst ps) @ rest'"
        "out = (target @ utf16_units c) @ concat (map (utf16_units \<circ> snd) ps)"
        "length (concat (map (utf16_units \<circ> snd) ps)) \<le> room - length (utf16_units c)"
        "stop_reason8 r rest' (room - length (utf16_units c) - length (concat (map (utf16_units \<circ> snd) ps)))"
        by (auto split: prod.splits)
      then have "convertUTF8ToUTF16 strict source room target = (r, rest', out)"
        using False by (simp add: s convertUTF8ToUTF16_step [OF d])
      then show ?thesis using p(2-) d False
        by (simp add: s exI [of _ "(bs, c) # ps"])
    qed
  qed
qed

lemma convertUTF8ToUTF16_encoded:
  assumes "list_all scalar cs" "length (concat (map utf16_units cs)) \<le> room"
  shows "convertUTF8ToUTF16 strict (concat (map utf8_bytes cs)) room target =
    (conversionOK, [], target @ concat (map utf16_units cs))"
  using assms
proof (induction cs arbitrary: room target)
  case (Cons c cs)
  then show ?case by (simp add: convertUTF8ToUTF16_step [OF decodes_utf8_bytes])
qed (simp add: convertUTF8ToUTF16.simps)

text \<open>
  the strict flag of convertUTF8ToUTF16 has no effect: isLegalUTF8 already
  rejects every surrogate and every value above U+10FFFF, so the replacement branches are
  never taken.
\<close>

theorem convertUTF8ToUTF16_strict_eq:
  "convertUTF8ToUTF16 True source room target = convertUTF8ToUTF16 False source room target"
proof (induction "length source" arbitrary: source room target rule: less_induct)
  case less
  let ?n = "sequence_length (unat (hd source))"
  show ?case
  proof (cases "source \<noteq> [] \<and> ?n \<le> length source \<and> (\<exists>c. decodes (take ?n source) c)")
    case True
    then obtain c bs rest where d: "decodes bs c" and s: "source = bs @ rest" by (metis append_take_drop_id)
    then have "length rest < length source" using decodes_length [OF d] by auto
    then show ?thesis using less by (simp add: s convertUTF8ToUTF16_step [OF d])
  next
    case False
    then have "source = [] \<or> length source < ?n \<or> \<not> isLegalUTF8 source (UTF8SequenceLength (hd source))"
      using isLegalUTF8_iff [of source] by (auto simp: decodes_def)
    then show ?thesis
      by (elim disjE) (simp_all add: convertUTF8ToUTF16.simps UTF8SequenceLength_eq Let_def)
  qed
qed

subsection \<open>The decoder of one sequence\<close>

lemma rd_simps [simp]: "rd (x # xs) 0 = Some x" "rd (x # xs) (Suc n) = rd xs n" "rd [] n = None"
    "rd (x # xs) (numeral k) = rd xs (pred_numeral k)"
  by (simp_all add: rd_def)

lemma continuation_iff: "(b :: byte) AND 0xC0 = 0x80 \<longleftrightarrow> 0x80 \<le> unat b \<and> unat b < 0xC0"
  using unat_less_length [of b] div_mult_eq_iff [of 64 "unat b" 2]
  by (simp add: word_unat_eq_iff unat_and_top_bits)

lemma or_small':
  fixes m :: "'a::len word"
  shows "unat m mod 2 ^ n = 0 \<Longrightarrow> unat a < 2 ^ n \<Longrightarrow> unat a + unat m < 2 ^ LENGTH('a) \<Longrightarrow>
    unat (m OR a) = unat m + unat a"
  using or_small [of m n a] by (simp add: or.commute)

lemma field_unat:
  "unat (ucast a AND 0x1F :: u32) = unat (a :: byte) mod 32" "unat (ucast a AND 0xF :: u32) = unat a mod 16"
  "unat (ucast a AND 7 :: u32) = unat a mod 8" "unat (ucast a AND 0x3F :: u32) = unat a mod 64"
  using unat_less_length [of a] by (simp_all add: word_value)

lemma or_fields2:
  "unat (push_bit 6 (ucast a AND 0x1F) OR (ucast b AND 0x3F) :: u32) =
    unat (a :: byte) mod 32 * 64 + unat (b :: byte) mod 64"
proof -
  have "unat (push_bit 6 (ucast a AND 0x1F) :: u32) = unat a mod 32 * 64"
    by (subst unat_push_bit_small) (simp_all add: field_unat)
  then show ?thesis by (subst or_small' [of _ 6]) (simp_all add: field_unat del: push_bit_and)
qed

lemma or_fields_low:
  "unat (push_bit 6 (ucast b AND 0x3F) OR (ucast c AND 0x3F) :: u32) = unat (b :: byte) mod 64 * 64 + unat (c :: byte) mod 64"
proof -
  have "unat (push_bit 6 (ucast b AND 0x3F) :: u32) = unat b mod 64 * 64"
    by (subst unat_push_bit_small) (simp_all add: field_unat)
  then show ?thesis by (subst or_small' [of _ 6]) (simp_all add: field_unat)
qed

lemma low_bound: "(n::nat) mod 64 * 64 + m mod 64 < 4096"
proof -
  have "n mod 64 < 64" "m mod 64 < 64" by simp_all
  then show ?thesis by linarith
qed

lemma or_fields3:
  "unat (push_bit 12 (ucast a AND 0xF) OR push_bit 6 (ucast b AND 0x3F) OR (ucast c AND 0x3F) :: u32) =
    unat (a :: byte) mod 16 * 4096 + unat (b :: byte) mod 64 * 64 + unat (c :: byte) mod 64"
proof -
  have "unat (push_bit 12 (ucast a AND 0xF) :: u32) = unat a mod 16 * 4096"
    by (subst unat_push_bit_small) (simp_all add: field_unat)
  moreover have "unat a mod 16 < 16" by simp
  ultimately show ?thesis using low_bound [of "unat b" "unat c"]
    by (subst or_small' [of _ 12]) (simp_all add: or_fields_low del: push_bit_and)
qed

lemma or_fields4:
  "unat (push_bit 18 (ucast a AND 7) OR push_bit 12 (ucast b AND 0x3F) OR push_bit 6 (ucast c AND 0x3F)
      OR (ucast d AND 0x3F) :: u32) =
    unat (a :: byte) mod 8 * 262144 + unat (b :: byte) mod 64 * 4096 + unat (c :: byte) mod 64 * 64 + unat (d :: byte) mod 64"
proof -
  have 1: "unat (push_bit 18 (ucast a AND 7) :: u32) = unat a mod 8 * 262144"
    "unat (push_bit 12 (ucast b AND 0x3F) :: u32) = unat b mod 64 * 4096"
    by (subst unat_push_bit_small; simp add: field_unat)+
  have l: "unat b mod 64 < 64" "unat a mod 8 < 8" by simp_all
  have 2: "unat (push_bit 12 (ucast b AND 0x3F) OR push_bit 6 (ucast c AND 0x3F) OR (ucast d AND 0x3F) :: u32) =
      unat b mod 64 * 4096 + (unat c mod 64 * 64 + unat d mod 64)"
    using low_bound [of "unat c" "unat d"] l
    by (subst or_small' [of _ 12]) (simp_all add: 1 or_fields_low del: push_bit_and)
  show ?thesis using low_bound [of "unat c" "unat d"] l
    by (subst or_small' [of _ 18]) (simp_all add: 1 2 del: push_bit_and)
qed

lemmas or_fields_uint =
  or_fields2 [THEN arg_cong [of _ _ int], folded uint_nat]
  or_fields3 [THEN arg_cong [of _ _ int], folded uint_nat]
  or_fields4 [THEN arg_cong [of _ _ int], folded uint_nat]

lemmas decode_steps = decodeUTF8Sequence_def UTF8SequenceLength_eq continuation_iff Let_def
  word_less_nat_alt word_le_nat_alt or_fields2 or_fields3 or_fields4 or_fields_uint bytes_value_def

lemma decode1:
  "unat b0 < 0x80 \<Longrightarrow> decodeUTF8Sequence (b0 # b1 # t) = Some (if b1 = 0 then uint b0 else -1)"
  by (simp add: decodeUTF8Sequence_def decode_steps sequence_length_def)

lemma decode_bad: "sequence_length (unat b0) = 0 \<Longrightarrow> decodeUTF8Sequence (b0 # t) = Some (-1)"
  by (simp add: decodeUTF8Sequence_def UTF8SequenceLength_eq)

lemma decode2:
  assumes "sequence_length (unat b0) = 2"
  shows "decodeUTF8Sequence (b0 # b1 # b2 # t) =
    Some (if 0x80 \<le> unat b1 \<and> unat b1 < 0xC0 \<and> b2 = 0 \<and> 0xC2 \<le> unat b0 then int (bytes_value [unat b0, unat b1]) else -1)"
proof (cases "0x80 \<le> unat b1 \<and> unat b1 < 0xC0 \<and> b2 = 0")
  case False
  then show ?thesis using assms
    by (simp add: decode_steps)
next
  case True
  then have b0: "0xC0 \<le> unat b0" "unat b0 < 0xE0"
    using assms by (auto simp: sequence_length_def split: if_splits)
  define x where "x = unat b0 - 0xC0"
  define y where "y = unat b1 - 0x80"
  have xy: "unat b0 = 0xC0 + x" "unat b1 = 0x80 + y" "x < 32" "y < 64" using True b0 by (auto simp: x_def y_def)
  have m: "(0xC0 + x) mod 32 = x" "(0x80 + y) mod 64 = y"
    using digits_mod [of x 32 6] digits_mod [of y 64 2] xy by simp_all
  moreover have "x * 64 + y < 128 \<longleftrightarrow> x < 2" using xy by auto
  ultimately show ?thesis using assms True
    by (auto simp add: decode_steps xy m simp del: push_bit_and)
qed

lemma decode3:
  assumes "sequence_length (unat b0) = 3"
  shows "decodeUTF8Sequence (b0 # b1 # b2 # b3 # t) =
    Some (if list_all (\<lambda>b. 0x80 \<le> unat b \<and> unat b < 0xC0) [b1, b2] \<and> b3 = 0 \<and> 
      (unat b0 = 0xE0 \<longrightarrow> 0xA0 \<le> unat b1) \<and> (unat b0 = 0xED \<longrightarrow> unat b1 < 0xA0)
      then int (bytes_value [unat b0, unat b1, unat b2]) else -1)"
proof (cases "list_all (\<lambda>b. 0x80 \<le> unat b \<and> unat b < 0xC0) [b1, b2] \<and> b3 = 0")
  case False
  then show ?thesis using assms by (simp add: decode_steps)
next
  case True
  then have b0: "0xE0 \<le> unat b0" "unat b0 < 0xF0"
    using assms by (auto simp: sequence_length_def split: if_splits)
  define x where "x = unat b0 - 0xE0"
  define y where "y = unat b1 - 0x80"
  define z where "z = unat b2 - 0x80"
  have xy: "unat b0 = 0xE0 + x" "unat b1 = 0x80 + y" "unat b2 = 0x80 + z" "x < 16" "y < 64" "z < 64"
    using True b0 by (auto simp: x_def y_def z_def)
  have "x * 4096 + y * 64 + z < 0x800 \<longleftrightarrow> x = 0 \<and> y < 32"
    "0xD800 \<le> x * 4096 + y * 64 + z \<and> x * 4096 + y * 64 + z \<le> 0xDFFF \<longleftrightarrow> x = 13 \<and> 32 \<le> y"
    using xy(4-) by (cases "x = 13"; cases "x < 13"; auto)+
  moreover have m: "(0xE0 + x) mod 16 = x" "(0x80 + y) mod 64 = y" "(0x80 + z) mod 64 = z"
    using digits_mod [of x 16 14] digits_mod [of y 64 2] digits_mod [of z 64 2] xy by simp_all
  ultimately show ?thesis using assms True by (auto simp add: decode_steps xy m simp del: push_bit_and)
qed

lemma decode4:
  assumes "sequence_length (unat b0) = 4"
  shows "decodeUTF8Sequence (b0 # b1 # b2 # b3 # b4 # t) =
    Some (if list_all (\<lambda>b. 0x80 \<le> unat b \<and> unat b < 0xC0) [b1, b2, b3] \<and> b4 = 0 \<and> 
      (unat b0 = 0xF0 \<longrightarrow> 0x90 \<le> unat b1) \<and> (unat b0 = 0xF4 \<longrightarrow> unat b1 < 0x90) \<and> unat b0 < 0xF5
      then int (bytes_value [unat b0, unat b1, unat b2, unat b3]) else -1)"
proof (cases "list_all (\<lambda>b. 0x80 \<le> unat b \<and> unat b < 0xC0) [b1, b2, b3] \<and> b4 = 0")
  case False
  then show ?thesis using assms by (simp add: decode_steps)
next
  case True
  then have b0: "0xF0 \<le> unat b0" "unat b0 < 0xF8"
    using assms by (auto simp: sequence_length_def split: if_splits)
  define x where "x = unat b0 - 0xF0"
  define y where "y = unat b1 - 0x80"
  define z where "z = unat b2 - 0x80"
  define w where "w = unat b3 - 0x80"
  have xy: "unat b0 = 0xF0 + x" "unat b1 = 0x80 + y" "unat b2 = 0x80 + z" "unat b3 = 0x80 + w" "x < 8" "y < 64" "z < 64" "w < 64"
    using True b0 by (auto simp: x_def y_def z_def w_def)
  have "x * 262144 + y * 4096 + z * 64 + w < 0x10000 \<longleftrightarrow> x = 0 \<and> y < 16"
    "0x10FFFF < x * 262144 + y * 4096 + z * 64 + w \<longleftrightarrow> 5 \<le> x \<or> x = 4 \<and> 16 \<le> y"
    using xy(5-) by auto
  moreover have m: "(0xF0 + x) mod 8 = x" "(0x80 + y) mod 64 = y" "(0x80 + z) mod 64 = z" "(0x80 + w) mod 64 = w"
    using digits_mod [of x 8 30] digits_mod [of y 64 2] digits_mod [of z 64 2] digits_mod [of w 64 2] xy by simp_all
  ultimately show ?thesis using assms True by (auto simp add: decode_steps xy m simp del: push_bit_and)
qed

lemma legal_bytes_sequence_length: "legal_bytes (a # as) \<Longrightarrow> sequence_length a = Suc (length as)"
  by (auto simp: legal_bytes_def sequence_length_def split: list.splits if_splits)

lemma decode_terminated:
  assumes "list_all (\<lambda>b. b \<noteq> 0) s" "s \<noteq> []"
  shows "decodeUTF8Sequence (s @ 0 # t) =
    Some (if legal_bytes (map unat s) then int (bytes_value (map unat s)) else -1)"
proof -
  obtain b0 s1 where s: "s = b0 # s1" using assms(2) by (cases s) auto
  have no_seq: "sequence_length (unat b0) \<noteq> Suc (length s1) \<Longrightarrow> \<not> legal_bytes (unat b0 # map unat s1)"
    using legal_bytes_sequence_length [of "unat b0" "map unat s1"] by auto
  consider "sequence_length (unat b0) = 0" | "unat b0 < 0x80" | "sequence_length (unat b0) = 2"
    | "sequence_length (unat b0) = 3" | "sequence_length (unat b0) = 4"
    unfolding sequence_length_def by argo
  then show ?thesis
  proof cases
    case 1
    then show ?thesis
      using legal_bytes_sequence_length [of "unat b0" "map unat s1"] by (auto simp: s decode_bad)
  next
    case 2
    then have "sequence_length (unat b0) = 1" by (simp add: sequence_length_def)
    then show ?thesis using assms(1) 2 legal_bytes_sequence_length [of "unat b0" "map unat s1"]
      by (cases s1) (auto simp: s decode1 legal_bytes_def bytes_value_def)
  next
    case 3
    then have b: "0xC0 \<le> unat b0" "unat b0 < 0xE0" by (auto simp: sequence_length_def split: if_splits)
    consider "s1 = []" | b1 where "s1 = [b1]" | b1 b2 s3 where "s1 = b1 # b2 # s3" by (cases s1 rule: remdups_adj.cases) auto
    then show ?thesis
    proof cases
      case 1
      then show ?thesis using 3 no_seq by (simp add: s decode_steps)
    next
      case (2 b1)
      then show ?thesis using b by (simp add: s decode2 [OF 3] legal_bytes_def)
    next
      case (3 b1 b2 s3)
      then show ?thesis using \<open>sequence_length (unat b0) = 2\<close> no_seq assms(1) by (simp add: s decode2)
    qed
  next
    case 4
    then have b: "0xE0 \<le> unat b0" "unat b0 < 0xF0" by (auto simp: sequence_length_def split: if_splits)
    consider "s1 = []" | b1 where "s1 = [b1]" | b1 b2 where "s1 = [b1, b2]" | b1 b2 b3 s4 where "s1 = b1 # b2 # b3 # s4"
      by (metis list.exhaust)
    then show ?thesis
    proof cases
      case 1
      then show ?thesis using 4 no_seq by (simp add: s decode_steps)
    next
      case (2 b1)
      then show ?thesis using 4 no_seq by (simp add: s decode_steps)
    next
      case (3 b1 b2)
      then show ?thesis using b by (simp add: s decode3 [OF 4] legal_bytes_def; fastforce)
    next
      case (4 b1 b2 b3 s4)
      then show ?thesis using \<open>sequence_length (unat b0) = 3\<close> no_seq assms(1) by (simp add: s decode3)
    qed
  next
    case 5
    then have b: "0xF0 \<le> unat b0" "unat b0 < 0xF8" by (auto simp: sequence_length_def split: if_splits)
    consider "s1 = []" | b1 where "s1 = [b1]" | b1 b2 where "s1 = [b1, b2]" | b1 b2 b3 where "s1 = [b1, b2, b3]"
      | b1 b2 b3 b4 s5 where "s1 = b1 # b2 # b3 # b4 # s5"
      by (metis list.exhaust)
    then show ?thesis
    proof cases
      case 1
      then show ?thesis using 5 no_seq by (simp add: s decode_steps)
    next
      case (2 b1)
      then show ?thesis using 5 no_seq by (simp add: s decode_steps)
    next
      case (3 b1 b2)
      then show ?thesis using 5 no_seq by (simp add: s decode_steps)
    next
      case (4 b1 b2 b3)
      then show ?thesis using b by (simp add: s decode4 [OF 5] legal_bytes_def; fastforce)
    next
      case (5 b1 b2 b3 b4 s5)
      then show ?thesis using \<open>sequence_length (unat b0) = 4\<close> no_seq assms(1) by (simp add: s decode4)
    qed
  qed
qed

lemma legal_bytes_iff: "legal_bytes (map unat s) \<longleftrightarrow> (\<exists>c. scalar c \<and> s = utf8_bytes c)"
proof
  assume "legal_bytes (map unat s)"
  then have "scalar (bytes_value (map unat s)) \<and> utf8_of (bytes_value (map unat s)) = map unat s"
    by (rule legal_bytes_value)
  then show "\<exists>c. scalar c \<and> s = utf8_bytes c"
    by (intro exI [of _ "bytes_value (map unat s)"]) (simp add: utf8_bytes_def comp_def)
qed (auto simp: map_unat_utf8_bytes scalar_bytes_legal)

text \<open>
  C40: decodeUTF8Sequence on a NUL-terminated string that is not empty stays inside
  the buffer and returns the scalar value whose encoding the string is, and -1 exactly when
  the string is not the encoding of one scalar value.
\<close>

theorem decodeUTF8Sequence_correct:
  assumes "list_all (\<lambda>b. b \<noteq> 0) s" "s \<noteq> []"
  shows "decodeUTF8Sequence (s @ 0 # t) = Some r \<longleftrightarrow>
    (\<exists>c. scalar c \<and> s = utf8_bytes c \<and> r = int c) \<or> (\<nexists>c. scalar c \<and> s = utf8_bytes c) \<and> r = -1"
  using decode_terminated [OF assms]
  by (auto simp: legal_bytes_iff map_unat_utf8_bytes bytes_value_utf8_of)

lemma decodeUTF8Sequence_correct_witness:
  "decodeUTF8Sequence ([0xE2, 0x82, 0xAC] @ 0 # []) = Some (-1) \<longleftrightarrow>
    (\<exists>c. scalar c \<and> [0xE2, 0x82, 0xAC] = utf8_bytes c \<and> (-1) = int c) \<or> (\<nexists>c. scalar c \<and> [0xE2, 0x82, 0xAC] = utf8_bytes c) \<and> (-1 :: int) = -1"
  by (rule decodeUTF8Sequence_correct) simp_all

text \<open>
  C39: strict convertUTF16ToUTF8 converts the longest run of whole code points that
  fits: what it consumed is the UTF-16 encoding of scalar values, what it wrote is their
  UTF-8 encoding and fits the target, and its result names the reason at the point where
  it stopped (end of input, lone high surrogate at the end, ill-formed surrogate, or no
  room for the next code point).
\<close>

theorem convertUTF16ToUTF8_strict:
  "case convertUTF16ToUTF8 True source room [] of (r, rest, out) \<Rightarrow>
     \<exists>cs. list_all scalar cs \<and> source = concat (map utf16_units cs) @ rest \<and>
       out = concat (map utf8_bytes cs) \<and> length out \<le> room \<and> stop_reason16 r rest (room - length out)"
  using convertUTF16ToUTF8_strict_gen [where target = "[]" and source = source and room = room] by (auto split: prod.splits)

lemma decodes_forms:
  "decodes bs c \<longleftrightarrow>
     scalar c \<and> (bs = utf8_bytes c \<or>
       (\<exists>b d. bs = [0xED, b, d] \<and> b < 0x80 \<and> 0x80 \<le> d \<and> d < 0xC0 \<and> c = bytes_value (map unat bs)) \<or>
       (\<exists>b d e. bs = [0xF4, b, d, e] \<and> b < 0x80 \<and> 0x80 \<le> d \<and> d < 0xC0 \<and> 0x80 \<le> e \<and> e < 0xC0 \<and> c = bytes_value (map unat bs)))"
proof -
  have u: "unchecked_bytes (map unat bs) \<longleftrightarrow>
      (\<exists>b d. bs = [0xED, b, d] \<and> b < 0x80 \<and> 0x80 \<le> d \<and> d < 0xC0) \<or>
      (\<exists>b d e. bs = [0xF4, b, d, e] \<and> b < 0x80 \<and> 0x80 \<le> d \<and> d < 0xC0 \<and> 0x80 \<le> e \<and> e < 0xC0)"
  proof -
    have "unat a = 0xED \<longleftrightarrow> a = 0xED" "unat a = 0xF4 \<longleftrightarrow> a = 0xF4" for a :: byte by (simp_all add: word_unat_eq_iff)
    then show ?thesis by (auto simp: unchecked_bytes_def word_less_nat_alt word_le_nat_alt split: list.splits)
  qed
  have l: "legal_bytes (map unat bs) \<and> c = bytes_value (map unat bs) \<longleftrightarrow> scalar c \<and> bs = utf8_bytes c"
  proof
    assume a: "legal_bytes (map unat bs) \<and> c = bytes_value (map unat bs)"
    then obtain c' where "scalar c'" "bs = utf8_bytes c'" using legal_bytes_iff by blast
    then show "scalar c \<and> bs = utf8_bytes c" using a decodes_utf8_bytes [of c'] by (simp add: decodes_def)
  next
    assume "scalar c \<and> bs = utf8_bytes c"
    then show "legal_bytes (map unat bs) \<and> c = bytes_value (map unat bs)" using decodes_utf8_bytes [of c] legal_bytes_iff by (auto simp: decodes_def)
  qed
  show ?thesis using l u decodes_scalar [of bs c] unfolding decodes_def by blast
qed

text \<open>
  C38: convertUTF8ToUTF16 consumes sequences that isLegalUTF8 accepts: the UTF-8 encodings of scalar values, and two
  families that are not well-formed, in which a byte below 0x80 stands behind 0xED or 0xF4. It writes the UTF-16
  encoding of one scalar value for each (so its output is always well-formed UTF-16), stays inside the target, and its
  result names the reason at the point where it stopped.
\<close>

theorem convertUTF8ToUTF16_complete:
  "case convertUTF8ToUTF16 strict source room [] of (r, rest, out) \<Rightarrow>
     \<exists>ps. list_all (\<lambda>(bs, c). scalar c \<and> (bs = utf8_bytes c \<or>
             (\<exists>b d. bs = [0xED, b, d] \<and> b < 0x80 \<and> 0x80 \<le> d \<and> d < 0xC0 \<and> c = bytes_value (map unat bs)) \<or>
             (\<exists>b d e. bs = [0xF4, b, d, e] \<and> b < 0x80 \<and> 0x80 \<le> d \<and> d < 0xC0 \<and> 0x80 \<le> e \<and> e < 0xC0 \<and> c = bytes_value (map unat bs)))) ps \<and>
       source = concat (map fst ps) @ rest \<and>
       out = concat (map (utf16_units \<circ> snd) ps) \<and> length out \<le> room \<and> stop_reason8 r rest (room - length out)"
  using convertUTF8ToUTF16_gen [where target = "[]" and source = source and room = room and strict = strict]
  by (auto simp flip: decodes_forms split: prod.splits)

text \<open>
  the bytes that strict convertUTF16ToUTF8 wrote convert back to exactly the
  UTF-16 units it consumed, in a target of that size.
\<close>

theorem utf16_utf8_roundtrip:
  "case convertUTF16ToUTF8 True source room [] of (r, rest, bytes) \<Rightarrow>
     \<exists>units. source = units @ rest \<and>
       convertUTF8ToUTF16 strict bytes (length units) [] = (conversionOK, [], units)"
  using convertUTF16ToUTF8_strict_gen [where target = "[]" and source = source and room = room]
  by (auto split: prod.splits simp: convertUTF8ToUTF16_encoded)

text \<open>
  with the length that the first byte announces, isLegalUTF8 accepts exactly
  the encodings of scalar values and the sequences of \<open>unchecked_bytes\<close>: after 0xED and
  0xF4 its second byte has an upper bound only, so any byte below 0x80 passes.
\<close>

theorem isLegalUTF8_accepts:
  assumes "source \<noteq> []" "UTF8SequenceLength (hd source) \<le> int (length source)"
  shows "isLegalUTF8 source (UTF8SequenceLength (hd source)) \<longleftrightarrow>
    (let bs = take (nat (UTF8SequenceLength (hd source))) source
     in (\<exists>c. scalar c \<and> bs = utf8_bytes c) \<or> unchecked_bytes (map unat bs))"
  using isLegalUTF8_iff [of source] assms by (simp add: UTF8SequenceLength_eq legal_bytes_iff Let_def)

lemma isLegalUTF8_accepts_witness:
  "isLegalUTF8 [0xED, 0x22, 0x80] (UTF8SequenceLength 0xED) \<longleftrightarrow>
    (let bs = take (nat (UTF8SequenceLength 0xED)) [0xED, 0x22, 0x80]
     in (\<exists>c. scalar c \<and> bs = utf8_bytes c) \<or> unchecked_bytes (map unat bs))"
  using isLegalUTF8_accepts [of "[0xED, 0x22, 0x80]"]
  by (simp add: UTF8SequenceLength_eq sequence_length_def)

text \<open>
  the consequence of the missing lower bound: the ill-formed bytes 0xED 0x22
  0x80, in which an ASCII quotation mark follows a lead byte, convert without an error to
  the one unit U+B880; the quotation mark is gone.
\<close>

theorem isLegalUTF8_swallows_quote:
  "convertUTF8ToUTF16 True [0xED, 0x22, 0x80] 8 [] = (conversionOK, [], [0xB880])"
  by (simp add: convertUTF8ToUTF16.simps UTF8SequenceLength_eq sequence_length_def isLegalUTF8_def isLegalSecondByte_def
      offsetsFromUTF8_def putUTF16_def)

end
