(* ===== verification/UStrings.thy ===== *)
theory UStrings
  imports Utf8 "HOL-Library.List_Lexorder"
begin

section \<open>The string class of the engine (JavaScriptCore/runtime/UString.cpp)\<close>

text \<open>
  A UString is the list of its UTF-16 units; the null string and the empty string behave
  alike in every operation below and are both the empty list. Positions and lengths are
  \<open>unsigned\<close>, so 32-bit words. A scan by pointer is a scan by index; \<open>None\<close> is a read outside
  the buffer.
\<close>

definition NotFound :: u32 where
  "NotFound = 0xFFFFFFFF"

subsection \<open>Scans\<close>

text \<open>\<open>for (c = data() + i; c < end; c++) if (P) return c - data();\<close>\<close>

function scanUp :: "(nat \<Rightarrow> bool) \<Rightarrow> nat \<Rightarrow> nat \<Rightarrow> nat option" where
  "scanUp P i n = (if i < n then if P i then Some i else scanUp P (Suc i) n else None)"
  by pat_completeness auto
termination by (relation "measure (\<lambda>(P, i, n). n - i)") auto

declare scanUp.simps [simp del]

text \<open>\<open>for (c = data() + i; c >= data(); c--) if (P) return c - data();\<close>\<close>

fun scanDown :: "(nat \<Rightarrow> bool) \<Rightarrow> nat \<Rightarrow> nat option" where
  "scanDown P 0 = (if P 0 then Some 0 else None)"
| "scanDown P (Suc i) = (if P (Suc i) then Some (Suc i) else scanDown P i)"

definition position :: "nat option \<Rightarrow> u32" where
  "position r = (case r of Some i \<Rightarrow> of_nat i | None \<Rightarrow> NotFound)"

subsection \<open>Construction from numbers\<close>

text \<open>The digits that the loop \<open>while (i)\<close> of every \<open>from\<close> puts in front of \<open>p\<close>.\<close>

function fromDigits :: "nat \<Rightarrow> uchar list \<Rightarrow> uchar list" where
  "fromDigits i p = (if i = 0 then p else fromDigits (i div 10) (of_nat (i mod 10 + 0x30) # p))"
  by pat_completeness auto
termination by (relation "measure fst") auto

declare fromDigits.simps [simp del]

definition from_int :: "32 word \<Rightarrow> uchar list" where
  "from_int i =
     (if i = 0 then [0x30]
      else if sint i = -2147483648 then ustr ''-2147483648''
      else if sint i < 0 then 0x2D # fromDigits (nat (- sint i)) []
      else fromDigits (nat (sint i)) [])"

definition from_longlong :: "64 word \<Rightarrow> uchar list" where
  "from_longlong i =
     (if i = 0 then [0x30]
      else if sint i = -9223372036854775808 then ustr ''-9223372036854775808''
      else if sint i < 0 then 0x2D # fromDigits (nat (- sint i)) []
      else fromDigits (nat (sint i)) [])"

text \<open>\<open>from(long)\<close> on a platform whose \<open>long\<close> has 64 bits.\<close>

definition from_long :: "64 word \<Rightarrow> uchar list" where
  "from_long l =
     (if l = 0 then [0x30]
      else if sint l = -9223372036854775808 then ustr ''-9223372036854775808''
      else if sint l < 0 then 0x2D # fromDigits (nat (- sint l)) []
      else fromDigits (nat (sint l)) [])"

definition from_unsigned :: "u32 \<Rightarrow> uchar list" where
  "from_unsigned u = (if u = 0 then [0x30] else fromDigits (unat u) [])"

subsection \<open>Reading\<close>

definition ascii :: "uchar list \<Rightarrow> byte list" where
  "ascii s = map ucast s @ [0]"

fun is8Bit :: "uchar list \<Rightarrow> bool" where
  "is8Bit [] = True"
| "is8Bit (u # s) = (if 0xFF < u then False else is8Bit s)"

definition charAt :: "uchar list \<Rightarrow> u32 \<Rightarrow> uchar" where
  "charAt s pos = (if length s \<le> unat pos then 0 else s ! unat pos)"

text \<open>The loop of toStrictUInt32; the result is the value and what is stored to \<open>*ok\<close>.\<close>

fun strictLoop :: "uchar list \<Rightarrow> u32 \<Rightarrow> u32 \<times> bool" where
  "strictLoop [] i = (0, False)"
| "strictLoop (c # p) i =
     (if c < 0x30 \<or> 0x39 < c then (0, False)
      else let d = ucast c - 0x30 :: u32 in
        if 0xFFFFFFFF div 10 < i then (0, False)
        else let i = i * 10; max = 0xFFFFFFFF - d in
          if max < i then (0, False)
          else let i = i + d in
            if p = [] then (i, True) else strictLoop p i)"

definition toStrictUInt32 :: "uchar list \<Rightarrow> u32 \<times> bool" where
  "toStrictUInt32 s =
     (case s of
        [] \<Rightarrow> (0, False)
      | c # p \<Rightarrow> if c = 0x30 then (0, p = []) else strictLoop s 0)"

definition toArrayIndex :: "uchar list \<Rightarrow> u32 \<times> bool" where
  "toArrayIndex s = (let (i, ok) = toStrictUInt32 s in (i, ok \<and> \<not> 0xFFFFFFFF \<le> i))"

definition UTF8String :: "bool \<Rightarrow> uchar list \<Rightarrow> byte list option" where
  "UTF8String strict s =
     (let (result, d, p) = convertUTF16ToUTF8 strict s (length s * 3) []
      in if result \<noteq> conversionOK then None else Some p)"

subsection \<open>Searching\<close>

definition findChar :: "uchar list \<Rightarrow> uchar \<Rightarrow> u32 \<Rightarrow> u32" where
  "findChar s ch pos = position (scanUp (\<lambda>c. s ! c = ch) (unat pos) (length s))"

definition find_in :: "uchar list \<Rightarrow> uchar list \<Rightarrow> u32 \<Rightarrow> u32" where
  "find_in s f pos =
     (if length f = 1 then position (scanUp (\<lambda>c. s ! c = f ! 0) (unat pos) (length s))
      else if length s < length f then NotFound
      else if length f = 0 then pos
      else position (scanUp (\<lambda>c. s ! c = f ! 0 \<and> take (length f - 1) (drop (c + 1) s) = tl f)
             (unat pos) (length s - length f + 1)))"

definition rfind_in :: "uchar list \<Rightarrow> uchar list \<Rightarrow> u32 \<Rightarrow> u32" where
  "rfind_in s f pos =
     (if length s < length f then NotFound
      else let pos = (if length s - length f < unat pos then of_nat (length s - length f) else pos) in
        if length f = 0 then pos
        else position (scanDown (\<lambda>c. s ! c = f ! 0 \<and> take (length f - 1) (drop (c + 1) s) = tl f)
               (unat pos)))"

text \<open>
  Here \<open>pos + 1\<close> wraps; a start outside the string is \<open>None\<close>.
\<close>

definition rfindChar :: "uchar list \<Rightarrow> uchar \<Rightarrow> u32 \<Rightarrow> u32 option" where
  "rfindChar s ch pos =
     (if s = [] then Some NotFound
      else let pos = (if length s \<le> unat (pos + 1) then of_nat (length s) - 1 else pos) in
        if length s \<le> unat pos then None
        else Some (position (scanDown (\<lambda>c. s ! c = ch) (unat pos))))"

definition substr :: "uchar list \<Rightarrow> u32 \<Rightarrow> u32 \<Rightarrow> uchar list" where
  "substr s pos len =
     (let sz = of_nat (length s) :: u32;
          pos = (if sz \<le> pos then sz else pos);
          limit = sz - pos;
          len = (if limit < len then limit else len)
      in if pos = 0 \<and> len = sz then s else take (unat len) (drop (unat pos) s))"

subsection \<open>Comparison\<close>

text \<open>\<open>operator==\<close> with a C string, given without its terminator; \<open>None\<close> is the null pointer.\<close>

fun equalChars :: "uchar list \<Rightarrow> byte list \<Rightarrow> bool" where
  "equalChars (u # us) (c # cs) = (if u \<noteq> ucast c then False else equalChars us cs)"
| "equalChars us cs = (us = [] \<and> cs = [])"

definition equalCString :: "uchar list \<Rightarrow> byte list option \<Rightarrow> bool" where
  "equalCString s1 s2 = (case s2 of None \<Rightarrow> s1 = [] | Some cs \<Rightarrow> equalChars s1 cs)"

text \<open>\<open>while (l < lmin && *c1 == *c2)\<close>: the strings from the first difference on.\<close>

fun skipCommon :: "uchar list \<Rightarrow> uchar list \<Rightarrow> uchar list \<times> uchar list" where
  "skipCommon (c1 # s1) (c2 # s2) = (if c1 = c2 then skipCommon s1 s2 else (c1 # s1, c2 # s2))"
| "skipCommon s1 s2 = (s1, s2)"

definition lessThan :: "uchar list \<Rightarrow> uchar list \<Rightarrow> bool" where
  "lessThan s1 s2 =
     (case skipCommon s1 s2 of
        (c1 # _, c2 # _) \<Rightarrow> c1 < c2
      | _ \<Rightarrow> length s1 < length s2)"

definition greaterThan :: "uchar list \<Rightarrow> uchar list \<Rightarrow> bool" where
  "greaterThan s1 s2 =
     (case skipCommon s1 s2 of
        (c1 # _, c2 # _) \<Rightarrow> c2 < c1
      | _ \<Rightarrow> length s2 < length s1)"

definition compare :: "uchar list \<Rightarrow> uchar list \<Rightarrow> int" where
  "compare s1 s2 =
     (case skipCommon s1 s2 of
        (c1 # _, c2 # _) \<Rightarrow> if c2 < c1 then 1 else -1
      | _ \<Rightarrow> if length s1 = length s2 then 0 else if length s2 < length s1 then 1 else -1)"

subsection \<open>Numbers and their decimal form\<close>

lemma fromDigits_append: "fromDigits n p = fromDigits n [] @ p"
proof (induction n arbitrary: p rule: less_induct)
  case (less n)
  show ?case
  proof (cases "n = 0")
    case False
    then have "fromDigits n q = fromDigits (n div 10) [] @ of_nat (n mod 10 + 0x30) # q" for q
      using less [of "n div 10" "of_nat (n mod 10 + 0x30) # q"] by (subst fromDigits.simps) simp
    from this [of p] this [of "[]"] show ?thesis by simp
  qed (simp add: fromDigits.simps)
qed

lemma fromDigits_0 [simp]: "fromDigits 0 [] = []"
  by (simp add: fromDigits.simps)

lemma fromDigits_step:
  "0 < n \<Longrightarrow> fromDigits n [] = fromDigits (n div 10) [] @ [of_nat (n mod 10 + 0x30)]"
  by (subst fromDigits.simps) (simp add: fromDigits_append [of "n div 10" "[_]"])

definition is_digit :: "uchar \<Rightarrow> bool" where
  "is_digit c \<longleftrightarrow> 0x30 \<le> unat c \<and> unat c \<le> 0x39"

definition dec_value :: "nat \<Rightarrow> uchar list \<Rightarrow> nat" where
  "dec_value i s = foldl (\<lambda>a c. a * 10 + (unat c - 0x30)) i s"

lemma dec_value_simps [simp]:
  "dec_value i [] = i" "dec_value i (c # s) = dec_value (i * 10 + (unat c - 0x30)) s"
  "dec_value i (s @ [c]) = dec_value i s * 10 + (unat c - 0x30)"
  by (simp_all add: dec_value_def)

lemma dec_value_mono: "i \<le> dec_value i s"
proof (induction s arbitrary: i)
  case (Cons c s)
  show ?case using Cons [of "i * 10 + (unat c - 0x30)"] by simp
qed simp

lemma digit_of_nat: "d < 10 \<Longrightarrow> unat (of_nat (d + 0x30) :: uchar) = d + 0x30"
  by (simp add: unat_of_nat del: of_nat_add)

lemma fromDigits_spec:
  "0 < n \<Longrightarrow> list_all is_digit (fromDigits n []) \<and> dec_value 0 (fromDigits n []) = n \<and>
     fromDigits n [] \<noteq> [] \<and> hd (fromDigits n []) \<noteq> 0x30"
proof (induction n rule: less_induct)
  case (less n)
  note d = digit_of_nat [of "n mod 10"]
  show ?case
  proof (cases "n div 10 = 0")
    case True
    then have "n mod 10 = n" by simp
    then show ?thesis using less.prems d
      by (subst (1 2 3 4) fromDigits_step) (simp_all add: True is_digit_def word_unat_eq_iff del: of_nat_add)
  next
    case False
    then have "n div 10 < n" "0 < n div 10" by auto
    from less.IH [OF this] show ?thesis using less.prems d
      by (subst (1 2 3 4) fromDigits_step) (simp_all add: is_digit_def [of "of_nat _"] hd_append less_Suc_eq_le [symmetric] del: of_nat_add)
  qed
qed

lemma fromDigits_dec_value:
  "s \<noteq> [] \<Longrightarrow> list_all is_digit s \<Longrightarrow> hd s \<noteq> 0x30 \<Longrightarrow> fromDigits (dec_value 0 s) [] = s \<and> 0 < dec_value 0 s"
proof (induction s rule: rev_induct)
  case (snoc c s)
  have c: "0x30 \<le> unat c" "unat c \<le> 0x39" using snoc.prems by (auto simp: is_digit_def)
  then have cc: "of_nat (unat c - 0x30 + 0x30) = c" by simp
  show ?case
  proof (cases "s = []")
    case True
    then have "unat c \<noteq> 0x30" using snoc.prems by (simp add: word_unat_eq_iff)
    then show ?thesis using True c cc by (subst fromDigits_step) (simp_all del: of_nat_add)
  next
    case False
    then have "fromDigits (dec_value 0 s) [] = s" "0 < dec_value 0 s" using snoc by auto
    moreover define e where "e = unat c - 0x30"
    moreover have "e < 10" using c by (simp add: e_def)
    ultimately show ?thesis using c cc
      by (subst fromDigits_step) (simp_all flip: e_def del: of_nat_add)
  qed
qed simp

lemma strictLoop_spec:
  "s \<noteq> [] \<Longrightarrow> strictLoop s i =
     (if list_all is_digit s \<and> dec_value (unat i) s < 2 ^ 32 then (of_nat (dec_value (unat i) s), True)
      else (0, False))"
proof (induction s arbitrary: i)
  case (Cons c p)
  show ?case
  proof (cases "is_digit c")
    case False
    then have "c < 0x30 \<or> 0x39 < c" by (auto simp: is_digit_def word_less_nat_alt)
    then show ?thesis using False by simp
  next
    case True
    then have c: "0x30 \<le> unat c" "unat c \<le> 0x39" by (auto simp: is_digit_def)
    have u: "unat (ucast c :: u32) = unat c" using c by (simp add: unat_ucast_mod)
    define d where "d = (ucast c - 0x30 :: u32)"
    have d: "unat d = unat c - 0x30" unfolding d_def
      using c by (subst unat_sub) (simp_all add: word_le_nat_alt u)
    have q: "(0xFFFFFFFF div 10 :: u32) = 429496729" by simp
    have m: "unat (0xFFFFFFFF - d) = 0xFFFFFFFF - unat d"
      using c by (subst unat_sub) (simp_all add: word_le_nat_alt d)
    have nd: "\<not> (c < 0x30 \<or> 0x39 < c)" using c by (simp add: word_less_nat_alt)
    show ?thesis
    proof (cases "unat i * 10 + unat d < 2 ^ 32")
      case False
      have "2 ^ 32 \<le> dec_value (unat i * 10 + unat d) p" using False dec_value_mono [of "unat i * 10 + unat d" p] by linarith
      moreover have "0xFFFFFFFF - d < i * 10" if "\<not> (0xFFFFFFFF div 10 < i)"
      proof -
        have "unat (i * 10) = unat i * 10" using that by (simp add: q word_less_nat_alt unat_word_ariths)
        then show ?thesis using False d c by (simp add: word_less_nat_alt m)
      qed
      ultimately show ?thesis using nd by (auto simp: d [symmetric] simp flip: d_def simp: Let_def)
    next
      case True
      then have i10: "unat (i * 10) = unat i * 10" and id: "unat (i * 10 + d) = unat i * 10 + unat d"
        by (simp_all add: unat_word_ariths)
      have "\<not> 0xFFFFFFFF div 10 < i" "\<not> 0xFFFFFFFF - d < i * 10"
        using True d c by (simp_all add: q word_less_nat_alt m i10)
      then show ?thesis using nd Cons.IH [of "i * 10 + d"] True \<open>is_digit c\<close>
        by (simp add: Let_def id d [symmetric] flip: d_def)
    qed
  qed
qed simp

lemma toStrictUInt32_iff: "toStrictUInt32 s = (u, True) \<longleftrightarrow> s = from_unsigned u"
proof (cases s)
  case Nil
  then show ?thesis using fromDigits_spec [of "unat u"]
    by (auto simp: toStrictUInt32_def from_unsigned_def unat_gt_0)
next
  case (Cons c p)
  show ?thesis
  proof (cases "c = 0x30")
    case True
    have "0x30 # p \<noteq> fromDigits (unat u) []" if "u \<noteq> 0"
      using fromDigits_spec [of "unat u"] that by (metis list.sel(1) unat_gt_0)
    then show ?thesis using True by (auto simp: toStrictUInt32_def Cons from_unsigned_def)
  next
    case False
    have "toStrictUInt32 s = strictLoop s 0" using False by (simp add: toStrictUInt32_def Cons)
    moreover have "strictLoop s 0 = (u, True) \<longleftrightarrow> list_all is_digit s \<and> dec_value 0 s = unat u"
      using strictLoop_spec [of s 0] unat_less_length [of u] by (auto simp: Cons unat_of_nat word_unat_eq_iff)
    moreover have "list_all is_digit s \<and> dec_value 0 s = unat u \<longleftrightarrow> s = from_unsigned u"
    proof
      have ne: "s \<noteq> []" "hd s \<noteq> 0x30" using False Cons by auto
      assume "list_all is_digit s \<and> dec_value 0 s = unat u"
      with fromDigits_dec_value [OF ne(1) _ ne(2)] show "s = from_unsigned u"
        by (auto simp: from_unsigned_def)
    next
      assume "s = from_unsigned u"
      moreover have "u \<noteq> 0" using calculation False Cons by (auto simp: from_unsigned_def)
      ultimately show "list_all is_digit s \<and> dec_value 0 s = unat u"
        using fromDigits_spec [of "unat u"] by (simp add: from_unsigned_def unat_gt_0)
    qed
    ultimately show ?thesis by simp
  qed
qed

text \<open>
  toArrayIndex reports success with the value u exactly when the string is the
  decimal form that UString::from(unsigned) gives u and u is not 2^32 - 1, the rule of
  ECMA 15.2 that its comment states.
\<close>

theorem toArrayIndex_iff:
  "toArrayIndex s = (u, True) \<longleftrightarrow> s = from_unsigned u \<and> u \<noteq> 0xFFFFFFFF"
proof -
  have "\<not> 0xFFFFFFFF \<le> u \<longleftrightarrow> u \<noteq> 0xFFFFFFFF"
    using unat_less_length [of u] by (simp add: word_le_nat_alt word_unat_eq_iff; linarith)
  then show ?thesis
    using toStrictUInt32_iff [of s u] by (auto simp: toArrayIndex_def split: prod.splits)
qed

subsection \<open>Order, search and substrings\<close>

lemma Nil_less_iff: "[] < s \<longleftrightarrow> s \<noteq> ([] :: uchar list)"
  by (cases s) auto

lemma skipCommon_less:
  "(case skipCommon s1 s2 of (c1 # _, c2 # _) \<Rightarrow> c1 < c2 | (a, b) \<Rightarrow> length a < length b) \<longleftrightarrow> s1 < s2"
  by (induction s1 s2 rule: skipCommon.induct) (auto simp: Nil_less_iff split: list.splits)

lemma skipCommon_common:
  "\<exists>p. s1 = p @ fst (skipCommon s1 s2) \<and> s2 = p @ snd (skipCommon s1 s2)"
proof (induction s1 s2 rule: skipCommon.induct)
  case (1 c1 s1 c2 s2)
  then show ?case by (cases "c1 = c2") (auto intro: exI [of _ "_ # _"])
qed auto

lemma skipCommon_differ:
  "skipCommon s1 s2 = (c1 # t1, c2 # t2) \<Longrightarrow> c1 \<noteq> c2"
  by (induction s1 s2 rule: skipCommon.induct) (auto split: if_splits)

lemma lessThan_iff: "lessThan s1 s2 \<longleftrightarrow> s1 < s2"
proof -
  obtain p a b where p: "skipCommon s1 s2 = (a, b)" "s1 = p @ a" "s2 = p @ b"
    using skipCommon_common [of s1 s2] by (metis prod.collapse)
  have "length s1 < length s2 \<longleftrightarrow> length a < length b" using p by simp
  then show ?thesis using skipCommon_less [of s1 s2]
    by (auto simp: lessThan_def p(1) split: list.splits)
qed

lemma skipCommon_swap: "skipCommon s2 s1 = prod.swap (skipCommon s1 s2)"
  by (induction s1 s2 rule: skipCommon.induct) (auto elim: skipCommon.elims)

lemma greaterThan_lessThan: "greaterThan s1 s2 = lessThan s2 s1"
  by (auto simp: greaterThan_def lessThan_def skipCommon_swap [of s2 s1] split: prod.splits list.splits)

lemma compare_lessThan:
  "compare s1 s2 = (if lessThan s1 s2 then -1 else if lessThan s2 s1 then 1 else 0)"
  using skipCommon_differ [of s1 s2]
  by (auto simp: compare_def lessThan_def skipCommon_swap [of s2 s1] split: prod.splits list.splits)

text \<open>
  compare and the two order operators are the lexicographic order on UTF-16
  units: compare is 0 exactly on equal strings, and its sign and the operators agree.
\<close>

theorem compare_lexicographic:
  "compare s1 s2 = (if s1 = s2 then 0 else if s1 < s2 then -1 else 1) \<and>
   (lessThan s1 s2 \<longleftrightarrow> s1 < s2) \<and> (greaterThan s1 s2 \<longleftrightarrow> s2 < s1)"
  by (auto simp: compare_lessThan greaterThan_lessThan lessThan_iff)

lemma scanUp_Some:
  "scanUp P i n = Some j \<longleftrightarrow> i \<le> j \<and> j < n \<and> P j \<and> (\<forall>k. i \<le> k \<and> k < j \<longrightarrow> \<not> P k)"
proof (induction P i n rule: scanUp.induct)
  case (1 P i n)
  show ?case
  proof (cases "i < n \<and> \<not> P i")
    case True
    have "(i \<le> j \<and> j < n \<and> P j \<and> (\<forall>k. i \<le> k \<and> k < j \<longrightarrow> \<not> P k)) \<longleftrightarrow>
      (Suc i \<le> j \<and> j < n \<and> P j \<and> (\<forall>k. Suc i \<le> k \<and> k < j \<longrightarrow> \<not> P k))"
      using True by (metis Suc_leI Suc_leD le_neq_implies_less)
    then show ?thesis using 1 True by (subst scanUp.simps) simp
  next
    case False
    then show ?thesis by (subst scanUp.simps) (auto simp: not_less le_less)
  qed
qed

lemma scanUp_None: "scanUp P i n = None \<longleftrightarrow> (\<forall>k. i \<le> k \<and> k < n \<longrightarrow> \<not> P k)"
proof (induction P i n rule: scanUp.induct)
  case (1 P i n)
  show ?case
  proof (cases "i < n \<and> \<not> P i")
    case True
    then have "(\<forall>k. i \<le> k \<and> k < n \<longrightarrow> \<not> P k) \<longleftrightarrow> (\<forall>k. Suc i \<le> k \<and> k < n \<longrightarrow> \<not> P k)"
      by (metis Suc_leI Suc_leD le_neq_implies_less)
    then show ?thesis using 1 True by (subst scanUp.simps) simp
  next
    case False
    then show ?thesis by (subst scanUp.simps) auto
  qed
qed

lemma scanDown_Some:
  "scanDown P i = Some j \<longleftrightarrow> j \<le> i \<and> P j \<and> (\<forall>k. j < k \<and> k \<le> i \<longrightarrow> \<not> P k)"
proof (induction P i rule: scanDown.induct)
  case (2 P i)
  then show ?case by (auto simp: le_Suc_eq)
qed auto

lemma scanDown_None: "scanDown P i = None \<longleftrightarrow> (\<forall>k \<le> i. \<not> P k)"
  by (induction P i rule: scanDown.induct) (auto simp: le_Suc_eq)

definition occurs_at :: "uchar list \<Rightarrow> uchar list \<Rightarrow> nat \<Rightarrow> bool" where
  "occurs_at s f i \<longleftrightarrow> i + length f \<le> length s \<and> take (length f) (drop i s) = f"

lemma occurs_at_Cons:
  "occurs_at s (c # f) i \<longleftrightarrow> i + length f < length s \<and> s ! i = c \<and> take (length f) (drop (Suc i) s) = f"
proof (cases "i + length f < length s")
  case True
  then have "drop i s = s ! i # drop (Suc i) s" by (simp add: Cons_nth_drop_Suc)
  then show ?thesis using True by (simp add: occurs_at_def Suc_le_eq)
qed (simp add: occurs_at_def)

lemma position_Least:
  assumes "\<And>i. a \<le> i \<Longrightarrow> Q i \<longleftrightarrow> i < n \<and> P i"
  shows "position (scanUp P a n) = (if \<exists>i. a \<le> i \<and> Q i then of_nat (LEAST i. a \<le> i \<and> Q i) else NotFound)"
proof (cases "scanUp P a n")
  case None
  then have "\<not> (\<exists>i. a \<le> i \<and> Q i)" using assms by (auto simp: scanUp_None)
  then show ?thesis unfolding None by (simp only: position_def option.case if_False)
next
  case (Some j)
  then have j: "a \<le> j" "j < n" "P j" "\<And>k. a \<le> k \<Longrightarrow> k < j \<Longrightarrow> \<not> P k" by (auto simp: scanUp_Some)
  have "(LEAST i. a \<le> i \<and> Q i) = j"
    using j assms by (intro Least_equality) (auto intro: leI)
  then show ?thesis using Some j assms by (auto simp: position_def)
qed

lemma position_Greatest:
  assumes "\<And>i. i \<le> a \<Longrightarrow> Q i \<longleftrightarrow> P i"
  shows "position (scanDown P a) = (if \<exists>i \<le> a. Q i then of_nat (GREATEST i. i \<le> a \<and> Q i) else NotFound)"
proof (cases "scanDown P a")
  case None
  then have "\<not> (\<exists>i \<le> a. Q i)" using assms by (auto simp: scanDown_None)
  then show ?thesis unfolding None by (simp only: position_def option.case if_False)
next
  case (Some j)
  then have j: "j \<le> a" "P j" "\<And>k. j < k \<Longrightarrow> k \<le> a \<Longrightarrow> \<not> P k" by (auto simp: scanDown_Some)
  have "(GREATEST i. i \<le> a \<and> Q i) = j"
    using j assms by (intro Greatest_equality) (auto intro: leI)
  then show ?thesis using Some j assms by (auto simp: position_def)
qed

text \<open>
  find of a string that is not empty returns the first position from pos on at
  which it occurs, and NotFound exactly when there is none.
\<close>

theorem find_first:
  assumes "f \<noteq> []"
  shows "find_in s f pos =
    (if \<exists>i. unat pos \<le> i \<and> occurs_at s f i then of_nat (LEAST i. unat pos \<le> i \<and> occurs_at s f i) else NotFound)"
proof -
  obtain c g where f: "f = c # g" using assms by (cases f) auto
  consider "g = []" | "g \<noteq> []" "length s < length f" | "g \<noteq> []" "length f \<le> length s" by linarith
  then show ?thesis
  proof cases
    case 1
    then have "find_in s f pos = position (scanUp (\<lambda>i. s ! i = c) (unat pos) (length s))"
      by (simp add: find_in_def f)
    then show ?thesis unfolding f 1
      by (simp only:) (rule position_Least; simp add: occurs_at_Cons)
  next
    case 2
    then show ?thesis by (auto simp: find_in_def f occurs_at_def)
  next
    case 3
    then show ?thesis unfolding find_in_def
      using f by (simp only: if_False length_Cons length_0_conv One_nat_def nat.inject Suc_neq_Zero not_less if_not_P)
        (rule position_Least; force simp add: occurs_at_Cons)
  qed
qed

lemma find_first_witness:
  "find_in (ustr ''banana'') (ustr ''an'') 2 =
    (if \<exists>i. unat (2 :: u32) \<le> i \<and> occurs_at (ustr ''banana'') (ustr ''an'') i
     then of_nat (LEAST i. unat (2 :: u32) \<le> i \<and> occurs_at (ustr ''banana'') (ustr ''an'') i) else NotFound)"
  by (rule find_first) (simp add: ustr_def)

text \<open>
  rfind of a string that is not empty returns the last position up to pos at
  which it occurs, and NotFound exactly when there is none.
\<close>

theorem rfind_last:
  assumes "f \<noteq> []" "length s < 2 ^ 32"
  shows "rfind_in s f pos =
    (if \<exists>i \<le> unat pos. occurs_at s f i then of_nat (GREATEST i. i \<le> unat pos \<and> occurs_at s f i) else NotFound)"
proof -
  obtain c g where f: "f = c # g" using assms by (cases f) auto
  show ?thesis
  proof (cases "length s < length f")
    case True
    then show ?thesis by (auto simp: rfind_in_def occurs_at_def)
  next
    case False
    define m where "m = min (unat pos) (length s - length f)"
    have "rfind_in s f pos = position (scanDown (\<lambda>i. s ! i = c \<and> take (length g) (drop (i + 1) s) = g) m)"
    proof -
      have "unat (of_nat (length s - length f) :: u32) = length s - length f"
        using assms by (simp add: unat_of_nat del: of_nat_diff)
      then show ?thesis
        using False by (auto simp: rfind_in_def f m_def min_def Let_def simp del: of_nat_diff)
    qed
    also have "\<dots> = (if \<exists>i \<le> m. occurs_at s f i then of_nat (GREATEST i. i \<le> m \<and> occurs_at s f i) else NotFound)"
      using False by (intro position_Greatest) (auto simp: f occurs_at_Cons m_def)
    also have "(\<lambda>i. i \<le> m \<and> occurs_at s f i) = (\<lambda>i. i \<le> unat pos \<and> occurs_at s f i)"
      by (auto simp: m_def occurs_at_def)
    finally show ?thesis by (auto simp: m_def occurs_at_def)
  qed
qed

lemma rfind_last_witness:
  "rfind_in (ustr ''banana'') (ustr ''an'') 9 =
    (if \<exists>i \<le> unat (9 :: u32). occurs_at (ustr ''banana'') (ustr ''an'') i
     then of_nat (GREATEST i. i \<le> unat (9 :: u32) \<and> occurs_at (ustr ''banana'') (ustr ''an'') i) else NotFound)"
  by (rule rfind_last) (simp_all add: ustr_def)

text \<open>
  because pos + 1 wraps, rfind of a single unit starts outside the buffer
  exactly when the string is not empty and pos is 2^32 - 1, the value of NotFound, which
  the other overload accepts as \<open>from the end\<close>.
\<close>

theorem rfindChar_out_of_bounds:
  assumes "length s < 2 ^ 32"
  shows "rfindChar s ch pos = None \<longleftrightarrow> s \<noteq> [] \<and> pos = 0xFFFFFFFF"
proof (cases "s = []")
  case False
  have l: "unat (of_nat (length s) - 1 :: u32) = length s - 1"
    using False assms by (subst unat_sub) (simp_all add: word_le_nat_alt unat_of_nat Suc_le_eq)
  have w: "unat (pos + 1) = (if pos = 0xFFFFFFFF then 0 else unat pos + 1)"
    using unat_less_length [of pos] by (auto simp: unat_word_ariths word_unat_eq_iff)
  obtain n where "length s = Suc n" using False by (cases s) auto
  then show ?thesis using False assms unat_less_length [of pos]
    by (auto simp: rfindChar_def w l Let_def unat_of_nat)
qed (simp add: rfindChar_def)

lemma rfindChar_out_of_bounds_witness:
  "rfindChar [0x61] 0x61 0xFFFFFFFF = None"
  by (subst rfindChar_out_of_bounds) simp_all

text \<open>
  rfind of a single unit returns the last position up to pos at which it occurs,
  reads nothing outside the buffer, and NotFound exactly when there is none, for every pos
  but 2^32 - 1.
\<close>

theorem rfindChar_last:
  assumes "length s < 2 ^ 32" "s = [] \<or> pos \<noteq> 0xFFFFFFFF"
  shows "rfindChar s ch pos = Some
    (if \<exists>i \<le> unat pos. occurs_at s [ch] i then of_nat (GREATEST i. i \<le> unat pos \<and> occurs_at s [ch] i) else NotFound)"
proof (cases "s = []")
  case False
  define m where "m = min (unat pos) (length s - 1)"
  have w: "unat (pos + 1) = unat pos + 1"
    using unat_less_length [of pos] assms False by (auto simp: unat_word_ariths word_unat_eq_iff)
  have l: "unat (of_nat (length s) - 1 :: u32) = length s - 1"
    using False assms by (subst unat_sub) (simp_all add: word_le_nat_alt unat_of_nat Suc_le_eq)
  obtain n where n: "length s = Suc n" using False by (cases s) auto
  then have m: "m = (if length s \<le> Suc (unat pos) then length s - 1 else unat pos)" "m < length s"
    by (auto simp: m_def)
  have "rfindChar s ch pos = Some (position (scanDown (\<lambda>i. s ! i = ch) m))"
    using n False assms(1) by (auto simp: rfindChar_def w l m(1) Let_def unat_of_nat)
  also have "position (scanDown (\<lambda>i. s ! i = ch) m) =
      (if \<exists>i \<le> m. occurs_at s [ch] i then of_nat (GREATEST i. i \<le> m \<and> occurs_at s [ch] i) else NotFound)"
    using n by (intro position_Greatest) (auto simp: occurs_at_Cons m_def)
  also have "(\<lambda>i. i \<le> m \<and> occurs_at s [ch] i) = (\<lambda>i. i \<le> unat pos \<and> occurs_at s [ch] i)"
    by (auto simp: m_def occurs_at_def)
  finally show ?thesis by (auto simp: m_def occurs_at_def)
qed (simp add: rfindChar_def occurs_at_def)

lemma rfindChar_last_witness:
  "rfindChar [0x61, 0x62] 0x61 7 = Some
    (if \<exists>i \<le> unat (7 :: u32). occurs_at [0x61, 0x62] [0x61] i
     then of_nat (GREATEST i. i \<le> unat (7 :: u32) \<and> occurs_at [0x61, 0x62] [0x61] i) else NotFound)"
  by (rule rfindChar_last) simp_all

lemma substr_eq:
  assumes "length s < 2 ^ 32"
  shows "substr s pos len = take (unat len) (drop (unat pos) s)"
proof -
  have u: "unat (of_nat (length s) :: u32) = length s" using assms by (simp add: unat_of_nat)
  have m: "pos \<le> of_nat (length s) \<Longrightarrow> unat (of_nat (length s) - pos) = length s - unat pos"
    by (subst unat_sub) (simp_all add: u)
  have z: "(of_nat (length s) :: u32) = 0 \<longleftrightarrow> s = []" by (simp add: word_unat_eq_iff u)
  show ?thesis
    using m by (auto simp: z substr_def Let_def word_le_nat_alt word_less_nat_alt u not_le)
qed

subsection \<open>Buffers and the conversion to UTF-8\<close>

lemma length_fromDigits: "0 < k \<Longrightarrow> n < 10 ^ k \<Longrightarrow> length (fromDigits n []) \<le> k"
proof (induction k arbitrary: n)
  case (Suc k)
  show ?case
  proof (cases "n = 0")
    case False
    show ?thesis
    proof (cases "k = 0")
      case True
      then have "n div 10 = 0" using Suc by simp
      then show ?thesis using False by (subst fromDigits_step) simp_all
    next
      case False
      have "n div 10 < 10 ^ k" using Suc.prems by (simp add: less_mult_imp_div_less mult.commute)
      then show ?thesis using Suc.IH [of "n div 10"] False \<open>n \<noteq> 0\<close> by (subst fromDigits_step) simp_all
    qed
  qed simp
qed simp

lemma buffers_suffice:
  "length (from_int i) \<le> 1 + 4 * 3" "length (from_unsigned u) \<le> 4 * 3" "length (from_longlong l) \<le> 1 + 8 * 3"
proof -
  have "nat \<bar>sint i\<bar> < 10 ^ 12" using sint_ge [of i] sint_lt [of i] by auto
  then show "length (from_int i) \<le> 1 + 4 * 3"
    using length_fromDigits [of 12 "nat \<bar>sint i\<bar>"] by (auto simp: from_int_def ustr_def abs_if split: if_splits)
  have "unat u < 10 ^ 12" using unat_less_length [of u] by simp
  then show "length (from_unsigned u) \<le> 4 * 3"
    using length_fromDigits [of 12 "unat u"] by (auto simp: from_unsigned_def)
  have "nat \<bar>sint l\<bar> < 10 ^ 24" using sint_ge [of l] sint_lt [of l] by auto
  then show "length (from_longlong l) \<le> 1 + 8 * 3"
    using length_fromDigits [of 24 "nat \<bar>sint l\<bar>"] by (auto simp: from_longlong_def ustr_def abs_if split: if_splits)
qed

lemma convertUTF16ToUTF8_encoded:
  assumes "list_all scalar cs" "length (concat (map utf8_bytes cs)) \<le> room"
  shows "convertUTF16ToUTF8 strict (concat (map utf16_units cs)) room target =
    (conversionOK, [], target @ concat (map utf8_bytes cs))"
  using assms
proof (induction cs arbitrary: room target)
  case (Cons c cs)
  then show ?case by (simp add: convertUTF16ToUTF8_step)
qed (simp add: convertUTF16ToUTF8.simps)

lemma bytes_le_units: "length (utf8_bytes c) \<le> 3 * length (utf16_units c)"
  by (simp add: utf16_units_def utf16_of_def utf8_bytes_def utf8_of_def)

lemma concat_bytes_le_units:
  "length (concat (map utf8_bytes cs)) \<le> 3 * length (concat (map utf16_units cs))"
  using bytes_le_units by (induction cs) (auto intro: add_mono simp: add_mono distrib_left)

lemma UTF8String_strict:
  "UTF8String True s = Some bs \<longleftrightarrow>
    (\<exists>cs. list_all scalar cs \<and> s = concat (map utf16_units cs) \<and> bs = concat (map utf8_bytes cs))"
proof
  assume "UTF8String True s = Some bs"
  then show "\<exists>cs. list_all scalar cs \<and> s = concat (map utf16_units cs) \<and> bs = concat (map utf8_bytes cs)"
    using convertUTF16ToUTF8_strict_gen [where source = s and room = "length s * 3" and target = "[]"]
    by (auto simp: UTF8String_def stop_reason16_def split: prod.splits if_splits)
next
  assume "\<exists>cs. list_all scalar cs \<and> s = concat (map utf16_units cs) \<and> bs = concat (map utf8_bytes cs)"
  then show "UTF8String True s = Some bs"
    using convertUTF16ToUTF8_encoded concat_bytes_le_units
    by (auto simp: UTF8String_def mult.commute)
qed

lemma UTF8String_strict_None:
  "UTF8String True s = None \<longleftrightarrow> (\<nexists>cs. list_all scalar cs \<and> s = concat (map utf16_units cs))"
  using UTF8String_strict [of s] by (metis not_None_eq)

lemma readUTF16_lenient:
  assumes "source \<noteq> []"
  shows "(case readUTF16 False source of
     Inl r \<Rightarrow> r = sourceExhausted \<and> (\<exists>h. source = [h] \<and> is_high h)
   | Inr (ch, rest) \<Rightarrow> fst (bytesNeeded ch) + 3 * length rest \<le> 3 * length source \<and> length rest < length source \<and>
       (if rest = [] then \<not> is_high (last source) else last source = last rest))"
proof -
  obtain u us where s: "source = u # us" using assms by (cases source) auto
  have b3: "fst (bytesNeeded (ucast (w :: uchar))) \<le> 3" for w
    using unat_less_length [of w] by (auto simp: bytesNeeded_def word_less_nat_alt unat_ucast_uchar)
  have b4: "fst (bytesNeeded w) \<le> 6" for w by (auto simp: bytesNeeded_def)
  show ?thesis
  proof (cases "is_high u")
    case False
    then have "readUTF16 False source = Inr (ucast u, us)"
      by (auto simp: readUTF16_def s is_high_def Let_def word_le_nat_alt unat_ucast_uchar)
    then show ?thesis using False b3 [of u] by (simp add: s)
  next
    case True
    show ?thesis
    proof (cases us)
      case Nil
      then show ?thesis using True
        by (simp add: readUTF16_def s is_high_def Let_def word_le_nat_alt unat_ucast_uchar)
    next
      case (Cons l ls)
      show ?thesis using True b3 [of u] b4
        by (auto simp: readUTF16_def s Cons is_high_def Let_def word_le_nat_alt unat_ucast_uchar)
    qed
  qed
qed

lemma convertUTF16ToUTF8_lenient:
  "3 * length source \<le> room \<Longrightarrow>
   fst (convertUTF16ToUTF8 False source room target) =
     (if source \<noteq> [] \<and> is_high (last source) then sourceExhausted else conversionOK)"
proof (induction "length source" arbitrary: source room target rule: less_induct)
  case less
  show ?case
  proof (cases "source = []")
    case True
    then show ?thesis by (simp add: convertUTF16ToUTF8.simps)
  next
    case False
    note r = readUTF16_lenient [OF False]
    show ?thesis
    proof (cases "readUTF16 False source")
      case (Inl a)
      then show ?thesis using r by (subst convertUTF16ToUTF8.simps) auto
    next
      case (Inr p)
      obtain ch rest where i: "readUTF16 False source = Inr (ch, rest)" using Inr by (cases p) auto
      obtain n ch' where b: "bytesNeeded ch = (n, ch')" by fastforce
      have "n + 3 * length rest \<le> room" "length rest < length source" using r i b less.prems by auto
      then show ?thesis using less.hyps [of rest "room - n" "target @ putUTF8 n n ch' []"] False r
        by (subst convertUTF16ToUTF8.simps; cases "rest = []") (simp_all add: i b)
    qed
  qed
qed

text \<open>
  UTF8String in non-strict mode, documented to tolerate badly formed UTF-16,
  returns the null CString exactly for the strings that end in a high surrogate.
\<close>

theorem UTF8String_lenient_null:
  "UTF8String False s = None \<longleftrightarrow> s \<noteq> [] \<and> is_high (last s)"
  using convertUTF16ToUTF8_lenient [of s "length s * 3" "[]"]
  by (auto simp: UTF8String_def split: prod.splits if_splits)

lemma equalChars_iff: "equalChars us cs \<longleftrightarrow> us = map ucast cs"
  by (induction us cs rule: equalChars.induct) auto

end
