(* ===== verification/UriCoding.thy ===== *)
theory UriCoding
  imports UStrings
begin

section \<open>URI coding and number parsing (JavaScriptCore/runtime/JSGlobalObjectFunctions.cpp)\<close>

text \<open>
  encode and decode behind encodeURI, encodeURIComponent, decodeURI and
  decodeURIComponent, the legacy pair escape and unescape, and parseInt. The argument is
  the string already converted by toString; \<open>None\<close> is the thrown URIError. A pointer
  \<open>d + k\<close> with the bound \<open>k <= len - n\<close> is the rest of the string with at least \<open>n\<close> units.
\<close>

subsection \<open>Encoding\<close>

text \<open>The formats \<open>%02X\<close> and \<open>%04X\<close> of the C library.\<close>

definition hexUpper :: "nat \<Rightarrow> uchar" where
  "hexUpper n = (if n < 10 then of_nat (0x30 + n) else of_nat (0x41 + (n - 10)))"

definition format02X :: "nat \<Rightarrow> uchar list" where
  "format02X c = [hexUpper (c div 16), hexUpper (c mod 16)]"

definition format04X :: "nat \<Rightarrow> uchar list" where
  "format04X u = [hexUpper (u div 4096), hexUpper (u div 256 mod 16), hexUpper (u div 16 mod 16), hexUpper (u mod 16)]"

fun encodeBytes :: "byte list \<Rightarrow> byte list \<Rightarrow> uchar list" where
  "encodeBytes doNotEscape [] = []"
| "encodeBytes doNotEscape (c # p) =
     (if c \<noteq> 0 \<and> c \<in> set doNotEscape then ucast c # encodeBytes doNotEscape p
      else (0x25 # format02X (unat c)) @ encodeBytes doNotEscape p)"

definition encode :: "uchar list \<Rightarrow> byte list \<Rightarrow> uchar list option" where
  "encode str doNotEscape =
     (case UTF8String True str of
        None \<Rightarrow> None
      | Some cstr \<Rightarrow> Some (encodeBytes doNotEscape cstr))"

definition alphanumerics :: "byte list" where
  "alphanumerics = bstr (''ABCDEFGHIJKLMNOPQRSTUVWXYZ'' @ ''abcdefghijklmnopqrstuvwxyz'' @ ''0123456789'')"

definition do_not_escape_when_encoding_URI :: "byte list" where
  "do_not_escape_when_encoding_URI = alphanumerics @ bstr (''!#$&'' @ [CHR 0x27] @ ''()*+,-./:;=?@_~'')"

definition do_not_escape_when_encoding_URI_component :: "byte list" where
  "do_not_escape_when_encoding_URI_component = alphanumerics @ bstr (''!'' @ [CHR 0x27] @ ''()*-._~'')"

definition globalFuncEncodeURI :: "uchar list \<Rightarrow> uchar list option" where
  "globalFuncEncodeURI str = encode str do_not_escape_when_encoding_URI"

definition globalFuncEncodeURIComponent :: "uchar list \<Rightarrow> uchar list option" where
  "globalFuncEncodeURIComponent str = encode str do_not_escape_when_encoding_URI_component"

subsection \<open>Decoding\<close>

text \<open>The loop over the further escapes of one sequence; \<open>None\<close> clears charLen.\<close>

fun readEscapes :: "nat \<Rightarrow> uchar list \<Rightarrow> byte list option" where
  "readEscapes 0 q = Some []"
| "readEscapes (Suc n) q =
     (if q ! 0 = 0x25 \<and> isASCIIHexDigit (q ! 1) \<and> isASCIIHexDigit (q ! 2)
      then map_option ((#) (convertHex (q ! 1) (q ! 2))) (readEscapes n (drop 3 q))
      else None)"

text \<open>
  The block that sets charLen: the number of units of the escape, the unit appended for
  the first half of a pair, and the unit \<open>u\<close>. \<open>None\<close> is charLen = 0.
\<close>

definition decodeEscape :: "uchar list \<Rightarrow> (nat \<times> uchar list \<times> uchar) option" where
  "decodeEscape p =
     (if 3 \<le> length p \<and> isASCIIHexDigit (p ! 1) \<and> isASCIIHexDigit (p ! 2) then
        let b0 = convertHex (p ! 1) (p ! 2);
            sequenceLen = nat (UTF8SequenceLength b0)
        in if sequenceLen \<noteq> 0 \<and> sequenceLen * 3 \<le> length p then
             case readEscapes (sequenceLen - 1) (drop 3 p) of
               None \<Rightarrow> None
             | Some bs \<Rightarrow>
                 (case decodeUTF8Sequence (b0 # bs @ [0]) of
                    None \<Rightarrow> None
                  | Some character \<Rightarrow>
                      if character < 0 \<or> 0x110000 \<le> character then None
                      else if 0x10000 \<le> character then
                        Some (sequenceLen * 3,
                          [of_int (0xD800 OR drop_bit 10 (character - 0x10000))],
                          of_int (0xDC00 OR ((character - 0x10000) AND 0x3FF)))
                      else Some (sequenceLen * 3, [], of_int character))
           else None
      else None)"

function decodeLoop :: "byte list \<Rightarrow> bool \<Rightarrow> uchar list \<Rightarrow> uchar list option" where
  "decodeLoop doNotUnescape strict p =
     (if p = [] then Some []
      else let c = hd p in
        if c \<noteq> 0x25 then map_option ((#) c) (decodeLoop doNotUnescape strict (tl p))
        else case decodeEscape p of
          None \<Rightarrow>
            if strict then None
            else if 6 \<le> length p \<and> p ! 1 = 0x75 \<and> isASCIIHexDigit (p ! 2) \<and> isASCIIHexDigit (p ! 3)
                \<and> isASCIIHexDigit (p ! 4) \<and> isASCIIHexDigit (p ! 5) then
              let u = convertUnicode (p ! 2) (p ! 3) (p ! 4) (p ! 5) in
              if u = 0 \<or> 128 \<le> u \<or> ucast u \<notin> set doNotUnescape
              then map_option ((#) u) (decodeLoop doNotUnescape strict (drop (Suc 5) p))
              else map_option ((#) c) (decodeLoop doNotUnescape strict (tl p))
            else map_option ((#) c) (decodeLoop doNotUnescape strict (tl p))
        | Some (charLen, pre, u) \<Rightarrow>
            if u = 0 \<or> 128 \<le> u \<or> ucast u \<notin> set doNotUnescape
            then map_option ((@) (pre @ [u])) (decodeLoop doNotUnescape strict (drop (Suc (charLen - 1)) p))
            else map_option ((@) (pre @ [c])) (decodeLoop doNotUnescape strict (tl p)))"
  by pat_completeness auto
termination
  by (relation "measure (\<lambda>(doNotUnescape, strict, p). length p)") (auto simp: neq_Nil_conv)

declare decodeLoop.simps [simp del]

definition decode :: "uchar list \<Rightarrow> byte list \<Rightarrow> bool \<Rightarrow> uchar list option" where
  "decode str doNotUnescape strict = decodeLoop doNotUnescape strict str"

definition do_not_unescape_when_decoding_URI :: "byte list" where
  "do_not_unescape_when_decoding_URI = bstr ''#$&+,/:;=?@''"

definition globalFuncDecodeURI :: "uchar list \<Rightarrow> uchar list option" where
  "globalFuncDecodeURI str = decode str do_not_unescape_when_decoding_URI True"

definition globalFuncDecodeURIComponent :: "uchar list \<Rightarrow> uchar list option" where
  "globalFuncDecodeURIComponent str = decode str [] True"

subsection \<open>The legacy pair\<close>

definition do_not_escape :: "byte list" where
  "do_not_escape = alphanumerics @ bstr ''*+-./@_''"

fun globalFuncEscape :: "uchar list \<Rightarrow> uchar list" where
  "globalFuncEscape [] = []"
| "globalFuncEscape (u # c) =
     (if 255 < u then (0x25 # 0x75 # format04X (unat u)) @ globalFuncEscape c
      else if u \<noteq> 0 \<and> ucast u \<in> set do_not_escape then u # globalFuncEscape c
      else (0x25 # format02X (unat u)) @ globalFuncEscape c)"

function globalFuncUnescape :: "uchar list \<Rightarrow> uchar list" where
  "globalFuncUnescape c =
     (if c = [] then []
      else if c ! 0 = 0x25 \<and> 6 \<le> length c \<and> c ! 1 = 0x75 then
        (if isASCIIHexDigit (c ! 2) \<and> isASCIIHexDigit (c ! 3) \<and> isASCIIHexDigit (c ! 4) \<and> isASCIIHexDigit (c ! 5)
         then convertUnicode (c ! 2) (c ! 3) (c ! 4) (c ! 5) # globalFuncUnescape (drop 6 c)
         else hd c # globalFuncUnescape (tl c))
      else if c ! 0 = 0x25 \<and> 3 \<le> length c \<and> isASCIIHexDigit (c ! 1) \<and> isASCIIHexDigit (c ! 2) then
        ucast (convertHex (c ! 1) (c ! 2)) # globalFuncUnescape (drop 3 c)
      else hd c # globalFuncUnescape (tl c))"
  by pat_completeness auto
termination by (relation "measure length") (auto simp: neq_Nil_conv)

declare globalFuncUnescape.simps [simp del]

subsection \<open>parseInt\<close>

text \<open>isSeparatorSpace is the Unicode library's test for category Zs, a parameter.\<close>

definition isStrWhiteSpace :: "(uchar \<Rightarrow> bool) \<Rightarrow> uchar \<Rightarrow> bool" where
  "isStrWhiteSpace isSeparatorSpace c =
     (if c \<in> {0x0009, 0x000A, 0x000B, 0x000C, 0x000D, 0x0020, 0x00A0, 0x2028, 0x2029} then True
      else 0xFF < c \<and> isSeparatorSpace c)"

definition parseDigit :: "uchar \<Rightarrow> int \<Rightarrow> int" where
  "parseDigit c radix =
     (let digit = (if 0x30 \<le> c \<and> c \<le> 0x39 then uint c - 0x30
        else if 0x41 \<le> c \<and> c \<le> 0x5A then uint c - 0x41 + 10
        else if 0x61 \<le> c \<and> c \<le> 0x7A then uint c - 0x61 + 10
        else -1)
      in if radix \<le> digit then -1 else digit)"

text \<open>
  The result of parseInt. The loop adds up the digits in a double, exactly below 2^53
  (mantissaOverflowLowerBound); from there on the value is recomputed by strtod or
  parseIntOverflow, or stays rounded: \<open>Overflowed\<close> keeps the sign, the radix and the digits
  that floating-point evaluation starts from.
\<close>

datatype parsed = NotANumber | Number int nat | Overflowed int int "int list"

fun parseDigits :: "int \<Rightarrow> uchar list \<Rightarrow> int list" where
  "parseDigits radix [] = []"
| "parseDigits radix (c # data) =
     (let digit = parseDigit c radix in if digit = -1 then [] else digit # parseDigits radix data)"

definition parseInt :: "(uchar \<Rightarrow> bool) \<Rightarrow> uchar list \<Rightarrow> int \<Rightarrow> parsed" where
  "parseInt isSeparatorSpace s radix =
     (let p = dropWhile (isStrWhiteSpace isSeparatorSpace) s;
          (sign, p) = (if p \<noteq> [] \<and> hd p = 0x2B then (1, tl p)
             else if p \<noteq> [] \<and> hd p = 0x2D then (-1, tl p)
             else (1, p));
          (radix, p) = (if (radix = 0 \<or> radix = 16) \<and> 2 \<le> length p \<and> p ! 0 = 0x30 \<and> (p ! 1 = 0x78 \<or> p ! 1 = 0x58)
             then (16, drop 2 p)
             else if radix = 0 then (if p \<noteq> [] \<and> p ! 0 = 0x30 then (8, p) else (10, p))
             else (radix, p))
      in if radix < 2 \<or> 36 < radix then NotANumber
         else let digits = parseDigits radix p;
                  number = foldl (\<lambda>n d. n * radix + d) 0 digits
           in if digits = [] then NotANumber
              else if 9007199254740992 \<le> number then Overflowed sign radix digits
              else Number sign (nat number))"

subsection \<open>Escapes\<close>

lemma nibble_cases: "n < 16 \<Longrightarrow> P 0 \<Longrightarrow> P 1 \<Longrightarrow> P 2 \<Longrightarrow> P 3 \<Longrightarrow> P 4 \<Longrightarrow> P 5 \<Longrightarrow> P 6 \<Longrightarrow> P 7 \<Longrightarrow> P 8 \<Longrightarrow> P 9 \<Longrightarrow>
   P 10 \<Longrightarrow> P 11 \<Longrightarrow> P 12 \<Longrightarrow> P 13 \<Longrightarrow> P 14 \<Longrightarrow> P 15 \<Longrightarrow> P (n :: nat)"
  by (simp add: eval_nat_numeral less_Suc_eq) blast

lemma hexUpper_digit:
  assumes "n < 16"
  shows "isASCIIHexDigit (hexUpper n)" "toASCIIHexValue (hexUpper n) = of_nat n"
   "hexUpper n \<noteq> 0x75"
  by (rule nibble_cases [OF assms]; simp add: hexUpper_def isASCIIHexDigit_def toASCIIHexValue_def Let_def)+

lemma unat_nibbles:
  assumes "a < 16" "b < 16"
  shows "unat (push_bit 4 (of_nat a) OR of_nat b :: u32) = a * 16 + b"
proof -
  have "unat (push_bit 4 (of_nat a) :: u32) = a * 16"
    using assms by (subst unat_push_bit_small) (simp_all add: unat_of_nat)
  then show ?thesis using assms
    by (subst or_small' [of _ 4]) (simp_all add: unat_of_nat)
qed

text \<open>Two and four digits of known value.\<close>

lemma convertHex_digits:
  assumes "toASCIIHexValue x = of_nat a" "toASCIIHexValue y = of_nat b" "a < 16" "b < 16"
  shows "convertHex x y = of_nat (a * 16 + b)"
  unfolding convertHex_def assms(1,2)
  by (rule ucast_of_natI) (simp add: unat_nibbles assms)

lemma convertHex_hexUpper:
  "a < 16 \<Longrightarrow> b < 16 \<Longrightarrow> convertHex (hexUpper a) (hexUpper b) = of_nat (a * 16 + b)"
  by (rule convertHex_digits) (simp_all add: hexUpper_digit)

lemma convertHex_byte: "convertHex (hexUpper (unat b div 16)) (hexUpper (unat b mod 16)) = b"
proof -
  have "unat b div 16 < 16" "unat b mod 16 < 16" using unat_less_length [of b] by auto
  then show ?thesis by (simp only: convertHex_hexUpper div_mult_mod_eq) simp
qed

lemma convertUnicode_digits:
  assumes "toASCIIHexValue x = of_nat a" "toASCIIHexValue y = of_nat b" "toASCIIHexValue z = of_nat c" "toASCIIHexValue w = of_nat d"
    "a < 16" "b < 16" "c < 16" "d < 16"
  shows "convertUnicode x y z w = of_nat (a * 4096 + b * 256 + c * 16 + d)"
proof -
  have h: "unat (ucast (of_nat (a * 16 + b) :: byte) :: u32) = a * 16 + b" if "a < 16" "b < 16" for a b
    using that by (simp add: unat_ucast_mod unat_of_nat del: of_nat_add of_nat_mult)
  have "unat (push_bit 8 (ucast (of_nat (a * 16 + b) :: byte)) :: u32) = (a * 16 + b) * 256"
    using assms by (subst unat_push_bit_small) (simp_all add: h del: of_nat_add of_nat_mult)
  then have "unat (push_bit 8 (ucast (of_nat (a * 16 + b) :: byte)) OR ucast (of_nat (c * 16 + d) :: byte) :: u32) =
      (a * 16 + b) * 256 + (c * 16 + d)"
    using assms by (subst or_small' [of _ 8]) (simp_all add: h del: of_nat_add of_nat_mult)
  then show ?thesis unfolding convertUnicode_def using assms
    by (intro ucast_of_natI) (simp add: convertHex_digits del: of_nat_add of_nat_mult)
qed

lemma convertUnicode_hexUpper:
  "a < 16 \<Longrightarrow> b < 16 \<Longrightarrow> c < 16 \<Longrightarrow> d < 16 \<Longrightarrow>
   convertUnicode (hexUpper a) (hexUpper b) (hexUpper c) (hexUpper d) = of_nat (a * 4096 + b * 256 + c * 16 + d)"
  by (rule convertUnicode_digits) (simp_all add: hexUpper_digit)


definition percent :: "byte \<Rightarrow> uchar list" where
  "percent b = 0x25 # format02X (unat b)"

lemma percent_Cons:
  "percent b @ q = 0x25 # hexUpper (unat b div 16) # hexUpper (unat b mod 16) # q"
  by (simp add: percent_def format02X_def)

lemma percent_simps [simp]:
  "length (percent b) = 3" "(percent b @ q) ! 0 = 0x25" "isASCIIHexDigit ((percent b @ q) ! Suc 0)"
  "isASCIIHexDigit ((percent b @ q) ! 2)" "convertHex ((percent b @ q) ! Suc 0) ((percent b @ q) ! 2) = b"
  "drop 3 (percent b @ q) = q" "(percent b @ q) ! Suc 0 \<noteq> 0x75" "hd (percent b @ q) = 0x25" "percent b \<noteq> []"
proof -
  have n: "unat b div 16 < 16" "unat b mod 16 < 16" using unat_less_length [of b] by auto
  show "length (percent b) = 3" "percent b \<noteq> []" by (simp_all add: percent_def format02X_def)
  show "(percent b @ q) ! 0 = 0x25" "isASCIIHexDigit ((percent b @ q) ! Suc 0)"
    "isASCIIHexDigit ((percent b @ q) ! 2)" "convertHex ((percent b @ q) ! Suc 0) ((percent b @ q) ! 2) = b"
    "drop 3 (percent b @ q) = q" "(percent b @ q) ! Suc 0 \<noteq> 0x75" "hd (percent b @ q) = 0x25"
    unfolding percent_Cons using n convertHex_byte [of b] by (simp_all add: hexUpper_digit)
qed

lemma readEscapes_percent: "readEscapes (length bs) (concat (map percent bs) @ rest) = Some bs"
  by (induction bs) simp_all

lemma decode_utf8_bytes:
  assumes "scalar c"
  shows "decodeUTF8Sequence (utf8_bytes c @ [0]) = Some (int c)"
proof (cases "c = 0")
  case True
  then show ?thesis using decode1 [of 0 0 "[]"] by (simp add: utf8_bytes_def utf8_of_def)
next
  case False
  have "0 \<notin> set (utf8_of c)" using False by (auto simp: utf8_of_def)
  then have "list_all (\<lambda>b. b \<noteq> 0) (utf8_bytes c)"
    using map_unat_utf8_bytes [OF assms] by (metis (mono_tags, lifting) image_eqI list.set_map list_all_iff unat_0)
  then show ?thesis using decode_terminated [of "utf8_bytes c" "[]"] assms
    by (simp add: map_unat_utf8_bytes scalar_bytes_legal bytes_value_utf8_of)
qed

lemma surrogates_of_int:
  assumes "scalar c" "0x10000 \<le> c"
  shows "[of_int (0xD800 OR drop_bit 10 (int c - 0x10000)), of_int (0xDC00 OR ((int c - 0x10000) AND 0x3FF))] = utf16_units c"
proof -
  define x where "x = c - 0x10000"
  have x: "int c - 0x10000 = int x" "x < 1024 * 1024" using assms by (auto simp: x_def scalar_def)
  have d: "drop_bit 10 (int x) = int (x div 1024)" by (simp add: drop_bit_eq_div zdiv_int)
  have m: "int x AND 0x3FF = int (x mod 1024)"
    using take_bit_eq_mask [of 10 "int x"] by (simp add: mask_eq_exp_minus_1 take_bit_eq_mod zmod_int)
  have o1: "unat ((0xD800 :: uchar) OR of_nat (x div 1024)) = 0xD800 + x div 1024"
    using x by (subst or_small' [of _ 10]) (simp_all add: unat_of_nat)
  have o2: "unat ((0xDC00 :: uchar) OR of_nat (x mod 1024)) = 0xDC00 + x mod 1024"
    using x by (subst or_small' [of _ 10]) (simp_all add: unat_of_nat)
  have "x div 1024 < 1024" "x mod 1024 < 1024" using x by auto
  then have "(0xD800 :: uchar) OR of_nat (x div 1024) = of_nat (0xD800 + x div 1024)"
    "(0xDC00 :: uchar) OR of_nat (x mod 1024) = of_nat (0xDC00 + x mod 1024)"
    by (intro word_eqI_unat, simp add: o1 o2 unat_of_nat del: of_nat_add)+
  then show ?thesis using assms
    by (simp add: x d m of_int_or_eq utf16_units_def utf16_of_def flip: x_def del: of_nat_add)
qed

lemma decodeEscape_percent:
  assumes "scalar c"
  obtains pre u where "decodeEscape (concat (map percent (utf8_bytes c)) @ rest) = Some (3 * length (utf8_bytes c), pre, u)"
    "pre @ [u] = utf16_units c" "c < 0x10000 \<Longrightarrow> unat u = c" "0x10000 \<le> c \<Longrightarrow> 128 \<le> unat u"
proof -
  obtain b bs where b: "utf8_bytes c = b # bs" by (cases "utf8_bytes c") auto
  have l: "nat (UTF8SequenceLength b) = Suc (length bs)" "0 < UTF8SequenceLength b"
    using decodes_length [OF decodes_utf8_bytes [OF assms]] b by (simp_all add: UTF8SequenceLength_eq)
  have d: "decodeUTF8Sequence (b # bs @ [0]) = Some (int c)" using decode_utf8_bytes [OF assms] b by simp
  let ?p = "percent b @ concat (map percent bs) @ rest"
  have len: "length (concat (map percent bs)) = 3 * length bs" by (induction bs) simp_all
  define pre where "pre = (if 0x10000 \<le> c then [of_int (0xD800 OR drop_bit 10 (int c - 0x10000)) :: uchar] else [])"
  define u where "u = (if 0x10000 \<le> c then of_int (0xDC00 OR ((int c - 0x10000) AND 0x3FF)) else of_nat c :: uchar)"
  have "decodeEscape ?p = Some (3 * length (utf8_bytes c), pre, u)"
    using assms unfolding decodeEscape_def percent_simps
    by (simp add: l len readEscapes_percent d b pre_def u_def scalar_def Let_def)
  moreover have "pre @ [u] = utf16_units c"
    using surrogates_of_int [OF assms] by (auto simp: pre_def u_def utf16_units_def utf16_of_def)
  moreover have "c < 0x10000 \<Longrightarrow> unat u = c" by (simp add: u_def unat_of_nat)
  moreover have "0x10000 \<le> c \<Longrightarrow> 128 \<le> unat u"
  proof -
    assume c: "0x10000 \<le> c"
    have "last (utf16_units c) = u" using \<open>pre @ [u] = utf16_units c\<close> by (metis last_snoc)
    then have "u = of_nat (0xDC00 + (c - 0x10000) mod 1024)"
      using c by (simp add: utf16_units_def utf16_of_def del: of_nat_add)
    then show ?thesis by (simp add: unat_of_nat del: of_nat_add)
  qed
  ultimately show ?thesis using that b by simp
qed

subsection \<open>Round trip of the URI functions\<close>

definition component_put :: "byte list \<Rightarrow> nat \<Rightarrow> uchar list" where
  "component_put dne c = encodeBytes dne (utf8_bytes c)"

lemma encodeBytes_append: "encodeBytes dne (xs @ ys) = encodeBytes dne xs @ encodeBytes dne ys"
  by (induction xs) simp_all

lemma encodeBytes_concat: "encodeBytes dne (concat (map utf8_bytes cs)) = concat (map (component_put dne) cs)"
  by (induction cs) (simp_all add: encodeBytes_append component_put_def)

lemma encodeBytes_percent:
  "list_all (\<lambda>b. b = 0 \<or> b \<notin> set dne) bs \<Longrightarrow> encodeBytes dne bs = concat (map percent bs)"
  by (induction bs) (auto simp: percent_def)

definition uri_sets :: "byte list \<Rightarrow> byte list \<Rightarrow> bool" where
  "uri_sets dne dnu \<longleftrightarrow> list_all (\<lambda>b. b < 0x80 \<and> b \<noteq> 0x25) dne \<and> set dnu \<subseteq> set dne"

lemma utf8_bytes_high: "scalar c \<Longrightarrow> 0x80 \<le> c \<Longrightarrow> b \<in> set (utf8_bytes c) \<Longrightarrow> 0x80 \<le> unat b"
proof -
  assume s: "scalar c" "0x80 \<le> c" "b \<in> set (utf8_bytes c)"
  then have "unat b \<in> set (utf8_of c)" using map_unat_utf8_bytes [of c] by (metis image_eqI list.set_map)
  then show ?thesis using s by (auto simp: utf8_of_def split: if_splits)
qed

lemma decodeLoop_put:
  assumes "scalar c" "uri_sets dne dnu"
  shows "decodeLoop dnu strict (component_put dne c @ rest) = map_option ((@) (utf16_units c)) (decodeLoop dnu strict rest)"
proof (cases "c \<noteq> 0 \<and> c < 0x80 \<and> of_nat c \<in> set dne")
  case True
  then have "utf8_bytes c = [of_nat c]" "utf16_units c = [of_nat c]" by (auto simp: utf8_bytes_def utf8_of_def utf16_units_def utf16_of_def)
  moreover have "(of_nat c :: byte) \<noteq> 0" using True by (simp add: word_unat_eq_iff unat_of_nat)
  moreover have "(of_nat c :: byte) \<noteq> 0x25" using True assms(2) by (auto simp: uri_sets_def list_all_iff)
  then have "(of_nat c :: uchar) \<noteq> 0x25" using True by (simp add: word_unat_eq_iff unat_of_nat)
  moreover have "ucast (of_nat c :: byte) = (of_nat c :: uchar)" using True by (intro ucast_of_natI) (simp add: unat_of_nat)
  moreover have "(@) [of_nat c :: uchar] = (#) (of_nat c)" by auto
  ultimately show ?thesis using True by (subst decodeLoop.simps) (simp add: component_put_def)
next
  case False
  have low: "unat b < 0x80" if "b \<in> set dne" for b
    using assms(2) that by (auto simp: uri_sets_def list_all_iff word_less_nat_alt)
  have "list_all (\<lambda>b. b = 0 \<or> b \<notin> set dne) (utf8_bytes c)"
  proof (cases "c < 0x80")
    case True
    then show ?thesis using False by (auto simp: utf8_bytes_def utf8_of_def)
  next
    case c: False
    then show ?thesis using low utf8_bytes_high [OF assms(1)] by (force simp: list_all_iff)
  qed
  then have p: "component_put dne c = concat (map percent (utf8_bytes c))"
    by (simp add: component_put_def encodeBytes_percent)
  obtain pre u where e: "decodeEscape (concat (map percent (utf8_bytes c)) @ rest) = Some (3 * length (utf8_bytes c), pre, u)"
    "pre @ [u] = utf16_units c" "c < 0x10000 \<Longrightarrow> unat u = c" "0x10000 \<le> c \<Longrightarrow> 128 \<le> unat u"
    using decodeEscape_percent [OF assms(1)] by metis
  have chk: "u = 0 \<or> 128 \<le> u \<or> ucast u \<notin> set dnu"
  proof (cases "c < 0x80")
    case True
    then have u: "unat u = c" using e(3) by simp
    then have "(ucast u :: byte) = of_nat c" by (intro ucast_of_natI) simp
    then show ?thesis using False True u assms(2) by (auto simp: uri_sets_def word_unat_eq_iff)
  next
    case False
    then show ?thesis using e(3,4) by (cases "c < 0x10000") (auto simp: word_le_nat_alt)
  qed
  have len: "length (concat (map percent bs)) = 3 * length bs" for bs by (induction bs) simp_all
  have n: "Suc (3 * length (utf8_bytes c) - 1) = length (concat (map percent (utf8_bytes c)))"
    by (cases "utf8_bytes c") (auto simp: len)
  have ne: "concat (map percent (utf8_bytes c)) @ rest \<noteq> []" "hd (concat (map percent (utf8_bytes c)) @ rest) = 0x25"
    by (cases "utf8_bytes c"; simp)+
  show ?thesis unfolding p
    by (subst decodeLoop.simps) (simp only: ne e(1) n if_False Let_def simp_thms option.case prod.case chk if_True e(2) append_eq_conv_conj drop_append, simp)
qed

lemma decodeLoop_Nil: "decodeLoop dnu strict [] = Some []"
  by (simp add: decodeLoop.simps)

lemma uri_sets_URI: "uri_sets do_not_escape_when_encoding_URI do_not_unescape_when_decoding_URI"
  unfolding uri_sets_def by code_simp

lemma uri_sets_component: "uri_sets do_not_escape_when_encoding_URI_component []"
  unfolding uri_sets_def by code_simp

interpretation decode_uri: stream_decoder scalar "component_put do_not_escape_when_encoding_URI" utf16_units
    "decodeLoop do_not_unescape_when_decoding_URI strict" for strict
  by unfold_locales (simp_all add: decodeLoop_Nil decodeLoop_put uri_sets_URI)

interpretation decode_component: stream_decoder scalar "component_put do_not_escape_when_encoding_URI_component" utf16_units
    "decodeLoop [] strict" for strict
  by unfold_locales (simp_all add: decodeLoop_Nil decodeLoop_put uri_sets_component)

text \<open>
  encodeURIComponent throws exactly for the strings that are not well-formed UTF-16,
  and decodeURIComponent turns every string it returns back into the argument, whatever
  characters the argument holds.
\<close>

theorem encodeURIComponent_roundtrip:
  "(case globalFuncEncodeURIComponent s of
      None \<Rightarrow> \<nexists>cs. list_all scalar cs \<and> s = concat (map utf16_units cs)
    | Some t \<Rightarrow> (\<exists>cs. list_all scalar cs \<and> s = concat (map utf16_units cs)) \<and> globalFuncDecodeURIComponent t = Some s)"
  by (auto simp: globalFuncEncodeURIComponent_def globalFuncDecodeURIComponent_def encode_def decode_def
      UTF8String_strict UTF8String_strict_None encodeBytes_concat decode_component.run_all split: option.splits)


text \<open>
  C34: encodeURI throws exactly for the strings that are not well-formed UTF-16: it fails on none but these and
  succeeds on none of these. And decodeURI turns every string it returns back into the argument, although decodeURI
  keeps the escapes of the reserved characters.
\<close>

theorem encodeURI_roundtrip:
  "(case globalFuncEncodeURI s of
      None \<Rightarrow> \<nexists>cs. list_all scalar cs \<and> s = concat (map utf16_units cs)
    | Some t \<Rightarrow> (\<exists>cs. list_all scalar cs \<and> s = concat (map utf16_units cs)) \<and> globalFuncDecodeURI t = Some s)"
  by (auto simp: globalFuncEncodeURI_def globalFuncDecodeURI_def encode_def decode_def
      UTF8String_strict UTF8String_strict_None encodeBytes_concat decode_uri.run_all split: option.splits)

subsection \<open>Round trip of the legacy pair\<close>

definition escape_put :: "uchar \<Rightarrow> uchar list" where
  "escape_put u = globalFuncEscape [u]"

lemma globalFuncEscape_concat: "globalFuncEscape s = concat (map escape_put s)"
  by (induction s) (simp_all add: escape_put_def)

lemma do_not_escape_plain: "list_all (\<lambda>b. b \<noteq> 0x25 \<and> b < 0x80) do_not_escape"
  by code_simp

lemma globalFuncUnescape_put:
  "globalFuncUnescape (escape_put u @ rest) = u # globalFuncUnescape rest"
proof -
  have l: "unat u < 65536" using unat_less_length [of u] by simp
  consider "255 < u" | "u \<le> 255" "u \<noteq> 0" "ucast u \<in> set do_not_escape" | "u \<le> 255" "u = 0 \<or> ucast u \<notin> set do_not_escape"
    by fastforce
  then show ?thesis
  proof cases
    case 1
    have n: "unat u div 4096 < 16" "unat u div 256 mod 16 < 16" "unat u div 16 mod 16 < 16" "unat u mod 16 < 16"
      using l by auto
    have "unat u div 4096 * 4096 + unat u div 256 mod 16 * 256 + unat u div 16 mod 16 * 16 + unat u mod 16 = unat u"
    proof -
      have "unat u div 16 * 16 + unat u mod 16 = unat u" by simp
      moreover have "unat u div 256 * 16 + unat u div 16 mod 16 = unat u div 16"
        using div_mult_mod_eq [of "unat u div 16" 16] by (simp add: div_mult2_eq [symmetric])
      moreover have "unat u div 4096 * 16 + unat u div 256 mod 16 = unat u div 256"
        using div_mult_mod_eq [of "unat u div 256" 16] by (simp add: div_mult2_eq [symmetric])
      ultimately show ?thesis by linarith
    qed
    then have "convertUnicode (hexUpper (unat u div 4096)) (hexUpper (unat u div 256 mod 16)) (hexUpper (unat u div 16 mod 16))
        (hexUpper (unat u mod 16)) = u"
      using n by (simp only: convertUnicode_hexUpper) simp
    then show ?thesis using 1 n
      by (subst globalFuncUnescape.simps) (simp add: escape_put_def format04X_def hexUpper_digit)
  next
    case 2
    then have "unat u < 256" by (simp add: word_le_nat_alt)
    moreover have "(ucast u :: byte) \<noteq> 0x25" using 2 do_not_escape_plain by (auto simp: list_all_iff)
    ultimately have "u \<noteq> 0x25" by (auto simp: word_unat_eq_iff unat_ucast_mod)
    moreover have "\<not> 255 < u" using 2 by (simp add: not_less)
    ultimately show ?thesis using 2
      by (subst globalFuncUnescape.simps) (simp add: escape_put_def)
  next
    case 3
    then have b: "unat u < 256" by (simp add: word_le_nat_alt)
    then have u: "unat (ucast u :: byte) = unat u" by (simp add: unat_ucast_mod)
    have n: "unat u div 16 < 16" "unat u mod 16 < 16" using b by auto
    have "convertHex (hexUpper (unat u div 16)) (hexUpper (unat u mod 16)) = ucast u"
      using convertHex_byte [of "ucast u"] by (simp add: u)
    moreover have "ucast (ucast u :: byte) = u" using u by (intro word_eqI_unat) (simp add: unat_ucast_mod)
    moreover have "\<not> 255 < u" using 3 by (simp add: not_less)
    ultimately show ?thesis using 3 n
      by (subst globalFuncUnescape.simps) (auto simp add: escape_put_def format02X_def hexUpper_digit)
  qed
qed

interpretation unescape: stream_decoder "\<lambda>u. True" escape_put "\<lambda>u. [u]" "\<lambda>s. Some (globalFuncUnescape s)"
  by unfold_locales (simp_all add: globalFuncUnescape_put globalFuncUnescape.simps [of "[]"])

text \<open>
  unescape is a left inverse of escape on every string of UTF-16 units, lone
  surrogates included.
\<close>

theorem unescape_escape: "globalFuncUnescape (globalFuncEscape s) = s"
  using unescape.run_all [of s] by (simp add: globalFuncEscape_concat list_all_iff)

subsection \<open>Parsing printed numbers\<close>

lemma parseDigit_decimal: "is_digit c \<Longrightarrow> parseDigit c 10 = int (unat c - 0x30)"
proof -
  assume d: "is_digit c"
  then have "uint c \<le> 57" unfolding is_digit_def uint_nat by linarith
  then show ?thesis using d by (simp add: parseDigit_def is_digit_def word_le_nat_alt of_nat_diff Let_def)
qed

lemma parseDigits_decimal:
  "list_all is_digit s \<Longrightarrow> parseDigits 10 s = map (\<lambda>c. int (unat c - 0x30)) s"
  by (induction s) (simp_all add: parseDigit_decimal Let_def)

lemma foldl_decimal: "foldl (\<lambda>n d. n * 10 + d) (int i) (map (\<lambda>c. int (unat c - 0x30)) s) = int (dec_value i s)"
proof (induction s arbitrary: i)
  case (Cons c s)
  show ?case using Cons [of "i * 10 + (unat c - 0x30)"] by simp
qed simp

lemma parseInt_digits:
  assumes "s \<noteq> []" "list_all is_digit s" "dec_value 0 s < 9007199254740992"
  shows "parseInt isSep s 10 = Number 1 (dec_value 0 s)"
    "parseInt isSep (0x2D # s) 10 = Number (-1) (dec_value 0 s)"
proof -
  obtain c t where s: "s = c # t" using assms(1) by (cases s) auto
  have c: "0x30 \<le> unat c" "unat c \<le> 0x39" using assms(2) by (auto simp: s is_digit_def)
  have "\<not> isStrWhiteSpace isSep c" "c \<noteq> 0x2B" "c \<noteq> 0x2D" "\<not> isStrWhiteSpace isSep 0x2D"
    using c by (auto simp: isStrWhiteSpace_def word_unat_eq_iff word_less_nat_alt)
  then show "parseInt isSep s 10 = Number 1 (dec_value 0 s)" "parseInt isSep (0x2D # s) 10 = Number (-1) (dec_value 0 s)"
    using assms(3) foldl_decimal [of 0 s] unfolding parseInt_def
    by (simp_all add: s parseDigits_decimal [OF assms(2), unfolded s] Let_def del: parseDigits.simps)
qed

lemma fromDigits_bound: "list_all is_digit (fromDigits n []) \<and> dec_value 0 (fromDigits n []) = n"
  using fromDigits_spec [of n] by (cases "n = 0") simp_all

text \<open>
  parseInt with radix 10 reads the decimal form that UString::from gives a 32-bit
  integer back as that integer, INT_MIN included.
\<close>

theorem parseInt_from_int:
  "parseInt isSep (from_int i) 10 = Number (if sint i < 0 then -1 else 1) (nat \<bar>sint i\<bar>)"
proof -
  have r: "nat \<bar>sint i\<bar> < 9007199254740992" using sint_ge [of i] sint_lt [of i] by auto
  consider "i = 0" | "sint i = -2147483648" | "sint i < 0" "sint i \<noteq> -2147483648" | "0 < sint i"
    by (metis linorder_neqE_linordered_idom signed_0 signed_eq_0_iff)
  then show ?thesis
  proof cases
    case 1
    then show ?thesis using parseInt_digits(1) [of "[0x30]"] by (simp add: from_int_def is_digit_def)
  next
    case 2
    then have "i \<noteq> 0" by auto
    have u: "ustr ''-2147483648'' = 0x2D # ustr ''2147483648''" by (simp add: ustr_def)
    have "list_all is_digit (ustr ''2147483648'')" "dec_value 0 (ustr ''2147483648'') = 2147483648"
      by (simp_all add: ustr_def is_digit_def)
    then show ?thesis using 2 \<open>i \<noteq> 0\<close> parseInt_digits(2) [of "ustr ''2147483648''"]
      by (simp add: from_int_def u) (simp add: ustr_def)
  next
    case 3
    then have "i \<noteq> 0" by auto
    then show ?thesis using 3 r fromDigits_spec [of "nat (- sint i)"] parseInt_digits(2) [of "fromDigits (nat (- sint i)) []"]
      by (simp add: from_int_def)
  next
    case 4
    then have "i \<noteq> 0" by auto
    then show ?thesis using 4 r fromDigits_spec [of "nat (sint i)"] parseInt_digits(1) [of "fromDigits (nat (sint i)) []"]
      by (simp add: from_int_def)
  qed
qed

end
