(* ===== verification/Json.thy ===== *)
theory Json
  imports UriCoding
begin

section \<open>The JSON parser (JavaScriptCore/runtime/LiteralParser.cpp)\<close>

text \<open>
  The lexer and the table-driven parser behind JSON.parse and the fast path of eval, and
  the quoting of strings of JSON.stringify. The lexer state is what is left of the source
  from \<open>m_ptr\<close> on; a token keeps what the parser reads of it. A number is kept as the text
  that the code hands to WTF::strtod. The parser is a machine with explicit stacks; an
  array or object under construction is on the object stack only, so it is a value there.
\<close>

datatype ParserMode = StrictJSON | NonStrictJSON

datatype TokenType = TokLBracket | TokRBracket | TokLBrace | TokRBrace | TokString | TokIdentifier | TokNumber
  | TokColon | TokLParen | TokRParen | TokComma | TokTrue | TokFalse | TokNull | TokEnd | TokError

record LiteralParserToken =
  token_type :: TokenType
  stringToken :: "uchar list"
  numberToken :: "uchar list"

subsection \<open>Strings\<close>

definition isSafeStringCharacter :: "ParserMode \<Rightarrow> uchar \<Rightarrow> bool" where
  "isSafeStringCharacter mode c \<longleftrightarrow>
     (0x20 \<le> c \<and> (mode = StrictJSON \<or> c \<le> 0xFF) \<and> c \<noteq> 0x5C \<and> c \<noteq> 0x22) \<or> c = 0x09"

text \<open>
  The switch after a backslash: the unit appended, or \<open>None\<close> for TokError, and the rest
  of the source in either case.
\<close>

definition lexEscape :: "uchar list \<Rightarrow> uchar option \<times> uchar list" where
  "lexEscape p =
     (case p of
        [] \<Rightarrow> (None, p)
      | c # q \<Rightarrow>
          if c = 0x22 then (Some 0x22, q)
          else if c = 0x5C then (Some 0x5C, q)
          else if c = 0x2F then (Some 0x2F, q)
          else if c = 0x62 then (Some 0x08, q)
          else if c = 0x66 then (Some 0x0C, q)
          else if c = 0x6E then (Some 0x0A, q)
          else if c = 0x72 then (Some 0x0D, q)
          else if c = 0x74 then (Some 0x09, q)
          else if c = 0x75 then
            (if length p < 5 then (None, p)
             else if \<not> (isASCIIHexDigit (p ! 1) \<and> isASCIIHexDigit (p ! 2) \<and> isASCIIHexDigit (p ! 3) \<and> isASCIIHexDigit (p ! 4))
             then (None, p)
             else (Some (convertUnicode (p ! 1) (p ! 2) (p ! 3) (p ! 4)), drop 5 p))
          else (None, p))"

lemma lexEscape_length: "lexEscape p = (Some c, q) \<Longrightarrow> length q < length p"
  by (auto simp: lexEscape_def split: list.splits if_splits)

text \<open>The do loop of lexString from one runStart on, with the string built so far.\<close>

function lexStringLoop :: "ParserMode \<Rightarrow> uchar list \<Rightarrow> uchar list \<Rightarrow> uchar list option \<times> uchar list" where
  "lexStringLoop mode p builder =
     (let q = dropWhile (isSafeStringCharacter mode) p;
          builder = builder @ takeWhile (isSafeStringCharacter mode) p
      in if mode = StrictJSON \<and> q \<noteq> [] \<and> hd q = 0x5C then
           (case lexEscape (tl q) of
              (None, r) \<Rightarrow> (None, r)
            | (Some c, r) \<Rightarrow>
                if r \<noteq> [] \<and> hd r \<noteq> 0x22 then lexStringLoop mode r (builder @ [c]) else (Some (builder @ [c]), r))
         else if mode = StrictJSON \<and> length q \<noteq> length p \<and> q \<noteq> [] \<and> hd q \<noteq> 0x22
         then lexStringLoop mode q builder
         else (Some builder, q))"
  by pat_completeness auto
termination
proof (relation "measure (\<lambda>(mode, p, builder). length p)", goal_cases)
  case 1
  then show ?case by simp
next
  case (2 mode p builder q builder' a r c)
  then have "length r < length (tl q)" using lexEscape_length by metis
  moreover have "length q \<le> length p" using 2 length_dropWhile_le by metis
  ultimately show ?case by simp
next
  case (3 mode p builder q builder')
  then show ?case using length_dropWhile_le [of "isSafeStringCharacter mode" p] by simp
qed

declare lexStringLoop.simps [simp del]

text \<open>lexString from the opening quote on; the token starts as TokError.\<close>

definition lexString :: "ParserMode \<Rightarrow> uchar list \<Rightarrow> LiteralParserToken \<Rightarrow> TokenType \<times> LiteralParserToken \<times> uchar list" where
  "lexString mode p token =
     (case lexStringLoop mode (tl p) [] of
        (None, r) \<Rightarrow> (TokError, token, r)
      | (Some s, r) \<Rightarrow>
          if r = [] \<or> hd r \<noteq> 0x22 then (TokError, token, r)
          else (TokString, token\<lparr>stringToken := s, token_type := TokString\<rparr>, tl r))"

subsection \<open>Numbers\<close>

text \<open>The loop \<open>while (m_ptr < m_end && isASCIIDigit(*m_ptr)) ++m_ptr;\<close>\<close>

definition skipDigits :: "uchar list \<Rightarrow> uchar list" where
  "skipDigits p = dropWhile isASCIIDigit p"

text \<open>The three parts of a number: the source left, or \<open>Inl\<close> with the source left at the error.\<close>

definition lexInt :: "uchar list \<Rightarrow> uchar list + uchar list" where
  "lexInt p =
     (let p = (if p \<noteq> [] \<and> hd p = 0x2D then tl p else p) in
      if p \<noteq> [] \<and> hd p = 0x30 then Inr (tl p)
      else if p \<noteq> [] \<and> 0x31 \<le> hd p \<and> hd p \<le> 0x39 then Inr (skipDigits (tl p))
      else Inl p)"

definition lexFrac :: "uchar list \<Rightarrow> uchar list + uchar list" where
  "lexFrac p =
     (if p \<noteq> [] \<and> hd p = 0x2E then
        let p = tl p in if p = [] \<or> \<not> isASCIIDigit (hd p) then Inl p else Inr (skipDigits (tl p))
      else Inr p)"

definition lexExp :: "uchar list \<Rightarrow> uchar list + uchar list" where
  "lexExp p =
     (if p \<noteq> [] \<and> (hd p = 0x65 \<or> hd p = 0x45) then
        let p = tl p; p = (if p \<noteq> [] \<and> (hd p = 0x2D \<or> hd p = 0x2B) then tl p else p)
        in if p = [] \<or> \<not> isASCIIDigit (hd p) then Inl p else Inr (skipDigits (tl p))
      else Inr p)"

definition lexNumber :: "uchar list \<Rightarrow> LiteralParserToken \<Rightarrow> TokenType \<times> LiteralParserToken \<times> uchar list" where
  "lexNumber p token =
     (case lexInt p of
        Inl r \<Rightarrow> (TokError, token, r)
      | Inr q \<Rightarrow>
          (case lexFrac q of
             Inl r \<Rightarrow> (TokError, token, r)
           | Inr q \<Rightarrow>
               (case lexExp q of
                  Inl r \<Rightarrow> (TokError, token, r)
                | Inr q \<Rightarrow>
                    (TokNumber, token\<lparr>token_type := TokNumber, numberToken := take (length p - length q) p\<rparr>, q))))"

subsection \<open>Tokens\<close>

definition punctuation :: "uchar \<Rightarrow> (TokenType \<times> TokenType) option" where
  "punctuation c =
     (if c = 0x5B then Some (TokLBracket, TokLBracket)
      else if c = 0x5D then Some (TokRBracket, TokRBracket)
      else if c = 0x28 then Some (TokLParen, TokLBracket)
      else if c = 0x29 then Some (TokRParen, TokRBracket)
      else if c = 0x7B then Some (TokLBrace, TokLBrace)
      else if c = 0x7D then Some (TokRBrace, TokRBrace)
      else if c = 0x2C then Some (TokComma, TokComma)
      else if c = 0x3A then Some (TokColon, TokColon)
      else None)"

text \<open>
  What lex returns, the token it stores and the source left. The returned type and the
  stored type of a parenthesis differ: lex returns the type of the bracket.
\<close>

definition lex :: "ParserMode \<Rightarrow> uchar list \<Rightarrow> LiteralParserToken \<Rightarrow> TokenType \<times> LiteralParserToken \<times> uchar list" where
  "lex mode p token =
     (case dropWhile isASCIISpace p of
        [] \<Rightarrow> (TokEnd, token\<lparr>token_type := TokEnd\<rparr>, [])
      | c # q \<Rightarrow>
          let token = token\<lparr>token_type := TokError\<rparr> in
          case punctuation c of
            Some (stored, returned) \<Rightarrow> (returned, token\<lparr>token_type := stored\<rparr>, q)
          | None \<Rightarrow>
              if c = 0x22 then lexString mode (c # q) token
              else if c = 0x74 \<and> take 3 q = [0x72, 0x75, 0x65] then
                (TokTrue, token\<lparr>token_type := TokTrue\<rparr>, drop 3 q)
              else if c = 0x66 \<and> take 4 q = [0x61, 0x6C, 0x73, 0x65] then
                (TokFalse, token\<lparr>token_type := TokFalse\<rparr>, drop 4 q)
              else if c = 0x6E \<and> take 3 q = [0x75, 0x6C, 0x6C] then
                (TokNull, token\<lparr>token_type := TokNull\<rparr>, drop 3 q)
              else if c = 0x2D \<or> isASCIIDigit c then lexNumber (c # q) token
              else (TokError, token, c # q))"

subsection \<open>The parser\<close>

datatype JSValue = JNull | JBoolean bool | JNumber "uchar list" | JString "uchar list"
  | JArray "JSValue list" | JObject "(uchar list \<times> JSValue) list"

datatype ParserState = StartParseObject | StartParseArray | StartParseExpression | StartParseStatement
  | StartParseStatementEndStatement | DoParseObjectStartExpression | DoParseObjectEndExpression
  | DoParseArrayStartExpression | DoParseArrayEndExpression

text \<open>push of an array and putDirect of an object under construction.\<close>

definition push :: "JSValue \<Rightarrow> JSValue \<Rightarrow> JSValue" where
  "push a v = (case a of JArray vs \<Rightarrow> JArray (vs @ [v]) | _ \<Rightarrow> a)"

fun putProperty :: "(uchar list \<times> JSValue) list \<Rightarrow> uchar list \<Rightarrow> JSValue \<Rightarrow> (uchar list \<times> JSValue) list" where
  "putProperty [] k v = [(k, v)]"
| "putProperty ((k', v') # ps) k v = (if k' = k then (k, v) # ps else (k', v') # putProperty ps k v)"

definition putDirect :: "JSValue \<Rightarrow> uchar list \<Rightarrow> JSValue \<Rightarrow> JSValue" where
  "putDirect a k v = (case a of JObject ps \<Rightarrow> JObject (putProperty ps k v) | _ \<Rightarrow> a)"

record Parser =
  m_mode :: ParserMode
  m_ptr :: "uchar list"
  m_currentToken :: LiteralParserToken
  objectStack :: "JSValue list"
  lastValue :: "JSValue option"
  stateStack :: "ParserState list"
  identifierStack :: "uchar list list"

definition next_token :: "Parser \<Rightarrow> TokenType \<times> Parser" where
  "next_token s =
     (let (t, token, p) = lex (m_mode s) (m_ptr s) (m_currentToken s)
      in (t, s\<lparr>m_currentToken := token, m_ptr := p\<rparr>))"

abbreviation currentType :: "Parser \<Rightarrow> TokenType" where
  "currentType s \<equiv> token_type (m_currentToken s)"

text \<open>
  What one entry of the switch in \<open>parse\<close> does: go on in a state, or return a value
  (\<open>None\<close> is the empty JSValue). The top of a stack is the head of its list; \<open>finish\<close> is
  the code behind the switch, which every \<open>break\<close> reaches.
\<close>

datatype outcome = Continue ParserState Parser | Return "JSValue option" Parser

definition finish :: "Parser \<Rightarrow> outcome" where
  "finish s =
     (case stateStack s of
        [] \<Rightarrow> Return (lastValue s) s
      | state # states \<Rightarrow> Continue state (s\<lparr>stateStack := states\<rparr>))"

definition popObject :: "Parser \<Rightarrow> Parser" where
  "popObject s = s\<lparr>lastValue := Some (hd (objectStack s)), objectStack := tl (objectStack s)\<rparr>"

definition startArray :: "Parser \<Rightarrow> outcome" where
  "startArray s = Continue DoParseArrayStartExpression (s\<lparr>objectStack := JArray [] # objectStack s\<rparr>)"

definition arrayStart :: "Parser \<Rightarrow> outcome" where
  "arrayStart s =
     (let lastToken = currentType s; (t, s) = next_token s in
      if t = TokRBracket then
        if lastToken = TokComma then Return None s else finish (popObject (snd (next_token s)))
      else Continue StartParseExpression (s\<lparr>stateStack := DoParseArrayEndExpression # stateStack s\<rparr>))"

definition arrayEnd :: "Parser \<Rightarrow> outcome" where
  "arrayEnd s =
     (let s = s\<lparr>objectStack := push (hd (objectStack s)) (the (lastValue s)) # tl (objectStack s)\<rparr> in
      if currentType s = TokComma then Continue DoParseArrayStartExpression s
      else if currentType s \<noteq> TokRBracket then Return None s
      else finish (popObject (snd (next_token s))))"

text \<open>From the check of the colon on, the two states that start a member are the same.\<close>

definition memberStart :: "Parser \<Rightarrow> outcome" where
  "memberStart s =
     (let identifierToken = m_currentToken s; (t, s) = next_token s in
      if t \<noteq> TokColon then Return None s
      else let s = snd (next_token s)
        in Continue StartParseExpression (s\<lparr>identifierStack := stringToken identifierToken # identifierStack s,
             stateStack := DoParseObjectEndExpression # stateStack s\<rparr>))"

definition startObject :: "Parser \<Rightarrow> outcome" where
  "startObject s =
     (let s = s\<lparr>objectStack := JObject [] # objectStack s\<rparr>; (t, s) = next_token s in
      if t = TokString then memberStart s
      else if t \<noteq> TokRBrace then Return None s
      else finish (popObject (snd (next_token s))))"

definition objectStart :: "Parser \<Rightarrow> outcome" where
  "objectStart s = (let (t, s) = next_token s in if t \<noteq> TokString then Return None s else memberStart s)"

definition objectEnd :: "Parser \<Rightarrow> outcome" where
  "objectEnd s =
     (let s = s\<lparr>objectStack := putDirect (hd (objectStack s)) (hd (identifierStack s)) (the (lastValue s)) # tl (objectStack s),
             identifierStack := tl (identifierStack s)\<rparr> in
      if currentType s = TokComma then Continue DoParseObjectStartExpression s
      else if currentType s \<noteq> TokRBrace then Return None s
      else finish (popObject (snd (next_token s))))"

definition literal :: "JSValue \<Rightarrow> Parser \<Rightarrow> outcome" where
  "literal v s = finish ((snd (next_token s))\<lparr>lastValue := Some v\<rparr>)"

definition startExpression :: "Parser \<Rightarrow> outcome" where
  "startExpression s =
     (case currentType s of
        TokLBracket \<Rightarrow> Continue StartParseArray s
      | TokLBrace \<Rightarrow> Continue StartParseObject s
      | TokString \<Rightarrow> literal (JString (stringToken (m_currentToken s))) s
      | TokNumber \<Rightarrow> literal (JNumber (numberToken (m_currentToken s))) s
      | TokNull \<Rightarrow> literal JNull s
      | TokTrue \<Rightarrow> literal (JBoolean True) s
      | TokFalse \<Rightarrow> literal (JBoolean False) s
      | _ \<Rightarrow> Return None s)"

definition startStatement :: "Parser \<Rightarrow> outcome" where
  "startStatement s =
     (case currentType s of
        TokLBracket \<Rightarrow> Continue StartParseExpression s
      | TokNumber \<Rightarrow> Continue StartParseExpression s
      | TokString \<Rightarrow> Continue StartParseExpression s
      | TokLParen \<Rightarrow>
          let s = snd (next_token s)
          in Continue StartParseExpression (s\<lparr>stateStack := StartParseStatementEndStatement # stateStack s\<rparr>)
      | _ \<Rightarrow> Return None s)"

definition endStatement :: "Parser \<Rightarrow> outcome" where
  "endStatement s =
     (if currentType s \<noteq> TokRParen then Return None s
      else let (t, s) = next_token s in if t = TokEnd then Return (lastValue s) s else Return None s)"

definition step :: "ParserState \<Rightarrow> Parser \<Rightarrow> outcome" where
  "step state s =
     (case state of
        StartParseArray \<Rightarrow> startArray s
      | DoParseArrayStartExpression \<Rightarrow> arrayStart s
      | DoParseArrayEndExpression \<Rightarrow> arrayEnd s
      | StartParseObject \<Rightarrow> startObject s
      | DoParseObjectStartExpression \<Rightarrow> objectStart s
      | DoParseObjectEndExpression \<Rightarrow> objectEnd s
      | StartParseExpression \<Rightarrow> startExpression s
      | StartParseStatement \<Rightarrow> startStatement s
      | StartParseStatementEndStatement \<Rightarrow> endStatement s)"

text \<open>The loop; \<open>None\<close> is a run that never returns.\<close>

partial_function (option) parse :: "ParserState \<Rightarrow> Parser \<Rightarrow> (JSValue option \<times> Parser) option" where
  "parse state s =
     (case step state s of
        Return r s \<Rightarrow> Some (r, s)
      | Continue state s \<Rightarrow> parse state s)"

definition newParser :: "ParserMode \<Rightarrow> uchar list \<Rightarrow> Parser" where
  "newParser m source =
     \<lparr>m_mode = m, m_ptr = source,
      m_currentToken = \<lparr>token_type = TokError, stringToken = [], numberToken = []\<rparr>,
      objectStack = [], lastValue = None, stateStack = [], identifierStack = []\<rparr>"

definition tryLiteralParse :: "ParserMode \<Rightarrow> uchar list \<Rightarrow> JSValue option option" where
  "tryLiteralParse m source =
     (case parse (if m = StrictJSON then StartParseExpression else StartParseStatement)
             (snd (next_token (newParser m source))) of
        None \<Rightarrow> None
      | Some (r, s) \<Rightarrow> Some (if currentType s \<noteq> TokEnd then None else r))"

subsection \<open>Quoting (Stringifier::appendQuotedString in JavaScriptCore/runtime/JSONObject.cpp)\<close>

definition hexDigits :: "uchar list" where
  "hexDigits = ustr ''0123456789abcdef''"

text \<open>The switch: the escape of a unit that is not appended as it is.\<close>

definition escapeUnit :: "uchar \<Rightarrow> uchar list" where
  "escapeUnit c =
     (if c = 0x09 then [0x5C, 0x74]
      else if c = 0x0D then [0x5C, 0x72]
      else if c = 0x0A then [0x5C, 0x6E]
      else if c = 0x0C then [0x5C, 0x66]
      else if c = 0x08 then [0x5C, 0x62]
      else if c = 0x22 then [0x5C, 0x22]
      else if c = 0x5C then [0x5C, 0x5C]
      else [0x5C, 0x75, hexDigits ! unat (drop_bit 12 c AND 0xF), hexDigits ! unat (drop_bit 8 c AND 0xF),
            hexDigits ! unat (drop_bit 4 c AND 0xF), hexDigits ! unat (c AND 0xF)])"

text \<open>
  The loop: a run of plain units is appended at once, then one escape.
\<close>

definition plainUnit :: "uchar \<Rightarrow> bool" where
  "plainUnit c \<longleftrightarrow> 0x1F < c \<and> c \<noteq> 0x22 \<and> c \<noteq> 0x5C"

function quoteLoop :: "uchar list \<Rightarrow> uchar list" where
  "quoteLoop data =
     (let rest = dropWhile plainUnit data in
      takeWhile plainUnit data @ (case rest of [] \<Rightarrow> [] | c # rest \<Rightarrow> escapeUnit c @ quoteLoop rest))"
  by pat_completeness auto
termination
proof (relation "measure length", goal_cases)
  case (2 data rest c rest')
  then have "length (c # rest') \<le> length data" using length_dropWhile_le by metis
  then show ?case by simp
qed simp

declare quoteLoop.simps [simp del]

definition appendQuotedString :: "uchar list \<Rightarrow> uchar list \<Rightarrow> uchar list" where
  "appendQuotedString builder v = builder @ [0x22] @ quoteLoop v @ [0x22]"

subsection \<open>What was quoted is read back\<close>

definition quoted :: "uchar \<Rightarrow> uchar list" where
  "quoted c = (if plainUnit c then [c] else escapeUnit c)"

lemma quoteLoop_Cons: "quoteLoop (c # s) = quoted c @ quoteLoop s"
proof (cases "plainUnit c")
  case True
  then show ?thesis
    by (subst (1 2) quoteLoop.simps) (simp add: quoted_def)
next
  case False
  then show ?thesis by (subst quoteLoop.simps) (simp add: quoted_def)
qed

lemma quoteLoop_concat: "quoteLoop s = concat (map quoted s)"
proof (induction s)
  case Nil
  show ?case by (subst quoteLoop.simps) simp
qed (simp add: quoteLoop_Cons)

lemma plain_safe: "plainUnit c \<Longrightarrow> isSafeStringCharacter StrictJSON c"
  by (auto simp: plainUnit_def isSafeStringCharacter_def word_less_nat_alt word_le_nat_alt)

lemma lexStringLoop_stop:
  "p \<noteq> [] \<Longrightarrow> \<not> isSafeStringCharacter mode (hd p) \<Longrightarrow> hd p \<noteq> 0x5C \<Longrightarrow> lexStringLoop mode p b = (Some b, p)"
  by (subst lexStringLoop.simps) (cases p; simp)

lemma lexStringLoop_quote: "lexStringLoop mode (0x22 # p) b = (Some b, 0x22 # p)"
  by (rule lexStringLoop_stop) (simp_all add: isSafeStringCharacter_def)

lemma lexStringLoop_plain:
  assumes "isSafeStringCharacter StrictJSON c"
  shows "lexStringLoop StrictJSON (c # p) b = lexStringLoop StrictJSON p (b @ [c])"
proof -
  define q where "q = dropWhile (isSafeStringCharacter StrictJSON) p"
  have l: "length q \<le> length p" by (simp add: q_def length_dropWhile_le)
  show ?thesis
  proof (cases "q \<noteq> [] \<and> hd q \<noteq> 0x5C \<and> hd q \<noteq> 0x22")
    case False
    then show ?thesis using assms l
      by (subst (1 2) lexStringLoop.simps) (auto simp: Let_def simp flip: q_def split: option.split prod.split)
  next
    case True
    then have "\<not> isSafeStringCharacter StrictJSON (hd q)" unfolding q_def using hd_dropWhile by metis
    then have s: "lexStringLoop StrictJSON q b' = (Some b', q)" for b' using True by (intro lexStringLoop_stop) auto
    show ?thesis using assms True s l
      by (subst (1 2) lexStringLoop.simps) (simp add: Let_def flip: q_def)
  qed
qed

lemma lexStringLoop_escape:
  assumes "lexEscape e = (Some c, r)" "r \<noteq> []"
  shows "lexStringLoop StrictJSON (0x5C # e) b = lexStringLoop StrictJSON r (b @ [c])"
proof (cases "hd r = 0x22")
  case True
  then show ?thesis using assms lexStringLoop_quote [of StrictJSON "tl r"]
    by (subst lexStringLoop.simps) (cases r; simp add: isSafeStringCharacter_def)
next
  case False
  then show ?thesis using assms by (subst lexStringLoop.simps) (simp add: isSafeStringCharacter_def)
qed

lemma hexDigits_digit:
  assumes "n < 16"
  shows "isASCIIHexDigit (hexDigits ! n)" "toASCIIHexValue (hexDigits ! n) = of_nat n"
  by (rule nibble_cases [OF assms]; simp add: hexDigits_def ustr_def isASCIIHexDigit_def toASCIIHexValue_def Let_def)+

lemma nibbles: "a * 4096 + b * 256 + c * 16 + d = (n :: nat)"
  if "a = n div 4096 mod 16" "b = n div 256 mod 16" "c = n div 16 mod 16" "d = n mod 16" "n < 65536"
proof -
  have "n div 16 * 16 + n mod 16 = n" by simp
  moreover have "n div 256 * 16 + n div 16 mod 16 = n div 16" using div_mult_mod_eq [of "n div 16" 16] by (simp add: div_mult2_eq [symmetric])
  moreover have "n div 4096 * 16 + n div 256 mod 16 = n div 256" using div_mult_mod_eq [of "n div 256" 16] by (simp add: div_mult2_eq [symmetric])
  moreover have "n div 4096 mod 16 = n div 4096" using that by simp
  ultimately show ?thesis unfolding that by linarith
qed

lemma lexEscape_unicode:
  "lexEscape ([0x75, hexDigits ! unat (drop_bit 12 c AND 0xF), hexDigits ! unat (drop_bit 8 c AND 0xF),
      hexDigits ! unat (drop_bit 4 c AND 0xF), hexDigits ! unat (c AND 0xF)] @ r) = (Some c, r)"
proof -
  have n: "unat (drop_bit 12 c AND 0xF) < 16" "unat (drop_bit 8 c AND 0xF) < 16" "unat (drop_bit 4 c AND 0xF) < 16" "unat (c AND 0xF) < 16"
    by (simp_all add: unat_and_15)
  have "unat (drop_bit 12 c AND 0xF) * 4096 + unat (drop_bit 8 c AND 0xF) * 256 + unat (drop_bit 4 c AND 0xF) * 16 + unat (c AND 0xF) = unat c"
    using unat_less_length [of c] by (intro nibbles) (simp_all add: unat_and_15 unat_drop_bit)
  then have "convertUnicode (hexDigits ! unat (drop_bit 12 c AND 0xF)) (hexDigits ! unat (drop_bit 8 c AND 0xF))
      (hexDigits ! unat (drop_bit 4 c AND 0xF)) (hexDigits ! unat (c AND 0xF)) = c"
    using convertUnicode_digits [OF hexDigits_digit(2) [OF n(1)] hexDigits_digit(2) [OF n(2)] hexDigits_digit(2) [OF n(3)] hexDigits_digit(2) [OF n(4)] n]
    by (simp del: of_nat_add of_nat_mult)
  then show ?thesis using n by (simp add: lexEscape_def hexDigits_digit)
qed

lemma lexEscape_unit:
  assumes "\<not> plainUnit c"
  shows "\<exists>e. escapeUnit c = 0x5C # e \<and> lexEscape (e @ r) = (Some c, r)"
  using lexEscape_unicode [of c r]
  by (auto simp: escapeUnit_def) (simp_all add: lexEscape_def)

lemma lexStringLoop_quoted:
  "lexStringLoop StrictJSON (quoteLoop s @ 0x22 # r) b = (Some (b @ s), 0x22 # r)"
proof (induction s arbitrary: b)
  case Nil
  then show ?case by (simp add: quoteLoop_concat lexStringLoop_quote)
next
  case (Cons c s)
  define q where "q = quoteLoop s @ 0x22 # r"
  show ?case
  proof (cases "plainUnit c")
    case True
    then show ?thesis using Cons lexStringLoop_plain [OF plain_safe [OF True]]
      by (simp add: quoteLoop_Cons quoted_def)
  next
    case False
    obtain e where e: "escapeUnit c = 0x5C # e" "lexEscape (e @ q) = (Some c, q)"
      using lexEscape_unit [OF False, of q] by blast
    have "q \<noteq> []" by (simp add: q_def)
    then show ?thesis using Cons [of "b @ [c]"] lexStringLoop_escape [OF e(2)] False
      by (simp add: quoteLoop_Cons quoted_def e(1) flip: q_def)
  qed
qed

lemma lexString_quoted:
  "lexString StrictJSON (appendQuotedString [] s @ r) token = (TokString, token\<lparr>stringToken := s, token_type := TokString\<rparr>, r)"
  by (simp add: lexString_def appendQuotedString_def lexStringLoop_quoted)

end
