(* ===== verification/JsonGrammar.thy ===== *)
theory JsonGrammar
  imports Json
begin

section \<open>What the JSON parser accepts\<close>

text \<open>
  The machine of LiteralParser.cpp against a grammar over tokens. The lexer delivers a
  finite stream of tokens that ends with the end or an error and never makes the machine
  wait; each entry of the switch is a lemma on configurations (the stream to come and the
  three stacks). A text of the grammar drives the machine to its value and leaves its
  stacks alone (\<open>json_run\<close>); a stream that does not start with one makes it return the
  empty value (\<open>starts_all\<close>). So the parser always returns, and with exactly the values
  that the grammar gives.
\<close>

subsection \<open>The parser against the grammar\<close>

text \<open>A token with what it carries, and the type that lex returns for it.\<close>

datatype Token = Punct TokenType | Str "uchar list" | Num "uchar list"

definition tokOf :: "LiteralParserToken \<Rightarrow> Token" where
  "tokOf t = (case token_type t of TokString \<Rightarrow> Str (stringToken t) | TokNumber \<Rightarrow> Num (numberToken t) | k \<Rightarrow> Punct k)"

definition returned :: "TokenType \<Rightarrow> TokenType" where
  "returned t = (case t of TokLParen \<Rightarrow> TokLBracket | TokRParen \<Rightarrow> TokRBracket | _ \<Rightarrow> t)"

lemma skipDigits_length: "length (skipDigits p) \<le> length p"
  by (simp add: skipDigits_def length_dropWhile_le)

lemma lexInt_length: "lexInt p = Inr q \<Longrightarrow> length q < length p"
proof -
  assume a: "lexInt p = Inr q"
  define p' where "p' = (if p \<noteq> [] \<and> hd p = 0x2D then tl p else p)"
  have "length p' \<le> length p" by (simp add: p'_def)
  moreover have "p' \<noteq> []" "q = tl p' \<or> q = skipDigits (tl p')"
    using a by (auto simp: lexInt_def Let_def split: if_splits simp flip: p'_def)
  then have "length q < length p'" using skipDigits_length [of "tl p'"] by (cases p') auto
  ultimately show ?thesis by simp
qed

lemma lexFrac_length: "lexFrac p = Inr q \<Longrightarrow> length q \<le> length p"
  using skipDigits_length [of "tl (tl p)"] by (auto simp: lexFrac_def Let_def split: if_splits)

lemma lexExp_length: "lexExp p = Inr q \<Longrightarrow> length q \<le> length p"
  using skipDigits_length [of "tl (tl p)"] skipDigits_length [of "tl (tl (tl p))"]
  by (auto simp: lexExp_def Let_def split: if_splits)

lemma lexNumber_spec:
  assumes "lexNumber p token = (t, token', q)" "token_type token = TokError"
  shows "t = token_type token' \<and> (t = TokError \<or> t = TokNumber \<and> length q < length p)"
  using assms unfolding lexNumber_def
  by (force split: sum.splits dest: lexInt_length lexFrac_length lexExp_length)

lemma lexStringLoop_length: "lexStringLoop m p b = (Some s, r) \<Longrightarrow> length r \<le> length p"
proof (induction m p b rule: lexStringLoop.induct)
  case (1 m p b)
  define q where "q = dropWhile (isSafeStringCharacter m) p"
  have q: "length q \<le> length p" by (simp add: q_def length_dropWhile_le)
  note IH = 1(1) [OF refl refl, folded q_def] 1(2) [OF refl refl, folded q_def]
  note pr = 1(3) [unfolded lexStringLoop.simps [of m p b], folded q_def]
  consider "m = StrictJSON \<and> q \<noteq> [] \<and> hd q = 0x5C" | "\<not> (m = StrictJSON \<and> q \<noteq> [] \<and> hd q = 0x5C)" by blast
  then show ?case
  proof cases
    case 1
    then obtain c r' where e: "lexEscape (tl q) = (Some c, r')" using pr by (auto simp: Let_def split: prod.splits option.splits)
    have "length r' < length (tl q)" using lexEscape_length [OF e] .
    moreover have "length r \<le> length r'" 
      using IH(1) [OF 1 e [symmetric] refl] pr 1 e by (auto simp: Let_def split: if_splits)
    ultimately show ?thesis using q by simp
  next
    case 2
    show ?thesis using IH(2) [OF 2] pr 2 q by (auto simp: Let_def split: if_splits)
  qed
qed

lemma lexString_spec:
  assumes "lexString m p token = (t, token', q)" "token_type token = TokError" "p \<noteq> []"
  shows "t = token_type token' \<and> (t = TokError \<or> t = TokString \<and> length q < length p)"
proof -
  obtain s r where e: "lexStringLoop m (tl p) [] = (s, r)" by fastforce
  show ?thesis
  proof (cases s)
    case None
    then show ?thesis using assms e by (auto simp: lexString_def)
  next
    case (Some x)
    then have "length r \<le> length (tl p)" using e lexStringLoop_length by blast
    moreover have "length (tl r) \<le> length r" "length (tl p) < length p" using assms(3) by simp_all
    ultimately have "length (tl r) < length p" by linarith
    then show ?thesis using assms e Some by (auto simp: lexString_def split: if_splits)
  qed
qed

lemma punctuation_spec: "punctuation c = Some (s, r) \<Longrightarrow> r = returned s \<and> s \<noteq> TokError"
  by (auto simp: punctuation_def returned_def split: if_splits)

lemma lex_spec:
  assumes "lex m p token = (t, token', q)"
  shows "t = returned (token_type token') \<and>
    (token_type token' \<in> {TokEnd, TokError} \<or> length q < length p)"
proof (cases "dropWhile isASCIISpace p")
  case Nil
  show ?thesis using assms by (auto simp: lex_def Nil returned_def simp del: dropWhile_eq_Nil_conv)
next
  case (Cons c r)
  then have l: "length (c # r) \<le> length p" using length_dropWhile_le by metis
  define tk where "tk = token\<lparr>token_type := TokError\<rparr>"
  have tk: "token_type tk = TokError" by (simp add: tk_def)
  note s = lexString_spec [OF _ tk, of m "c # r" t token' q]
  note n = lexNumber_spec [OF _ tk, of "c # r" t token' q]
  have e: "returned TokError = TokError" "returned TokString = TokString" "returned TokNumber = TokNumber"
    "returned TokTrue = TokTrue" "returned TokFalse = TokFalse" "returned TokNull = TokNull" by (simp_all add: returned_def)
  show ?thesis
  proof (cases "punctuation c")
    case (Some a)
    then show ?thesis using assms l punctuation_spec [of c] by (cases a) (auto simp: lex_def Cons Let_def)
  next
    case None
    have a: "(if c = 0x22 then lexString m (c # r) tk
              else if c = 0x74 \<and> take 3 r = [0x72, 0x75, 0x65] then (TokTrue, tk\<lparr>token_type := TokTrue\<rparr>, drop 3 r)
              else if c = 0x66 \<and> take 4 r = [0x61, 0x6C, 0x73, 0x65] then (TokFalse, tk\<lparr>token_type := TokFalse\<rparr>, drop 4 r)
              else if c = 0x6E \<and> take 3 r = [0x75, 0x6C, 0x6C] then (TokNull, tk\<lparr>token_type := TokNull\<rparr>, drop 3 r)
              else if c = 0x2D \<or> isASCIIDigit c then lexNumber (c # r) tk
              else (TokError, tk, c # r)) = (t, token', q)"
      using assms unfolding lex_def Cons Let_def tk_def by (simp only: list.case option.case None)
    show ?thesis using a l e s n tk by (auto split: if_splits)
  qed
qed

text \<open>The tokens that a lexer state will deliver, the current one first.\<close>

function tokensFrom :: "ParserMode \<Rightarrow> LiteralParserToken \<Rightarrow> uchar list \<Rightarrow> Token list" where
  "tokensFrom m token p =
     tokOf token # (if token_type token = TokEnd \<or> token_type token = TokError then []
       else case lex m p token of (t, token', q) \<Rightarrow> 
         if token_type token' = TokEnd \<or> token_type token' = TokError then [tokOf token'] else tokensFrom m token' q)"
  by pat_completeness auto
termination
  by (relation "measure (\<lambda>(m, token, p). length p)") (auto dest!: lex_spec [OF sym])

declare tokensFrom.simps [simp del]

definition tokens :: "ParserMode \<Rightarrow> uchar list \<Rightarrow> Token list" where
  "tokens m source =
     (case lex m source \<lparr>token_type = TokError, stringToken = [], numberToken = []\<rparr> of
        (t, token, p) \<Rightarrow> tokensFrom m token p)"

abbreviation stream :: "Parser \<Rightarrow> Token list" where
  "stream s \<equiv> tokensFrom (m_mode s) (m_currentToken s) (m_ptr s)"

lemma tokensFrom_step:
  "token_type token \<noteq> TokEnd \<Longrightarrow> token_type token \<noteq> TokError \<Longrightarrow>
   tokensFrom m token p = tokOf token # (case lex m p token of (t, token', q) \<Rightarrow> tokensFrom m token' q)"
  by (subst tokensFrom.simps) (auto split: prod.splits simp: tokensFrom.simps)

lemma tokensFrom_last:
  "tokensFrom m token p = t # u \<Longrightarrow> u = [] \<longleftrightarrow> token_type token = TokEnd \<or> token_type token = TokError"
proof -
  assume a: "tokensFrom m token p = t # u"
  show ?thesis
  proof (cases "token_type token = TokEnd \<or> token_type token = TokError")
    case True
    then show ?thesis using a by (simp add: tokensFrom.simps)
  next
    case False
    have "tokensFrom m x y \<noteq> []" for x y by (subst tokensFrom.simps) simp
    then show ?thesis using False a by (auto simp: tokensFrom_step split: prod.splits)
  qed
qed

lemma stream_Cons: "tokensFrom m token p = t # u \<Longrightarrow> tokOf token = t"
  by (subst (asm) tokensFrom.simps) simp

lemma tokOf_type:
  "tokOf k = Punct t \<Longrightarrow> token_type k = t" "tokOf k = Str x \<Longrightarrow> token_type k = TokString \<and> stringToken k = x"
  "tokOf k = Num x \<Longrightarrow> token_type k = TokNumber \<and> numberToken k = x"
  by (auto simp: tokOf_def split: TokenType.splits)

definition typeOf :: "Token \<Rightarrow> TokenType" where
  "typeOf t = (case t of Punct k \<Rightarrow> k | Str _ \<Rightarrow> TokString | Num _ \<Rightarrow> TokNumber)"

lemma typeOf_simps [simp]: "typeOf (Punct k) = k" "typeOf (Str x) = TokString" "typeOf (Num x) = TokNumber"
  by (simp_all add: typeOf_def)

lemma currentType_stream: "stream s = t # u \<Longrightarrow> currentType s = typeOf t"
  by (drule stream_Cons) (cases t; auto dest: tokOf_type)

lemma next_stream:
  assumes "stream s = t # u" "u \<noteq> []"
  shows "\<exists>s'. next_token s = (returned (typeOf (hd u)), s') \<and> stream s' = u \<and> objectStack s' = objectStack s \<and>
    stateStack s' = stateStack s \<and> identifierStack s' = identifierStack s \<and> m_mode s' = m_mode s \<and> lastValue s' = lastValue s"
proof -
  obtain k token q where l: "lex (m_mode s) (m_ptr s) (m_currentToken s) = (k, token, q)" by (metis prod_cases3)
  have c: "currentType s \<noteq> TokEnd" "currentType s \<noteq> TokError" using tokensFrom_last [OF assms(1)] assms(2) by auto
  have u: "tokensFrom (m_mode s) token q = u" using assms(1) c l by (simp add: tokensFrom_step)
  then obtain h u' where h: "u = h # u'" "tokOf token = h" using assms(2) stream_Cons by (cases u) auto
  have "token_type token = typeOf h" using h(2) by (cases h) (auto dest: tokOf_type)
  then show ?thesis using u l h lex_spec [OF l] by (auto simp: next_token_def)
qed

subsection \<open>The grammar\<close>

text \<open>
  The texts that the parser accepts, over tokens: the grammar of JSON, with one rule more.
  Because lex returns the type of the closing bracket for a closing parenthesis, an empty
  array may end in either.
\<close>

inductive json_value :: "Token list \<Rightarrow> JSValue \<Rightarrow> bool"
  and json_elements :: "Token list \<Rightarrow> JSValue list \<Rightarrow> bool"
  and json_members :: "Token list \<Rightarrow> (uchar list \<times> JSValue) list \<Rightarrow> bool" where
  string: "json_value [Str x] (JString x)"
| number: "json_value [Num x] (JNumber x)"
| null: "json_value [Punct TokNull] JNull"
| true: "json_value [Punct TokTrue] (JBoolean True)"
| false: "json_value [Punct TokFalse] (JBoolean False)"
| empty_array: "json_value [Punct TokLBracket, Punct TokRBracket] (JArray [])"
| empty_array_paren: "json_value [Punct TokLBracket, Punct TokRParen] (JArray [])"
| array: "json_elements ts vs \<Longrightarrow> json_value (Punct TokLBracket # ts @ [Punct TokRBracket]) (JArray vs)"
| empty_object: "json_value [Punct TokLBrace, Punct TokRBrace] (JObject [])"
| object: "json_members ts ms \<Longrightarrow>
    json_value (Punct TokLBrace # ts @ [Punct TokRBrace]) (JObject (foldl (\<lambda>ps (k, v). putProperty ps k v) [] ms))"
| element: "json_value ts v \<Longrightarrow> json_elements ts [v]"
| elements: "json_value ts v \<Longrightarrow> json_elements us vs \<Longrightarrow> json_elements (ts @ Punct TokComma # us) (v # vs)"
| member: "json_value ts v \<Longrightarrow> json_members (Str k # Punct TokColon # ts) [(k, v)]"
| members: "json_value ts v \<Longrightarrow> json_members us ms \<Longrightarrow>
    json_members (Str k # Punct TokColon # ts @ Punct TokComma # us) ((k, v) # ms)"

lemma json_nonempty:
  "json_value ts v \<Longrightarrow> ts \<noteq> []"
  "json_elements ts vs \<Longrightarrow> ts \<noteq> [] \<and> vs \<noteq> []"
  "json_members ts ms \<Longrightarrow> ts \<noteq> [] \<and> ms \<noteq> []"
  by (induction rule: json_value_json_elements_json_members.inducts) auto

lemma value_first:
  "json_value ts v \<Longrightarrow> typeOf (hd ts) \<notin> {TokRBracket, TokRParen, TokRBrace, TokEnd, TokError, TokComma, TokColon, TokLParen, TokIdentifier}"
  by (cases rule: json_value.cases) auto

lemma elements_first: "json_elements ts vs \<Longrightarrow> returned (typeOf (hd ts)) \<noteq> TokRBracket"
  by (cases rule: json_elements.cases) (auto dest: value_first json_nonempty simp: hd_append returned_def split: TokenType.splits if_splits)

lemma members_first: "json_members ts ms \<Longrightarrow> \<exists>k u. ts = Str k # u"
  by (cases rule: json_members.cases) auto

subsection \<open>Steps of the machine on token streams\<close>

text \<open>The configuration of the parser: the tokens to come and the three stacks.\<close>

definition conf :: "Parser \<Rightarrow> Token list \<Rightarrow> JSValue list \<Rightarrow> ParserState list \<Rightarrow> uchar list list \<Rightarrow> ParserMode \<Rightarrow> bool" where
  "conf s ts os ss ids m \<longleftrightarrow>
     tokensFrom m (m_currentToken s) (m_ptr s) = ts \<and> objectStack s = os \<and> stateStack s = ss \<and> identifierStack s = ids \<and> m_mode s = m"

definition outcome_of :: "outcome \<Rightarrow> (JSValue option \<times> Parser) option" where
  "outcome_of r = (case r of Return v s \<Rightarrow> Some (v, s) | Continue state s \<Rightarrow> parse state s)"

lemma outcome_simps [simp]: "outcome_of (Return v s) = Some (v, s)" "outcome_of (Continue state s) = parse state s"
  by (simp_all add: outcome_of_def)

lemma parse_step: "parse state s = outcome_of (step state s)"
  by (subst parse.simps) (simp add: outcome_of_def)

definition reaches :: "(JSValue option \<times> Parser) option \<Rightarrow> JSValue \<Rightarrow> Token list \<Rightarrow> JSValue list \<Rightarrow> ParserState list \<Rightarrow> uchar list list \<Rightarrow> ParserMode \<Rightarrow> bool" where
  "reaches r v ts os ss ids m \<longleftrightarrow> (\<exists>s. r = outcome_of (finish s) \<and> conf s ts os ss ids m \<and> lastValue s = Some v)"

definition fails :: "(JSValue option \<times> Parser) option \<Rightarrow> bool" where
  "fails r \<longleftrightarrow> (\<exists>s. r = Some (None, s))"

lemma fails_Return [simp]: "fails (Some (None, s))"
  by (simp add: fails_def)

lemma conf_type: "conf s (t # u) os ss ids m \<Longrightarrow> currentType s = typeOf t"
  using currentType_stream [of s] by (auto simp: conf_def)

lemma conf_next:
  assumes "conf s (t # u) os ss ids m" "u \<noteq> []"
  obtains s' where "next_token s = (returned (typeOf (hd u)), s')" "conf s' u os ss ids m" "lastValue s' = lastValue s"
  using next_stream [of s t u] assms by (auto simp: conf_def)

lemma reaches_pop:
  assumes "conf s (t # u) (v # os) ss ids m" "u \<noteq> []"
  shows "reaches (outcome_of (finish (popObject (snd (next_token s))))) v u os ss ids m"
proof -
  obtain s' where s': "next_token s = (returned (typeOf (hd u)), s')" "conf s' u (v # os) ss ids m"
    using conf_next [OF assms] .
  then show ?thesis unfolding reaches_def
    by (intro exI [of _ "popObject s'"]) (simp add: popObject_def conf_def)
qed

lemma literal_run:
  assumes "conf s (t # u) os ss ids m" "u \<noteq> []"
  shows "reaches (outcome_of (literal v s)) v u os ss ids m"
proof -
  obtain s' where s': "next_token s = (returned (typeOf (hd u)), s')" "conf s' u os ss ids m"
    using conf_next [OF assms] .
  then show ?thesis unfolding reaches_def literal_def
    by (intro exI [of _ "s'\<lparr>lastValue := Some v\<rparr>"]) (simp add: conf_def)
qed

text \<open>Arrays.\<close>

lemma array_open:
  assumes "conf s (Punct TokLBracket # h # u) os ss ids m"
  obtains s' where "conf s' (h # u) (JArray [] # os) ss ids m"
    "parse StartParseExpression s =
      (if returned (typeOf h) = TokRBracket then outcome_of (finish (popObject (snd (next_token s'))))
       else parse StartParseExpression (s'\<lparr>stateStack := DoParseArrayEndExpression # ss\<rparr>))"
proof -
  define s1 where "s1 = s\<lparr>objectStack := JArray [] # objectStack s\<rparr>"
  have c: "conf s1 (Punct TokLBracket # h # u) (JArray [] # os) ss ids m" using assms by (simp add: conf_def s1_def)
  obtain s' where s': "next_token s1 = (returned (typeOf h), s')" "conf s' (h # u) (JArray [] # os) ss ids m"
    using conf_next [OF c] by auto
  have "parse StartParseExpression s = outcome_of (arrayStart s1)"
    using conf_type [OF assms]
    by (subst parse_step, simp add: step_def startExpression_def, subst parse_step,
        simp add: step_def startArray_def s1_def, subst parse_step, simp add: step_def)
  then show ?thesis using that [OF s'(2)] s' conf_type [OF c] conf_def by (simp add: arrayStart_def)
qed

lemma array_next:
  assumes "conf s (h # r) (JArray acc # os) (DoParseArrayEndExpression # ss) ids m" "lastValue s = Some v"
  obtains s' where "conf s' (h # r) (JArray (acc @ [v]) # os) ss ids m"
    "outcome_of (finish s) =
      (if h = Punct TokComma then outcome_of (arrayStart s')
       else if h \<noteq> Punct TokRBracket then Some (None, s') else outcome_of (finish (popObject (snd (next_token s')))))"
proof -
  define s' where "s' = s\<lparr>stateStack := ss, objectStack := JArray (acc @ [v]) # os\<rparr>"
  have c: "conf s' (h # r) (JArray (acc @ [v]) # os) ss ids m" using assms by (simp add: conf_def s'_def)
  have t: "typeOf h = TokComma \<longleftrightarrow> h = Punct TokComma" "typeOf h = TokRBracket \<longleftrightarrow> h = Punct TokRBracket" by (cases h; simp)+
  have "outcome_of (finish s) = outcome_of (arrayEnd (s\<lparr>stateStack := ss\<rparr>))"
    using assms by (simp add: finish_def conf_def parse_step [of DoParseArrayEndExpression] step_def)
  also have "\<dots> = (if h = Punct TokComma then outcome_of (arrayStart s')
       else if h \<noteq> Punct TokRBracket then Some (None, s') else outcome_of (finish (popObject (snd (next_token s')))))"
    using assms conf_type [OF c] t
    by (simp add: arrayEnd_def conf_def push_def s'_def Let_def parse_step [of DoParseArrayStartExpression] step_def)
  finally show ?thesis using that c by blast
qed

lemma array_comma:
  assumes "conf s (Punct TokComma # h # u) (JArray acc # os) ss ids m"
  obtains s' where "conf s' (h # u) (JArray acc # os) (DoParseArrayEndExpression # ss) ids m"
    "outcome_of (arrayStart s) =
      (if returned (typeOf h) = TokRBracket then Some (None, s'\<lparr>stateStack := ss\<rparr>) else parse StartParseExpression s')"
proof -
  obtain s' where s': "next_token s = (returned (typeOf h), s')" "conf s' (h # u) (JArray acc # os) ss ids m"
    using conf_next [OF assms] by auto
  have c: "conf (s'\<lparr>stateStack := DoParseArrayEndExpression # ss\<rparr>) (h # u) (JArray acc # os) (DoParseArrayEndExpression # ss) ids m"
    using s'(2) by (simp add: conf_def)
  have e: "s'\<lparr>stateStack := ss\<rparr> = s'" using s'(2) by (cases s') (simp add: conf_def)
  show ?thesis using that [OF c] s' conf_type [OF assms] e
    by (simp add: arrayStart_def conf_def)
qed

text \<open>Objects.\<close>

lemma object_open:
  assumes "conf s (Punct TokLBrace # h # u) os ss ids m"
  obtains s' where "conf s' (h # u) (JObject [] # os) ss ids m"
    "parse StartParseExpression s =
      (if typeOf h = TokString then outcome_of (memberStart s')
       else if h \<noteq> Punct TokRBrace then Some (None, s') else outcome_of (finish (popObject (snd (next_token s')))))"
proof -
  define s1 where "s1 = s\<lparr>objectStack := JObject [] # objectStack s\<rparr>"
  have c: "conf s1 (Punct TokLBrace # h # u) (JObject [] # os) ss ids m" using assms by (simp add: conf_def s1_def)
  obtain s' where s': "next_token s1 = (returned (typeOf h), s')" "conf s' (h # u) (JObject [] # os) ss ids m"
    using conf_next [OF c] by auto
  have t: "typeOf h = TokRBrace \<longleftrightarrow> h = Punct TokRBrace" by (cases h; simp)
  have r: "returned (typeOf h) = TokString \<longleftrightarrow> typeOf h = TokString" "returned (typeOf h) = TokRBrace \<longleftrightarrow> typeOf h = TokRBrace"
    by (simp_all add: returned_def split: TokenType.splits)
  have "parse StartParseExpression s = outcome_of (startObject s)"
    using conf_type [OF assms]
    by (subst parse_step, simp add: step_def startExpression_def, subst parse_step, simp add: step_def)
  also have "\<dots> = (if typeOf h = TokString then outcome_of (memberStart s')
       else if h \<noteq> Punct TokRBrace then Some (None, s') else outcome_of (finish (popObject (snd (next_token s')))))"
    using s'(1) t r by (simp add: startObject_def flip: s1_def)
  finally show ?thesis using that [OF s'(2)] by blast
qed

lemma member_start:
  assumes "conf s (Str k # u) os ss ids m" "u \<noteq> []"
  shows "(hd u \<noteq> Punct TokColon \<longrightarrow> fails (outcome_of (memberStart s))) \<and>
    (hd u = Punct TokColon \<and> tl u \<noteq> [] \<longrightarrow>
      (\<exists>s'. conf s' (tl u) os (DoParseObjectEndExpression # ss) (k # ids) m \<and>
        outcome_of (memberStart s) = parse StartParseExpression s'))"
proof -
  obtain s1 where s1: "next_token s = (returned (typeOf (hd u)), s1)" "conf s1 u os ss ids m" using conf_next [OF assms] .
  have t: "returned (typeOf (hd u)) = TokColon \<longleftrightarrow> hd u = Punct TokColon"
    by (cases "hd u") (auto simp: returned_def split: TokenType.splits)
  have k: "stringToken (m_currentToken s) = k" using assms stream_Cons tokOf_type(2) by (auto simp: conf_def)
  show ?thesis
  proof (cases "hd u = Punct TokColon \<and> tl u \<noteq> []")
    case False
    then show ?thesis using s1 t by (auto simp: memberStart_def)
  next
    case True
    then obtain c u' where u: "u = c # u'" "u' \<noteq> []" using assms(2) by (cases u) auto
    obtain s2 where s2: "next_token s1 = (returned (typeOf (hd u')), s2)" "conf s2 u' os ss ids m"
      using conf_next [OF s1(2) [unfolded u] u(2)] .
    have "conf (s2\<lparr>identifierStack := k # identifierStack s2, stateStack := DoParseObjectEndExpression # stateStack s2\<rparr>)
        u' os (DoParseObjectEndExpression # ss) (k # ids) m"
      using s2(2) by (simp add: conf_def)
    moreover have "outcome_of (memberStart s) = parse StartParseExpression
        (s2\<lparr>identifierStack := k # identifierStack s2, stateStack := DoParseObjectEndExpression # stateStack s2\<rparr>)"
      using s1 t s2(1) k True by (simp add: memberStart_def u Let_def)
    ultimately show ?thesis using True u by auto
  qed
qed

lemma object_next:
  assumes "conf s (h # r) (JObject acc # os) (DoParseObjectEndExpression # ss) (k # ids) m" "lastValue s = Some v"
  obtains s' where "conf s' (h # r) (JObject (putProperty acc k v) # os) ss ids m"
    "outcome_of (finish s) =
      (if h = Punct TokComma then outcome_of (objectStart s')
       else if h \<noteq> Punct TokRBrace then Some (None, s') else outcome_of (finish (popObject (snd (next_token s')))))"
proof -
  define s' where "s' = s\<lparr>stateStack := ss, objectStack := JObject (putProperty acc k v) # os, identifierStack := ids\<rparr>"
  have c: "conf s' (h # r) (JObject (putProperty acc k v) # os) ss ids m" using assms by (simp add: conf_def s'_def)
  have t: "typeOf h = TokComma \<longleftrightarrow> h = Punct TokComma" "typeOf h = TokRBrace \<longleftrightarrow> h = Punct TokRBrace" by (cases h; simp)+
  have "outcome_of (finish s) = outcome_of (objectEnd (s\<lparr>stateStack := ss\<rparr>))"
    using assms by (simp add: finish_def conf_def parse_step [of DoParseObjectEndExpression] step_def)
  also have "\<dots> = (if h = Punct TokComma then outcome_of (objectStart s')
       else if h \<noteq> Punct TokRBrace then Some (None, s') else outcome_of (finish (popObject (snd (next_token s')))))"
    using assms conf_type [OF c] t
    by (simp add: objectEnd_def conf_def putDirect_def s'_def Let_def parse_step [of DoParseObjectStartExpression] step_def)
  finally show ?thesis using that c by blast
qed

lemma object_comma:
  assumes "conf s (Punct TokComma # h # u) os ss ids m"
  obtains s' where "conf s' (h # u) os ss ids m"
    "outcome_of (objectStart s) = (if typeOf h \<noteq> TokString then Some (None, s') else outcome_of (memberStart s'))"
proof -
  obtain s' where s': "next_token s = (returned (typeOf h), s')" "conf s' (h # u) os ss ids m"
    using conf_next [OF assms] by auto
  have r: "returned (typeOf h) = TokString \<longleftrightarrow> typeOf h = TokString"
    by (simp add: returned_def split: TokenType.splits)
  show ?thesis using that [OF s'(2)] s'(1) r by (simp add: objectStart_def)
qed

subsection \<open>The machine accepts exactly the grammar\<close>

lemma reachesI_eq: "r = r' \<Longrightarrow> reaches r' v ts os ss ids m \<Longrightarrow> reaches r v ts os ss ids m"
  by simp

lemma json_run:
  "json_value ts v \<Longrightarrow> (\<forall>s rest os ss ids. conf s (ts @ rest) os ss ids m \<longrightarrow> rest \<noteq> [] \<longrightarrow>
     reaches (parse StartParseExpression s) v rest os ss ids m)"
  "json_elements us vs \<Longrightarrow> (\<forall>s rest os ss ids acc. conf s (us @ Punct TokRBracket # rest) (JArray acc # os) (DoParseArrayEndExpression # ss) ids m \<longrightarrow>
     rest \<noteq> [] \<longrightarrow> reaches (parse StartParseExpression s) (JArray (acc @ vs)) rest os ss ids m)"
  "json_members ws ms \<Longrightarrow> (\<forall>s rest os ss ids acc. conf s (ws @ Punct TokRBrace # rest) (JObject acc # os) ss ids m \<longrightarrow>
     rest \<noteq> [] \<longrightarrow> reaches (outcome_of (memberStart s)) (JObject (foldl (\<lambda>ps (k, v). putProperty ps k v) acc ms)) rest os ss ids m)"
proof (induction rule: json_value_json_elements_json_members.inducts)
  case (string x)
  show ?case
  proof (intro allI impI)
    fix s rest os ss ids assume c: "conf s ([Str x] @ rest) os ss ids m" "rest \<noteq> []"
    have "stringToken (m_currentToken s) = x" using c stream_Cons tokOf_type(2) by (auto simp: conf_def)
    then show "reaches (parse StartParseExpression s) (JString x) rest os ss ids m"
      using c conf_type [of s "Str x"] literal_run [of s "Str x" rest] by (simp add: parse_step step_def startExpression_def)
  qed
next
  case (number x)
  show ?case
  proof (intro allI impI)
    fix s rest os ss ids assume c: "conf s ([Num x] @ rest) os ss ids m" "rest \<noteq> []"
    have "numberToken (m_currentToken s) = x" using c stream_Cons tokOf_type(3) by (auto simp: conf_def)
    then show "reaches (parse StartParseExpression s) (JNumber x) rest os ss ids m"
      using c conf_type [of s "Num x"] literal_run [of s "Num x" rest] by (simp add: parse_step step_def startExpression_def)
  qed
next
  case null
  show ?case using conf_type literal_run by (fastforce simp: parse_step step_def startExpression_def)
next
  case true
  show ?case using conf_type literal_run by (fastforce simp: parse_step step_def startExpression_def)
next
  case false
  show ?case using conf_type literal_run by (fastforce simp: parse_step step_def startExpression_def)
next
  case empty_array
  show ?case
  proof (intro allI impI)
    fix s rest os ss ids assume c: "conf s ([Punct TokLBracket, Punct TokRBracket] @ rest) os ss ids m" "rest \<noteq> []"
    obtain s' where s': "conf s' (Punct TokRBracket # rest) (JArray [] # os) ss ids m"
      "parse StartParseExpression s = outcome_of (finish (popObject (snd (next_token s'))))"
      using array_open [OF c(1) [simplified]] by (auto simp: returned_def)
    show "reaches (parse StartParseExpression s) (JArray []) rest os ss ids m"
      unfolding s'(2) by (rule reaches_pop [OF s'(1) c(2)])
  qed
next
  case empty_array_paren
  show ?case
  proof (intro allI impI)
    fix s rest os ss ids assume c: "conf s ([Punct TokLBracket, Punct TokRParen] @ rest) os ss ids m" "rest \<noteq> []"
    obtain s' where s': "conf s' (Punct TokRParen # rest) (JArray [] # os) ss ids m"
      "parse StartParseExpression s = outcome_of (finish (popObject (snd (next_token s'))))"
      using array_open [OF c(1) [simplified]] by (auto simp: returned_def)
    show "reaches (parse StartParseExpression s) (JArray []) rest os ss ids m"
      unfolding s'(2) by (rule reaches_pop [OF s'(1) c(2)])
  qed
next
  case (array ts vs)
  show ?case
  proof (intro allI impI)
    fix s rest os ss ids assume c: "conf s ((Punct TokLBracket # ts @ [Punct TokRBracket]) @ rest) os ss ids m" "rest \<noteq> []"
    obtain h u where h: "ts = h # u" using json_nonempty(2) [OF array.hyps] by (cases ts) auto
    have r: "returned (typeOf h) \<noteq> TokRBracket" using elements_first [OF array.hyps] h by simp
    obtain s' where s': "conf s' (ts @ Punct TokRBracket # rest) (JArray [] # os) ss ids m"
      "parse StartParseExpression s = parse StartParseExpression (s'\<lparr>stateStack := DoParseArrayEndExpression # ss\<rparr>)"
      using array_open [OF c(1) [unfolded h, simplified]] r by (auto simp: h)
    have "conf (s'\<lparr>stateStack := DoParseArrayEndExpression # ss\<rparr>) (ts @ Punct TokRBracket # rest) (JArray [] # os) (DoParseArrayEndExpression # ss) ids m"
      using s'(1) by (simp add: conf_def)
    then show "reaches (parse StartParseExpression s) (JArray vs) rest os ss ids m"
      using array.IH c(2) unfolding s'(2) by fastforce
  qed
next
  case empty_object
  show ?case
  proof (intro allI impI)
    fix s rest os ss ids assume c: "conf s ([Punct TokLBrace, Punct TokRBrace] @ rest) os ss ids m" "rest \<noteq> []"
    obtain s' where s': "conf s' (Punct TokRBrace # rest) (JObject [] # os) ss ids m"
      "parse StartParseExpression s = outcome_of (finish (popObject (snd (next_token s'))))"
      using object_open [OF c(1) [simplified]] by auto
    show "reaches (parse StartParseExpression s) (JObject []) rest os ss ids m"
      unfolding s'(2) by (rule reaches_pop [OF s'(1) c(2)])
  qed
next
  case (object ts ms)
  show ?case
  proof (intro allI impI)
    fix s rest os ss ids assume c: "conf s ((Punct TokLBrace # ts @ [Punct TokRBrace]) @ rest) os ss ids m" "rest \<noteq> []"
    obtain k u where h: "ts = Str k # u" using members_first [OF object.hyps] by blast
    obtain s' where s': "conf s' (ts @ Punct TokRBrace # rest) (JObject [] # os) ss ids m"
      "parse StartParseExpression s = outcome_of (memberStart s')"
      using object_open [OF c(1) [unfolded h, simplified]] by (auto simp: h)
    show "reaches (parse StartParseExpression s) (JObject (foldl (\<lambda>ps (k, v). putProperty ps k v) [] ms)) rest os ss ids m"
      unfolding s'(2) using object.IH s'(1) c(2) by blast
  qed
next
  case (element ts v)
  show ?case
  proof (intro allI impI)
    fix s rest os ss ids acc
    assume c: "conf s (ts @ Punct TokRBracket # rest) (JArray acc # os) (DoParseArrayEndExpression # ss) ids m" "rest \<noteq> []"
    then have "reaches (parse StartParseExpression s) v (Punct TokRBracket # rest) (JArray acc # os) (DoParseArrayEndExpression # ss) ids m"
      using element.IH by blast
    then obtain s1 where s1: "parse StartParseExpression s = outcome_of (finish s1)"
      "conf s1 (Punct TokRBracket # rest) (JArray acc # os) (DoParseArrayEndExpression # ss) ids m" "lastValue s1 = Some v"
      by (auto simp: reaches_def)
    obtain s2 where s2: "conf s2 (Punct TokRBracket # rest) (JArray (acc @ [v]) # os) ss ids m"
      "outcome_of (finish s1) = outcome_of (finish (popObject (snd (next_token s2))))"
      using array_next [OF s1(2,3)] by auto
    show "reaches (parse StartParseExpression s) (JArray (acc @ [v])) rest os ss ids m"
      unfolding s1(1) s2(2) by (rule reaches_pop [OF s2(1) c(2)])
  qed
next
  case (elements ts v us vs)
  show ?case
  proof (intro allI impI)
    fix s rest os ss ids acc
    assume c: "conf s ((ts @ Punct TokComma # us) @ Punct TokRBracket # rest) (JArray acc # os) (DoParseArrayEndExpression # ss) ids m" "rest \<noteq> []"
    then have "reaches (parse StartParseExpression s) v (Punct TokComma # us @ Punct TokRBracket # rest) (JArray acc # os) (DoParseArrayEndExpression # ss) ids m"
      using elements.IH(1) by auto
    then obtain s1 where s1: "parse StartParseExpression s = outcome_of (finish s1)"
      "conf s1 (Punct TokComma # us @ Punct TokRBracket # rest) (JArray acc # os) (DoParseArrayEndExpression # ss) ids m" "lastValue s1 = Some v"
      by (auto simp: reaches_def)
    obtain s2 where s2: "conf s2 (Punct TokComma # us @ Punct TokRBracket # rest) (JArray (acc @ [v]) # os) ss ids m"
      "outcome_of (finish s1) = outcome_of (arrayStart s2)"
      using array_next [OF s1(2,3)] by auto
    obtain h u where h: "us = h # u" using json_nonempty(2) [OF elements.hyps(2)] by (cases us) auto
    have r: "returned (typeOf h) \<noteq> TokRBracket" using elements_first [OF elements.hyps(2)] h by simp
    obtain s3 where s3: "conf s3 (us @ Punct TokRBracket # rest) (JArray (acc @ [v]) # os) (DoParseArrayEndExpression # ss) ids m"
      "outcome_of (arrayStart s2) = parse StartParseExpression s3"
      using array_comma [OF s2(1) [unfolded h, simplified]] r by (auto simp: h)
    show "reaches (parse StartParseExpression s) (JArray (acc @ v # vs)) rest os ss ids m"
      unfolding s1(1) s2(2) s3(2) using elements.IH(2) s3(1) c(2) by fastforce
  qed
next
  case (member ts v k)
  show ?case
  proof (intro allI impI)
    fix s rest os ss ids acc
    assume c: "conf s ((Str k # Punct TokColon # ts) @ Punct TokRBrace # rest) (JObject acc # os) ss ids m" "rest \<noteq> []"
    obtain s0 where s0: "conf s0 (ts @ Punct TokRBrace # rest) (JObject acc # os) (DoParseObjectEndExpression # ss) (k # ids) m"
      "outcome_of (memberStart s) = parse StartParseExpression s0"
      using member_start [OF c(1) [simplified]] by auto
    then have "reaches (parse StartParseExpression s0) v (Punct TokRBrace # rest) (JObject acc # os) (DoParseObjectEndExpression # ss) (k # ids) m"
      using member.IH by blast
    then obtain s1 where s1: "parse StartParseExpression s0 = outcome_of (finish s1)"
      "conf s1 (Punct TokRBrace # rest) (JObject acc # os) (DoParseObjectEndExpression # ss) (k # ids) m" "lastValue s1 = Some v"
      by (auto simp: reaches_def)
    obtain s2 where s2: "conf s2 (Punct TokRBrace # rest) (JObject (putProperty acc k v) # os) ss ids m"
      "outcome_of (finish s1) = outcome_of (finish (popObject (snd (next_token s2))))"
      using object_next [OF s1(2,3)] by auto
    show "reaches (outcome_of (memberStart s)) (JObject (foldl (\<lambda>ps (k, v). putProperty ps k v) acc [(k, v)])) rest os ss ids m"
      unfolding s0(2) s1(1) s2(2) using reaches_pop [OF s2(1) c(2)] by simp
  qed
next
  case (members ts v us ms k)
  show ?case
  proof (intro allI impI)
    fix s rest os ss ids acc
    assume c: "conf s ((Str k # Punct TokColon # ts @ Punct TokComma # us) @ Punct TokRBrace # rest) (JObject acc # os) ss ids m" "rest \<noteq> []"
    obtain s0 where s0: "conf s0 (ts @ Punct TokComma # us @ Punct TokRBrace # rest) (JObject acc # os) (DoParseObjectEndExpression # ss) (k # ids) m"
      "outcome_of (memberStart s) = parse StartParseExpression s0"
      using member_start [OF c(1) [simplified]] by auto
    then have "reaches (parse StartParseExpression s0) v (Punct TokComma # us @ Punct TokRBrace # rest) (JObject acc # os) (DoParseObjectEndExpression # ss) (k # ids) m"
      using members.IH(1) by auto
    then obtain s1 where s1: "parse StartParseExpression s0 = outcome_of (finish s1)"
      "conf s1 (Punct TokComma # us @ Punct TokRBrace # rest) (JObject acc # os) (DoParseObjectEndExpression # ss) (k # ids) m" "lastValue s1 = Some v"
      by (auto simp: reaches_def)
    obtain s2 where s2: "conf s2 (Punct TokComma # us @ Punct TokRBrace # rest) (JObject (putProperty acc k v) # os) ss ids m"
      "outcome_of (finish s1) = outcome_of (objectStart s2)"
      using object_next [OF s1(2,3)] by auto
    obtain k2 u where h: "us = Str k2 # u" using members_first [OF members.hyps(2)] by blast
    obtain s3 where s3: "conf s3 (us @ Punct TokRBrace # rest) (JObject (putProperty acc k v) # os) ss ids m"
      "outcome_of (objectStart s2) = outcome_of (memberStart s3)"
      using object_comma [OF s2(1) [unfolded h, simplified]] by (auto simp: h)
    show "reaches (outcome_of (memberStart s)) (JObject (foldl (\<lambda>ps (k, v). putProperty ps k v) acc ((k, v) # ms))) rest os ss ids m"
      unfolding s0(2) s1(1) s2(2) s3(2) using members.IH(2) s3(1) c(2) by simp
  qed
qed

text \<open>What the lexer delivers: the end or an error comes last and nowhere else.\<close>

definition final_token :: "Token \<Rightarrow> bool" where
  "final_token t \<longleftrightarrow> t = Punct TokEnd \<or> t = Punct TokError"

fun wf_stream :: "Token list \<Rightarrow> bool" where
  "wf_stream [] = False"
| "wf_stream (t # u) = (t \<noteq> Punct TokString \<and> t \<noteq> Punct TokNumber \<and>
     (if final_token t then u = [] else wf_stream u))"

lemma tokOf_final: "final_token (tokOf k) \<longleftrightarrow> token_type k = TokEnd \<or> token_type k = TokError"
  by (auto simp: final_token_def tokOf_def split: TokenType.splits)

lemma tokOf_punct: "tokOf k \<noteq> Punct TokString" "tokOf k \<noteq> Punct TokNumber"
  by (auto simp: tokOf_def split: TokenType.splits)

lemma wf_tokensFrom: "wf_stream (tokensFrom m token p)"
proof (induction m token p rule: tokensFrom.induct)
  case (1 m token p)
  show ?case
  proof (cases "token_type token = TokEnd \<or> token_type token = TokError")
    case True
    then show ?thesis by (subst tokensFrom.simps) (simp add: tokOf_final tokOf_punct)
  next
    case False
    obtain t token' q where l: "lex m p token = (t, token', q)" by (metis prod_cases3)
    have "wf_stream (tokensFrom m token' q)"
    proof (cases "token_type token' = TokEnd \<or> token_type token' = TokError")
      case True
      then show ?thesis by (subst tokensFrom.simps) (simp add: tokOf_final tokOf_punct)
    next
      case False2: False
      show ?thesis using 1 [OF False l [symmetric] refl False2] .
    qed
    then show ?thesis using False l by (simp add: tokensFrom_step tokOf_final tokOf_punct)
  qed
qed

lemma wf_suffix: "wf_stream (us @ ws) \<Longrightarrow> ws \<noteq> [] \<Longrightarrow> wf_stream ws"
  by (induction us) (auto split: if_splits)

lemma wf_Cons: "wf_stream (t # u) \<Longrightarrow> \<not> final_token t \<Longrightarrow> u \<noteq> [] \<and> wf_stream u"
  by (cases u) auto

text \<open>
  Every stream either starts with a text of the grammar or makes the machine return the
  empty value, whatever is on its stacks.
\<close>

definition starts_value :: "ParserMode \<Rightarrow> Token list \<Rightarrow> bool" where
  "starts_value m us \<longleftrightarrow> (\<exists>ts v rest. us = ts @ rest \<and> rest \<noteq> [] \<and> json_value ts v) \<or>
     (\<forall>s os ss ids. conf s us os ss ids m \<longrightarrow> fails (parse StartParseExpression s))"

definition starts_elements :: "ParserMode \<Rightarrow> Token list \<Rightarrow> bool" where
  "starts_elements m us \<longleftrightarrow> (\<exists>ts vs rest. us = ts @ Punct TokRBracket # rest \<and> rest \<noteq> [] \<and> json_elements ts vs) \<or>
     (\<forall>s os ss ids acc. conf s us (JArray acc # os) (DoParseArrayEndExpression # ss) ids m \<longrightarrow> fails (parse StartParseExpression s))"

definition starts_members :: "ParserMode \<Rightarrow> Token list \<Rightarrow> bool" where
  "starts_members m us \<longleftrightarrow> (\<exists>ts ms rest. us = ts @ Punct TokRBrace # rest \<and> rest \<noteq> [] \<and> json_members ts ms) \<or>
     (\<forall>s os ss ids acc. conf s us (JObject acc # os) ss ids m \<longrightarrow> fails (outcome_of (memberStart s)))"

lemma starts_valueI: "us = ts @ rest \<Longrightarrow> rest \<noteq> [] \<Longrightarrow> json_value ts v \<Longrightarrow> starts_value m us"
  by (auto simp: starts_value_def)

lemma starts_elementsI: "us = ts @ Punct TokRBracket # rest \<Longrightarrow> rest \<noteq> [] \<Longrightarrow> json_elements ts vs \<Longrightarrow> starts_elements m us"
  by (auto simp: starts_elements_def)

lemma starts_membersI: "us = ts @ Punct TokRBrace # rest \<Longrightarrow> rest \<noteq> [] \<Longrightarrow> json_members ts ms \<Longrightarrow> starts_members m us"
  by (auto simp: starts_members_def)

lemma starts_other:
  "typeOf t \<notin> {TokLBracket, TokLBrace, TokString, TokNumber, TokNull, TokTrue, TokFalse} \<Longrightarrow> starts_value m (t # u)"
  unfolding starts_value_def
  by (intro disjI2 allI impI, drule conf_type) (auto simp: parse_step step_def startExpression_def split: TokenType.splits)

lemma starts_array:
  assumes "wf_stream (h # u)" "returned (typeOf h) \<noteq> TokRBracket \<Longrightarrow> starts_elements m (h # u)"
  shows "starts_value m (Punct TokLBracket # h # u)"
proof (cases "returned (typeOf h) = TokRBracket")
  case True
  then have h: "h = Punct TokRBracket \<or> h = Punct TokRParen"
    by (cases h) (auto simp: returned_def split: TokenType.splits)
  then have "u \<noteq> []" using assms(1) by (auto simp: final_token_def)
  then show ?thesis using h
    by (elim disjE) (auto intro: starts_valueI [of _ "[Punct TokLBracket, h]" u] json_value_json_elements_json_members.intros)
next
  case False
  from assms(2) [OF this] show ?thesis unfolding starts_elements_def
  proof (elim disjE exE conjE)
    fix ts vs rest assume "h # u = ts @ Punct TokRBracket # rest" "rest \<noteq> []" "json_elements ts vs"
    then show ?thesis
      by (intro starts_valueI [of _ "Punct TokLBracket # ts @ [Punct TokRBracket]" rest "JArray vs"] array) auto
  next
    assume f: "\<forall>s os ss ids acc. conf s (h # u) (JArray acc # os) (DoParseArrayEndExpression # ss) ids m \<longrightarrow> fails (parse StartParseExpression s)"
    have "fails (parse StartParseExpression s)" if c: "conf s (Punct TokLBracket # h # u) os ss ids m" for s os ss ids
    proof -
      obtain s' where s': "conf s' (h # u) (JArray [] # os) ss ids m"
        "parse StartParseExpression s = parse StartParseExpression (s'\<lparr>stateStack := DoParseArrayEndExpression # ss\<rparr>)"
        using array_open [OF c] False by auto
      have "conf (s'\<lparr>stateStack := DoParseArrayEndExpression # ss\<rparr>) (h # u) (JArray [] # os) (DoParseArrayEndExpression # ss) ids m"
        using s'(1) by (simp add: conf_def)
      then show ?thesis unfolding s'(2) using f by blast
    qed
    then show ?thesis by (auto simp: starts_value_def)
  qed
qed

lemma starts_object:
  assumes "wf_stream (h # u)" "\<exists>k. h = Str k \<Longrightarrow> starts_members m (h # u)"
  shows "starts_value m (Punct TokLBrace # h # u)"
proof (cases "\<exists>k. h = Str k")
  case False
  show ?thesis
  proof (cases "h = Punct TokRBrace")
    case True
    then have "u \<noteq> []" using assms(1) by (auto simp: final_token_def)
    then show ?thesis using True
      by (auto intro: starts_valueI [of _ "[Punct TokLBrace, Punct TokRBrace]" u] json_value_json_elements_json_members.intros)
  next
    case r: False
    have nt: "typeOf h \<noteq> TokString" using False assms(1) by (cases h) auto
    have "fails (parse StartParseExpression s)" if c: "conf s (Punct TokLBrace # h # u) os ss ids m" for s os ss ids
      by (rule object_open [OF c]) (use r nt in simp)
    then show ?thesis by (auto simp: starts_value_def)
  qed
next
  case True
  from assms(2) [OF this] show ?thesis unfolding starts_members_def
  proof (elim disjE exE conjE)
    fix ts ms rest assume "h # u = ts @ Punct TokRBrace # rest" "rest \<noteq> []" "json_members ts ms"
    then show ?thesis
      by (intro starts_valueI [of _ "Punct TokLBrace # ts @ [Punct TokRBrace]" rest
          "JObject (foldl (\<lambda>ps (k, v). putProperty ps k v) [] ms)"] object) auto
  next
    assume f: "\<forall>s os ss ids acc. conf s (h # u) (JObject acc # os) ss ids m \<longrightarrow> fails (outcome_of (memberStart s))"
    have "fails (parse StartParseExpression s)" if c: "conf s (Punct TokLBrace # h # u) os ss ids m" for s os ss ids
    proof (rule object_open [OF c])
      fix s' assume "conf s' (h # u) (JObject [] # os) ss ids m"
        and e: "parse StartParseExpression s =
          (if typeOf h = TokString then outcome_of (memberStart s')
           else if h \<noteq> Punct TokRBrace then Some (None, s') else outcome_of (finish (popObject (snd (next_token s')))))"
      then have "fails (outcome_of (memberStart s'))" using f by blast
      then show "fails (parse StartParseExpression s)" unfolding e using True by auto
    qed
    then show ?thesis by (auto simp: starts_value_def)
  qed
qed

text \<open>Behind a value inside an array: the end, a comma and more elements, or a failure.\<close>

lemma starts_elements_step:
  assumes us: "us = ts @ h # r" "json_value ts v" "wf_stream (h # r)"
    and more: "h = Punct TokComma \<Longrightarrow> r \<noteq> [] \<Longrightarrow> starts_elements m r"
  shows "starts_elements m us"
proof -
  consider "h = Punct TokRBracket" | "h = Punct TokComma" | "h \<noteq> Punct TokRBracket" "h \<noteq> Punct TokComma" by blast
  then show ?thesis
  proof cases
    case 1
    then have "r \<noteq> []" using us(3) by (auto simp: final_token_def)
    then show ?thesis using us 1 by (intro starts_elementsI [of _ ts r "[v]"] element) auto
  next
    case 3
    have "fails (parse StartParseExpression s)"
      if c: "conf s us (JArray acc # os) (DoParseArrayEndExpression # ss) ids m" for s os ss ids acc
    proof -
      have "reaches (parse StartParseExpression s) v (h # r) (JArray acc # os) (DoParseArrayEndExpression # ss) ids m"
        using json_run(1) [OF us(2)] c us(1) by blast
      then obtain s1 where s1: "parse StartParseExpression s = outcome_of (finish s1)"
        "conf s1 (h # r) (JArray acc # os) (DoParseArrayEndExpression # ss) ids m" "lastValue s1 = Some v"
        by (auto simp: reaches_def)
      show ?thesis unfolding s1(1) by (rule array_next [OF s1(2,3)]) (use 3 in simp)
    qed
    then show ?thesis by (auto simp: starts_elements_def)
  next
    case 2
    then have r: "r \<noteq> []" using us(3) by (auto simp: final_token_def)
    from more [OF 2 r] show ?thesis unfolding starts_elements_def [of m r]
    proof (elim disjE exE conjE)
      fix ts' vs rest assume "r = ts' @ Punct TokRBracket # rest" "rest \<noteq> []" "json_elements ts' vs"
      then show ?thesis using us 2
        by (intro starts_elementsI [of _ "ts @ Punct TokComma # ts'" rest "v # vs"] elements) auto
    next
      assume f: "\<forall>s os ss ids acc. conf s r (JArray acc # os) (DoParseArrayEndExpression # ss) ids m \<longrightarrow> fails (parse StartParseExpression s)"
      obtain h2 r2 where r2: "r = h2 # r2" using r by (cases r) auto
      have "fails (parse StartParseExpression s)"
        if c: "conf s us (JArray acc # os) (DoParseArrayEndExpression # ss) ids m" for s os ss ids acc
      proof -
        have "reaches (parse StartParseExpression s) v (h # r) (JArray acc # os) (DoParseArrayEndExpression # ss) ids m"
          using json_run(1) [OF us(2)] c us(1) by blast
        then obtain s1 where s1: "parse StartParseExpression s = outcome_of (finish s1)"
          "conf s1 (h # r) (JArray acc # os) (DoParseArrayEndExpression # ss) ids m" "lastValue s1 = Some v"
          by (auto simp: reaches_def)
        obtain s2 where s2: "conf s2 (h # r) (JArray (acc @ [v]) # os) ss ids m"
          "outcome_of (finish s1) = outcome_of (arrayStart s2)"
          using array_next [OF s1(2,3)] 2 by auto
        show ?thesis unfolding s1(1) s2(2)
        proof (rule array_comma [OF s2(1) [unfolded 2 r2]])
          fix s' assume "conf s' (h2 # r2) (JArray (acc @ [v]) # os) (DoParseArrayEndExpression # ss) ids m"
            and e: "outcome_of (arrayStart s2) = (if returned (typeOf h2) = TokRBracket then Some (None, s'\<lparr>stateStack := ss\<rparr>)
              else parse StartParseExpression s')"
          then have "fails (parse StartParseExpression s')" using f r2 by blast
          then show "fails (outcome_of (arrayStart s2))" unfolding e by simp
        qed
      qed
      then show ?thesis by (auto simp: starts_elements_def)
    qed
  qed
qed

lemma starts_members_step:
  assumes us: "us = Str k # Punct TokColon # ts @ h # r" "json_value ts v" "wf_stream (h # r)"
    and more: "h = Punct TokComma \<Longrightarrow> r \<noteq> [] \<Longrightarrow> \<exists>k2. hd r = Str k2 \<Longrightarrow> starts_members m r"
  shows "starts_members m us"
proof -
  have run: "\<exists>s1. outcome_of (memberStart s) = outcome_of (finish s1) \<and>
      conf s1 (h # r) (JObject acc # os) (DoParseObjectEndExpression # ss) (k # ids) m \<and> lastValue s1 = Some v"
    if c: "conf s us (JObject acc # os) ss ids m" for s os ss ids acc
  proof -
    obtain s0 where s0: "conf s0 (ts @ h # r) (JObject acc # os) (DoParseObjectEndExpression # ss) (k # ids) m"
      "outcome_of (memberStart s) = parse StartParseExpression s0"
      using member_start [OF c [unfolded us(1)]] by auto
    then have "reaches (parse StartParseExpression s0) v (h # r) (JObject acc # os) (DoParseObjectEndExpression # ss) (k # ids) m"
      using json_run(1) [OF us(2)] by blast
    then show ?thesis using s0(2) by (auto simp: reaches_def)
  qed
  consider "h = Punct TokRBrace" | "h = Punct TokComma" | "h \<noteq> Punct TokRBrace" "h \<noteq> Punct TokComma" by blast
  then show ?thesis
  proof cases
    case 1
    then have "r \<noteq> []" using us(3) by (auto simp: final_token_def)
    then show ?thesis using us 1 by (intro starts_membersI [of _ "Str k # Punct TokColon # ts" r "[(k, v)]"] member) auto
  next
    case 3
    have "fails (outcome_of (memberStart s))" if c: "conf s us (JObject acc # os) ss ids m" for s os ss ids acc
    proof -
      obtain s1 where s1: "outcome_of (memberStart s) = outcome_of (finish s1)"
        "conf s1 (h # r) (JObject acc # os) (DoParseObjectEndExpression # ss) (k # ids) m" "lastValue s1 = Some v"
        using run [OF c] by blast
      show ?thesis unfolding s1(1) by (rule object_next [OF s1(2,3)]) (use 3 in simp)
    qed
    then show ?thesis by (auto simp: starts_members_def)
  next
    case 2
    then have r: "r \<noteq> []" "wf_stream r" using us(3) by (auto simp: final_token_def)
    then obtain h2 r2 where r2: "r = h2 # r2" by (cases r) auto
    have reduce: "\<exists>s3. outcome_of (memberStart s) = (if typeOf h2 \<noteq> TokString then Some (None, s3) else outcome_of (memberStart s3)) \<and>
        conf s3 r (JObject (putProperty acc k v) # os) ss ids m"
      if c: "conf s us (JObject acc # os) ss ids m" for s os ss ids acc
    proof -
      obtain s1 where s1: "outcome_of (memberStart s) = outcome_of (finish s1)"
        "conf s1 (h # r) (JObject acc # os) (DoParseObjectEndExpression # ss) (k # ids) m" "lastValue s1 = Some v"
        using run [OF c] by blast
      obtain s2 where s2: "conf s2 (h # r) (JObject (putProperty acc k v) # os) ss ids m"
        "outcome_of (finish s1) = outcome_of (objectStart s2)"
        using object_next [OF s1(2,3)] 2 by auto
      show ?thesis unfolding s1(1) s2(2) r2
        by (rule object_comma [OF s2(1) [unfolded 2 r2]]) blast
    qed
    show ?thesis
    proof (cases "\<exists>k2. h2 = Str k2")
      case False
      then have "typeOf h2 \<noteq> TokString" using r r2 by (cases h2) auto
      then have "fails (outcome_of (memberStart s))" if c: "conf s us (JObject acc # os) ss ids m" for s os ss ids acc
        using reduce [OF c] by auto
      then show ?thesis by (auto simp: starts_members_def)
    next
      case True
      then have "starts_members m r" using more 2 r r2 by simp
      then show ?thesis unfolding starts_members_def [of m r]
      proof (elim disjE exE conjE)
        fix ts' ms rest assume "r = ts' @ Punct TokRBrace # rest" "rest \<noteq> []" "json_members ts' ms"
        then show ?thesis using us 2
          by (intro starts_membersI [of _ "Str k # Punct TokColon # ts @ Punct TokComma # ts'" rest "(k, v) # ms"] members) auto
      next
        assume f: "\<forall>s os ss ids acc. conf s r (JObject acc # os) ss ids m \<longrightarrow> fails (outcome_of (memberStart s))"
        have "fails (outcome_of (memberStart s))" if c: "conf s us (JObject acc # os) ss ids m" for s os ss ids acc
        proof -
          obtain s3 where "outcome_of (memberStart s) = outcome_of (memberStart s3)"
            "conf s3 r (JObject (putProperty acc k v) # os) ss ids m"
            using reduce [OF c] True by auto
          moreover have "fails (outcome_of (memberStart s3))" using f calculation(2) by blast
          ultimately show ?thesis by simp
        qed
        then show ?thesis by (auto simp: starts_members_def)
      qed
    qed
  qed
qed

lemma starts_elements_fail:
  assumes "\<forall>s os ss ids. conf s us os ss ids m \<longrightarrow> fails (parse StartParseExpression s)"
  shows "starts_elements m us"
  using assms unfolding starts_elements_def by blast

lemma starts_members_fail:
  assumes f: "\<forall>s os ss ids. conf s u os ss ids m \<longrightarrow> fails (parse StartParseExpression s)" and u: "u \<noteq> []"
  shows "starts_members m (Str k # Punct TokColon # u)"
proof -
  have "fails (outcome_of (memberStart s))"
    if c: "conf s (Str k # Punct TokColon # u) (JObject acc # os) ss ids m" for s os ss ids acc
  proof -
    obtain s' where s': "conf s' u (JObject acc # os) (DoParseObjectEndExpression # ss) (k # ids) m"
      "outcome_of (memberStart s) = parse StartParseExpression s'"
      using member_start [OF c] u by auto
    show ?thesis unfolding s'(2) using f s'(1) by blast
  qed
  then show ?thesis by (auto simp: starts_members_def)
qed

lemma starts_members_colon:
  assumes "hd u \<noteq> Punct TokColon" "u \<noteq> []"
  shows "starts_members m (Str k # u)"
proof -
  have "fails (outcome_of (memberStart s))"
    if c: "conf s (Str k # u) (JObject acc # os) ss ids m" for s os ss ids acc
    using member_start [OF c assms(2)] assms(1) by auto
  then show ?thesis by (auto simp: starts_members_def)
qed

lemma starts_all:
  "wf_stream us \<Longrightarrow> starts_value m us \<and> starts_elements m us \<and> (\<forall>k u. us = Str k # u \<longrightarrow> starts_members m us)"
proof (induction us rule: length_induct)
  case (1 us)
  have IH: "starts_value m xs" "starts_elements m xs" "xs = Str k # u \<Longrightarrow> starts_members m xs"
    if "length xs < length us" "wf_stream xs" for xs k u
    using 1 that by blast+
  obtain t u where us: "us = t # u" using 1 by (cases us) auto
  have V: "starts_value m us"
  proof (cases "typeOf t \<in> {TokLBracket, TokLBrace, TokString, TokNumber, TokNull, TokTrue, TokFalse}")
    case False
    then show ?thesis unfolding us by (intro starts_other) simp
  next
    case True
    then have "\<not> final_token t" by (auto simp: final_token_def)
    then have u: "u \<noteq> []" "wf_stream u" using wf_Cons 1(2) us by blast+
    then obtain h u' where h: "u = h # u'" by (cases u) auto
    have nt: "t \<noteq> Punct TokString" "t \<noteq> Punct TokNumber" using 1(2) us by auto
    consider "t = Punct TokLBracket" | "t = Punct TokLBrace" | v where "json_value [t] v"
      using True nt by (cases t) (auto intro: json_value_json_elements_json_members.intros)
    then show ?thesis
    proof cases
      case 1
      then show ?thesis using IH(2) [of u] u unfolding us h by (auto intro!: starts_array)
    next
      case 2
      then show ?thesis using IH(3) [of u] u unfolding us h by (auto intro!: starts_object)
    next
      case 3
      then show ?thesis using u unfolding us by (auto intro!: starts_valueI [of _ "[t]" u])
    qed
  qed
  have E: "starts_elements m us"
    using V unfolding starts_value_def
  proof (elim disjE exE conjE)
    fix ts v rest assume a: "us = ts @ rest" "rest \<noteq> []" "json_value ts v"
    then obtain h r where r: "rest = h # r" by (cases rest) auto
    have w: "wf_stream (h # r)" using wf_suffix 1(2) a r by blast
    have "ts \<noteq> []" using json_nonempty(1) a(3) by blast
    then have l: "length r < length us" using a r by (cases ts) auto
    have "starts_elements m r" if "h = Punct TokComma"
      using IH(2) [OF l] wf_Cons [OF w] that by (simp add: final_token_def)
    then show ?thesis by (rule starts_elements_step [OF _ a(3) w, rotated]) (simp_all add: a(1) r)
  qed (rule starts_elements_fail)
  have M: "starts_members m us" if t: "t = Str k" for k
  proof (cases "u \<noteq> [] \<and> hd u = Punct TokColon")
    case False
    have "u \<noteq> []" using 1(2) us t by (auto simp: final_token_def)
    then show ?thesis using False unfolding us t by (intro starts_members_colon) auto
  next
    case True
    then obtain u' where u': "u = Punct TokColon # u'" by (cases u) auto
    have "wf_stream u" using 1(2) us t by (auto simp: final_token_def)
    then have w': "u' \<noteq> []" "wf_stream u'" using wf_Cons [of "Punct TokColon" u'] u' by (auto simp: final_token_def)
    have "starts_value m u'" using IH(1) [of u'] w' us u' by simp
    then show ?thesis unfolding starts_value_def
    proof (elim disjE exE conjE)
      fix ts v rest assume a: "u' = ts @ rest" "rest \<noteq> []" "json_value ts v"
      then obtain h r where r: "rest = h # r" by (cases rest) auto
      have w: "wf_stream (h # r)" using wf_suffix w'(2) a r by blast
      have l: "length r < length us" using a r us u' by simp
      have "starts_members m r" if hr: "h = Punct TokComma" "r \<noteq> []" "\<exists>k2. hd r = Str k2"
      proof -
        obtain k2 r' where "r = Str k2 # r'" using hr by (cases r) auto
        moreover have "wf_stream r" using wf_Cons [OF w] hr(1) by (simp add: final_token_def)
        ultimately show ?thesis using IH(3) [OF l] by blast
      qed
      then show ?thesis by (rule starts_members_step [OF _ a(3) w, of us k, rotated]) (simp_all add: us t u' a(1) r)
    next
      assume "\<forall>s os ss ids. conf s u' os ss ids m \<longrightarrow> fails (parse StartParseExpression s)"
      then show ?thesis unfolding us t u' by (rule starts_members_fail) (rule w'(1))
    qed
  qed
  show ?case using V E M us by blast
qed

definition json_text :: "ParserMode \<Rightarrow> Token list \<Rightarrow> JSValue \<Rightarrow> bool" where
  "json_text m ts v \<longleftrightarrow>
     (if m = StrictJSON then json_value ts v
      else json_value ts v \<and> typeOf (hd ts) \<in> {TokLBracket, TokString, TokNumber}
        \<or> (\<exists>us. ts = Punct TokLParen # us @ [Punct TokRParen] \<and> json_value us v))"

lemma newParser_conf:
  "conf (snd (next_token (newParser m source))) (tokens m source) [] [] [] m"
  by (simp add: conf_def next_token_def newParser_def tokens_def split: prod.splits)

lemma expression_result:
  assumes c: "conf s us [] ss [] m" and w: "wf_stream us"
  shows "(\<exists>ts v rest. us = ts @ rest \<and> rest \<noteq> [] \<and> json_value ts v \<and> reaches (parse StartParseExpression s) v rest [] ss [] m)
    \<or> fails (parse StartParseExpression s)"
proof -
  have "starts_value m us" using starts_all [OF w] by blast
  then show ?thesis unfolding starts_value_def
  proof (elim disjE exE conjE)
    fix ts v rest assume a: "us = ts @ rest" "rest \<noteq> []" "json_value ts v"
    then have "reaches (parse StartParseExpression s) v rest [] ss [] m" using json_run(1) [OF a(3)] c by blast
    then show ?thesis using a by blast
  next
    assume "\<forall>s os ss ids. conf s us os ss ids m \<longrightarrow> fails (parse StartParseExpression s)"
    then have "fails (parse StartParseExpression s)" using c by blast
    then show ?thesis ..
  qed
qed

lemma final_stream: "conf s us os ss ids m \<Longrightarrow> wf_stream us \<Longrightarrow> currentType s = TokEnd \<longleftrightarrow> us = [Punct TokEnd]"
proof -
  assume c: "conf s us os ss ids m" "wf_stream us"
  then obtain t u where u: "us = t # u" by (cases us) auto
  have "typeOf t = TokEnd \<longleftrightarrow> t = Punct TokEnd" by (cases t) auto
  then show ?thesis using c u conf_type [of s t u] by (auto simp: final_token_def split: if_splits)
qed

lemma strict_result:
  assumes c: "conf s us [] [] [] m" and w: "wf_stream us"
  shows "\<exists>r s'. parse StartParseExpression s = Some (r, s') \<and>
    (\<forall>v. r = Some v \<and> currentType s' = TokEnd \<longleftrightarrow> (\<exists>ts. us = ts @ [Punct TokEnd] \<and> json_value ts v))"
proof -
  have accept: "\<exists>s'. parse StartParseExpression s = Some (Some v, s') \<and> conf s' rest [] [] [] m"
    if "us = ts @ rest" "rest \<noteq> []" "json_value ts v" for ts v rest
    using json_run(1) [OF that(3)] c that(1,2) by (fastforce simp: reaches_def finish_def conf_def)
  have accepted: "\<exists>s'. parse StartParseExpression s = Some (Some v, s') \<and> currentType s' = TokEnd"
    if e: "us = ts @ [Punct TokEnd]" "json_value ts v" for ts v
    using accept [OF e(1) _ e(2)] final_stream [of _ "[Punct TokEnd]"] by (auto simp: final_token_def)
  from expression_result [OF c w] show ?thesis
  proof (elim disjE exE conjE)
    assume "fails (parse StartParseExpression s)"
    then obtain s' where "parse StartParseExpression s = Some (None, s')" by (auto simp: fails_def)
    then show ?thesis using accepted by fastforce
  next
    fix ts v rest assume a: "us = ts @ rest" "rest \<noteq> []" "json_value ts v"
    obtain s' where s': "parse StartParseExpression s = Some (Some v, s')" "conf s' rest [] [] [] m"
      using accept [OF a] by blast
    have iff: "currentType s' = TokEnd \<longleftrightarrow> rest = [Punct TokEnd]" using final_stream [OF s'(2)] wf_suffix w a by blast
    have "Some v = Some v' \<and> currentType s' = TokEnd \<longleftrightarrow> (\<exists>ts. us = ts @ [Punct TokEnd] \<and> json_value ts v')" for v'
    proof
      assume "Some v = Some v' \<and> currentType s' = TokEnd"
      then show "\<exists>ts. us = ts @ [Punct TokEnd] \<and> json_value ts v'" using a iff by blast
    next
      assume "\<exists>ts. us = ts @ [Punct TokEnd] \<and> json_value ts v'"
      then show "Some v = Some v' \<and> currentType s' = TokEnd" using accepted s'(1) by fastforce
    qed
    then show ?thesis using s'(1) by blast
  qed
qed

lemma statement_direct:
  assumes "conf s (t # u) [] [] [] m" "typeOf t \<in> {TokLBracket, TokString, TokNumber}"
  shows "parse StartParseStatement s = parse StartParseExpression s"
  using conf_type [OF assms(1)] assms(2)
  by (subst parse_step) (auto simp: step_def startStatement_def)

lemma statement_other:
  assumes "conf s (t # u) [] [] [] m" "typeOf t \<notin> {TokLBracket, TokString, TokNumber, TokLParen}"
  shows "fails (parse StartParseStatement s)"
  using conf_type [OF assms(1)] assms(2)
  by (subst parse_step) (auto simp: step_def startStatement_def split: TokenType.splits)

lemma statement_paren:
  assumes "conf s (Punct TokLParen # u) [] [] [] m" "u \<noteq> []"
  obtains s' where "conf s' u [] [StartParseStatementEndStatement] [] m"
    "parse StartParseStatement s = parse StartParseExpression s'"
proof -
  obtain s1 where s1: "next_token s = (returned (typeOf (hd u)), s1)" "conf s1 u [] [] [] m" using conf_next [OF assms] .
  have "conf (s1\<lparr>stateStack := [StartParseStatementEndStatement]\<rparr>) u [] [StartParseStatementEndStatement] [] m"
    using s1(2) by (simp add: conf_def)
  moreover have "parse StartParseStatement s = parse StartParseExpression (s1\<lparr>stateStack := [StartParseStatementEndStatement]\<rparr>)"
    using conf_type [OF assms(1)] s1 by (subst parse_step) (simp add: step_def startStatement_def conf_def)
  ultimately show ?thesis using that by blast
qed

lemma statement_end:
  assumes "conf s rest [] [StartParseStatementEndStatement] [] m" "lastValue s = Some v" "wf_stream rest"
  shows "\<exists>r s'. outcome_of (finish s) = Some (r, s') \<and>
    (r = Some v \<and> currentType s' = TokEnd \<longleftrightarrow> rest = [Punct TokRParen, Punct TokEnd]) \<and> r \<in> {None, Some v}"
proof -
  define s0 where "s0 = s\<lparr>stateStack := []\<rparr>"
  have c0: "conf s0 rest [] [] [] m" using assms(1) by (simp add: conf_def s0_def)
  obtain t u where rest: "rest = t # u" using assms(3) by (cases rest) auto
  have t: "currentType s0 = typeOf t" using conf_type c0 rest by blast
  have tp: "typeOf t = TokRParen \<longleftrightarrow> t = Punct TokRParen" by (cases t) auto
  have e: "outcome_of (finish s) = outcome_of (endStatement s0)"
    using assms(1) by (simp add: finish_def conf_def s0_def parse_step step_def)
  show ?thesis
  proof (cases "t = Punct TokRParen")
    case False
    then show ?thesis using t tp e rest by (simp add: endStatement_def)
  next
    case True
    then have u: "u \<noteq> []" "wf_stream u" using assms(3) rest by (auto simp: final_token_def)
    obtain s1 where s1: "next_token s0 = (returned (typeOf (hd u)), s1)" "conf s1 u [] [] [] m" "lastValue s1 = Some v"
      using conf_next [OF c0 [unfolded rest] u(1)] assms(2) by (auto simp: s0_def)
    have r: "returned (typeOf (hd u)) = TokEnd \<longleftrightarrow> hd u = Punct TokEnd"
      by (cases "hd u") (auto simp: returned_def split: TokenType.splits)
    have h: "hd u = Punct TokEnd \<longleftrightarrow> u = [Punct TokEnd]" using u by (cases u) (auto simp: final_token_def)
    have "currentType s1 = TokEnd \<longleftrightarrow> u = [Punct TokEnd]" using final_stream [OF s1(2) u(2)] .
    then show ?thesis using e t True s1 r h rest
      by (cases "u = [Punct TokEnd]") (simp_all add: endStatement_def)
  qed
qed

lemma relaxed_result:
  assumes c: "conf s us [] [] [] m" and w: "wf_stream us" and m: "m \<noteq> StrictJSON"
  shows "\<exists>r s'. parse StartParseStatement s = Some (r, s') \<and>
    (\<forall>v. r = Some v \<and> currentType s' = TokEnd \<longleftrightarrow> (\<exists>ts. us = ts @ [Punct TokEnd] \<and> json_text m ts v))"
proof -
  obtain t u where us: "us = t # u" using w by (cases us) auto
  consider "typeOf t \<in> {TokLBracket, TokString, TokNumber}" | "t = Punct TokLParen"
    | "typeOf t \<notin> {TokLBracket, TokString, TokNumber, TokLParen}"
    by (cases t) auto
  then show ?thesis
  proof cases
    case 1
    have j: "(\<exists>ts. us = ts @ [Punct TokEnd] \<and> json_text m ts v) \<longleftrightarrow> (\<exists>ts. us = ts @ [Punct TokEnd] \<and> json_value ts v)" for v
    proof -
      have "hd ts = t" if "us = ts @ [Punct TokEnd]" "json_value ts v" for ts
        using that us json_nonempty(1) by (cases ts) auto
      moreover have "t \<noteq> Punct TokLParen" using 1 by auto
      ultimately show ?thesis using 1 m us by (auto simp: json_text_def)
    qed
    show ?thesis unfolding j statement_direct [OF c [unfolded us] 1] by (rule strict_result [OF c w])
  next
    case 3
    obtain s' where s': "parse StartParseStatement s = Some (None, s')"
      using statement_other [OF c [unfolded us] 3] by (auto simp: fails_def)
    have "hd ts = t" if "us = ts @ [Punct TokEnd]" "ts \<noteq> []" for ts
      using that us by (cases ts) auto
    then have "\<not> json_text m ts v" if "us = ts @ [Punct TokEnd]" for ts v
      using that 3 m json_nonempty(1) [of ts] us by (fastforce simp: json_text_def)
    then show ?thesis using s' by auto
  next
    case 2
    have u: "u \<noteq> []" "wf_stream u" using w us 2 by (auto simp: final_token_def)
    have j: "(\<exists>ts. us = ts @ [Punct TokEnd] \<and> json_text m ts v) \<longleftrightarrow>
        (\<exists>ts. u = ts @ [Punct TokRParen, Punct TokEnd] \<and> json_value ts v)" for v
    proof -
      have "\<not> json_value (Punct TokLParen # ts) v" for ts using value_first [of "Punct TokLParen # ts" v] by auto
      then have "\<not> (us = ts @ [Punct TokEnd] \<and> json_value ts v)" for ts using us 2 json_nonempty(1) by (cases ts) auto
      then show ?thesis using us 2 m by (auto simp: json_text_def)
    qed
    obtain s1 where s1: "conf s1 u [] [StartParseStatementEndStatement] [] m"
      "parse StartParseStatement s = parse StartParseExpression s1"
      using statement_paren [OF c [unfolded us 2] u(1)] .
    have accept: "\<exists>r s'. parse StartParseStatement s = Some (r, s') \<and>
        (r = Some v \<and> currentType s' = TokEnd \<longleftrightarrow> rest = [Punct TokRParen, Punct TokEnd]) \<and> r \<in> {None, Some v}"
      if e: "u = ts @ rest" "rest \<noteq> []" "json_value ts v" for ts v rest
    proof -
      obtain s2 where s2: "parse StartParseExpression s1 = outcome_of (finish s2)"
        "conf s2 rest [] [StartParseStatementEndStatement] [] m" "lastValue s2 = Some v"
      proof -
        have "reaches (parse StartParseExpression s1) v rest [] [StartParseStatementEndStatement] [] m"
          using json_run(1) [OF e(3)] s1(1) e(1,2) by blast
        then show ?thesis using that by (auto simp: reaches_def)
      qed
      have "wf_stream rest" using wf_suffix u(2) e by blast
      from statement_end [OF s2(2,3) this] show ?thesis unfolding s1(2) s2(1) .
    qed
    from expression_result [OF s1(1) u(2)] show ?thesis unfolding j
    proof (elim disjE exE conjE)
      assume "fails (parse StartParseExpression s1)"
      then obtain s' where "parse StartParseStatement s = Some (None, s')" by (auto simp: fails_def s1(2))
      then show "\<exists>r s'. parse StartParseStatement s = Some (r, s') \<and>
          (\<forall>v. r = Some v \<and> currentType s' = TokEnd \<longleftrightarrow> (\<exists>ts. u = ts @ [Punct TokRParen, Punct TokEnd] \<and> json_value ts v))"
        using accept by fastforce
    next
      fix ts v rest assume a: "u = ts @ rest" "rest \<noteq> []" "json_value ts v"
      obtain r s' where r: "parse StartParseStatement s = Some (r, s')"
          "r = Some v \<and> currentType s' = TokEnd \<longleftrightarrow> rest = [Punct TokRParen, Punct TokEnd]" "r \<in> {None, Some v}"
        using accept [OF a] by blast
      have "r = Some v' \<and> currentType s' = TokEnd \<longleftrightarrow> (\<exists>ts. u = ts @ [Punct TokRParen, Punct TokEnd] \<and> json_value ts v')" for v'
      proof
        assume "r = Some v' \<and> currentType s' = TokEnd"
        then show "\<exists>ts. u = ts @ [Punct TokRParen, Punct TokEnd] \<and> json_value ts v'" using a r by auto
      next
        assume "\<exists>ts. u = ts @ [Punct TokRParen, Punct TokEnd] \<and> json_value ts v'"
        then show "r = Some v' \<and> currentType s' = TokEnd" using accept r(1) by fastforce
      qed
      then show "\<exists>r s'. parse StartParseStatement s = Some (r, s') \<and>
          (\<forall>v. r = Some v \<and> currentType s' = TokEnd \<longleftrightarrow> (\<exists>ts. u = ts @ [Punct TokRParen, Punct TokEnd] \<and> json_value ts v))"
        using r(1) by blast
    qed
  qed
qed

lemma wf_tokens: "wf_stream (tokens m source)"
  by (simp add: tokens_def wf_tokensFrom split: prod.split)

lemma text_result:
  "\<exists>r s'. parse (if m = StrictJSON then StartParseExpression else StartParseStatement)
      (snd (next_token (newParser m source))) = Some (r, s') \<and>
    (\<forall>v. r = Some v \<and> currentType s' = TokEnd \<longleftrightarrow> (\<exists>ts. tokens m source = ts @ [Punct TokEnd] \<and> json_text m ts v))"
  using strict_result [OF newParser_conf wf_tokens] relaxed_result [OF newParser_conf wf_tokens]
  by (cases "m = StrictJSON") (simp_all add: json_text_def)

text \<open>
  C16: the parser returns on every source text, in both modes: the machine with its
  explicit stacks and gotos never loops forever.
\<close>

theorem tryLiteralParse_returns: "tryLiteralParse m source \<noteq> None"
  using text_result [of m source] by (auto simp: tryLiteralParse_def)

text \<open>
  C15: the parser returns a value exactly when the tokens of the source, up to its end,
  are a text of the grammar with that value; in the mode of eval exactly when they are
  such an array, string or number, or any such value in parentheses. The grammar is JSON
  with one rule more, an empty array closed by a parenthesis.
\<close>

theorem tryLiteralParse_accepts:
  "tryLiteralParse m source = Some (Some v) \<longleftrightarrow> (\<exists>ts. tokens m source = ts @ [Punct TokEnd] \<and> json_text m ts v)"
proof -
  obtain r s' where r: "parse (if m = StrictJSON then StartParseExpression else StartParseStatement)
      (snd (next_token (newParser m source))) = Some (r, s')"
    "r = Some v \<and> currentType s' = TokEnd \<longleftrightarrow> (\<exists>ts. tokens m source = ts @ [Punct TokEnd] \<and> json_text m ts v)"
    using text_result [of m source] by blast
  show ?thesis unfolding r(2) [symmetric] using r(1) by (auto simp: tryLiteralParse_def)
qed

text \<open>
  because lex returns TokRBracket for a closing parenthesis and the parser looks at
  the returned type there, JSON.parse accepts an opening bracket followed by a closing
  parenthesis as the empty array.
\<close>

theorem empty_array_paren_accepted:
  "tryLiteralParse StrictJSON (ustr ''[)'') = Some (Some (JArray []))"
proof -
  have "tokens StrictJSON (ustr ''[)'') = [Punct TokLBracket, Punct TokRParen] @ [Punct TokEnd]"
    by (simp add: tokens_def ustr_def lex_def isASCIISpace_def punctuation_def tokensFrom.simps tokOf_def)
  then have "\<exists>ts. tokens StrictJSON (ustr ''[)'') = ts @ [Punct TokEnd] \<and> json_text StrictJSON ts (JArray [])"
    by (intro exI [of _ "[Punct TokLBracket, Punct TokRParen]"]) (simp add: json_text_def empty_array_paren)
  then show ?thesis
    using text_result [of StrictJSON "ustr ''[)''"] by (auto simp: tryLiteralParse_def)
qed

text \<open>
  C17: JSON.parse of the string that JSON.stringify makes of a string value gives the
  value back, control characters, quotes and lone surrogates included.
\<close>

theorem json_string_roundtrip:
  "tryLiteralParse StrictJSON (appendQuotedString [] s) = Some (Some (JString s))"
proof -
  have d: "dropWhile isASCIISpace (appendQuotedString [] s) = appendQuotedString [] s"
    "appendQuotedString [] s = 0x22 # quoteLoop s @ [0x22]"
    by (simp_all add: appendQuotedString_def isASCIISpace_def)
  have l: "lex StrictJSON (appendQuotedString [] s) k =
      (TokString, k\<lparr>token_type := TokError, stringToken := s, token_type := TokString\<rparr>, [])" for k
    using lexString_quoted [of s "[]" "k\<lparr>token_type := TokError\<rparr>"]
    by (simp add: lex_def d punctuation_def isASCIISpace_def [of "0x22"])
  then have "tokens StrictJSON (appendQuotedString [] s) = [Str s] @ [Punct TokEnd]"
    by (simp add: tokens_def tokensFrom.simps tokOf_def lex_def)
  then have "\<exists>ts. tokens StrictJSON (appendQuotedString [] s) = ts @ [Punct TokEnd] \<and> json_text StrictJSON ts (JString s)"
    by (intro exI [of _ "[Str s]"]) (simp add: json_text_def string)
  then show ?thesis
    using text_result [of StrictJSON "appendQuotedString [] s"] by (auto simp: tryLiteralParse_def)
qed

end
