(* ===== verification/Base64.thy ===== *)
theory Base64
  imports Prelude
begin

section \<open>Base64 (WebCore/platform/text/Base64.cpp)\<close>

text \<open>
  base64Encode and base64Decode, the pair behind window.btoa and window.atob. A
  \<open>Vector<char>\<close> is a list of bytes; the shifts and masks of the code keep six bits, so
  they give the same on an 8-bit word as on the promoted \<open>int\<close>. The decoder first writes
  the 6-bit values to \<open>out\<close> and then packs them in place: the model updates the list at
  the same indices in the same order.
\<close>

definition base64EncMap :: "byte list" where
  "base64EncMap =
    [0x41, 0x42, 0x43, 0x44, 0x45, 0x46, 0x47, 0x48,
     0x49, 0x4A, 0x4B, 0x4C, 0x4D, 0x4E, 0x4F, 0x50,
     0x51, 0x52, 0x53, 0x54, 0x55, 0x56, 0x57, 0x58,
     0x59, 0x5A, 0x61, 0x62, 0x63, 0x64, 0x65, 0x66,
     0x67, 0x68, 0x69, 0x6A, 0x6B, 0x6C, 0x6D, 0x6E,
     0x6F, 0x70, 0x71, 0x72, 0x73, 0x74, 0x75, 0x76,
     0x77, 0x78, 0x79, 0x7A, 0x30, 0x31, 0x32, 0x33,
     0x34, 0x35, 0x36, 0x37, 0x38, 0x39, 0x2B, 0x2F]"

definition base64DecMap :: "byte list" where
  "base64DecMap =
    [0x00, 0x00, 0x00, 0x00, 0x00, 0x00, 0x00, 0x00,
     0x00, 0x00, 0x00, 0x00, 0x00, 0x00, 0x00, 0x00,
     0x00, 0x00, 0x00, 0x00, 0x00, 0x00, 0x00, 0x00,
     0x00, 0x00, 0x00, 0x00, 0x00, 0x00, 0x00, 0x00,
     0x00, 0x00, 0x00, 0x00, 0x00, 0x00, 0x00, 0x00,
     0x00, 0x00, 0x00, 0x3E, 0x00, 0x00, 0x00, 0x3F,
     0x34, 0x35, 0x36, 0x37, 0x38, 0x39, 0x3A, 0x3B,
     0x3C, 0x3D, 0x00, 0x00, 0x00, 0x00, 0x00, 0x00,
     0x00, 0x00, 0x01, 0x02, 0x03, 0x04, 0x05, 0x06,
     0x07, 0x08, 0x09, 0x0A, 0x0B, 0x0C, 0x0D, 0x0E,
     0x0F, 0x10, 0x11, 0x12, 0x13, 0x14, 0x15, 0x16,
     0x17, 0x18, 0x19, 0x00, 0x00, 0x00, 0x00, 0x00,
     0x00, 0x1A, 0x1B, 0x1C, 0x1D, 0x1E, 0x1F, 0x20,
     0x21, 0x22, 0x23, 0x24, 0x25, 0x26, 0x27, 0x28,
     0x29, 0x2A, 0x2B, 0x2C, 0x2D, 0x2E, 0x2F, 0x30,
     0x31, 0x32, 0x33, 0x00, 0x00, 0x00, 0x00, 0x00]"

subsection \<open>Encoder\<close>

text \<open>The four expressions of one group, for the bytes at sidx, sidx + 1 and sidx + 2.\<close>

definition enc1 :: "byte \<Rightarrow> byte" where
  "enc1 a = base64EncMap ! unat (drop_bit 2 a AND 0x3F)"

definition enc2 :: "byte \<Rightarrow> byte \<Rightarrow> byte" where
  "enc2 a b = base64EncMap ! unat ((drop_bit 4 b AND 0xF) OR (push_bit 4 a AND 0x3F))"

definition enc3 :: "byte \<Rightarrow> byte \<Rightarrow> byte" where
  "enc3 b c = base64EncMap ! unat ((drop_bit 6 c AND 3) OR (push_bit 2 b AND 0x3F))"

definition enc4 :: "byte \<Rightarrow> byte" where
  "enc4 c = base64EncMap ! unat (c AND 0x3F)"

text \<open>
  The loop over whole groups: what it writes, the final value of count, and the bytes
  from sidx on that are left.
\<close>

fun encodeGroups :: "bool \<Rightarrow> nat \<Rightarrow> byte list \<Rightarrow> byte list \<times> nat \<times> byte list" where
  "encodeGroups insertLFs count (a # b # c # data) =
     (let lf = (if insertLFs \<and> count \<noteq> 0 \<and> count mod 76 = 0 then [0x0A] else []);
          (written, count, rest) = encodeGroups insertLFs (if insertLFs then count + 4 else count) data
      in (lf @ [enc1 a, enc2 a b, enc3 b c, enc4 c] @ written, count, rest))"
| "encodeGroups insertLFs count data = ([], count, data)"

definition encodeTail :: "bool \<Rightarrow> nat \<Rightarrow> byte list \<Rightarrow> byte list" where
  "encodeTail insertLFs count rest =
     (let lf = (if insertLFs \<and> 0 < count \<and> count mod 76 = 0 then [0x0A] else []) in
      case rest of
        [] \<Rightarrow> []
      | [a] \<Rightarrow> lf @ [enc1 a, base64EncMap ! unat (push_bit 4 a AND 0x3F)]
      | a # b # _ \<Rightarrow> lf @ [enc1 a, enc2 a b, base64EncMap ! unat (push_bit 2 b AND 0x3F)])"

definition maxInputBufferSize :: nat where
  "maxInputBufferSize = (2 ^ 32 - 1) div 77 * 76 div 4 * 3 - 2"

text \<open>The final value of out_len, the size of the output buffer.\<close>

definition outputLength :: "nat \<Rightarrow> bool \<Rightarrow> nat" where
  "outputLength len insertLFs =
     (let out_len = ((len + 2) div 3) * 4
      in if insertLFs \<and> 76 < out_len then out_len + (out_len - 1) div 76 else out_len)"

definition writtenBytes :: "byte list \<Rightarrow> bool \<Rightarrow> byte list" where
  "writtenBytes data insertLFs =
     (let insertLFs = (insertLFs \<and> 76 < ((length data + 2) div 3) * 4);
          (written, count, rest) = encodeGroups insertLFs 0 data
      in written @ encodeTail insertLFs count rest)"

definition base64Encode :: "byte list \<Rightarrow> bool \<Rightarrow> byte list" where
  "base64Encode data insertLFs =
     (if data = [] then []
      else if maxInputBufferSize < length data then []
      else let written = writtenBytes data insertLFs
        in written @ replicate (outputLength (length data) insertLFs - length written) 0x3D)"

subsection \<open>Decoder\<close>

definition acceptedChar :: "byte \<Rightarrow> bool" where
  "acceptedChar ch \<longleftrightarrow>
     (47 < ch \<and> ch < 58) \<or> (64 < ch \<and> ch < 91) \<or> (96 < ch \<and> ch < 123) \<or> ch = 0x2B \<or> ch = 0x2F \<or> ch = 0x3D"

text \<open>The three expressions of one group on the 6-bit values.\<close>

definition dec1 :: "byte \<Rightarrow> byte \<Rightarrow> byte" where
  "dec1 v0 v1 = (push_bit 2 v0 AND 255) OR (drop_bit 4 v1 AND 3)"

definition dec2 :: "byte \<Rightarrow> byte \<Rightarrow> byte" where
  "dec2 v1 v2 = (push_bit 4 v1 AND 255) OR (drop_bit 2 v2 AND 0xF)"

definition dec3 :: "byte \<Rightarrow> byte \<Rightarrow> byte" where
  "dec3 v2 v3 = (push_bit 6 v2 AND 255) OR (v3 AND 0x3F)"

definition decodeGroup :: "byte list \<Rightarrow> nat \<Rightarrow> nat \<Rightarrow> byte list" where
  "decodeGroup out didx sidx =
     (let out = out[didx := dec1 (out ! sidx) (out ! (sidx + 1))];
          out = out[didx + 1 := dec2 (out ! (sidx + 1)) (out ! (sidx + 2))]
      in out[didx + 2 := dec3 (out ! (sidx + 2)) (out ! (sidx + 3))])"

function decodeGroups :: "nat \<Rightarrow> byte list \<Rightarrow> nat \<Rightarrow> nat \<Rightarrow> byte list \<times> nat \<times> nat" where
  "decodeGroups outLen out didx sidx =
     (if 1 < outLen \<and> didx < outLen - 2
      then decodeGroups outLen (decodeGroup out didx sidx) (didx + 3) (sidx + 4)
      else (out, didx, sidx))"
  by pat_completeness auto
termination by (relation "measure (\<lambda>(outLen, out, didx, sidx). outLen - didx)") auto

declare decodeGroups.simps [simp del]

definition stripPadding :: "byte list \<Rightarrow> byte list" where
  "stripPadding data = rev (dropWhile (\<lambda>c. c = 0x3D) (rev data))"

text \<open>\<open>None\<close> is the return value false; the contents of \<open>out\<close> are then not used.\<close>

definition base64Decode :: "byte list \<Rightarrow> byte list option" where
  "base64Decode data =
     (if data = [] then Some []
      else let data = stripPadding data; len = length data in
        if \<not> list_all acceptedChar data then None
        else let out = map (\<lambda>ch. base64DecMap ! unat ch) data;
                 outLen = len - ((len + 3) mod 2 ^ 32) div 4
          in if outLen = 0 \<or> ((outLen + 2) mod 2 ^ 32 div 3) * 4 mod 2 ^ 32 < len then None
             else let (out, didx, sidx) = decodeGroups outLen out 0 0;
                      out = (if didx < outLen then out[didx := dec1 (out ! sidx) (out ! (sidx + 1))] else out);
                      out = (if didx + 1 < outLen
                        then out[didx + 1 := dec2 (out ! (sidx + 1)) (out ! (sidx + 2))] else out)
               in Some (take outLen out))"

subsection \<open>The packing identities\<close>

definition val6 :: "byte \<Rightarrow> byte" where
  "val6 ch = base64DecMap ! unat ch"

lemma all_below: "list_all P [0..<n] \<Longrightarrow> i < n \<Longrightarrow> P i"
  by (simp add: list_all_iff)

lemma encmap_facts:
  assumes "i < 64"
  shows "val6 (base64EncMap ! i) = of_nat i" "acceptedChar (base64EncMap ! i)" "base64EncMap ! i \<noteq> 0x3D"
    "base64EncMap ! i \<noteq> 0x0A"
proof -
  have "list_all (\<lambda>i. val6 (base64EncMap ! i) = of_nat i \<and> acceptedChar (base64EncMap ! i) \<and>
      base64EncMap ! i \<noteq> 0x3D \<and> base64EncMap ! i \<noteq> 0x0A) [0..<64]"
    by code_simp
  then show "val6 (base64EncMap ! i) = of_nat i" "acceptedChar (base64EncMap ! i)" "base64EncMap ! i \<noteq> 0x3D"
    "base64EncMap ! i \<noteq> 0x0A"
    using all_below [OF _ assms] by blast+
qed

lemma six_bits: "unat ((x :: byte) AND 0x3F) < 64"
  by (simp add: unat_and_63)

lemma six_bits_or:
  "unat (((x :: byte) AND 0xF) OR (y AND 0x3F)) < 64" "unat ((x AND 3) OR (y AND 0x3F)) < 64"
proof -
  have "((x :: byte) AND 0xF) OR (y AND 0x3F) = (((x AND 0xF) OR y) AND 0x3F)" "(x AND 3) OR (y AND 0x3F) = (((x AND 3) OR y) AND 0x3F)"
    by (simp_all add: bit.conj_disj_distrib2 and.assoc)
  then show "unat (((x :: byte) AND 0xF) OR (y AND 0x3F)) < 64" "unat ((x AND 3) OR (y AND 0x3F)) < 64"
    by (simp_all only: six_bits)
qed

definition grp2 :: "byte \<Rightarrow> byte \<Rightarrow> byte" where "grp2 a b = (drop_bit 4 b AND 0xF) OR (push_bit 4 a AND 0x3F)"
definition grp3 :: "byte \<Rightarrow> byte \<Rightarrow> byte" where "grp3 b c = (drop_bit 6 c AND 3) OR (push_bit 2 b AND 0x3F)"

lemma val6_enc:
  "val6 (enc1 a) = drop_bit 2 a AND 0x3F" "val6 (enc2 a b) = grp2 a b" "val6 (enc3 b c) = grp3 b c" "val6 (enc4 c) = c AND 0x3F"
  "val6 (base64EncMap ! unat (x AND 0x3F)) = x AND 0x3F"
  by (simp_all add: enc1_def enc2_def enc3_def enc4_def encmap_facts six_bits six_bits_or grp2_def grp3_def)

lemma bits8: "n < 8 \<Longrightarrow> P 0 \<Longrightarrow> P 1 \<Longrightarrow> P 2 \<Longrightarrow> P 3 \<Longrightarrow> P 4 \<Longrightarrow> P 5 \<Longrightarrow> P 6 \<Longrightarrow> P 7 \<Longrightarrow> P (n :: nat)"
  by (simp add: eval_nat_numeral less_Suc_eq) blast

lemma pack_unpack:
  "dec1 (drop_bit 2 a AND 0x3F) (grp2 a b) = a"
  "dec2 (grp2 a b) (grp3 b c) = b"
  "dec3 (grp3 b c) (c AND 0x3F) = c"
  "dec1 (drop_bit 2 a AND 0x3F) (push_bit 4 a AND 0x3F) = a"
  "dec2 (grp2 a b) (push_bit 2 b AND 0x3F) = b"
  by (rule bit_word_eqI, simp, erule bits8; simp add: dec1_def dec2_def dec3_def grp2_def grp3_def bit_simps bit_numeral_rec)+

subsection \<open>The decoder computes \<open>unpack\<close>\<close>

fun unpack :: "byte list \<Rightarrow> byte list" where
  "unpack (v0 # v1 # v2 # v3 # vs) = dec1 v0 v1 # dec2 v1 v2 # dec3 v2 v3 # unpack vs"
| "unpack [v0, v1, v2] = [dec1 v0 v1, dec2 v1 v2]"
| "unpack [v0, v1] = [dec1 v0 v1]"
| "unpack _ = []"

definition unpackedLength :: "nat \<Rightarrow> nat" where
  "unpackedLength n = n - (n + 3) div 4"

lemma unpackedLength_add4: "unpackedLength (n + 4) = unpackedLength n + 3"
proof -
  have "(n + 4 + 3) div 4 = Suc ((n + 3) div 4)" by simp
  moreover have "(n + 3) div 4 \<le> n" by simp
  ultimately show ?thesis by (simp add: unpackedLength_def)
qed

lemma unpackedLength_Suc4: "unpackedLength (Suc (Suc (Suc (Suc n)))) = Suc (Suc (Suc (unpackedLength n)))"
  using unpackedLength_add4 [of n] by (simp add: eval_nat_numeral)

lemma length_unpack: "length (unpack vs) = unpackedLength (length vs)"
proof (induction vs rule: unpack.induct)
  case (1 v0 v1 v2 v3 vs)
  then show ?case by (simp add: unpackedLength_Suc4)
qed (simp_all add: unpackedLength_def)

text \<open>The in-place loop: the values from sidx on are still there when they are read.\<close>

definition finish :: "nat \<Rightarrow> byte list \<times> nat \<times> nat \<Rightarrow> byte list" where
  "finish outLen r =
    (let (out, didx, sidx) = r;
         out = (if didx < outLen then out[didx := dec1 (out ! sidx) (out ! (sidx + 1))] else out);
         out = (if didx + 1 < outLen then out[didx + 1 := dec2 (out ! (sidx + 1)) (out ! (sidx + 2))] else out)
     in take outLen out)"

lemma decodeGroup_nth:
  assumes "didx \<le> sidx" "sidx + 3 < length out"
  shows "length (decodeGroup out didx sidx) = length out"
    "sidx + 4 \<le> i \<Longrightarrow> decodeGroup out didx sidx ! i = out ! i"
    "take (didx + 3) (decodeGroup out didx sidx) = take didx out @
       [dec1 (out ! sidx) (out ! (sidx + 1)), dec2 (out ! (sidx + 1)) (out ! (sidx + 2)), dec3 (out ! (sidx + 2)) (out ! (sidx + 3))]"
proof -
  show l: "length (decodeGroup out didx sidx) = length out" by (simp add: decodeGroup_def Let_def)
  show "sidx + 4 \<le> i \<Longrightarrow> decodeGroup out didx sidx ! i = out ! i" using assms by (simp add: decodeGroup_def Let_def)
  have "decodeGroup out didx sidx ! didx = dec1 (out ! sidx) (out ! (sidx + 1))"
    "decodeGroup out didx sidx ! Suc didx = dec2 (out ! (sidx + 1)) (out ! (sidx + 2))"
    "decodeGroup out didx sidx ! Suc (Suc didx) = dec3 (out ! (sidx + 2)) (out ! (sidx + 3))"
    using assms by (simp_all add: decodeGroup_def Let_def)
  moreover have "take didx (decodeGroup out didx sidx) = take didx out" by (simp add: decodeGroup_def Let_def)
  ultimately show "take (didx + 3) (decodeGroup out didx sidx) = take didx out @
       [dec1 (out ! sidx) (out ! (sidx + 1)), dec2 (out ! (sidx + 1)) (out ! (sidx + 2)), dec3 (out ! (sidx + 2)) (out ! (sidx + 3))]"
    using assms by (simp add: eval_nat_numeral take_Suc_conv_app_nth l)
qed

lemma drop_nths:
  "i + 4 \<le> length xs \<Longrightarrow> drop i xs = xs ! i # xs ! (i + 1) # xs ! (i + 2) # xs ! (i + 3) # drop (i + 4) xs"
  "i + 3 = length xs \<Longrightarrow> drop i xs = [xs ! i, xs ! (i + 1), xs ! (i + 2)]"
  "i + 2 = length xs \<Longrightarrow> drop i xs = [xs ! i, xs ! (i + 1)]"
  by (simp_all add: Cons_nth_drop_Suc [symmetric] eval_nat_numeral)

lemma decodeGroups_done: "outLen \<le> didx + 2 \<Longrightarrow> decodeGroups outLen out didx sidx = (out, didx, sidx)"
  by (subst decodeGroups.simps) auto

lemma decodeGroups_finish:
  assumes "length out = length vals" "\<forall>i. sidx \<le> i \<and> i < length vals \<longrightarrow> out ! i = vals ! i"
    "didx \<le> sidx" "sidx \<le> length vals" "outLen = didx + unpackedLength (length vals - sidx)" "(length vals - sidx) mod 4 \<noteq> 1"
  shows "finish outLen (decodeGroups outLen out didx sidx) = take didx out @ unpack (drop sidx vals)"
  using assms
proof (induction "length vals - sidx" arbitrary: out didx sidx rule: less_induct)
  case less
  let ?n = "length vals - sidx"
  have "?n \<noteq> 1" using less.prems(6) by auto
  then consider "?n = 0" | "?n = 2" | "?n = 3" | "4 \<le> ?n" by linarith
  then show ?case
  proof cases
    case 1
    then have "outLen = didx" "drop sidx vals = []" using less.prems by (auto simp: unpackedLength_def)
    then show ?thesis by (simp add: finish_def decodeGroups_done)
  next
    case 2
    then have o: "outLen = Suc didx" "drop sidx vals = [vals ! sidx, vals ! (sidx + 1)]"
      using less.prems drop_nths(3) [of sidx vals] by (auto simp: unpackedLength_def)
    have "out ! sidx = vals ! sidx" "out ! (sidx + 1) = vals ! (sidx + 1)" using less.prems 2 by auto
    then show ?thesis using less.prems(1,3) 2
      by (simp add: finish_def decodeGroups_done o take_Suc_conv_app_nth)
  next
    case 3
    then have o: "outLen = Suc (Suc didx)" "drop sidx vals = [vals ! sidx, vals ! (sidx + 1), vals ! (sidx + 2)]"
      using less.prems drop_nths(2) [of sidx vals] by (auto simp: unpackedLength_def)
    have "out ! sidx = vals ! sidx" "out ! (sidx + 1) = vals ! (sidx + 1)" "out ! (sidx + 2) = vals ! (sidx + 2)"
      using less.prems 3 by auto
    then show ?thesis using less.prems(1,3) 3
      by (simp add: finish_def decodeGroups_done o take_Suc_conv_app_nth)
  next
    case 4
    let ?out = "decodeGroup out didx sidx"
    have n: "length vals - sidx = (length vals - (sidx + 4)) + 4" using 4 by simp
    have o: "outLen = didx + 3 + unpackedLength (length vals - (sidx + 4))"
      using less.prems(5) unpackedLength_add4 unfolding n by simp
    have b: "sidx + 3 < length out" using 4 less.prems by simp
    note g = decodeGroup_nth [OF less.prems(3) b]
    have "finish outLen (decodeGroups outLen ?out (didx + 3) (sidx + 4)) = take (didx + 3) ?out @ unpack (drop (sidx + 4) vals)"
    proof (rule less.hyps)
      show "(length vals - (sidx + 4)) mod 4 \<noteq> 1" using less.prems(6) unfolding n by simp
    qed (use 4 less.prems g o in auto)
    moreover have "out ! sidx = vals ! sidx" "out ! (sidx + 1) = vals ! (sidx + 1)" "out ! (sidx + 2) = vals ! (sidx + 2)"
      "out ! (sidx + 3) = vals ! (sidx + 3)"
      using less.prems 4 by auto
    moreover have "decodeGroups outLen out didx sidx = decodeGroups outLen ?out (didx + 3) (sidx + 4)"
      using o by (subst decodeGroups.simps) simp
    ultimately show ?thesis using drop_nths(1) [of sidx vals] 4 by (simp add: g(3))
  qed
qed

lemma length_check:
  assumes "n + 3 < 2 ^ 32" "0 < (n :: nat)"
  shows "(let outLen = n - ((n + 3) mod 2 ^ 32) div 4 in outLen = 0 \<or> ((outLen + 2) mod 2 ^ 32 div 3) * 4 mod 2 ^ 32 < n) \<longleftrightarrow> n mod 4 = 1"
proof -
  define q where "q = n div 4"
  define r where "r = n mod 4"
  have n: "n = 4 * q + r" "r < 4" by (auto simp: q_def r_def)
  have o: "n - (n + 3) div 4 = 3 * q + (r - 1)" using n by (cases "r = 0"; cases "r = 1"; cases "r = 2") auto
  have d: "(3 * q + (r - 1) + 2) div 3 = (if r \<le> 1 then q else q + 1)" using n by auto
  have m: "(3 * q + (r - 1) + 2) mod 2 ^ 32 = 3 * q + (r - 1) + 2" using n assms by (intro mod_less) linarith
  have m4: "(if r \<le> 1 then q else q + 1) * 4 mod 2 ^ 32 = (if r \<le> 1 then q else q + 1) * 4" using n assms by auto
  have m3: "(n + 3) mod 2 ^ 32 = n + 3" using assms by simp
  show ?thesis unfolding Let_def m3 o m d m4 using n assms by auto
qed

lemma base64Decode_eq:
  assumes "length data + 3 < 2 ^ 32"
  shows "base64Decode data =
    (let s = stripPadding data in
     if data = [] then Some []
     else if s \<noteq> [] \<and> list_all acceptedChar s \<and> length s mod 4 \<noteq> 1 then Some (unpack (map val6 s)) else None)"
proof -
  let ?s = "stripPadding data"
  have l: "length ?s \<le> length data" unfolding stripPadding_def by (metis length_dropWhile_le length_rev)
  consider "data = [] \<or> ?s = [] \<or> \<not> list_all acceptedChar ?s" | "data \<noteq> []" "?s \<noteq> []" "list_all acceptedChar ?s" "length ?s mod 4 = 1"
    | "\<not> (data = [] \<or> ?s = [] \<or> \<not> list_all acceptedChar ?s \<or> length ?s mod 4 = 1)" by blast
  then show ?thesis
  proof cases
    case 1
    then show ?thesis by (auto simp: base64Decode_def Let_def)
  next
    case 2
    have "(let outLen = length ?s - ((length ?s + 3) mod 2 ^ 32) div 4 in outLen = 0 \<or> ((outLen + 2) mod 2 ^ 32 div 3) * 4 mod 2 ^ 32 < length ?s)"
      using length_check [of "length ?s"] l assms 2 by simp
    then show ?thesis using 2 unfolding base64Decode_def Let_def by (simp only: if_True if_False list.size simp_thms)
  next
    case False: 3
    let ?v = "map val6 ?s"
    have u: "length ?s - ((length ?s + 3) mod 2 ^ 32) div 4 = unpackedLength (length ?s)"
      using l assms by (simp add: unpackedLength_def)
    have "finish (unpackedLength (length ?s)) (decodeGroups (unpackedLength (length ?s)) ?v 0 0) = unpack ?v"
      using decodeGroups_finish [of ?v ?v 0 0 "unpackedLength (length ?s)"] False by simp
    moreover have "\<not> (let outLen = length ?s - ((length ?s + 3) mod 2 ^ 32) div 4 in outLen = 0 \<or> ((outLen + 2) mod 2 ^ 32 div 3) * 4 mod 2 ^ 32 < length ?s)"
      using length_check [of "length ?s"] l assms False by simp
    then have "base64Decode data = Some (finish (length ?s - ((length ?s + 3) mod 2 ^ 32) div 4)
        (decodeGroups (length ?s - ((length ?s + 3) mod 2 ^ 32) div 4) ?v 0 0))"
      using False unfolding base64Decode_def finish_def Let_def val6_def [abs_def]
      by (simp only: if_False simp_thms split: prod.split) simp
    ultimately show ?thesis using False unfolding u by (simp add: Let_def)
  qed
qed

subsection \<open>The encoder, its output length and the round trip\<close>

fun encodeAll :: "byte list \<Rightarrow> byte list" where
  "encodeAll (a # b # c # data) = enc1 a # enc2 a b # enc3 b c # enc4 c # encodeAll data"
| "encodeAll [a, b] = [enc1 a, enc2 a b, base64EncMap ! unat (push_bit 2 b AND 0x3F)]"
| "encodeAll [a] = [enc1 a, base64EncMap ! unat (push_bit 4 a AND 0x3F)]"
| "encodeAll [] = []"

lemma unpack_encodeAll: "unpack (map val6 (encodeAll data)) = data"
  by (induction data rule: encodeAll.induct) (simp_all add: val6_enc pack_unpack)

definition encChar :: "byte \<Rightarrow> bool" where
  "encChar ch \<longleftrightarrow> acceptedChar ch \<and> ch \<noteq> 0x3D \<and> ch \<noteq> 0x0A"

lemma encChar_enc: "encChar (enc1 a)" "encChar (enc2 a b)" "encChar (enc3 b c)" "encChar (enc4 c)"
  "encChar (base64EncMap ! unat ((x :: byte) AND 0x3F))"
  by (simp_all add: encChar_def enc1_def enc2_def enc3_def enc4_def encmap_facts six_bits six_bits_or)

lemma encodeAll_chars: "list_all encChar (encodeAll data)"
  by (induction data rule: encodeAll.induct) (simp_all add: encChar_enc)

definition newlines :: "nat \<Rightarrow> nat \<Rightarrow> nat" where
  "newlines k n = (if k = 0 then (n - 1) div 19 else (k + n - 1) div 19 - (k - 1) div 19)"

lemma newlines_Suc: "newlines k (Suc n) = (if 0 < k \<and> k mod 19 = 0 then 1 else 0) + newlines (Suc k) n"
proof (cases "k = 0")
  case False
  have "k div 19 = (if k mod 19 = 0 then 1 else 0) + (k - 1) div 19"
    using False by (cases k) (auto simp: div_Suc)
  moreover have "k div 19 \<le> (k + n) div 19" by (simp add: div_le_mono)
  ultimately show ?thesis using False by (simp add: newlines_def)
qed (simp add: newlines_def)

lemma written_spec:
  "let (w, count, rest) = encodeGroups lf (if lf then 4 * k else 0) data; w' = w @ encodeTail lf count rest in
     filter (\<lambda>c. c \<noteq> 0x0A) w' = encodeAll data \<and>
     length w' = length (encodeAll data) + (if lf then newlines k ((length data + 2) div 3) else 0)"
proof (induction data arbitrary: k rule: encodeAll.induct)
  case (1 a b c data)
  obtain w count rest where w: "encodeGroups lf (if lf then 4 * Suc k else 0) data = (w, count, rest)"
    by (metis prod_cases3)
  have c: "(if lf then (if lf then 4 * k else 0) + 4 else (if lf then 4 * k else 0)) = (if lf then 4 * Suc k else 0)" by simp
  have m: "4 * k mod 76 = 0 \<longleftrightarrow> k mod 19 = 0" by presburger
  have ne: "enc1 a \<noteq> 0x0A" "enc2 a b \<noteq> 0x0A" "enc3 b c \<noteq> 0x0A" "enc4 c \<noteq> 0x0A"
    using encChar_enc unfolding encChar_def by blast+
  have d: "(length (a # b # c # data) + 2) div 3 = Suc ((length data + 2) div 3)" by simp
  show ?case using 1 [of "Suc k"] w
    by (simp only: encodeGroups.simps c w Let_def prod.case d newlines_Suc) (simp add: ne m)
next
  case (2 a b)
  have m: "4 * k mod 76 = 0 \<longleftrightarrow> k mod 19 = 0" by presburger
  have ne: "enc1 a \<noteq> 0x0A" "enc2 a b \<noteq> 0x0A" "base64EncMap ! unat (push_bit 2 b AND 0x3F) \<noteq> 0x0A"
    using encChar_enc unfolding encChar_def by blast+
  have "newlines (Suc k) 0 = 0" by (simp add: newlines_def)
  then show ?case using newlines_Suc [of k 0] by (simp add: encodeTail_def Let_def ne m)
next
  case (3 a)
  have m: "4 * k mod 76 = 0 \<longleftrightarrow> k mod 19 = 0" by presburger
  have ne: "enc1 a \<noteq> 0x0A" "base64EncMap ! unat (push_bit 4 a AND 0x3F) \<noteq> 0x0A"
    using encChar_enc unfolding encChar_def by blast+
  have "newlines (Suc k) 0 = 0" by (simp add: newlines_def)
  then show ?case using newlines_Suc [of k 0] by (simp add: encodeTail_def Let_def ne m)
next
  case 4
  then show ?case by (simp add: encodeTail_def newlines_def Let_def)
qed

definition wraps :: "byte list \<Rightarrow> bool \<Rightarrow> bool" where
  "wraps data lf \<longleftrightarrow> lf \<and> 76 < ((length data + 2) div 3) * 4"

lemma writtenBytes_spec:
  "filter (\<lambda>c. c \<noteq> 0x0A) (writtenBytes data lf) = encodeAll data \<and>
   length (writtenBytes data lf) = length (encodeAll data) + (if wraps data lf then ((length data + 2) div 3 - 1) div 19 else 0)"
proof -
  obtain w count rest where g: "encodeGroups (wraps data lf) 0 data = (w, count, rest)" by (metis prod_cases3)
  then have e: "writtenBytes data lf = w @ encodeTail (wraps data lf) count rest"
    by (simp only: writtenBytes_def Let_def wraps_def [symmetric] prod.case)
  have "(if wraps data lf then 4 * 0 else 0) = (0 :: nat)" by simp
  then show ?thesis using written_spec [of "wraps data lf" 0 data] unfolding e
    by (simp only: g Let_def prod.case) (simp add: newlines_def)
qed

lemma outputLength_eq:
  "outputLength (length data) lf = ((length data + 2) div 3) * 4 + (if wraps data lf then ((length data + 2) div 3 - 1) div 19 else 0)"
proof -
  have "(4 * g - 1) div 76 = (g - 1) div 19" if "0 < g" for g :: nat
    using that by (cases g) auto
  from this [of "(length data + 2) div 3"] show ?thesis
    by (auto simp: outputLength_def wraps_def Let_def mult.commute)
qed

lemma encodeAll_fits: "length (encodeAll data) \<le> ((length data + 2) div 3) * 4"
proof (induction data rule: encodeAll.induct)
  case (1 a b c data)
  have "(length (a # b # c # data) + 2) div 3 = Suc ((length data + 2) div 3)" by simp
  then show ?case using 1 by (simp del: add_2_eq_Suc add_2_eq_Suc' list.size(4)) simp
qed simp_all

text \<open>
  base64Encode writes only inside the buffer it sized in advance, its output has
  exactly the announced length, and for every input up to maxInputBufferSize that
  length, line feeds included, does not wrap around in 32 bits.
\<close>

theorem base64Encode_length:
  assumes "data \<noteq> []" "length data \<le> maxInputBufferSize"
  shows "length (writtenBytes data lf) \<le> outputLength (length data) lf \<and>
    length (base64Encode data lf) = outputLength (length data) lf \<and> outputLength (length data) lf < 2 ^ 32"
proof -
  have "length (writtenBytes data lf) \<le> outputLength (length data) lf"
    using writtenBytes_spec [of data lf] encodeAll_fits [of data] by (simp add: outputLength_eq)
  moreover have "outputLength (length data) lf < 2 ^ 32"
    using assms(2) by (auto simp: maxInputBufferSize_def outputLength_eq)
  ultimately show ?thesis using assms by (simp add: base64Encode_def Let_def)
qed

lemma acceptedChar_pad: "acceptedChar 0x3D"
  by (simp add: acceptedChar_def)

lemma stripPadding_pad:
  "list_all encChar s \<Longrightarrow> stripPadding (s @ replicate k 0x3D) = s"
proof -
  assume s: "list_all encChar s"
  have "dropWhile (\<lambda>c. c = 0x3D) (replicate k 0x3D @ rev s) = dropWhile (\<lambda>c. c = 0x3D) (rev s)"
    by (simp add: dropWhile_append)
  also have "\<dots> = rev s" using s by (cases "rev s") (auto simp: encChar_def list_all_iff dest!: arg_cong [of _ _ rev])
  finally show ?thesis by (simp add: stripPadding_def)
qed

lemma writtenBytes_plain: "writtenBytes data False = encodeAll data"
proof -
  have "length (filter (\<lambda>c. c \<noteq> 0x0A) (writtenBytes data False)) = length (writtenBytes data False)"
    using writtenBytes_spec [of data False] by (simp add: wraps_def)
  then show ?thesis using writtenBytes_spec [of data False]
    by (metis filter_id_conv length_filter_less linorder_neq_iff)
qed

text \<open>
  C36: base64Decode returns the bytes that base64Encode without line feeds encoded, for
  every input up to maxInputBufferSize, padding and the empty input included.
\<close>

theorem base64_roundtrip:
  assumes "length data \<le> maxInputBufferSize"
  shows "base64Decode (base64Encode data False) = Some data"
proof (cases "data = []")
  case True
  then show ?thesis by (simp add: base64Encode_def base64Decode_def)
next
  case False
  define k where "k = outputLength (length data) False - length (encodeAll data)"
  have e: "base64Encode data False = encodeAll data @ replicate k 0x3D"
    using False assms by (simp add: base64Encode_def writtenBytes_plain Let_def k_def)
  have "outputLength (length data) False + 3 < 2 ^ 32"
    using assms by (simp add: outputLength_eq wraps_def maxInputBufferSize_def; linarith)
  moreover have "length (base64Encode data False) = outputLength (length data) False"
    using encodeAll_fits [of data] by (simp add: e k_def outputLength_eq wraps_def)
  ultimately have l: "length (base64Encode data False) + 3 < 2 ^ 32" by simp
  have ne: "encodeAll data \<noteq> []" using False by (cases data rule: encodeAll.cases) simp_all
  have m: "length (encodeAll data) mod 4 \<noteq> 1"
    by (induction data rule: encodeAll.induct) (simp_all add: mod_Suc)
  have c: "list_all acceptedChar (encodeAll data)" using encodeAll_chars [of data] by (auto simp: list_all_iff encChar_def)
  show ?thesis unfolding base64Decode_eq [OF l]
    using ne m c by (simp add: e stripPadding_pad encodeAll_chars unpack_encodeAll)
qed

text \<open>
  the line feeds are the only difference that insertLFs makes: removing them from
  the output gives the output without line feeds.
\<close>

theorem base64Encode_lines:
  assumes "length data \<le> maxInputBufferSize"
  shows "filter (\<lambda>c. c \<noteq> 0x0A) (base64Encode data True) = base64Encode data False"
  using assms writtenBytes_spec [of data True] by (simp add: base64Encode_def Let_def writtenBytes_plain outputLength_eq wraps_def)

lemma base64Encode_length_witness:
  "length (writtenBytes [1, 2, 3, 4] True) \<le> outputLength (length [1 :: byte, 2, 3, 4]) True \<and>
    length (base64Encode [1, 2, 3, 4] True) = outputLength (length [1 :: byte, 2, 3, 4]) True \<and>
    outputLength (length [1 :: byte, 2, 3, 4]) True < 2 ^ 32"
  by (rule base64Encode_length) (simp_all add: maxInputBufferSize_def)

lemma base64_roundtrip_witness:
  "base64Decode (base64Encode (bstr ''Ma'') False) = Some (bstr ''Ma'')"
  by (rule base64_roundtrip) (simp add: maxInputBufferSize_def bstr_def)

lemma base64Encode_lines_witness:
  "filter (\<lambda>c. c \<noteq> 0x0A) (base64Encode (bstr ''Man'') True) = base64Encode (bstr ''Man'') False"
  by (rule base64Encode_lines) (simp add: maxInputBufferSize_def bstr_def)

text \<open>
  base64Decode strips the padding, accepts the rest exactly when it is not empty,
  has only accepted characters (the equals sign, decoded as zero bits, among them) and a
  length that is not 1 modulo 4, and its in-place loop computes the unpacking of the
  6-bit values, reading no value it has already overwritten.
\<close>

theorem base64Decode_exact:
  assumes "length data + 3 < 2 ^ 32"
  shows "base64Decode data =
    (let s = stripPadding data in
     if data = [] then Some []
     else if s \<noteq> [] \<and> list_all acceptedChar s \<and> length s mod 4 \<noteq> 1 then Some (unpack (map val6 s)) else None)"
  by (rule base64Decode_eq [OF assms])

lemma base64Decode_exact_witness:
  "base64Decode (bstr ''QUJD='') = Some (bstr ''ABC'') \<and> base64Decode (bstr ''Q'') = None"
  by (subst base64Decode_exact, simp add: bstr_def)+ code_simp

end
