(* ===== verification/DateMath.thy ===== *)
theory DateMath
  imports Prelude Complex_Main "HOL-Library.Signed_Division"
begin

section \<open>Calendar arithmetic (JavaScriptCore/wtf/DateMath.cpp)\<close>

text \<open>
  Conversions between a time value in milliseconds since 1970 and a calendar date, the
  cache of daylight-saving offsets, and the formula that Date.parse uses. A time value is
  an integral number of milliseconds (timeClip truncates it) of at most 8.64e15, which is below 2^53, so the
  double arithmetic of the code on it is exact and is written on \<open>int\<close>: \<open>floor(x / y)\<close> is
  \<open>x div y\<close>, and the divisions and remainders of C, which truncate, are \<open>sdiv\<close> and \<open>smod\<close>.
  The end and the increment of the cache can be fractions and are rationals. The
  functions of the C library that know the time zone are parameters.
\<close>

subsection \<open>Days and years\<close>

definition msPerSecond :: int where "msPerSecond = 1000"
definition msPerMinute :: int where "msPerMinute = 60 * 1000"
definition msPerHour :: int where "msPerHour = 60 * 60 * 1000"
definition msPerDay :: int where "msPerDay = 24 * 60 * 60 * 1000"

lemmas ms_defs = msPerSecond_def msPerMinute_def msPerHour_def msPerDay_def

definition firstDayOfMonth :: "int list \<times> int list" where
  "firstDayOfMonth =
    ([0, 31, 59, 90, 120, 151, 181, 212, 243, 273, 304, 334],
     [0, 31, 60, 91, 121, 152, 182, 213, 244, 274, 305, 335])"

definition isLeapYear :: "int \<Rightarrow> bool" where
  "isLeapYear year =
     (if year smod 4 \<noteq> 0 then False
      else if year smod 400 = 0 then True
      else if year smod 100 = 0 then False
      else True)"

definition daysInYear :: "int \<Rightarrow> int" where
  "daysInYear year = 365 + (if isLeapYear year then 1 else 0)"

definition daysFrom1970ToYear :: "int \<Rightarrow> int" where
  "daysFrom1970ToYear year =
     (let leapDaysBefore1971By4Rule = 1970 div 4;
          excludedLeapDaysBefore1971By100Rule = 1970 div 100;
          leapDaysBefore1971By400Rule = 1970 div 400;
          yearMinusOne = year - 1;
          yearsToAddBy4Rule = yearMinusOne div 4 - leapDaysBefore1971By4Rule;
          yearsToExcludeBy100Rule = yearMinusOne div 100 - excludedLeapDaysBefore1971By100Rule;
          yearsToAddBy400Rule = yearMinusOne div 400 - leapDaysBefore1971By400Rule
      in 365 * (year - 1970) + yearsToAddBy4Rule - yearsToExcludeBy100Rule + yearsToAddBy400Rule)"

definition msToDays :: "int \<Rightarrow> int" where
  "msToDays ms = ms div msPerDay"

text \<open>The correction that msToYear applies to the approximate year.\<close>

definition correctYear :: "int \<Rightarrow> int \<Rightarrow> int" where
  "correctYear approxYear ms =
     (let msFromApproxYearTo1970 = msPerDay * daysFrom1970ToYear approxYear
      in if ms < msFromApproxYearTo1970 then approxYear - 1
         else if msFromApproxYearTo1970 + msPerDay * daysInYear approxYear \<le> ms then approxYear + 1
         else approxYear)"

text \<open>\<open>msPerDay * 365.2425\<close> is 31556952000.\<close>

definition msToYear :: "int \<Rightarrow> int" where
  "msToYear ms = correctYear (ms div 31556952000 + 1970) ms"

definition dayInYear :: "int \<Rightarrow> int \<Rightarrow> int" where
  "dayInYear ms year = msToDays ms - daysFrom1970ToYear year"

subsection \<open>Time of day\<close>

definition msToMilliseconds :: "int \<Rightarrow> int" where
  "msToMilliseconds ms =
     (let result = ms smod msPerDay in if result < 0 then result + msPerDay else result)"

definition msToWeekDay :: "int \<Rightarrow> int" where
  "msToWeekDay ms = (let wd = (msToDays ms + 4) smod 7 in if wd < 0 then wd + 7 else wd)"

definition msToSeconds :: "int \<Rightarrow> int" where
  "msToSeconds ms = (let result = (ms div msPerSecond) smod 60 in if result < 0 then result + 60 else result)"

definition msToMinutes :: "int \<Rightarrow> int" where
  "msToMinutes ms = (let result = (ms div msPerMinute) smod 60 in if result < 0 then result + 60 else result)"

definition msToHours :: "int \<Rightarrow> int" where
  "msToHours ms = (let result = (ms div msPerHour) smod 24 in if result < 0 then result + 24 else result)"

definition timeToMS :: "int \<Rightarrow> int \<Rightarrow> int \<Rightarrow> int \<Rightarrow> int" where
  "timeToMS h m sec ms = ((h * 60 + m) * 60 + sec) * msPerSecond + ms"

subsection \<open>Months\<close>

definition monthFromDayInYear :: "int \<Rightarrow> bool \<Rightarrow> int" where
  "monthFromDayInYear d leapYear =
     (let step = 31 in if d < step then 0 else
      let step = step + (if leapYear then 29 else 28) in if d < step then 1 else
      let step = step + 31 in if d < step then 2 else
      let step = step + 30 in if d < step then 3 else
      let step = step + 31 in if d < step then 4 else
      let step = step + 30 in if d < step then 5 else
      let step = step + 31 in if d < step then 6 else
      let step = step + 31 in if d < step then 7 else
      let step = step + 30 in if d < step then 8 else
      let step = step + 31 in if d < step then 9 else
      let step = step + 30 in if d < step then 10 else 11)"

text \<open>checkMonth updates both start days; the result is (returned, this, next).\<close>

definition checkMonth :: "int \<Rightarrow> int \<Rightarrow> int \<Rightarrow> bool \<times> int \<times> int" where
  "checkMonth d startDayOfNextMonth daysInThisMonth =
     (let startDayOfThisMonth = startDayOfNextMonth;
          startDayOfNextMonth = startDayOfNextMonth + daysInThisMonth
      in (d \<le> startDayOfNextMonth, startDayOfThisMonth, startDayOfNextMonth))"

definition dayInMonthFromDayInYear :: "int \<Rightarrow> bool \<Rightarrow> int" where
  "dayInMonthFromDayInYear d leapYear =
     (let next = 30 in if d \<le> next then d + 1 else
      let daysInFeb = (if leapYear then 29 else 28) in
      let (found, step, next) = checkMonth d next daysInFeb in if found then d - step else
      let (found, step, next) = checkMonth d next 31 in if found then d - step else
      let (found, step, next) = checkMonth d next 30 in if found then d - step else
      let (found, step, next) = checkMonth d next 31 in if found then d - step else
      let (found, step, next) = checkMonth d next 30 in if found then d - step else
      let (found, step, next) = checkMonth d next 31 in if found then d - step else
      let (found, step, next) = checkMonth d next 31 in if found then d - step else
      let (found, step, next) = checkMonth d next 30 in if found then d - step else
      let (found, step, next) = checkMonth d next 31 in if found then d - step else
      let (found, step, next) = checkMonth d next 30 in if found then d - step else
      let step = next in d - step)"

definition monthToDayInYear :: "int \<Rightarrow> bool \<Rightarrow> int" where
  "monthToDayInYear month leap =
     (if leap then snd firstDayOfMonth else fst firstDayOfMonth) ! nat month"

definition dateToDaysFrom1970 :: "int \<Rightarrow> int \<Rightarrow> int \<Rightarrow> int" where
  "dateToDaysFrom1970 year month day =
     (let year = year + month sdiv 12;
          month = month smod 12;
          (year, month) = (if month < 0 then (year - 1, month + 12) else (year, month));
          yearday = daysFrom1970ToYear year;
          monthday = monthToDayInYear month (isLeapYear year)
      in yearday + monthday + day - 1)"

subsection \<open>Daylight saving\<close>

definition maximumYearForDST :: int where
  "maximumYearForDST = 2037"

text \<open>The current time is a parameter.\<close>

definition minimumYearForDST :: "int \<Rightarrow> int" where
  "minimumYearForDST now = min (msToYear now) (maximumYearForDST - 27)"

definition equivalentYearForDST :: "int \<Rightarrow> int \<Rightarrow> int" where
  "equivalentYearForDST minYear year =
     (let maxYear = maximumYearForDST in
      if maxYear < year then let difference = minYear - year; quotient = difference sdiv 28 in year + quotient * 28
      else if year < minYear then let difference = maxYear - year; quotient = difference sdiv 28 in year + quotient * 28
      else year)"

text \<open>
  calculateDSTOffsetSimple, on milliseconds instead of seconds; \<open>localTM\<close> gives hour and
  minute of the local time that the C library's localtime returns for a time in seconds.
\<close>

definition calculateDSTOffsetSimple :: "(int \<Rightarrow> int \<times> int) \<Rightarrow> int \<Rightarrow> int \<Rightarrow> int" where
  "calculateDSTOffsetSimple localTM localTimeMS utcOffset =
     (let localTimeMS = (if 2145859200 * msPerSecond < localTimeMS then 2145859200 * msPerSecond
            else if localTimeMS < 0 then localTimeMS + msPerDay else localTimeMS);
          offsetTime = localTimeMS + utcOffset;
          offsetHour = msToHours offsetTime;
          offsetMinute = msToMinutes offsetTime;
          (tm_hour, tm_min) = localTM (localTimeMS sdiv msPerSecond);
          diff = (tm_hour - offsetHour) * 3600 + (tm_min - offsetMinute) * 60;
          diff = (if diff < 0 then diff + 86400 else diff)
      in diff * msPerSecond)"

definition calculateDSTOffset :: "(int \<Rightarrow> int \<times> int) \<Rightarrow> int \<Rightarrow> int \<Rightarrow> int \<Rightarrow> int" where
  "calculateDSTOffset localTM minYear ms utcOffset =
     (let year = msToYear ms;
          equivalentYear = equivalentYearForDST minYear year;
          ms = (if year \<noteq> equivalentYear then
                  let leapYear = isLeapYear year;
                      dayInYearLocal = dayInYear ms year;
                      dayInMonth = dayInMonthFromDayInYear dayInYearLocal leapYear;
                      month = monthFromDayInYear dayInYearLocal leapYear;
                      day = dateToDaysFrom1970 equivalentYear month dayInMonth
                  in day * msPerDay + msToMilliseconds ms
                else ms)
      in calculateDSTOffsetSimple localTM ms utcOffset)"

text \<open>JSGlobalData::DSTOffsetCache and getDSTOffset; \<open>calc\<close> is calculateDSTOffset.\<close>

record DSTOffsetCache =
  offset :: int
  start_at :: rat
  end_at :: rat
  increment :: rat

definition resetCache :: DSTOffsetCache where
  "resetCache = \<lparr>offset = 0, start_at = 0, end_at = -1, increment = 0\<rparr>"

definition msPerMonth :: rat where
  "msPerMonth = 2592000000"

definition missDSTOffset :: "(rat \<Rightarrow> int) \<Rightarrow> DSTOffsetCache \<Rightarrow> rat \<Rightarrow> int \<times> DSTOffsetCache" where
  "missDSTOffset calc cache ms =
     (let off = calc ms in (off, \<lparr>offset = off, start_at = ms, end_at = ms, increment = msPerMonth\<rparr>))"

definition getDSTOffset :: "(rat \<Rightarrow> int) \<Rightarrow> DSTOffsetCache \<Rightarrow> rat \<Rightarrow> int \<times> DSTOffsetCache" where
  "getDSTOffset calc cache ms =
     (if start_at cache \<le> ms then
        if ms \<le> end_at cache then (offset cache, cache)
        else let newEnd = end_at cache + increment cache in
          if ms \<le> newEnd then
            let endOffset = calc newEnd in
            if offset cache = endOffset then
              (endOffset, cache\<lparr>end_at := newEnd, increment := msPerMonth\<rparr>)
            else
              let off = calc ms;
                  cache = (if off = endOffset
                    then cache\<lparr>start_at := ms, end_at := newEnd, increment := msPerMonth\<rparr>
                    else cache\<lparr>increment := increment cache / 3, end_at := ms\<rparr>)
              in (off, cache\<lparr>offset := off\<rparr>)
          else missDSTOffset calc cache ms
      else missDSTOffset calc cache ms)"

subsection \<open>Calendar dates\<close>

record GregorianDateTime =
  second :: int
  minute :: int
  hour :: int
  weekDay :: int
  monthDay :: int
  yearDay :: int
  month :: int
  year :: int
  isDST :: bool
  utcOffset :: int

text \<open>
  The two conversions, with the part of the global data they use as a state: the cached
  offset from UTC (\<open>None\<close> is NaN) and the cache above.
\<close>

record TimeState =
  cachedUTCOffset :: "int option"
  dstOffsetCache :: DSTOffsetCache

definition getUTCOffset :: "int \<Rightarrow> TimeState \<Rightarrow> int \<times> TimeState" where
  "getUTCOffset calculateUTCOffset s =
     (case cachedUTCOffset s of
        Some off \<Rightarrow> (off, s)
      | None \<Rightarrow> (calculateUTCOffset, s\<lparr>cachedUTCOffset := Some calculateUTCOffset\<rparr>))"

definition cachedDSTOffset :: "(rat \<Rightarrow> int \<Rightarrow> int) \<Rightarrow> int \<Rightarrow> int \<Rightarrow> TimeState \<Rightarrow> int \<times> TimeState" where
  "cachedDSTOffset calc ms utcOff s =
     (let (off, cache) = getDSTOffset (\<lambda>t. calc t utcOff) (dstOffsetCache s) (of_int ms)
      in (off, s\<lparr>dstOffsetCache := cache\<rparr>))"

definition gregorianDateTimeToMS ::
  "(rat \<Rightarrow> int \<Rightarrow> int) \<Rightarrow> int \<Rightarrow> GregorianDateTime \<Rightarrow> int \<Rightarrow> bool \<Rightarrow> TimeState \<Rightarrow> int \<times> TimeState" where
  "gregorianDateTimeToMS calc calculateUTCOffset t milliSeconds inputIsUTC s =
     (let day = dateToDaysFrom1970 (year t + 1900) (month t) (monthDay t);
          ms = timeToMS (hour t) (minute t) (second t) milliSeconds;
          result = day * msPerDay + ms
      in if \<not> inputIsUTC then
           let (utcOff, s) = getUTCOffset calculateUTCOffset s;
               result = result - utcOff;
               (dst, s) = cachedDSTOffset calc result utcOff s
           in (result - dst, s)
         else (result, s))"

definition msToGregorianDateTime ::
  "(rat \<Rightarrow> int \<Rightarrow> int) \<Rightarrow> int \<Rightarrow> int \<Rightarrow> bool \<Rightarrow> TimeState \<Rightarrow> GregorianDateTime \<times> TimeState" where
  "msToGregorianDateTime calc calculateUTCOffset ms outputIsUTC s =
     (let (dstOff, utcOff, ms, s) =
            (if \<not> outputIsUTC then
               let (utcOff, s) = getUTCOffset calculateUTCOffset s;
                   (dstOff, s) = cachedDSTOffset calc ms utcOff s
               in (dstOff, utcOff, ms + (dstOff + utcOff), s)
             else (0, 0, ms, s));
          y = msToYear ms;
          yday = dayInYear ms y
      in (\<lparr>second = msToSeconds ms, minute = msToMinutes ms, hour = msToHours ms,
           weekDay = msToWeekDay ms, monthDay = dayInMonthFromDayInYear yday (isLeapYear y),
           yearDay = yday, month = monthFromDayInYear yday (isLeapYear y), year = y - 1900,
           isDST = (dstOff \<noteq> 0), utcOffset = (dstOff + utcOff) sdiv msPerSecond\<rparr>, s))"

text \<open>The time value of a double; \<open>None\<close> is NaN. An infinity is not a rational.\<close>

definition timeClip :: "rat option \<Rightarrow> int option" where
  "timeClip t =
     (case t of
        None \<Rightarrow> None
      | Some t \<Rightarrow> if 8640000000000000 < \<bar>t\<bar> then None else Some (if t < 0 then \<lceil>t\<rceil> else \<lfloor>t\<rfloor>))"

subsection \<open>The formula of the date parser\<close>

text \<open>
  ymdhmsToSeconds mixes int and double arithmetic: the divisions by 12 truncate, the
  division by 4 in the first line is floored, and in the fourth line the quotient by 100
  is not rounded before it is multiplied by 3 and divided by 4, so its floor is
  \<open>3 * y div 400\<close>.
\<close>

definition ymdhmsToSeconds :: "int \<Rightarrow> int \<Rightarrow> int \<Rightarrow> int \<Rightarrow> int \<Rightarrow> int \<Rightarrow> int" where
  "ymdhmsToSeconds yr mon day h m sec =
     (let days = (day - 32075)
            + (1461 * (yr + 4800 + (mon - 14) sdiv 12)) div 4
            + (367 * (mon - 2 - (mon - 14) sdiv 12 * 12)) sdiv 12
            - (3 * (yr + 4900 + (mon - 14) sdiv 12)) div 400
            - 2440588
      in ((days * 24 + h) * 60 + m) * 60 + sec)"

subsection \<open>Years\<close>

lemma smod_eq_0_iff: "(a :: int) smod b = 0 \<longleftrightarrow> b dvd a"
  by (auto simp: smod_int_alt_def sgn_0_0 mod_eq_0_iff_dvd)

lemma smod_fix: "0 < b \<Longrightarrow> (if (a :: int) smod b < 0 then a smod b + b else a smod b) = a mod b"
proof -
  assume b: "0 < b"
  have "a smod b = a mod b \<or> a smod b = a mod b - b" unfolding signed_modulo_int_eq_modulo_int by auto
  moreover have "0 \<le> a mod b" "a mod b < b" using b by simp_all
  ultimately show ?thesis by auto
qed

lemma isLeapYear_iff: "isLeapYear y \<longleftrightarrow> 4 dvd y \<and> (100 dvd y \<longrightarrow> 400 dvd y)"
proof -
  have "(4 :: int) dvd 400" by simp
  then have "400 dvd y \<Longrightarrow> 4 dvd y" by (rule dvd_trans)
  then show ?thesis by (auto simp: isLeapYear_def smod_eq_0_iff)
qed

lemma daysFrom1970_eq: "daysFrom1970ToYear y = 365 * y + (y - 1) div 4 - (y - 1) div 100 + (y - 1) div 400 - 719527"
  by (simp add: daysFrom1970ToYear_def Let_def)

lemma div_step: "0 < d \<Longrightarrow> y div d = (y - 1) div d + (if d dvd y then 1 else (0 :: int))"
proof -
  assume d: "0 < d"
  have y: "y = d * (y div d) + y mod d" by simp
  show ?thesis
  proof (cases "y mod d = 0")
    case True
    have "(y - 1) div d = y div d - 1"
      by (rule int_div_pos_eq [where r = "d - 1"]) (use y True d in \<open>auto simp: right_diff_distrib\<close>)
    then show ?thesis using True by (simp add: dvd_eq_mod_eq_0)
  next
    case False
    moreover have "0 \<le> y mod d" "y mod d < d" using d by simp_all
    ultimately have "(y - 1) div d = y div d"
      by (intro int_div_pos_eq [where r = "y mod d - 1"]) (use y in auto)
    then show ?thesis using False by (simp add: dvd_eq_mod_eq_0)
  qed
qed

lemma next_year: "daysFrom1970ToYear (y + 1) = daysFrom1970ToYear y + daysInYear y"
proof -
  have "(4 :: int) dvd 100" "(100 :: int) dvd 400" by simp_all
  then have "100 dvd y \<Longrightarrow> 4 dvd y" "400 dvd y \<Longrightarrow> 100 dvd y" by (blast intro: dvd_trans)+
  moreover define a b c where "a = (y - 1) div 4" and "b = (y - 1) div 100" and "c = (y - 1) div 400"
  moreover have "y div 4 = a + (if 4 dvd y then 1 else 0)" "y div 100 = b + (if 100 dvd y then 1 else 0)"
    "y div 400 = c + (if 400 dvd y then 1 else 0)"
    using div_step [of 4 y] div_step [of 100 y] div_step [of 400 y] unfolding a_def b_def c_def by simp_all
  moreover have "daysFrom1970ToYear (y + 1) = 365 * y + 365 + y div 4 - y div 100 + y div 400 - 719527"
    by (simp add: daysFrom1970_eq)
  ultimately show ?thesis
    unfolding daysInYear_def isLeapYear_iff daysFrom1970_eq [of y] by (auto simp only: if_True if_False simp_thms split: if_splits)
qed

lemma approximation:
  "\<bar>10000 * daysFrom1970ToYear y - 3652425 * (y - 1970)\<bar> \<le> 30000"
proof -
  define a b c where abc: "a = (y - 1) div 4" "b = (y - 1) div 100" "c = (y - 1) div 400"
  have "4 * a \<le> y - 1" "y - 1 < 4 * a + 4" "100 * b \<le> y - 1" "y - 1 < 100 * b + 100" "400 * c \<le> y - 1" "y - 1 < 400 * c + 400"
    unfolding abc by auto
  then have "10000 * a \<le> 2500 * (y - 1)" "2500 * (y - 1) \<le> 10000 * a + 7500" "10000 * b \<le> 100 * (y - 1)"
    "100 * (y - 1) \<le> 10000 * b + 9900" "10000 * c \<le> 25 * (y - 1)" "25 * (y - 1) \<le> 10000 * c + 9975"
    by simp_all
  then have "10000 * (365 * y + a - b + c - 719527) - 3652425 * (y - 1970) \<le> 30000 \<and>
    - (10000 * (365 * y + a - b + c - 719527) - 3652425 * (y - 1970)) \<le> 30000"
    by (simp add: algebra_simps)
  then show ?thesis unfolding daysFrom1970_eq abc [symmetric] abs_le_iff by blast
qed

lemma daysFrom1970_strict: "daysFrom1970ToYear y + 365 \<le> daysFrom1970ToYear (y + 1)"
  by (simp add: next_year daysInYear_def)

lemma daysFrom1970_mono: "y \<le> z \<Longrightarrow> daysFrom1970ToYear y + 365 * (z - y) \<le> daysFrom1970ToYear z"
proof (induction z rule: int_ge_induct)
  case (step z)
  then show ?case using daysFrom1970_strict [of z] by (simp add: algebra_simps)
qed simp

definition in_year :: "int \<Rightarrow> int \<Rightarrow> bool" where
  "in_year ms y \<longleftrightarrow> daysFrom1970ToYear y * msPerDay \<le> ms \<and> ms < daysFrom1970ToYear (y + 1) * msPerDay"

lemma in_year_unique: "in_year ms y \<Longrightarrow> in_year ms z \<Longrightarrow> y = z"
proof -
  have "\<not> (in_year ms y \<and> in_year ms z)" if "y < z" for y z
    using daysFrom1970_mono [of "y + 1" z] that by (auto simp: in_year_def ms_defs)
  then show "in_year ms y \<Longrightarrow> in_year ms z \<Longrightarrow> y = z" by (meson linorder_neqE)
qed

lemma correctYear_in_year:
  assumes "in_year ms y" "\<bar>approx - y\<bar> \<le> 1"
  shows "correctYear approx ms = y"
proof -
  have c: "msPerDay * daysFrom1970ToYear approx + msPerDay * daysInYear approx = daysFrom1970ToYear (approx + 1) * msPerDay"
    by (simp add: next_year distrib_left mult.commute)
  consider "approx = y - 1" | "approx = y" | "approx = y + 1" using assms(2) by linarith
  then show ?thesis
    by cases (use assms(1) c daysFrom1970_strict [of "y - 1"] daysFrom1970_strict [of y] in
      \<open>auto simp: correctYear_def in_year_def Let_def mult.commute msPerDay_def\<close>)
qed

lemma in_year_exists: "\<exists>y. in_year ms y"
proof -
  define d where "d = ms div msPerDay"
  have "daysFrom1970ToYear (1970 - \<bar>d\<bar>) \<le> d"
    using daysFrom1970_mono [of "1970 - \<bar>d\<bar>" 1970] by (simp add: daysFrom1970_eq [of 1970])
  moreover have "d < daysFrom1970ToYear (1971 + \<bar>d\<bar>)"
    using daysFrom1970_mono [of 1970 "1971 + \<bar>d\<bar>"] by (simp add: daysFrom1970_eq [of 1970])
  ultimately have "\<exists>y. daysFrom1970ToYear y \<le> d \<and> d < daysFrom1970ToYear (y + 1)"
  proof -
    assume a: "daysFrom1970ToYear (1970 - \<bar>d\<bar>) \<le> d" "d < daysFrom1970ToYear (1971 + \<bar>d\<bar>)"
    have "\<exists>y. daysFrom1970ToYear y \<le> d \<and> d < daysFrom1970ToYear (y + 1)" if "lo \<le> hi" "daysFrom1970ToYear lo \<le> d" "d < daysFrom1970ToYear hi" for lo hi
      using that
    proof (induction hi rule: int_ge_induct)
      case (step hi)
      then show ?case by (cases "d < daysFrom1970ToYear hi") (auto simp: not_less)
    qed simp
    from this [OF _ a] show ?thesis by simp
  qed
  then obtain y where "daysFrom1970ToYear y \<le> d" "d < daysFrom1970ToYear (y + 1)" by blast
  moreover have "d * msPerDay \<le> ms" "ms < (d + 1) * msPerDay" unfolding d_def msPerDay_def by auto
  ultimately have "in_year ms y" by (auto simp: in_year_def msPerDay_def)
  then show ?thesis ..
qed

lemma approx_year:
  assumes "in_year ms y"
  shows "\<bar>ms div 31556952000 + 1970 - y\<bar> \<le> 1"
proof -
  define q where "q = ms div 31556952000"
  have q: "31556952000 * q \<le> ms" "ms < 31556952000 * q + 31556952000" unfolding q_def by auto
  have "10000 * daysFrom1970ToYear y - 3652425 * (y - 1970) \<ge> -30000" "10000 * daysFrom1970ToYear (y + 1) - 3652425 * (y - 1969) \<le> 30000"
    using approximation [of y] approximation [of "y + 1"] by auto
  then have "315569520000000 * (y - 1970) - 2592000000000 \<le> 864000000000 * daysFrom1970ToYear y"
    "864000000000 * daysFrom1970ToYear (y + 1) \<le> 315569520000000 * (y - 1969) + 2592000000000"
    by simp_all
  moreover have "864000000000 * daysFrom1970ToYear y \<le> 10000 * ms" "10000 * ms < 864000000000 * daysFrom1970ToYear (y + 1)"
    using assms by (auto simp: in_year_def msPerDay_def)
  ultimately have "q + 1970 - y \<le> 1 \<and> -1 \<le> q + 1970 - y"
    using q by simp
  then show ?thesis unfolding q_def abs_le_iff by linarith
qed

lemma msToYear_in_year: "in_year ms (msToYear ms)"
proof -
  obtain y where y: "in_year ms y" using in_year_exists by blast
  then have "msToYear ms = y" unfolding msToYear_def by (intro correctYear_in_year approx_year)
  then show ?thesis using y by simp
qed

text \<open>
  msToYear returns the year whose first millisecond is not after the time value and
  whose last is not before it, for every time value, although it starts from an
  approximation by the mean length of a year.
\<close>

theorem msToYear_correct:
  "daysFrom1970ToYear (msToYear ms) * msPerDay \<le> ms \<and> ms < daysFrom1970ToYear (msToYear ms + 1) * msPerDay"
  using msToYear_in_year [of ms] by (simp add: in_year_def)

lemma msToYear_eqI: "in_year ms y \<Longrightarrow> msToYear ms = y"
  using msToYear_in_year in_year_unique by blast

subsection \<open>Months\<close>

text \<open>First day of a month in its year, and the length of the month.\<close>

definition monthLength :: "int \<Rightarrow> bool \<Rightarrow> int" where
  "monthLength m leap = (if m = 1 then (if leap then 29 else 28) else if m \<in> {3, 5, 8, 10} then 30 else 31)"

lemma month_cases:
  assumes "0 \<le> m" "m < (12 :: int)"
  obtains "m = 0" | "m = 1" | "m = 2" | "m = 3" | "m = 4" | "m = 5" | "m = 6" | "m = 7" | "m = 8" | "m = 9" | "m = 10" | "m = 11"
  using assms by atomize_elim presburger

lemma monthToDayInYear_bound:
  assumes "0 \<le> m" "m < 12" "1 \<le> day" "day \<le> monthLength m leap"
  shows "0 \<le> monthToDayInYear m leap + day - 1" "monthToDayInYear m leap + day - 1 < 365 + (if leap then 1 else 0)"
    "monthFromDayInYear (monthToDayInYear m leap + day - 1) leap = m"
    "dayInMonthFromDayInYear (monthToDayInYear m leap + day - 1) leap = day"
  using assms by (cases m rule: month_cases; cases leap; simp add: monthToDayInYear_def firstDayOfMonth_def monthLength_def monthFromDayInYear_def dayInMonthFromDayInYear_def checkMonth_def)+
lemma month_existsI:
  "0 \<le> m \<Longrightarrow> m < 12 \<Longrightarrow> 1 \<le> day \<Longrightarrow> day \<le> monthLength m leap \<Longrightarrow> d = monthToDayInYear m leap + day - 1 \<Longrightarrow>
   \<exists>m day. 0 \<le> m \<and> m < 12 \<and> 1 \<le> day \<and> day \<le> monthLength m leap \<and> d = monthToDayInYear m leap + day - 1"
  by blast

lemma month_exists:
  assumes "0 \<le> d" "d < 365 + (if leap then 1 else 0)"
  shows "\<exists>m day. 0 \<le> m \<and> m < 12 \<and> 1 \<le> day \<and> day \<le> monthLength m leap \<and> d = monthToDayInYear m leap + day - 1"
proof -
  define l :: int where "l = (if leap then 1 else 0)"
  consider "d < 31" 
    | "31 \<le> d" "d < 59 + l"
    | "59 + l \<le> d" "d < 90 + l"
    | "90 + l \<le> d" "d < 120 + l"
    | "120 + l \<le> d" "d < 151 + l"
    | "151 + l \<le> d" "d < 181 + l"
    | "181 + l \<le> d" "d < 212 + l"
    | "212 + l \<le> d" "d < 243 + l"
    | "243 + l \<le> d" "d < 273 + l"
    | "273 + l \<le> d" "d < 304 + l"
    | "304 + l \<le> d" "d < 334 + l"
    | "334 + l \<le> d" "d < 365 + l"
    using assms(2) unfolding l_def [symmetric] by (meson leI)
  then show ?thesis
  proof cases
    case 1
    then show ?thesis using assms by (intro month_existsI [of "0" "d - (0) + 1"]; cases leap)
      (simp_all add: l_def monthToDayInYear_def firstDayOfMonth_def monthLength_def)
  next
    case 2
    then show ?thesis using assms by (intro month_existsI [of "1" "d - (31) + 1"]; cases leap)
      (simp_all add: l_def monthToDayInYear_def firstDayOfMonth_def monthLength_def)
  next
    case 3
    then show ?thesis using assms by (intro month_existsI [of "2" "d - (59 + l) + 1"]; cases leap)
      (simp_all add: l_def monthToDayInYear_def firstDayOfMonth_def monthLength_def)
  next
    case 4
    then show ?thesis using assms by (intro month_existsI [of "3" "d - (90 + l) + 1"]; cases leap)
      (simp_all add: l_def monthToDayInYear_def firstDayOfMonth_def monthLength_def)
  next
    case 5
    then show ?thesis using assms by (intro month_existsI [of "4" "d - (120 + l) + 1"]; cases leap)
      (simp_all add: l_def monthToDayInYear_def firstDayOfMonth_def monthLength_def)
  next
    case 6
    then show ?thesis using assms by (intro month_existsI [of "5" "d - (151 + l) + 1"]; cases leap)
      (simp_all add: l_def monthToDayInYear_def firstDayOfMonth_def monthLength_def)
  next
    case 7
    then show ?thesis using assms by (intro month_existsI [of "6" "d - (181 + l) + 1"]; cases leap)
      (simp_all add: l_def monthToDayInYear_def firstDayOfMonth_def monthLength_def)
  next
    case 8
    then show ?thesis using assms by (intro month_existsI [of "7" "d - (212 + l) + 1"]; cases leap)
      (simp_all add: l_def monthToDayInYear_def firstDayOfMonth_def monthLength_def)
  next
    case 9
    then show ?thesis using assms by (intro month_existsI [of "8" "d - (243 + l) + 1"]; cases leap)
      (simp_all add: l_def monthToDayInYear_def firstDayOfMonth_def monthLength_def)
  next
    case 10
    then show ?thesis using assms by (intro month_existsI [of "9" "d - (273 + l) + 1"]; cases leap)
      (simp_all add: l_def monthToDayInYear_def firstDayOfMonth_def monthLength_def)
  next
    case 11
    then show ?thesis using assms by (intro month_existsI [of "10" "d - (304 + l) + 1"]; cases leap)
      (simp_all add: l_def monthToDayInYear_def firstDayOfMonth_def monthLength_def)
  next
    case 12
    then show ?thesis using assms by (intro month_existsI [of "11" "d - (334 + l) + 1"]; cases leap)
      (simp_all add: l_def monthToDayInYear_def firstDayOfMonth_def monthLength_def)
  qed
qed

lemma month_of_day:
  assumes "0 \<le> d" "d < 365 + (if leap then 1 else 0)"
  shows "0 \<le> monthFromDayInYear d leap \<and> monthFromDayInYear d leap < 12 \<and>
    1 \<le> dayInMonthFromDayInYear d leap \<and> dayInMonthFromDayInYear d leap \<le> monthLength (monthFromDayInYear d leap) leap \<and>
    monthToDayInYear (monthFromDayInYear d leap) leap + dayInMonthFromDayInYear d leap - 1 = d"
proof -
  obtain m day where m: "0 \<le> m" "m < 12" "1 \<le> day" "day \<le> monthLength m leap" "d = monthToDayInYear m leap + day - 1"
    using month_exists [OF assms] by auto
  then show ?thesis using monthToDayInYear_bound(3,4) [OF m(1-4)] by simp
qed

lemma dateToDays_normal:
  "0 \<le> m \<Longrightarrow> m < 12 \<Longrightarrow> dateToDaysFrom1970 y m day = daysFrom1970ToYear y + monthToDayInYear m (isLeapYear y) + day - 1"
  by (simp add: dateToDaysFrom1970_def smod_int_alt_def signed_divide_int_def sgn_if)

lemma sdiv_eq: "0 < b \<Longrightarrow> (a :: int) sdiv b = a div b + (if a smod b < 0 then 1 else 0)"
proof -
  assume b: "0 < b"
  note e = div_mult_mod_eq [of a b] sdiv_mult_smod_eq [of a b] smod_fix [OF b, of a]
  have "a sdiv b * b = (a div b + (if a smod b < 0 then 1 else 0)) * b"
  proof (cases "a smod b < 0")
    case True
    then have "a smod b + b = a mod b" using e(3) by simp
    then have "a sdiv b * b = a div b * b + b" using e(1,2) by linarith
    then show ?thesis using True by (simp add: distrib_right)
  next
    case False
    then have "a smod b = a mod b" using e(3) by simp
    then have "a sdiv b * b = a div b * b" using e(1,2) by linarith
    then show ?thesis using False by simp
  qed
  then show ?thesis using b by (simp only: mult_cancel_right) auto
qed

lemma dateToDays_floor:
  "dateToDaysFrom1970 y m day = daysFrom1970ToYear (y + m div 12) + monthToDayInYear (m mod 12) (isLeapYear (y + m div 12)) + day - 1"
  using smod_fix [of 12 m] sdiv_eq [of 12 m]
  by (auto simp: dateToDaysFrom1970_def Let_def algebra_simps split: if_splits)

subsection \<open>Round trips, the equivalent year and the cache\<close>

lemma ms_values: "msPerSecond = 1000" "msPerMinute = 60000" "msPerHour = 3600000" "msPerDay = 86400000"
  by (simp_all add: ms_defs)

lemma time_fields:
  "msToHours ms = ms div 3600000 mod 24" "msToMinutes ms = ms div 60000 mod 60" "msToSeconds ms = ms div 1000 mod 60"
  "msToWeekDay ms = (ms div 86400000 + 4) mod 7"
  unfolding msToHours_def msToMinutes_def msToSeconds_def msToWeekDay_def msToDays_def ms_values Let_def
  by (rule smod_fix; simp)+

lemma combine_time:
  "B * 60 + s = A \<Longrightarrow> C * 60 + m = B \<Longrightarrow> D * 24 + h = C \<Longrightarrow> A * 1000 + x = ms \<Longrightarrow> D * 86400000 + r = ms \<Longrightarrow>
   ((h * 60 + m) * 60 + s) * 1000 + x = (r :: int)"
  by simp

lemma time_of_day:
  "timeToMS (msToHours ms) (msToMinutes ms) (msToSeconds ms) (ms mod 1000) = ms mod msPerDay"
proof -
  obtain A B C D where d: "A = ms div 1000" "B = ms div 60000" "C = ms div 3600000" "D = ms div 86400000" by simp
  have "A div 60 = B" "B div 60 = C" "C div 24 = D"
    unfolding d by (simp_all add: zdiv_zmult2_eq [symmetric])
  then have "B * 60 + A mod 60 = A" "C * 60 + B mod 60 = B" "D * 24 + C mod 24 = C"
    using div_mult_mod_eq [of A 60] div_mult_mod_eq [of B 60] div_mult_mod_eq [of C 24] by (simp_all only:)
  moreover have "A * 1000 + ms mod 1000 = ms" "D * 86400000 + ms mod 86400000 = ms"
    unfolding d by (rule div_mult_mod_eq)+
  ultimately show ?thesis unfolding time_fields timeToMS_def ms_values d [symmetric] by (rule combine_time)
qed

lemma year_day:
  "0 \<le> dayInYear ms (msToYear ms) \<and> dayInYear ms (msToYear ms) < 365 + (if isLeapYear (msToYear ms) then 1 else 0)"
proof -
  have "daysFrom1970ToYear (msToYear ms) * 86400000 \<le> ms" "ms < daysFrom1970ToYear (msToYear ms + 1) * 86400000"
    using msToYear_in_year [of ms] by (auto simp: in_year_def ms_values)
  then have "daysFrom1970ToYear (msToYear ms) \<le> ms div 86400000" "ms div 86400000 < daysFrom1970ToYear (msToYear ms + 1)"
    by linarith+
  then show ?thesis by (simp add: dayInYear_def msToDays_def ms_values next_year daysInYear_def split: if_splits)
qed

text \<open>
  C35: converting a time value to calendar fields in UTC and the fields back gives the
  time value again, for every time value, before 1970 too.
\<close>

theorem gregorian_roundtrip:
  "fst (gregorianDateTimeToMS calc off (fst (msToGregorianDateTime calc off ms True s)) (ms mod 1000) True s') = ms"
proof -
  define y where "y = msToYear ms"
  define d where "d = dayInYear ms y"
  define l where "l = isLeapYear y"
  note m = month_of_day [of d l]
  have d: "0 \<le> d" "d < 365 + (if l then 1 else 0)" using year_day [of ms] by (auto simp: d_def y_def l_def)
  have "dateToDaysFrom1970 y (monthFromDayInYear d l) (dayInMonthFromDayInYear d l) = ms div msPerDay"
    using m [OF d] dateToDays_normal [of "monthFromDayInYear d l" y "dayInMonthFromDayInYear d l"]
    by (simp add: d_def l_def dayInYear_def msToDays_def)
  moreover have "ms div msPerDay * msPerDay + ms mod msPerDay = ms" by (rule div_mult_mod_eq)
  ultimately show ?thesis
    by (simp add: gregorianDateTimeToMS_def msToGregorianDateTime_def Let_def time_of_day y_def d_def l_def)
qed

definition valid_fields :: "GregorianDateTime \<Rightarrow> bool" where
  "valid_fields t \<longleftrightarrow> 0 \<le> second t \<and> second t < 60 \<and> 0 \<le> minute t \<and> minute t < 60 \<and> 0 \<le> hour t \<and> hour t < 24 \<and>
     0 \<le> weekDay t \<and> weekDay t < 7 \<and> 0 \<le> month t \<and> month t < 12 \<and> 1 \<le> monthDay t \<and>
     monthDay t \<le> monthLength (month t) (isLeapYear (year t + 1900)) \<and>
     yearDay t = monthToDayInYear (month t) (isLeapYear (year t + 1900)) + monthDay t - 1"

lemma computed_fields_valid:
  "valid_fields \<lparr>second = msToSeconds ms, minute = msToMinutes ms, hour = msToHours ms, weekDay = msToWeekDay ms,
     monthDay = dayInMonthFromDayInYear (dayInYear ms (msToYear ms)) (isLeapYear (msToYear ms)),
     yearDay = dayInYear ms (msToYear ms), month = monthFromDayInYear (dayInYear ms (msToYear ms)) (isLeapYear (msToYear ms)),
     year = msToYear ms - 1900, isDST = dst, utcOffset = utc\<rparr>"
  unfolding valid_fields_def time_fields
  using month_of_day [of "dayInYear ms (msToYear ms)" "isLeapYear (msToYear ms)"] year_day [of ms] by simp

text \<open>
  the calendar fields of every time value are in range, the day of the month is
  within the length of its month, and month and day agree with the day of the year; in
  UTC and in local time.
\<close>

theorem msToGregorianDateTime_valid:
  "valid_fields (fst (msToGregorianDateTime calc off ms outputIsUTC s))"
  by (simp add: msToGregorianDateTime_def Let_def computed_fields_valid split: prod.split)

text \<open>
  a month outside January to December carries into the year, in both directions.
\<close>

theorem dateToDaysFrom1970_months:
  "dateToDaysFrom1970 y (m + 12 * k) d = dateToDaysFrom1970 (y + k) m d"
  by (simp add: dateToDays_floor algebra_simps)

text \<open>Daylight saving: the equivalent year and the cache.\<close>

lemma leap_rule_4:
  assumes "1901 \<le> y" "y \<le> 2099"
  shows "isLeapYear y \<longleftrightarrow> 4 dvd y" "daysFrom1970ToYear y = 365 * y + (y - 1) div 4 - 719542"
proof -
  consider "y \<le> 2000" | "2001 \<le> y" by linarith
  then have q: "- ((y - 1) div 100) + (y - 1) div 400 = -15"
  proof cases
    case 1
    then have "(y - 1) div 100 = 19" "(y - 1) div 400 = 4" using assms by (auto intro!: int_div_pos_eq [where r = "y - 1901"] int_div_pos_eq [where r = "y - 1601"])
    then show ?thesis by simp
  next
    case 2
    then have "(y - 1) div 100 = 20" "(y - 1) div 400 = 5" using assms by (auto intro!: int_div_pos_eq [where r = "y - 2001"])
    then show ?thesis by simp
  qed
  have "100 dvd y \<Longrightarrow> y = 2000" using assms by (auto elim!: dvdE)
  note q = q this
  show "isLeapYear y \<longleftrightarrow> 4 dvd y" using q(2) by (auto simp: isLeapYear_iff)
  show "daysFrom1970ToYear y = 365 * y + (y - 1) div 4 - 719542" using q(1) by (simp add: daysFrom1970_eq)
qed

lemma equivalentYear_cases:
  assumes "minYear \<le> 2010"
  shows "(minYear \<le> equivalentYearForDST minYear y \<and> equivalentYearForDST minYear y \<le> 2037 \<and>
    (\<exists>k. equivalentYearForDST minYear y = y + 28 * k))"
proof -
  have s: "y + (k - y) sdiv 28 * 28 = k - (k - y) smod 28" for k
    using sdiv_mult_smod_eq [of "k - y" 28] by linarith
  have r: "minYear \<le> equivalentYearForDST minYear y" "equivalentYearForDST minYear y \<le> 2037"
    using assms smod_int_compares [of "minYear - y" 28] smod_int_compares [of "2037 - y" 28]
    by (auto simp: equivalentYearForDST_def maximumYearForDST_def Let_def s)
  have "\<exists>k. equivalentYearForDST minYear y = y + 28 * k"
    by (auto simp: equivalentYearForDST_def maximumYearForDST_def Let_def intro: exI [of _ 0])
  then show ?thesis using r by blast
qed

text \<open>
  the equivalent year lies between the given first year and 2037, and for the years
  its comment allows it has the same leapness and its first day is the same day of the
  week.
\<close>

theorem equivalentYearForDST_correct:
  assumes "minYear \<le> 2010"
  shows "minYear \<le> equivalentYearForDST minYear y \<and> equivalentYearForDST minYear y \<le> 2037 \<and>
    (1901 \<le> minYear \<and> 1901 \<le> y \<and> y \<le> 2099 \<longrightarrow>
      isLeapYear (equivalentYearForDST minYear y) = isLeapYear y \<and>
      daysFrom1970ToYear (equivalentYearForDST minYear y) mod 7 = daysFrom1970ToYear y mod 7)"
proof -
  let ?e = "equivalentYearForDST minYear y"
  obtain k where k: "?e = y + 28 * k" and r: "minYear \<le> ?e" "?e \<le> 2037"
    using equivalentYear_cases [OF assms] by blast
  have "isLeapYear ?e = isLeapYear y \<and> daysFrom1970ToYear ?e mod 7 = daysFrom1970ToYear y mod 7"
    if y: "1901 \<le> minYear" "1901 \<le> y" "y \<le> 2099"
  proof -
    have e: "1901 \<le> ?e" "?e \<le> 2099" using r y by linarith+
    have "4 dvd ?e \<longleftrightarrow> 4 dvd y" unfolding k by presburger
    moreover have "(y + 28 * k - 1) div 4 = (y - 1) div 4 + 7 * k" by presburger
    then have "daysFrom1970ToYear ?e = daysFrom1970ToYear y + 7 * (1461 * k)"
      using leap_rule_4(2) [OF e] leap_rule_4(2) [OF y(2,3)] unfolding k by simp
    then have "daysFrom1970ToYear ?e mod 7 = daysFrom1970ToYear y mod 7" by (simp only: mod_mult_self2)
    ultimately show ?thesis using leap_rule_4(1) [OF e] leap_rule_4(1) [OF y(2,3)] by simp
  qed
  then show ?thesis using r by blast
qed

lemma equivalentYearForDST_correct_witness:
  "1995 \<le> equivalentYearForDST 1995 2050 \<and> equivalentYearForDST 1995 2050 \<le> 2037 \<and>
    isLeapYear (equivalentYearForDST 1995 2050) = isLeapYear 2050 \<and>
    daysFrom1970ToYear (equivalentYearForDST 1995 2050) mod 7 = daysFrom1970ToYear 2050 mod 7"
  using equivalentYearForDST_correct [of 1995 2050] by simp

text \<open>
  The cache assumes that the offset changes at most once within a month: \<open>one_change\<close>.
  Its invariant: the offset holds on the whole interval, and an empty interval has no
  increment.
\<close>

definition one_change :: "(rat \<Rightarrow> int) \<Rightarrow> bool" where
  "one_change f \<longleftrightarrow> (\<forall>a b. a \<le> b \<and> b \<le> a + msPerMonth \<longrightarrow>
     (\<exists>t. \<forall>x. a \<le> x \<and> x \<le> b \<longrightarrow> f x = (if x < t then f a else f b)))"

definition cache_ok :: "(rat \<Rightarrow> int) \<Rightarrow> DSTOffsetCache \<Rightarrow> bool" where
  "cache_ok f c \<longleftrightarrow> 0 \<le> increment c \<and> increment c \<le> msPerMonth \<and>
     (if start_at c \<le> end_at c then \<forall>x. start_at c \<le> x \<and> x \<le> end_at c \<longrightarrow> f x = offset c else increment c = 0)"

lemma resetCache_ok: "cache_ok f resetCache"
  by (simp add: cache_ok_def resetCache_def msPerMonth_def)

lemma cache_okI:
  "0 \<le> inc \<Longrightarrow> inc \<le> msPerMonth \<Longrightarrow> s \<le> e \<Longrightarrow> \<forall>x. s \<le> x \<and> x \<le> e \<longrightarrow> f x = off \<Longrightarrow>
   cache_ok f \<lparr>offset = off, start_at = s, end_at = e, increment = inc\<rparr>"
  by (simp add: cache_ok_def)

lemma hit_result:
  "getDSTOffset f c ms = (off, c') \<Longrightarrow> off = f ms \<Longrightarrow> cache_ok f c' \<Longrightarrow>
   fst (getDSTOffset f c ms) = f ms \<and> cache_ok f (snd (getDSTOffset f c ms))"
  by simp

lemma getDSTOffset_ok:
  assumes one: "one_change f" and c: "cache_ok f c"
  shows "fst (getDSTOffset f c ms) = f ms \<and> cache_ok f (snd (getDSTOffset f c ms))"
proof -
  have miss: "fst (missDSTOffset f c ms) = f ms \<and> cache_ok f (snd (missDSTOffset f c ms))"
    by (auto simp: missDSTOffset_def cache_ok_def msPerMonth_def Let_def)
  let ?new = "end_at c + increment c"
  consider "ms < start_at c \<or> ?new < ms \<and> end_at c < ms" | "start_at c \<le> ms" "ms \<le> end_at c"
    | "start_at c \<le> ms" "end_at c < ms" "ms \<le> ?new" by linarith
  then show ?thesis
  proof cases
    case 1
    then show ?thesis using miss by (auto simp: getDSTOffset_def Let_def)
  next
    case 2
    then show ?thesis using c by (auto simp: getDSTOffset_def cache_ok_def)
  next
    case 3
    have se: "start_at c \<le> end_at c" using 3 c by (auto simp: cache_ok_def split: if_splits)
    then have const: "\<And>x. start_at c \<le> x \<Longrightarrow> x \<le> end_at c \<Longrightarrow> f x = offset c"
      and inc: "0 \<le> increment c" "increment c \<le> msPerMonth" using c by (auto simp: cache_ok_def)
    obtain t where t: "\<And>x. end_at c \<le> x \<Longrightarrow> x \<le> ?new \<Longrightarrow> f x = (if x < t then f (end_at c) else f ?new)"
      using one inc unfolding one_change_def by (metis add_left_mono le_add_same_cancel1)
    have fe: "f (end_at c) = offset c" using const se by simp
    show ?thesis
    proof (cases "f ?new = offset c")
      case True
      have all: "f x = offset c" if "start_at c \<le> x" "x \<le> ?new" for x
        using const t [of x] that True fe by (cases "x \<le> end_at c") auto
      have e: "getDSTOffset f c ms = (offset c, \<lparr>offset = offset c, start_at = start_at c, end_at = ?new, increment = msPerMonth\<rparr>)"
        using 3 True by (simp add: getDSTOffset_def Let_def not_le)
      have "(0 :: rat) \<le> msPerMonth" by (simp add: msPerMonth_def)
      then show ?thesis using all 3 se inc by (intro hit_result [OF e] cache_okI) auto
    next
      case False
      show ?thesis
      proof (cases "f ms = f ?new")
        case True
        have "\<not> ms < t" using t [of ms] 3 True False fe by auto
        then have "f x = f ?new" if "ms \<le> x" "x \<le> ?new" for x using t [of x] that 3 by auto
        then have a: "\<forall>x. ms \<le> x \<and> x \<le> ?new \<longrightarrow> f x = f ms" using True by metis
        have e: "getDSTOffset f c ms = (f ms, \<lparr>offset = f ms, start_at = ms, end_at = ?new, increment = msPerMonth\<rparr>)"
          using 3 False True by (simp add: getDSTOffset_def Let_def not_le)
        have "(0 :: rat) \<le> msPerMonth" by (simp add: msPerMonth_def)
        then show ?thesis by (rule hit_result [OF e refl cache_okI [OF _ order.refl 3(3) a]])
      next
        case ne: False
        have "ms < t" using t [of ms] 3 ne by (auto split: if_splits)
        then have all: "f x = offset c" if "start_at c \<le> x" "x \<le> ms" for x
          using const t [of x] that 3 fe by (cases "x \<le> end_at c") auto
        have e: "getDSTOffset f c ms = (f ms, \<lparr>offset = f ms, start_at = start_at c, end_at = ms, increment = increment c / 3\<rparr>)"
          using 3 False ne by (simp add: getDSTOffset_def Let_def not_le)
        have "f ms = offset c" using all [of ms] 3 by simp
        then have a: "\<forall>x. start_at c \<le> x \<and> x \<le> ms \<longrightarrow> f x = f ms" using all by metis
        have i: "0 \<le> increment c / 3" "increment c / 3 \<le> msPerMonth" using inc by simp_all
        show ?thesis by (rule hit_result [OF e refl cache_okI [OF i 3(1) a]])
      qed
    qed
  qed
qed

fun dstQueries :: "(rat \<Rightarrow> int) \<Rightarrow> DSTOffsetCache \<Rightarrow> rat list \<Rightarrow> int list" where
  "dstQueries f c [] = []"
| "dstQueries f c (ms # q) = (let (off, c') = getDSTOffset f c ms in off # dstQueries f c' q)"

lemma dstQueries_ok: "one_change f \<Longrightarrow> cache_ok f c \<Longrightarrow> dstQueries f c q = map f q"
proof (induction q arbitrary: c)
  case (Cons ms q)
  then show ?case using getDSTOffset_ok [of f c ms] by (auto simp: Let_def split: prod.splits)
qed simp

text \<open>
  under the assumption that its comment states, that the offset changes at most once
  in a month, a sequence of queries through the daylight-saving cache, from its reset
  state on, returns the offset of every queried time.
\<close>

theorem dst_cache_transparent:
  assumes "one_change f"
  shows "dstQueries f resetCache q = map f q"
  using dstQueries_ok [OF assms resetCache_ok] by simp

lemma dst_cache_transparent_witness:
  "dstQueries (\<lambda>t :: rat. if t < 5 then 0 else 3600000) resetCache [1, 7, 3, 8] =
   map (\<lambda>t :: rat. if t < 5 then 0 else 3600000) [1, 7, 3, 8]"
proof (rule dst_cache_transparent)
  show "one_change (\<lambda>t :: rat. if t < 5 then 0 else 3600000)"
    unfolding one_change_def by (intro allI impI exI [of _ 5]) auto
qed

subsection \<open>The formula of the date parser\<close>

lemma formula_month:
  assumes "1 \<le> mon" "mon \<le> 12"
  shows "(mon - 14) sdiv 12 = (if mon \<le> 2 then -1 else (0 :: int))"
proof -
  have "mon = 1 \<or> mon = 2 \<or> mon = 3 \<or> mon = 4 \<or> mon = 5 \<or> mon = 6 \<or> mon = 7 \<or> mon = 8 \<or> mon = 9 \<or> mon = 10 \<or> mon = 11 \<or> mon = 12"
    using assms by presburger
  then show ?thesis by (elim disjE) (simp_all add: signed_divide_int_def)
qed

lemma formula_month_days:
  assumes "1 \<le> mon" "mon \<le> 12"
  shows "(367 * (mon - 2 - (if mon \<le> 2 then -1 else 0) * 12)) sdiv 12 =
    monthToDayInYear (mon - 1) leap + (if mon \<le> 2 then 336 else if leap then -30 else -29)"
proof -
  have "mon = 1 \<or> mon = 2 \<or> mon = 3 \<or> mon = 4 \<or> mon = 5 \<or> mon = 6 \<or> mon = 7 \<or> mon = 8 \<or> mon = 9 \<or> mon = 10 \<or> mon = 11 \<or> mon = 12"
    using assms by presburger
  then show ?thesis 
   by (elim disjE; cases leap) (simp_all add: signed_divide_int_def monthToDayInYear_def firstDayOfMonth_def)
qed

text \<open>The term of the formula that is not rounded where the calendar needs it rounded.\<close>

definition centuryError :: "int \<Rightarrow> int \<Rightarrow> int" where
  "centuryError y mon = (let n = y + 4900 + (if mon \<le> 2 then -1 else 0) in (3 * n) div 400 - (3 * (n div 100)) div 4)"

lemma three_quarters: "(3 * (k + 49)) div 4 = k - k div 4 + (36 :: int)"
proof -
  define q r where "q = k div 4" and "r = k mod 4"
  have k: "k = 4 * q + r" "0 \<le> r" "r < 4" by (simp_all add: q_def r_def)
  have "(3 * (k + 49)) div 4 = 3 * q + (3 * r + 147) div 4" using k(1) by (simp add: algebra_simps)
  moreover have "r = 0 \<or> r = 1 \<or> r = 2 \<or> r = 3" using k by presburger
  then have "(3 * r + 147) div 4 = r + 36" by (elim disjE) simp_all
  ultimately show ?thesis using k by (simp flip: q_def)
qed

lemma century_rounded: "(3 * ((n + 4900) div 100)) div 4 = n div 100 - n div 400 + (36 :: int)"
proof -
  have "(n + 4900) div 100 = n div 100 + 49" by simp
  moreover have "n div 100 div 4 = n div 400" by (simp add: zdiv_zmult2_eq)
  ultimately show ?thesis using three_quarters [of "n div 100"] by simp
qed

lemma year_quarter: "(1461 * (n + 4800)) div 4 = 365 * n + n div 4 + (1753200 :: int)"
proof -
  have "1461 * (n + 4800) = n + (365 * n + 1753200) * 4" by simp
  then show ?thesis by (simp only: div_mult_self1)
qed

lemma leap_days:
  "y div 4 - y div 100 + y div 400 = (y - 1) div 4 - (y - 1) div 100 + (y - 1) div 400 + (if isLeapYear y then 1 else 0)"
  using next_year [of y] by (simp add: daysFrom1970_eq daysInYear_def split: if_splits)

lemma sum_jan_feb:
  fixes F :: int
  assumes "T = F + M + day - 1" "P = M + 336" "Q = E + (b - c + 36)" "R = 365 * (y + -1) + a + 1753200"
    "F = 365 * y + a - b + c - 719527"
  shows "(day - 32075) + R + P - Q - 2440588 = T - E"
  using assms by simp

lemma sum_mar_dec:
  fixes F :: int
  assumes "T = F + M + day - 1" "P = M + (if l then -30 else -29)" "Q = E + (b' - c' + 36)" "R = 365 * y + a' + 1753200"
    "F = 365 * y + a - b + c - 719527" "a' - b' + c' = a - b + c + (if l then 1 else 0)"
  shows "(day - 32075) + R + P - Q - 2440588 = T - E"
  using assms by (cases l) simp_all

lemma ymdhms_days:
  assumes "1 \<le> mon" "mon \<le> 12"
  shows "ymdhmsToSeconds y mon day h m s =
    (((dateToDaysFrom1970 y (mon - 1) day - centuryError y mon) * 24 + h) * 60 + m) * 60 + s"
proof -
  let ?e = "if mon \<le> 2 then -1 else (0 :: int)"
  let ?M = "monthToDayInYear (mon - 1) (isLeapYear y)"
  have t: "dateToDaysFrom1970 y (mon - 1) day = daysFrom1970ToYear y + ?M + day - 1"
    using assms by (simp add: dateToDays_normal)
  note p = formula_month_days [OF assms, of "isLeapYear y"]
  have "y + 4900 + e = y + e + 4900" for e :: int by simp
  then have q: "(3 * (y + 4900 + ?e)) div 400 = centuryError y mon + ((y + ?e) div 100 - (y + ?e) div 400 + 36)"
    by (simp only: centuryError_def Let_def century_rounded)
  have "y + 4800 + e = y + e + 4800" for e :: int by simp
  then have r: "(1461 * (y + 4800 + ?e)) div 4 = 365 * (y + ?e) + (y + ?e) div 4 + 1753200"
    by (simp only: year_quarter)
  have "(day - 32075) + (1461 * (y + 4800 + ?e)) div 4 + (367 * (mon - 2 - ?e * 12)) sdiv 12
      - (3 * (y + 4900 + ?e)) div 400 - 2440588 = dateToDaysFrom1970 y (mon - 1) day - centuryError y mon"
  proof (cases "mon \<le> 2")
    case True
    have f: "daysFrom1970ToYear y = 365 * y + (y + ?e) div 4 - (y + ?e) div 100 + (y + ?e) div 400 - 719527"
      using True by (simp add: daysFrom1970_eq)
    have r': "(1461 * (y + 4800 + ?e)) div 4 = 365 * (y + -1) + (y + ?e) div 4 + 1753200" using r True by simp
    have p': "(367 * (mon - 2 - ?e * 12)) sdiv 12 = ?M + 336" using p True by simp
    show ?thesis by (rule sum_jan_feb [OF t p' q r' f])
  next
    case False
    have r': "(1461 * (y + 4800 + ?e)) div 4 = 365 * y + (y + ?e) div 4 + 1753200" using r False by simp
    have p': "(367 * (mon - 2 - ?e * 12)) sdiv 12 = ?M + (if isLeapYear y then -30 else -29)" using p False by simp
    have l: "(y + ?e) div 4 - (y + ?e) div 100 + (y + ?e) div 400 =
        (y - 1) div 4 - (y - 1) div 100 + (y - 1) div 400 + (if isLeapYear y then 1 else 0)"
      using leap_days [of y] False by simp
    show ?thesis by (rule sum_mar_dec [OF t p' q r' daysFrom1970_eq l])
  qed
  then show ?thesis by (simp only: ymdhmsToSeconds_def Let_def formula_month [OF assms])
qed

lemma century_1900:
  "6700 \<le> n \<Longrightarrow> n \<le> 6933 \<Longrightarrow> (3 * n) div 400 = (3 * (n div 100)) div (4 :: int)"
proof -
  assume n: "6700 \<le> n" "n \<le> 6933"
  consider "n \<le> 6799" | "6800 \<le> n" "n \<le> 6899" | "6900 \<le> n" by linarith
  then show ?thesis
  proof cases
    case 1
    then have "n div 100 = 67" "(3 * n) div 400 = 50"
      using n by (auto intro!: int_div_pos_eq [where r = "n - 6700"] int_div_pos_eq [where r = "3 * n - 20000"])
    then show ?thesis by simp
  next
    case 2
    then have "n div 100 = 68" "(3 * n) div 400 = 51"
      by (auto intro!: int_div_pos_eq [where r = "n - 6800"] int_div_pos_eq [where r = "3 * n - 20400"])
    then show ?thesis by simp
  next
    case 3
    then have "n div 100 = 69" "(3 * n) div 400 = 51"
      using n by (auto intro!: int_div_pos_eq [where r = "n - 6900"] int_div_pos_eq [where r = "3 * n - 20400"])
    then show ?thesis by simp
  qed
qed

lemma century_2034:
  "6934 \<le> n \<Longrightarrow> n \<le> 6999 \<Longrightarrow> (3 * n) div 400 = (3 * (n div 100)) div (4 :: int) + 1"
proof -
  assume n: "6934 \<le> n" "n \<le> 6999"
  then have "n div 100 = 69" "(3 * n) div 400 = 52"
    by (auto intro!: int_div_pos_eq [where r = "n - 6900"] int_div_pos_eq [where r = "3 * n - 20800"])
  then show ?thesis by simp
qed

text \<open>
  the closed formula that Date.parse uses agrees with the calendar for every date
  from 1801 to 2033.
\<close>

theorem ymdhmsToSeconds_correct:
  assumes "1801 \<le> y" "y \<le> 2033" "1 \<le> mon" "mon \<le> 12"
  shows "ymdhmsToSeconds y mon day h m s * 1000 = dateToDaysFrom1970 y (mon - 1) day * msPerDay + timeToMS h m s 0"
proof -
  have "centuryError y mon = 0"
    using century_1900 [of "y + 4900 + (if mon \<le> 2 then -1 else 0)"] assms by (simp add: centuryError_def Let_def)
  then show ?thesis using ymdhms_days [OF assms(3,4)] by (simp add: timeToMS_def ms_values)
qed

lemma ymdhmsToSeconds_correct_witness:
  "ymdhmsToSeconds 1999 11 9 23 12 40 * 1000 = dateToDaysFrom1970 1999 (11 - 1) 9 * msPerDay + timeToMS 23 12 40 0"
  by (rule ymdhmsToSeconds_correct) simp_all

text \<open>
  for every date from 2035 to 2099 the closed formula is one day early: the quotient
  by 100 in its century term is a double and is not floored before it is multiplied.
\<close>

theorem ymdhmsToSeconds_day_early:
  assumes "2035 \<le> y" "y \<le> 2099" "1 \<le> mon" "mon \<le> 12"
  shows "ymdhmsToSeconds y mon day h m s * 1000 = dateToDaysFrom1970 y (mon - 1) day * msPerDay + timeToMS h m s 0 - msPerDay"
proof -
  have "centuryError y mon = 1"
    using century_2034 [of "y + 4900 + (if mon \<le> 2 then -1 else 0)"] assms by (simp add: centuryError_def Let_def)
  then show ?thesis using ymdhms_days [OF assms(3,4)] by (simp add: timeToMS_def ms_values)
qed

lemma ymdhmsToSeconds_day_early_witness:
  "ymdhmsToSeconds 2040 1 1 0 0 0 * 1000 = dateToDaysFrom1970 2040 (1 - 1) 1 * msPerDay + timeToMS 0 0 0 0 - msPerDay"
  by (rule ymdhmsToSeconds_day_early) simp_all

end
