(* ===== verification/DateComponents.thy ===== *)
theory DateComponents
  imports DateMath UStrings
begin

section \<open>Dates of form controls (WebCore/html/DateComponents.cpp)\<close>

text \<open>
  The parser, the printer and the conversions behind the date and time types of input
  elements. The object is a record that every operation returns updated, on failure too,
  as the code leaves it. A parse function returns the new object and the new end index,
  or \<open>None\<close> for false. A double argument is a rational, or \<open>None\<close> if it is not finite; a
  year stays in the range of \<open>int\<close>, and the one increment that tests for overflow wraps.
\<close>

datatype DateType = Invalid | Date | DateTime | DateTimeLocal | Month | Time | Week

datatype SecondFormat = NoSeconds | Seconds | Milliseconds

record DateComponents =
  m_millisecond :: int
  m_second :: int
  m_minute :: int
  m_hour :: int
  m_monthDay :: int
  m_month :: int
  m_year :: int
  m_week :: int
  m_type :: DateType

definition newDateComponents :: DateComponents where
  "newDateComponents = \<lparr>m_millisecond = 0, m_second = 0, m_minute = 0, m_hour = 0, m_monthDay = 0,
     m_month = 0, m_year = 0, m_week = 0, m_type = Invalid\<rparr>"

subsection \<open>The calendar\<close>

definition gregorianStartYear :: int where "gregorianStartYear = 1582"
definition gregorianStartMonth :: int where "gregorianStartMonth = 9"
definition gregorianStartDay :: int where "gregorianStartDay = 15"

lemmas gregorian_defs = gregorianStartYear_def gregorianStartMonth_def gregorianStartDay_def

definition daysInMonth :: "int list" where
  "daysInMonth = [31, 28, 31, 30, 31, 30, 31, 31, 30, 31, 30, 31]"

text \<open>DateComponents.cpp has its own copy of isLeapYear.\<close>

definition isLeap :: "int \<Rightarrow> bool" where
  "isLeap yr =
     (if yr smod 4 \<noteq> 0 then False
      else if yr smod 400 = 0 then True
      else if yr smod 100 = 0 then False
      else True)"

definition maxDayOfMonth :: "int \<Rightarrow> int \<Rightarrow> int" where
  "maxDayOfMonth yr mon = (if mon \<noteq> 1 then daysInMonth ! nat mon else if isLeap yr then 29 else 28)"

definition dayOfWeek :: "int \<Rightarrow> int \<Rightarrow> int \<Rightarrow> int" where
  "dayOfWeek yr mon day =
     (let shiftedMonth = mon + 2;
          (shiftedMonth, yr) = (if shiftedMonth \<le> 3 then (shiftedMonth + 12, yr - 1) else (shiftedMonth, yr));
          highYear = yr sdiv 100;
          lowYear = yr smod 100
      in (day + (13 * shiftedMonth) sdiv 5 + lowYear + lowYear sdiv 4 + highYear sdiv 4 + 5 * highYear + 6) smod 7)"

definition maxWeekNumberInYear :: "DateComponents \<Rightarrow> int" where
  "maxWeekNumberInYear dc =
     (let day = dayOfWeek (m_year dc) 0 1 in if day = 4 \<or> (day = 3 \<and> isLeap (m_year dc)) then 53 else 52)"

definition beforeGregorianStartDate :: "int \<Rightarrow> int \<Rightarrow> int \<Rightarrow> bool" where
  "beforeGregorianStartDate yr mon day \<longleftrightarrow>
     yr < gregorianStartYear
     \<or> (yr = gregorianStartYear \<and> mon < gregorianStartMonth)
     \<or> (yr = gregorianStartYear \<and> mon = gregorianStartMonth \<and> day < gregorianStartDay)"

subsection \<open>Numbers\<close>

definition countDigits :: "uchar list \<Rightarrow> nat \<Rightarrow> nat" where
  "countDigits src start = length (takeWhile isASCIIDigit (drop start src))"

fun toIntLoop :: "uchar list \<Rightarrow> int \<Rightarrow> int option" where
  "toIntLoop [] v = Some v"
| "toIntLoop (c # cs) v =
     (if \<not> isASCIIDigit c then None
      else let digit = uint c - 0x30 in
        if (2147483647 - digit) div 10 < v then None else toIntLoop cs (v * 10 + digit))"

definition toInt :: "uchar list \<Rightarrow> nat \<Rightarrow> nat \<Rightarrow> int option" where
  "toInt src parseStart parseLength =
     (if length src < parseStart + parseLength \<or> parseLength = 0 then None
      else toIntLoop (take parseLength (drop parseStart src)) 0)"

subsection \<open>Adding days and minutes\<close>

fun addDayForward :: "nat \<Rightarrow> int \<Rightarrow> int \<Rightarrow> int \<Rightarrow> int \<Rightarrow> (int \<times> int \<times> int) option" where
  "addDayForward 0 yr mon day maxDay = Some (yr, mon, day)"
| "addDayForward (Suc dayDiff) yr mon day maxDay =
     (let day = day + 1 in
      if maxDay < day then
        let day = 1; mon = mon + 1 in
        if 12 \<le> mon then
          let mon = 0; yr = signed_take_bit 31 (yr + 1) in
          if yr < 0 then None else addDayForward dayDiff yr mon day (maxDayOfMonth yr mon)
        else addDayForward dayDiff yr mon day (maxDayOfMonth yr mon)
      else addDayForward dayDiff yr mon day maxDay)"

fun addDayBackward :: "nat \<Rightarrow> int \<Rightarrow> int \<Rightarrow> int \<Rightarrow> (int \<times> int \<times> int) option" where
  "addDayBackward 0 yr mon day = Some (yr, mon, day)"
| "addDayBackward (Suc dayDiff) yr mon day =
     (let day = day - 1;
          (yr, mon, day) =
            (if day < 1 then
               let mon = mon - 1;
                   (mon, yr) = (if mon < 0 then (11, yr - 1) else (mon, yr))
               in (yr, mon, maxDayOfMonth yr mon)
             else (yr, mon, day))
      in if beforeGregorianStartDate yr mon day then None else addDayBackward dayDiff yr mon day)"

definition addDay :: "int \<Rightarrow> DateComponents \<Rightarrow> bool \<times> DateComponents" where
  "addDay dayDiff dc =
     (let day = m_monthDay dc + dayDiff in
      if maxDayOfMonth (m_year dc) (m_month dc) < day then
        (case addDayForward (nat dayDiff) (m_year dc) (m_month dc) (m_monthDay dc)
                (maxDayOfMonth (m_year dc) (m_month dc)) of
           None \<Rightarrow> (False, dc)
         | Some (yr, mon, day) \<Rightarrow> (True, dc\<lparr>m_monthDay := day, m_month := mon, m_year := yr\<rparr>))
      else if day < 1 then
        (case addDayBackward (nat (- dayDiff)) (m_year dc) (m_month dc) (m_monthDay dc) of
           None \<Rightarrow> (False, dc)
         | Some (yr, mon, day) \<Rightarrow> (True, dc\<lparr>m_monthDay := day, m_month := mon, m_year := yr\<rparr>))
      else (True, dc\<lparr>m_monthDay := day\<rparr>))"

text \<open>The second half of addMinute, from the computation of the hour on.\<close>

definition addMinuteCarry :: "int \<Rightarrow> int \<Rightarrow> DateComponents \<Rightarrow> bool \<times> DateComponents" where
  "addMinuteCarry mins carry dc =
     (let hr = m_hour dc + carry in
      if \<not> (23 < hr) \<and> \<not> (hr < 0) then (True, dc\<lparr>m_minute := mins, m_hour := hr\<rparr>)
      else
        let (hr, carry) =
              (if 23 < hr then (hr smod 24, hr sdiv 24)
               else let carry = (23 - hr) sdiv 24 in (hr + carry * 24, - carry));
            (ok, dc) = addDay carry dc
        in if \<not> ok then (False, dc) else (True, dc\<lparr>m_minute := mins, m_hour := hr\<rparr>))"

text \<open>The test \<open>m_minute < 0\<close> is on the member, not on the sum.\<close>

definition addMinute :: "int \<Rightarrow> DateComponents \<Rightarrow> bool \<times> DateComponents" where
  "addMinute mins dc =
     (let mins = mins + m_minute dc in
      if 59 < mins then addMinuteCarry (mins smod 60) (mins sdiv 60) dc
      else if m_minute dc < 0 then
        let carry = (59 - m_minute dc) sdiv 60
        in addMinuteCarry (mins + carry * 60) (- carry) dc
      else (True, dc\<lparr>m_minute := mins\<rparr>))"

subsection \<open>Parsing\<close>

definition parseYear :: "uchar list \<Rightarrow> nat \<Rightarrow> DateComponents \<Rightarrow> DateComponents \<times> nat option" where
  "parseYear src start dc =
     (let digitsLength = countDigits src start in
      if digitsLength < 4 then (dc, None)
      else case toInt src start digitsLength of
        None \<Rightarrow> (dc, None)
      | Some yr \<Rightarrow>
          if yr < gregorianStartYear then (dc, None)
          else (dc\<lparr>m_year := yr\<rparr>, Some (start + digitsLength)))"

definition parseTimeZone :: "uchar list \<Rightarrow> nat \<Rightarrow> DateComponents \<Rightarrow> DateComponents \<times> nat option" where
  "parseTimeZone src start dc =
     (if length src \<le> start then (dc, None)
      else if src ! start = 0x5A then (dc, Some (start + 1))
      else if src ! start \<noteq> 0x2B \<and> src ! start \<noteq> 0x2D then (dc, None)
      else
        let minus = (src ! start = 0x2D); index = start + 1 in
        case toInt src index 2 of
          None \<Rightarrow> (dc, None)
        | Some hr \<Rightarrow>
            if hr < 0 \<or> 23 < hr then (dc, None)
            else let index = index + 2 in
              if length src \<le> index \<or> src ! index \<noteq> 0x3A then (dc, None)
              else let index = index + 1 in
                case toInt src index 2 of
                  None \<Rightarrow> (dc, None)
                | Some mins \<Rightarrow>
                    if mins < 0 \<or> 59 < mins then (dc, None)
                    else let index = index + 2;
                             (hr, mins) = (if minus then (- hr, - mins) else (hr, mins));
                             (ok, dc) = addMinute (- (hr * 60 + mins)) dc
                         in if \<not> ok then (dc, None) else (dc, Some index))"

definition parseMonth :: "uchar list \<Rightarrow> nat \<Rightarrow> DateComponents \<Rightarrow> DateComponents \<times> nat option" where
  "parseMonth src start dc =
     (case parseYear src start dc of
        (dc, None) \<Rightarrow> (dc, None)
      | (dc, Some index) \<Rightarrow>
          if length src \<le> index \<or> src ! index \<noteq> 0x2D then (dc, None)
          else let index = index + 1 in
            case toInt src index 2 of
              None \<Rightarrow> (dc, None)
            | Some mon \<Rightarrow>
                if mon < 1 \<or> 12 < mon then (dc, None)
                else let mon = mon - 1 in
                  if beforeGregorianStartDate (m_year dc) mon gregorianStartDay then (dc, None)
                  else (dc\<lparr>m_month := mon, m_type := Month\<rparr>, Some (index + 2)))"

definition parseDate :: "uchar list \<Rightarrow> nat \<Rightarrow> DateComponents \<Rightarrow> DateComponents \<times> nat option" where
  "parseDate src start dc =
     (case parseMonth src start dc of
        (dc, None) \<Rightarrow> (dc, None)
      | (dc, Some index) \<Rightarrow>
          if length src \<le> index + 2 then (dc, None)
          else if src ! index \<noteq> 0x2D then (dc, None)
          else let index = index + 1 in
            case toInt src index 2 of
              None \<Rightarrow> (dc, None)
            | Some day \<Rightarrow>
                if day < 1 \<or> maxDayOfMonth (m_year dc) (m_month dc) < day then (dc, None)
                else if m_year dc = gregorianStartYear \<and> m_month dc = gregorianStartMonth \<and> day < gregorianStartDay
                then (dc, None)
                else (dc\<lparr>m_monthDay := day, m_type := Date\<rparr>, Some (index + 2)))"

definition parseWeek :: "uchar list \<Rightarrow> nat \<Rightarrow> DateComponents \<Rightarrow> DateComponents \<times> nat option" where
  "parseWeek src start dc =
     (case parseYear src start dc of
        (dc, None) \<Rightarrow> (dc, None)
      | (dc, Some index) \<Rightarrow>
          if length src \<le> index + 3 then (dc, None)
          else if src ! index \<noteq> 0x2D then (dc, None)
          else let index = index + 1 in
            if src ! index \<noteq> 0x57 then (dc, None)
            else let index = index + 1 in
              case toInt src index 2 of
                None \<Rightarrow> (dc, None)
              | Some week \<Rightarrow>
                  if week < 1 \<or> maxWeekNumberInYear dc < week then (dc, None)
                  else if m_year dc \<le> gregorianStartYear then (dc, None)
                  else (dc\<lparr>m_week := week, m_type := Week\<rparr>, Some (index + 2)))"

text \<open>The optional fraction of a second: the milliseconds and the index after it.\<close>

definition parseFraction :: "uchar list \<Rightarrow> nat \<Rightarrow> int \<times> nat" where
  "parseFraction src index =
     (if index < length src \<and> src ! index = 0x2E then
        let digitsLength = countDigits src (index + 1) in
        if 0 < digitsLength then
          let index = index + 1;
              ms = (if digitsLength = 1 then (case toInt src index 1 of Some v \<Rightarrow> v * 100 | None \<Rightarrow> 0)
                else if digitsLength = 2 then (case toInt src index 2 of Some v \<Rightarrow> v * 10 | None \<Rightarrow> 0)
                else (case toInt src index 3 of Some v \<Rightarrow> v | None \<Rightarrow> 0))
          in (ms, index + digitsLength)
        else (0, index)
      else (0, index))"

definition parseTime :: "uchar list \<Rightarrow> nat \<Rightarrow> DateComponents \<Rightarrow> DateComponents \<times> nat option" where
  "parseTime src start dc =
     (case toInt src start 2 of
        None \<Rightarrow> (dc, None)
      | Some hr \<Rightarrow>
          if hr < 0 \<or> 23 < hr then (dc, None)
          else let index = start + 2 in
            if length src \<le> index then (dc, None)
            else if src ! index \<noteq> 0x3A then (dc, None)
            else let index = index + 1 in
              case toInt src index 2 of
                None \<Rightarrow> (dc, None)
              | Some mins \<Rightarrow>
                  if mins < 0 \<or> 59 < mins then (dc, None)
                  else let index = index + 2;
                           (sec, ms, index) =
                             (if index + 2 < length src \<and> src ! index = 0x3A then
                                case toInt src (index + 1) 2 of
                                  None \<Rightarrow> (0, 0, index)
                                | Some sec \<Rightarrow>
                                    if 0 \<le> sec \<and> sec \<le> 59
                                    then (let (ms, index) = parseFraction src (index + 3) in (sec, ms, index))
                                    else (sec, 0, index)
                              else (0, 0, index))
                       in (dc\<lparr>m_hour := hr, m_minute := mins, m_second := sec, m_millisecond := ms, m_type := Time\<rparr>,
                           Some index))"

definition parseDateTimeLocal :: "uchar list \<Rightarrow> nat \<Rightarrow> DateComponents \<Rightarrow> DateComponents \<times> nat option" where
  "parseDateTimeLocal src start dc =
     (case parseDate src start dc of
        (dc, None) \<Rightarrow> (dc, None)
      | (dc, Some index) \<Rightarrow>
          if length src \<le> index then (dc, None)
          else if src ! index \<noteq> 0x54 then (dc, None)
          else (case parseTime src (index + 1) dc of
              (dc, None) \<Rightarrow> (dc, None)
            | (dc, Some index) \<Rightarrow> (dc\<lparr>m_type := DateTimeLocal\<rparr>, Some index)))"

definition parseDateTime :: "uchar list \<Rightarrow> nat \<Rightarrow> DateComponents \<Rightarrow> DateComponents \<times> nat option" where
  "parseDateTime src start dc =
     (case parseDate src start dc of
        (dc, None) \<Rightarrow> (dc, None)
      | (dc, Some index) \<Rightarrow>
          if length src \<le> index then (dc, None)
          else if src ! index \<noteq> 0x54 then (dc, None)
          else (case parseTime src (index + 1) dc of
              (dc, None) \<Rightarrow> (dc, None)
            | (dc, Some index) \<Rightarrow>
                (case parseTimeZone src index dc of
                   (dc, None) \<Rightarrow> (dc, None)
                 | (dc, Some index) \<Rightarrow> (dc\<lparr>m_type := DateTime\<rparr>, Some index))))"

subsection \<open>From and to milliseconds\<close>

text \<open>\<open>round\<close> of the C library rounds halves away from zero.\<close>

definition roundAway :: "rat \<Rightarrow> int" where
  "roundAway x = (if 0 \<le> x then \<lfloor>x + 1 / 2\<rfloor> else \<lceil>x - 1 / 2\<rceil>)"

definition positiveFmod :: "int \<Rightarrow> int \<Rightarrow> int" where
  "positiveFmod v divider = (let remainder = v smod divider in if remainder < 0 then remainder + divider else remainder)"

definition setMillisecondsSinceMidnightInternal :: "int \<Rightarrow> DateComponents \<Rightarrow> DateComponents" where
  "setMillisecondsSinceMidnightInternal msInDay dc =
     (let ms = msInDay smod msPerSecond;
          v = msInDay div msPerSecond;
          sec = v smod 60;
          v = v div 60;
          mins = v smod 60;
          hr = v div 60
      in dc\<lparr>m_millisecond := ms, m_second := sec, m_minute := mins, m_hour := hr\<rparr>)"

definition setMillisecondsSinceEpochForDateInternal :: "int \<Rightarrow> DateComponents \<Rightarrow> DateComponents" where
  "setMillisecondsSinceEpochForDateInternal ms dc =
     (let yr = msToYear ms;
          yday = dayInYear ms yr;
          mon = monthFromDayInYear yday (isLeap yr);
          day = dayInMonthFromDayInYear yday (isLeap yr)
      in dc\<lparr>m_year := yr, m_month := mon, m_monthDay := day\<rparr>)"

definition setMillisecondsSinceEpochForDate :: "rat option \<Rightarrow> DateComponents \<Rightarrow> bool \<times> DateComponents" where
  "setMillisecondsSinceEpochForDate ms dc =
     (let dc = dc\<lparr>m_type := Invalid\<rparr> in
      case ms of
        None \<Rightarrow> (False, dc)
      | Some ms \<Rightarrow>
          let dc = setMillisecondsSinceEpochForDateInternal (roundAway ms) dc in
          if beforeGregorianStartDate (m_year dc) (m_month dc) (m_monthDay dc) then (False, dc)
          else (True, dc\<lparr>m_type := Date\<rparr>))"

definition setMillisecondsSinceEpochForDateTime :: "rat option \<Rightarrow> DateComponents \<Rightarrow> bool \<times> DateComponents" where
  "setMillisecondsSinceEpochForDateTime ms dc =
     (let dc = dc\<lparr>m_type := Invalid\<rparr> in
      case ms of
        None \<Rightarrow> (False, dc)
      | Some ms \<Rightarrow>
          let ms = roundAway ms;
              dc = setMillisecondsSinceMidnightInternal (positiveFmod ms msPerDay) dc;
              dc = setMillisecondsSinceEpochForDateInternal ms dc
          in if beforeGregorianStartDate (m_year dc) (m_month dc) (m_monthDay dc) then (False, dc)
             else (True, dc\<lparr>m_type := DateTime\<rparr>))"

definition setMillisecondsSinceEpochForDateTimeLocal :: "rat option \<Rightarrow> DateComponents \<Rightarrow> bool \<times> DateComponents" where
  "setMillisecondsSinceEpochForDateTimeLocal ms dc =
     (let (ok, dc) = setMillisecondsSinceEpochForDateTime ms dc
      in if \<not> ok then (False, dc) else (True, dc\<lparr>m_type := DateTimeLocal\<rparr>))"

definition setMillisecondsSinceEpochForMonth :: "rat option \<Rightarrow> DateComponents \<Rightarrow> bool \<times> DateComponents" where
  "setMillisecondsSinceEpochForMonth ms dc =
     (let dc = dc\<lparr>m_type := Invalid\<rparr> in
      case ms of
        None \<Rightarrow> (False, dc)
      | Some ms \<Rightarrow>
          let dc = setMillisecondsSinceEpochForDateInternal (roundAway ms) dc in
          if beforeGregorianStartDate (m_year dc) (m_month dc) gregorianStartDay then (False, dc)
          else (True, dc\<lparr>m_type := Month\<rparr>))"

definition setMillisecondsSinceMidnight :: "rat option \<Rightarrow> DateComponents \<Rightarrow> bool \<times> DateComponents" where
  "setMillisecondsSinceMidnight ms dc =
     (let dc = dc\<lparr>m_type := Invalid\<rparr> in
      case ms of
        None \<Rightarrow> (False, dc)
      | Some ms \<Rightarrow>
          (True, (setMillisecondsSinceMidnightInternal (positiveFmod (roundAway ms) msPerDay) dc)\<lparr>m_type := Time\<rparr>))"

definition setMonthsSinceEpoch :: "rat option \<Rightarrow> DateComponents \<Rightarrow> bool \<times> DateComponents" where
  "setMonthsSinceEpoch months dc =
     (case months of
        None \<Rightarrow> (False, dc)
      | Some months \<Rightarrow>
          let months = roundAway months;
              doubleMonth = positiveFmod months 12;
              doubleYear = 1970 + (months - doubleMonth) div 12
          in if doubleYear < gregorianStartYear \<or> 2147483647 < doubleYear then (False, dc)
             else if beforeGregorianStartDate doubleYear doubleMonth gregorianStartDay then (False, dc)
             else (True, dc\<lparr>m_year := doubleYear, m_month := doubleMonth, m_type := Month\<rparr>))"

definition offsetTo1stWeekStart :: "int \<Rightarrow> int" where
  "offsetTo1stWeekStart yr =
     (let offset = 1 - dayOfWeek yr 0 1 in if offset \<le> -4 then offset + 7 else offset)"

definition setMillisecondsSinceEpochForWeek :: "rat option \<Rightarrow> DateComponents \<Rightarrow> bool \<times> DateComponents" where
  "setMillisecondsSinceEpochForWeek ms dc =
     (let dc = dc\<lparr>m_type := Invalid\<rparr> in
      case ms of
        None \<Rightarrow> (False, dc)
      | Some ms \<Rightarrow>
          let ms = roundAway ms; dc = dc\<lparr>m_year := msToYear ms\<rparr> in
          if m_year dc \<le> gregorianStartYear then (False, dc)
          else
            let yday = dayInYear ms (m_year dc); offset = offsetTo1stWeekStart (m_year dc) in
            if yday < offset then
              let dc = dc\<lparr>m_year := m_year dc - 1\<rparr> in
              if m_year dc \<le> gregorianStartYear then (False, dc)
              else (True, dc\<lparr>m_week := maxWeekNumberInYear dc, m_type := Week\<rparr>)
            else
              let dc = dc\<lparr>m_week := (yday - offset) sdiv 7 + 1\<rparr> in
              if maxWeekNumberInYear dc < m_week dc
              then (True, dc\<lparr>m_year := m_year dc + 1, m_week := 1, m_type := Week\<rparr>)
              else (True, dc\<lparr>m_type := Week\<rparr>))"

definition millisecondsSinceEpochForTime :: "DateComponents \<Rightarrow> int" where
  "millisecondsSinceEpochForTime dc =
     ((m_hour dc * 60 + m_minute dc) * 60 + m_second dc) * msPerSecond + m_millisecond dc"

text \<open>\<open>None\<close> is invalidMilliseconds, NaN.\<close>

definition millisecondsSinceEpoch :: "DateComponents \<Rightarrow> int option" where
  "millisecondsSinceEpoch dc =
     (case m_type dc of
        Date \<Rightarrow> Some (dateToDaysFrom1970 (m_year dc) (m_month dc) (m_monthDay dc) * msPerDay)
      | DateTime \<Rightarrow> Some (dateToDaysFrom1970 (m_year dc) (m_month dc) (m_monthDay dc) * msPerDay + millisecondsSinceEpochForTime dc)
      | DateTimeLocal \<Rightarrow> Some (dateToDaysFrom1970 (m_year dc) (m_month dc) (m_monthDay dc) * msPerDay + millisecondsSinceEpochForTime dc)
      | Month \<Rightarrow> Some (dateToDaysFrom1970 (m_year dc) (m_month dc) 1 * msPerDay)
      | Time \<Rightarrow> Some (millisecondsSinceEpochForTime dc)
      | Week \<Rightarrow> Some ((dateToDaysFrom1970 (m_year dc) 0 1 + offsetTo1stWeekStart (m_year dc) + (m_week dc - 1) * 7) * msPerDay)
      | Invalid \<Rightarrow> None)"

definition monthsSinceEpoch :: "DateComponents \<Rightarrow> int" where
  "monthsSinceEpoch dc = (m_year dc - 1970) * 12 + m_month dc"

subsection \<open>Printing\<close>

text \<open>The format \<open>%0nd\<close> of the C library.\<close>

definition formatInt :: "nat \<Rightarrow> int \<Rightarrow> uchar list" where
  "formatInt width v =
     (let digits = (if v = 0 then [0x30] else fromDigits (nat \<bar>v\<bar>) []);
          sign = (if v < 0 then [0x2D] else [])
      in sign @ replicate (width - length sign - length digits) 0x30 @ digits)"

definition toStringForTime :: "SecondFormat \<Rightarrow> DateComponents \<Rightarrow> uchar list" where
  "toStringForTime format dc =
     (let effectiveFormat =
            (if m_millisecond dc \<noteq> 0 then Milliseconds
             else if format = NoSeconds \<and> m_second dc \<noteq> 0 then Seconds
             else format)
      in case effectiveFormat of
           NoSeconds \<Rightarrow> formatInt 2 (m_hour dc) @ [0x3A] @ formatInt 2 (m_minute dc)
         | Seconds \<Rightarrow> formatInt 2 (m_hour dc) @ [0x3A] @ formatInt 2 (m_minute dc) @ [0x3A] @ formatInt 2 (m_second dc)
         | Milliseconds \<Rightarrow> formatInt 2 (m_hour dc) @ [0x3A] @ formatInt 2 (m_minute dc) @ [0x3A] @ formatInt 2 (m_second dc)
             @ [0x2E] @ formatInt 3 (m_millisecond dc))"

definition toStringForDate :: "DateComponents \<Rightarrow> uchar list" where
  "toStringForDate dc = formatInt 4 (m_year dc) @ [0x2D] @ formatInt 2 (m_month dc + 1) @ [0x2D] @ formatInt 2 (m_monthDay dc)"

definition toString :: "SecondFormat \<Rightarrow> DateComponents \<Rightarrow> uchar list" where
  "toString format dc =
     (case m_type dc of
        Date \<Rightarrow> toStringForDate dc
      | DateTime \<Rightarrow> toStringForDate dc @ [0x54] @ toStringForTime format dc @ [0x5A]
      | DateTimeLocal \<Rightarrow> toStringForDate dc @ [0x54] @ toStringForTime format dc
      | Month \<Rightarrow> formatInt 4 (m_year dc) @ [0x2D] @ formatInt 2 (m_month dc + 1)
      | Time \<Rightarrow> toStringForTime format dc
      | Week \<Rightarrow> formatInt 4 (m_year dc) @ [0x2D, 0x57] @ formatInt 2 (m_week dc)
      | Invalid \<Rightarrow> ustr ''(Invalid DateComponents)'')"

lemma isLeap_eq: "isLeap = isLeapYear"
  by (simp add: fun_eq_iff isLeap_def isLeapYear_def)

lemma maxDayOfMonth_eq: "0 \<le> mon \<Longrightarrow> mon < 12 \<Longrightarrow> maxDayOfMonth yr mon = monthLength mon (isLeapYear yr)"
  by (cases mon rule: month_cases) (simp_all add: maxDayOfMonth_def daysInMonth_def monthLength_def isLeap_eq)

definition valid_ymd :: "int \<Rightarrow> int \<Rightarrow> int \<Rightarrow> bool" where
  "valid_ymd yr mon day \<longleftrightarrow> 0 \<le> mon \<and> mon < 12 \<and> 1 \<le> day \<and> day \<le> maxDayOfMonth yr mon"

abbreviation days :: "int \<Rightarrow> int \<Rightarrow> int \<Rightarrow> int" where
  "days yr mon day \<equiv> dateToDaysFrom1970 yr mon day"

lemma days_eq:
  "valid_ymd yr mon day \<Longrightarrow> days yr mon day = daysFrom1970ToYear yr + monthToDayInYear mon (isLeapYear yr) + day - 1"
  by (simp add: valid_ymd_def dateToDays_normal)

lemma maxDay_pos: "0 \<le> mon \<Longrightarrow> mon < 12 \<Longrightarrow> 28 \<le> maxDayOfMonth yr mon"
  by (simp add: maxDayOfMonth_eq monthLength_def)

lemma month_follows: "0 \<le> mon \<Longrightarrow> mon < 11 \<Longrightarrow> monthToDayInYear (mon + 1) leap = monthToDayInYear mon leap + monthLength mon leap"
proof -
  assume m: "0 \<le> mon" "mon < 11"
  then have "mon < 12" by simp
  with m(1) show ?thesis using m(2)
    by (cases mon rule: month_cases; cases leap; simp add: monthToDayInYear_def firstDayOfMonth_def monthLength_def)
qed

lemma december: "monthToDayInYear 11 leap + monthLength 11 leap = 365 + (if leap then 1 else 0)"
  by (simp add: monthToDayInYear_def firstDayOfMonth_def monthLength_def)

definition nextDay :: "int \<Rightarrow> int \<Rightarrow> int \<Rightarrow> int \<times> int \<times> int" where
  "nextDay yr mon day =
     (if day < maxDayOfMonth yr mon then (yr, mon, day + 1)
      else if mon < 11 then (yr, mon + 1, 1) else (yr + 1, 0, 1))"

lemma nextDay_valid:
  assumes "valid_ymd yr mon day" "nextDay yr mon day = (y', m', d')"
  shows "valid_ymd y' m' d' \<and> days y' m' d' = days yr mon day + 1 \<and> yr \<le> y' \<and> y' \<le> yr + 1"
proof -
  have v: "0 \<le> mon" "mon < 12" "1 \<le> day" "day \<le> maxDayOfMonth yr mon" using assms(1) by (auto simp: valid_ymd_def)
  consider "day < maxDayOfMonth yr mon" | "day = maxDayOfMonth yr mon" "mon < 11" | "day = maxDayOfMonth yr mon" "mon = 11"
    using v by linarith
  then show ?thesis
  proof cases
    case 1
    then have e: "y' = yr" "m' = mon" "d' = day + 1" using assms(2) by (auto simp: nextDay_def)
    then have v': "valid_ymd y' m' d'" using v 1 by (simp add: valid_ymd_def)
    show ?thesis using v' days_eq [OF v'] days_eq [OF assms(1)] by (simp add: e)
  next
    case 2
    then have e: "y' = yr" "m' = mon + 1" "d' = 1" using assms(2) by (auto simp: nextDay_def)
    then have v': "valid_ymd y' m' d'" using v 2 maxDay_pos [of "mon + 1" yr] by (simp add: valid_ymd_def)
    show ?thesis using v' days_eq [OF v'] days_eq [OF assms(1)] 2 v month_follows [of mon "isLeapYear yr"]
      by (simp add: e maxDayOfMonth_eq)
  next
    case 3
    then have e: "y' = yr + 1" "m' = 0" "d' = 1" using assms(2) by (auto simp: nextDay_def)
    then have v': "valid_ymd y' m' d'" using maxDay_pos [of 0 y'] by (simp add: valid_ymd_def)
    have "monthToDayInYear 0 l = 0" for l by (simp add: monthToDayInYear_def firstDayOfMonth_def)
    then show ?thesis using v' days_eq [OF v'] days_eq [OF assms(1)] 3 december [of "isLeapYear yr"]
      by (simp add: e maxDayOfMonth_eq next_year daysInYear_def)
  qed
qed

lemma addDayForward_nextDay:
  assumes "valid_ymd yr mon day" "0 \<le> yr" "yr < 2147483647"
  shows "addDayForward (Suc n) yr mon day (maxDayOfMonth yr mon) =
    (case nextDay yr mon day of (y', m', d') \<Rightarrow> addDayForward n y' m' d' (maxDayOfMonth y' m'))"
proof -
  have "signed_take_bit 31 (yr + 1) = yr + 1"
    using assms by (simp add: signed_take_bit_int_eq_self_iff)
  then show ?thesis using assms
    by (auto simp: nextDay_def Let_def valid_ymd_def)
qed

lemma addDayForward_spec:
  assumes "valid_ymd yr mon day" "0 \<le> yr" "yr + int n \<le> 2147483647"
  shows "\<exists>y' m' d'. addDayForward n yr mon day (maxDayOfMonth yr mon) = Some (y', m', d') \<and>
    valid_ymd y' m' d' \<and> days y' m' d' = days yr mon day + int n"
  using assms
proof (induction n arbitrary: yr mon day)
  case (Suc n)
  obtain y' m' d' where nd: "nextDay yr mon day = (y', m', d')" by (metis prod_cases3)
  note v = nextDay_valid [OF Suc.prems(1) nd]
  have "0 \<le> y'" "y' + int n \<le> 2147483647" using v Suc.prems by auto
  then show ?case using Suc.IH [of y' m' d'] v Suc.prems addDayForward_nextDay [of yr mon day n] nd by auto
qed auto

lemma addDayBackward_spec:
  assumes "valid_ymd yr mon day"
  shows "case addDayBackward n yr mon day of
      Some (y', m', d') \<Rightarrow> valid_ymd y' m' d' \<and> days y' m' d' = days yr mon day - int n
    | None \<Rightarrow> (\<exists>y' m' d'. valid_ymd y' m' d' \<and> beforeGregorianStartDate y' m' d' \<and> days yr mon day - int n \<le> days y' m' d')"
  using assms
proof (induction n arbitrary: yr mon day)
  case (Suc n)
  have v: "0 \<le> mon" "mon < 12" "1 \<le> day" "day \<le> maxDayOfMonth yr mon" using Suc.prems by (auto simp: valid_ymd_def)
  obtain y' m' d' where p: "(y', m', d') =
      (if day - 1 < 1 then
         (if mon - 1 < 0 then (yr - 1, 11, maxDayOfMonth (yr - 1) 11) else (yr, mon - 1, maxDayOfMonth yr (mon - 1)))
       else (yr, mon, day - 1))" by (metis prod_cases3)
  have v': "valid_ymd y' m' d'"
    using p v maxDay_pos [of 11 "yr - 1"] maxDay_pos [of "mon - 1" yr] by (auto simp: valid_ymd_def split: if_splits)
  have "nextDay y' m' d' = (yr, mon, day)"
    using p v by (auto simp: nextDay_def split: if_splits)
  then have d: "days y' m' d' = days yr mon day - 1" using nextDay_valid [OF v'] by simp
  have s: "addDayBackward (Suc n) yr mon day = (if beforeGregorianStartDate y' m' d' then None else addDayBackward n y' m' d')"
    using p by (auto simp: Let_def split: if_splits)
  show ?case
  proof (cases "beforeGregorianStartDate y' m' d'")
    case True
    have "\<exists>y m d. valid_ymd y m d \<and> beforeGregorianStartDate y m d \<and> days yr mon day - int (Suc n) \<le> days y m d"
      using v' True d by (intro exI [of _ y'] exI [of _ m'] exI [of _ d']) simp
    then show ?thesis using True s by simp
  next
    case False
    then have e: "addDayBackward (Suc n) yr mon day = addDayBackward n y' m' d'" using s by simp
    have "days yr mon day - int (Suc n) = days y' m' d' - int n" using d by simp
    then show ?thesis unfolding e using Suc.IH [OF v'] by (simp only:)
  qed
qed simp

definition valid_date :: "DateComponents \<Rightarrow> bool" where
  "valid_date dc \<longleftrightarrow> valid_ymd (m_year dc) (m_month dc) (m_monthDay dc)"

definition valid_time :: "DateComponents \<Rightarrow> bool" where
  "valid_time dc \<longleftrightarrow> 0 \<le> m_hour dc \<and> m_hour dc < 24 \<and> 0 \<le> m_minute dc \<and> m_minute dc < 60 \<and>
     0 \<le> m_second dc \<and> m_second dc < 60 \<and> 0 \<le> m_millisecond dc \<and> m_millisecond dc < 1000"

definition date_days :: "DateComponents \<Rightarrow> int" where
  "date_days dc = days (m_year dc) (m_month dc) (m_monthDay dc)"

definition total_minutes :: "DateComponents \<Rightarrow> int" where
  "total_minutes dc = (date_days dc * 24 + m_hour dc) * 60 + m_minute dc"

lemma addDay_spec:
  assumes "valid_date dc" "0 \<le> m_year dc" "m_year dc + n \<le> 2147483647"
  shows "case addDay n dc of (ok, dc') \<Rightarrow>
    if ok then (\<exists>y m d. dc' = dc\<lparr>m_monthDay := d, m_month := m, m_year := y\<rparr>) \<and> valid_date dc' \<and> date_days dc' = date_days dc + n
    else dc' = dc \<and> (\<exists>y m d. valid_ymd y m d \<and> beforeGregorianStartDate y m d \<and> date_days dc + n \<le> days y m d)"
proof -
  let ?y = "m_year dc" and ?m = "m_month dc" and ?d = "m_monthDay dc"
  have v: "valid_ymd ?y ?m ?d" using assms(1) by (simp add: valid_date_def)
  consider "maxDayOfMonth ?y ?m < ?d + n" | "\<not> maxDayOfMonth ?y ?m < ?d + n" "?d + n < 1" | "1 \<le> ?d + n" "?d + n \<le> maxDayOfMonth ?y ?m" by linarith
  then show ?thesis
  proof cases
    case 1
    then have n: "0 < n" using v by (simp add: valid_ymd_def)
    then obtain y m d where "addDayForward (nat n) ?y ?m ?d (maxDayOfMonth ?y ?m) = Some (y, m, d)"
      "valid_ymd y m d" "days y m d = days ?y ?m ?d + n"
      using addDayForward_spec [OF v assms(2), of "nat n"] assms(3) by auto
    then show ?thesis using 1 by (auto simp: addDay_def valid_date_def date_days_def intro!: exI)
  next
    case 2
    then have n: "n < 0" using v by (simp add: valid_ymd_def)
    show ?thesis
      using addDayBackward_spec [OF v, of "nat (- n)"] 2 n
      by (auto simp: addDay_def valid_date_def date_days_def split: option.splits) 
  next
    case 3
    then have "valid_ymd ?y ?m (?d + n)" using v by (simp add: valid_ymd_def)
    moreover have "dc\<lparr>m_monthDay := ?d + n\<rparr> = dc\<lparr>m_monthDay := ?d + n, m_month := ?m, m_year := ?y\<rparr>" by (cases dc) simp
    then have "\<exists>y m d. dc\<lparr>m_monthDay := ?d + n\<rparr> = dc\<lparr>m_monthDay := d, m_month := m, m_year := y\<rparr>" by metis
    moreover have "addDay n dc = (True, dc\<lparr>m_monthDay := ?d + n\<rparr>)" using 3 by (simp add: addDay_def)
    ultimately show ?thesis using 3 days_eq [OF v] days_eq [of ?y ?m "?d + n"]
      by (simp add: valid_date_def date_days_def)
  qed
qed

lemma addMinuteCarry_spec:
  assumes "valid_date dc" "0 \<le> m_hour dc" "m_hour dc < 24" "0 \<le> m_year dc" "m_year dc + \<bar>carry\<bar> \<le> 2147483647"
  shows "case addMinuteCarry mins carry dc of (ok, dc') \<Rightarrow>
    ok \<longrightarrow> (date_days dc' * 24 + m_hour dc') = date_days dc * 24 + m_hour dc + carry \<and> m_minute dc' = mins \<and>
      0 \<le> m_hour dc' \<and> m_hour dc' < 24 \<and> valid_date dc'"
proof -
  let ?h = "m_hour dc + carry"
  consider "0 \<le> ?h" "?h \<le> 23" | "23 < ?h" | "?h < 0" by linarith
  then show ?thesis
  proof cases
    case 1
    then show ?thesis using assms(1) by (simp add: addMinuteCarry_def valid_date_def date_days_def)
  next
    case 2
    have "?h sdiv 24 \<le> \<bar>carry\<bar>" "0 \<le> ?h smod 24" "?h smod 24 < 24" "?h sdiv 24 * 24 + ?h smod 24 = ?h"
      using 2 assms(2,3) by (auto simp: signed_divide_int_def smod_int_alt_def sgn_if)
    then show ?thesis using addDay_spec [OF assms(1,4), of "?h sdiv 24"] assms(5) 2
      by (auto simp: addMinuteCarry_def Let_def valid_date_def date_days_def split: prod.splits if_splits)
  next
    case 3
    define c where "c = (23 - ?h) sdiv 24"
    have c: "c = (23 - ?h) div 24" using 3 by (simp add: c_def signed_divide_int_def sgn_if)
    then have "0 \<le> ?h + c * 24" "?h + c * 24 < 24" "m_year dc - c \<le> 2147483647" using 3 assms by auto
    then show ?thesis using addDay_spec [OF assms(1,4), of "- c"] 3
      by (auto simp: addMinuteCarry_def Let_def valid_date_def date_days_def c_def split: prod.splits if_splits)
  qed
qed

text \<open>
  when addMinute succeeds, the date and time advance by exactly that number of
  minutes, across days, months and years in either direction as far as the sum of
  minutes is not handled by the untested branch, the date stays a calendar date and the
  hour stays in range.
\<close>

theorem addMinute_total:
  assumes "valid_date dc" "valid_time dc" "0 \<le> m_year dc" "m_year dc + \<bar>n\<bar> + 60 \<le> 2147483647" "addMinute n dc = (True, dc')"
  shows "total_minutes dc' = total_minutes dc + n \<and> valid_date dc' \<and>
    m_minute dc' < 60 \<and> 0 \<le> m_hour dc' \<and> m_hour dc' < 24"
proof (cases "59 < n + m_minute dc")
  case False
  then show ?thesis using assms by (auto simp: addMinute_def valid_time_def total_minutes_def date_days_def valid_date_def)
next
  case True
  let ?s = "n + m_minute dc"
  have s: "?s sdiv 60 = ?s div 60" "?s smod 60 = ?s mod 60" using True
    by (simp_all add: signed_divide_int_def smod_int_alt_def sgn_if)
  have "m_year dc + \<bar>?s div 60\<bar> \<le> 2147483647" using True assms(2,4) by (auto simp: valid_time_def)
  then have "(date_days dc' * 24 + m_hour dc') = date_days dc * 24 + m_hour dc + ?s div 60" "m_minute dc' = ?s mod 60"
      "0 \<le> m_hour dc'" "m_hour dc' < 24" "valid_date dc'"
    using addMinuteCarry_spec [of dc "?s div 60" "?s mod 60"] True assms
    by (auto simp: addMinute_def s valid_time_def Let_def)
  moreover have "?s div 60 * 60 + ?s mod 60 = ?s" by (rule div_mult_mod_eq)
  ultimately show ?thesis by (simp add: total_minutes_def distrib_right)
qed

lemma addMinute_no_borrow:
  assumes "0 \<le> m_minute dc" "n + m_minute dc < 0"
  shows "addMinute n dc = (True, dc\<lparr>m_minute := n + m_minute dc\<rparr>)"
  using assms by (simp add: addMinute_def)

subsection \<open>Milliseconds: round trips\<close>

lemma roundAway_int [simp]: "roundAway (of_int x) = x"
proof -
  have "\<lfloor>(of_int x :: rat) + 1 / 2\<rfloor> = x" "\<lceil>(of_int x :: rat) - 1 / 2\<rceil> = x"
    by (simp_all add: floor_eq_iff ceiling_eq_iff)
  then show ?thesis by (simp add: roundAway_def)
qed

lemma positiveFmod_eq: "0 < b \<Longrightarrow> positiveFmod a b = a mod b"
  by (simp add: positiveFmod_def smod_fix Let_def)

lemma fields_of_ms:
  "dateToDaysFrom1970 (msToYear ms) (monthFromDayInYear (dayInYear ms (msToYear ms)) (isLeap (msToYear ms)))
     (dayInMonthFromDayInYear (dayInYear ms (msToYear ms)) (isLeap (msToYear ms))) = ms div msPerDay"
  "valid_ymd (msToYear ms) (monthFromDayInYear (dayInYear ms (msToYear ms)) (isLeap (msToYear ms)))
     (dayInMonthFromDayInYear (dayInYear ms (msToYear ms)) (isLeap (msToYear ms)))"
proof -
  note m = month_of_day [of "dayInYear ms (msToYear ms)" "isLeapYear (msToYear ms)", OF conjunct1 [OF year_day] conjunct2 [OF year_day]]
  show v: "valid_ymd (msToYear ms) (monthFromDayInYear (dayInYear ms (msToYear ms)) (isLeap (msToYear ms)))
     (dayInMonthFromDayInYear (dayInYear ms (msToYear ms)) (isLeap (msToYear ms)))"
    using m by (simp add: valid_ymd_def isLeap_eq maxDayOfMonth_eq)
  show "dateToDaysFrom1970 (msToYear ms) (monthFromDayInYear (dayInYear ms (msToYear ms)) (isLeap (msToYear ms)))
     (dayInMonthFromDayInYear (dayInYear ms (msToYear ms)) (isLeap (msToYear ms))) = ms div msPerDay"
    using m days_eq [OF v] by (simp add: isLeap_eq dayInYear_def msToDays_def)
qed

lemma monthToDayInYear_0: "monthToDayInYear 0 l = 0"
  by (simp add: monthToDayInYear_def firstDayOfMonth_def)

lemma days_in_year:
  assumes "valid_ymd yr mon day"
  shows "daysFrom1970ToYear yr \<le> days yr mon day" "days yr mon day < daysFrom1970ToYear (yr + 1)"
  using monthToDayInYear_bound [of mon day "isLeapYear yr"] assms days_eq [OF assms]
  by (auto simp: valid_ymd_def maxDayOfMonth_eq next_year daysInYear_def)

lemma beforeGregorian_iff:
  assumes "valid_ymd yr mon day"
  shows "beforeGregorianStartDate yr mon day \<longleftrightarrow> days yr mon day < -141427"
proof -
  have s: "daysFrom1970ToYear 1582 = -141714" "daysFrom1970ToYear 1583 = -141349" "isLeapYear 1582 = False"
    by (simp_all add: daysFrom1970_eq isLeapYear_iff)
  consider "yr < 1582" | "yr = 1582" | "1583 \<le> yr" by linarith
  then show ?thesis
  proof cases
    case 1
    then show ?thesis using days_in_year [OF assms] daysFrom1970_mono [of "yr + 1" 1582] s
      by (simp add: beforeGregorianStartDate_def gregorian_defs)
  next
    case 3
    then show ?thesis using days_in_year [OF assms] daysFrom1970_mono [of 1583 yr] s
      by (simp add: beforeGregorianStartDate_def gregorian_defs)
  next
    case 2
    have m: "0 \<le> mon" "mon < 12" "1 \<le> day" "day \<le> maxDayOfMonth 1582 mon" using assms 2 by (auto simp: valid_ymd_def)
    show ?thesis using m(3,4) unfolding 2 beforeGregorianStartDate_def gregorian_defs
      by (cases rule: month_cases [OF m(1,2)])
        (auto simp: dateToDays_normal monthToDayInYear_def firstDayOfMonth_def maxDayOfMonth_def daysInMonth_def isLeap_eq s)
  qed
qed

lemma smod_nonneg: "0 \<le> a \<Longrightarrow> 0 < b \<Longrightarrow> a smod b = a mod (b :: int)"
  using smod_fix [of b a] by (simp add: smod_int_alt_def sgn_if)

lemma midnight_fields:
  "0 \<le> t \<Longrightarrow> t < msPerDay \<Longrightarrow> valid_time (setMillisecondsSinceMidnightInternal t dc) \<and>
    millisecondsSinceEpochForTime (setMillisecondsSinceMidnightInternal t dc) = t"
proof -
  assume t: "0 \<le> t" "t < msPerDay"
  define s mi where "s = t div 1000" and "mi = s div 60"
  have p: "0 \<le> s" "0 \<le> mi" using t by (simp_all add: s_def mi_def pos_imp_zdiv_nonneg_iff)
  have "t = s * 1000 + t mod 1000" "s = mi * 60 + s mod 60" "mi = mi div 60 * 60 + mi mod 60"
    by (simp_all add: s_def mi_def)
  moreover have "mi div 60 < 24" using t by (simp add: mi_def s_def ms_values div_less_iff_less_mult flip: zdiv_zmult2_eq)
  moreover have "0 \<le> mi div 60" using p by (simp add: pos_imp_zdiv_nonneg_iff)
  moreover have "setMillisecondsSinceMidnightInternal t dc =
      dc\<lparr>m_millisecond := t mod 1000, m_second := s mod 60, m_minute := mi mod 60, m_hour := mi div 60\<rparr>"
    using t p by (simp add: setMillisecondsSinceMidnightInternal_def ms_values Let_def smod_nonneg flip: s_def mi_def)
  ultimately show ?thesis
    by (simp add: valid_time_def millisecondsSinceEpochForTime_def ms_values)
qed

lemma int_div_less: "0 < b \<Longrightarrow> (a :: int) div b < c \<longleftrightarrow> a < c * b"
proof -
  assume b: "0 < b"
  have e: "a = a div b * b + a mod b" by simp
  have r: "0 \<le> a mod b" "a mod b < b" using b by simp_all
  show ?thesis
  proof
    assume "a div b < c"
    then have "(a div b + 1) * b \<le> c * b" using b by (intro mult_right_mono) simp_all
    then show "a < c * b" using e r unfolding distrib_right mult_1 by linarith
  next
    assume "a < c * b"
    then have "a div b * b < c * b" using e r by linarith
    then show "a div b < c" using b by simp
  qed
qed

lemma dateTime_roundtrip:
  "case setMillisecondsSinceEpochForDateTime (Some (of_int ms)) dc of (ok, dc') \<Rightarrow>
     ok = (-141427 * msPerDay \<le> ms) \<and> valid_date dc' \<and> valid_time dc' \<and>
     millisecondsSinceEpoch dc' = (if ok then Some ms else None)"
proof -
  have b: "ms div msPerDay < -141427 \<longleftrightarrow> ms < -141427 * msPerDay" by (simp add: int_div_less ms_values)
  have m: "ms div msPerDay * msPerDay + ms mod msPerDay = ms" by simp
  have d: "0 < msPerDay" by (simp add: ms_values)
  define t where "t = setMillisecondsSinceMidnightInternal (positiveFmod ms msPerDay) (dc\<lparr>m_type := Invalid\<rparr>)"
  have t: "valid_time t" "millisecondsSinceEpochForTime t = ms mod msPerDay" "m_type t = Invalid"
    using midnight_fields [of "ms mod msPerDay" "dc\<lparr>m_type := Invalid\<rparr>"] d
    by (simp_all add: t_def positiveFmod_eq) (simp add: setMillisecondsSinceMidnightInternal_def Let_def)
  define u where "u = setMillisecondsSinceEpochForDateInternal ms t"
  have u: "date_days u = ms div msPerDay" "valid_date u" "valid_time u"
      "millisecondsSinceEpochForTime u = ms mod msPerDay" "m_type u = Invalid"
    using fields_of_ms [of ms] t
    by (simp_all add: u_def setMillisecondsSinceEpochForDateInternal_def date_days_def valid_date_def Let_def
       valid_time_def millisecondsSinceEpochForTime_def)
  have g: "beforeGregorianStartDate (m_year u) (m_month u) (m_monthDay u) \<longleftrightarrow> ms < -141427 * msPerDay"
    using beforeGregorian_iff [of "m_year u" "m_month u" "m_monthDay u"] u b by (simp add: valid_date_def date_days_def)
  have "setMillisecondsSinceEpochForDateTime (Some (of_int ms)) dc =
      (if ms < -141427 * msPerDay then (False, u) else (True, u\<lparr>m_type := DateTime\<rparr>))"
    using g by (simp add: setMillisecondsSinceEpochForDateTime_def Let_def flip: t_def u_def)
  moreover have "millisecondsSinceEpoch u = None" using u by (simp add: millisecondsSinceEpoch_def)
  moreover have "millisecondsSinceEpoch (u\<lparr>m_type := DateTime\<rparr>) = Some ms" using u m
    by (simp add: millisecondsSinceEpoch_def millisecondsSinceEpochForTime_def date_days_def)
  ultimately show ?thesis using u by (simp add: valid_date_def valid_time_def)
qed

subsection \<open>Weeks\<close>

lemma mod7_sum:
  fixes h l :: int
  assumes "0 \<le> h" "0 \<le> l" "l < 100"
  shows "(37 + l + l div 4 + h div 4 + 5 * h + 6) mod 7 =
    (365 * (100 * h + l + 1) + (25 * h + l div 4) - h + h div 4 - 719527 + 4) mod 7"
proof -
  have "365 * (100 * h + l + 1) + (25 * h + l div 4) - h + h div 4 - 719527 + 4 =
      (37 + l + l div 4 + h div 4 + 5 * h + 6) + (5217 * h + 52 * l - 102743) * 7" by (simp add: algebra_simps)
  then show ?thesis by (simp only: mod_mult_self1)
qed

lemma new_year_weekday:
  assumes "1 \<le> yr"
  shows "dayOfWeek yr 0 1 = (daysFrom1970ToYear yr + 4) mod 7"
proof -
  define h l where "h = (yr - 1) div 100" and "l = (yr - 1) mod 100"
  have y: "yr - 1 = 100 * h + l" "0 \<le> h" "0 \<le> l" "l < 100"
    using assms by (simp_all add: h_def l_def pos_imp_zdiv_nonneg_iff)
  have q: "(yr - 1) div 4 = 25 * h + l div 4" "(yr - 1) div 400 = h div 4"
  proof -
    have "(yr - 1) div 4 = (l + (25 * h) * 4) div 4" by (simp add: y(1))
    then show "(yr - 1) div 4 = 25 * h + l div 4" by (simp only: div_mult_self1)
    have "(yr - 1) div 400 = (yr - 1) div 100 div 4" by (simp flip: zdiv_zmult2_eq)
    then show "(yr - 1) div 400 = h div 4" by (simp only: h_def)
  qed
  have e: "yr = 100 * h + l + 1" using y(1) by simp
  have s: "(yr - 1) sdiv 100 = h" "(yr - 1) smod 100 = l" "l sdiv 4 = l div 4" "h sdiv 4 = h div 4"
    using y assms by (simp_all add: sdiv_eq smod_nonneg h_def l_def)
  have z: "0 \<le> 37 + l + l div 4 + h div 4 + 5 * h + 6" using y by (simp add: pos_imp_zdiv_nonneg_iff)
  have "dayOfWeek yr 0 1 = (37 + l + l div 4 + h div 4 + 5 * h + 6) smod 7"
    using s by (simp add: dayOfWeek_def Let_def signed_divide_int_def [of 182])
  also have "\<dots> = (37 + l + l div 4 + h div 4 + 5 * h + 6) mod 7" using z by (rule smod_nonneg) simp
  also have "\<dots> = (daysFrom1970ToYear yr + 4) mod 7"
    unfolding daysFrom1970_eq q h_def [symmetric] mod7_sum [OF y(2-4)] using e by simp
  finally show ?thesis .
qed

definition weekStart :: "int \<Rightarrow> int" where
  "weekStart yr = daysFrom1970ToYear yr + offsetTo1stWeekStart yr"

lemma offset_bounds: "1 \<le> yr \<Longrightarrow> -3 \<le> offsetTo1stWeekStart yr \<and> offsetTo1stWeekStart yr \<le> 3"
  using new_year_weekday [of yr] pos_mod_bound [of 7 "daysFrom1970ToYear yr + 4"] pos_mod_sign [of 7 "daysFrom1970ToYear yr + 4"]
  by (auto simp: offsetTo1stWeekStart_def Let_def)

text \<open>Every week starts on a Monday, and a year has exactly its number of weeks.\<close>

lemma weekStart_monday: "1 \<le> yr \<Longrightarrow> (weekStart yr + 4) mod 7 = 1"
proof -
  assume y: "1 \<le> yr"
  define d where "d = daysFrom1970ToYear yr + 4"
  have "weekStart yr + 4 = d + (1 - d mod 7) + (if 1 - d mod 7 \<le> -4 then 7 else 0)"
    using new_year_weekday [OF y] by (simp add: weekStart_def offsetTo1stWeekStart_def d_def)
  moreover have "d + (1 - d mod 7) = 1 + d div 7 * 7" using div_mult_mod_eq [of d 7] by linarith
  ultimately have "weekStart yr + 4 = 1 + (d div 7 + (if 1 - d mod 7 \<le> -4 then 1 else 0)) * 7"
    by (simp add: distrib_right)
  then show ?thesis by (simp only: mod_mult_self1) simp
qed

lemma weeks_finite:
  "0 \<le> d \<Longrightarrow> d < 7 \<Longrightarrow>
   (let e = (d + 365 + l) mod 7; off = \<lambda>d. if 1 - d \<le> -4 then 1 - d + 7 else 1 - d in
    l = 0 \<or> l = 1 \<longrightarrow> 365 + l + off e = off d + 7 * (if d = 4 \<or> d = 3 \<and> l = 1 then 53 else (52 :: int)))"
proof -
  assume "0 \<le> d" "d < 7"
  then have "d = 0 \<or> d = 1 \<or> d = 2 \<or> d = 3 \<or> d = 4 \<or> d = 5 \<or> d = 6" by presburger
  then show ?thesis by (elim disjE) (auto simp: Let_def)
qed

lemma weekStart_next:
  assumes "1 \<le> yr" "m_year dc = yr"
  shows "weekStart (yr + 1) = weekStart yr + 7 * maxWeekNumberInYear dc"
proof -
  define l :: int where "l = (if isLeapYear yr then 1 else 0)"
  have n: "daysFrom1970ToYear (yr + 1) = daysFrom1970ToYear yr + 365 + l" by (simp add: next_year daysInYear_def l_def)
  have "dayOfWeek (yr + 1) 0 1 = (dayOfWeek yr 0 1 + 365 + l) mod 7"
    using new_year_weekday [of yr] new_year_weekday [of "yr + 1"] assms(1)
    by (simp add: n mod_simps add.assoc)
  moreover have "0 \<le> dayOfWeek yr 0 1" "dayOfWeek yr 0 1 < 7" using new_year_weekday [OF assms(1)] by simp_all
  moreover note n
  ultimately show ?thesis
    using weeks_finite [of "dayOfWeek yr 0 1" l] assms(2)
    by (simp add: weekStart_def offsetTo1stWeekStart_def maxWeekNumberInYear_def isLeap_eq l_def Let_def split: if_splits)
qed

lemma week_ms:
  "m_type dc = Week \<Longrightarrow> millisecondsSinceEpoch dc = Some ((weekStart (m_year dc) + (m_week dc - 1) * 7) * msPerDay)"
  by (simp add: millisecondsSinceEpoch_def weekStart_def dateToDays_normal monthToDayInYear_0)

definition in_week :: "DateComponents \<Rightarrow> int \<Rightarrow> bool" where
  "in_week dc ms \<longleftrightarrow> m_type dc = Week \<and> 1 \<le> m_year dc \<and> 1 \<le> m_week dc \<and> m_week dc \<le> maxWeekNumberInYear dc \<and>
     weekStart (m_year dc) + (m_week dc - 1) * 7 \<le> ms div msPerDay \<and>
     ms div msPerDay < weekStart (m_year dc) + (m_week dc - 1) * 7 + 7"

lemma maxWeek_pos: "1 \<le> maxWeekNumberInYear dc"
  by (simp add: maxWeekNumberInYear_def Let_def)

lemma forWeek_spec:
  "case setMillisecondsSinceEpochForWeek (Some (of_int ms)) dc of (ok, dc') \<Rightarrow>
     ok = (weekStart 1583 \<le> ms div msPerDay) \<and> (ok \<longrightarrow> in_week dc' ms)"
proof -
  define y where "y = msToYear ms"
  define d where "d = dayInYear ms y"
  define o1 where "o1 = offsetTo1stWeekStart y"
  have md: "ms div msPerDay = daysFrom1970ToYear y + d" by (simp add: d_def dayInYear_def msToDays_def)
  have yd: "0 \<le> d" "d < daysInYear y" using year_day [of ms] by (auto simp: d_def y_def daysInYear_def)
  have s: "daysFrom1970ToYear 1583 = -141349" by (simp add: daysFrom1970_eq)
  have o3: "offsetTo1stWeekStart 1583 = 2" using new_year_weekday [of 1583] s by (simp add: offsetTo1stWeekStart_def)
  have w3: "weekStart 1583 = -141347" by (simp add: weekStart_def s o3)
  have wy: "weekStart y = daysFrom1970ToYear y + o1" by (simp add: weekStart_def o1_def)
  show ?thesis
  proof (cases "y \<le> 1582")
    case True
    have "daysFrom1970ToYear (y + 1) \<le> -141349" using daysFrom1970_mono [of "y + 1" 1583] True s by simp
    then have "ms div msPerDay < -141349" using md yd by (simp add: next_year)
    then show ?thesis using True
      by (simp add: setMillisecondsSinceEpochForWeek_def Let_def gregorian_defs w3 flip: y_def)
  next
    case False
    then have y1: "1583 \<le> y" "1 \<le> y" "1 \<le> y - 1" "1 \<le> y + 1" by auto
    note ob = offset_bounds [OF y1(2), folded o1_def]
    have later: "weekStart 1583 \<le> daysFrom1970ToYear y" if "y \<noteq> 1583"
      using daysFrom1970_mono [of 1584 y] y1 that s daysFrom1970_strict [of 1583] by (simp add: w3)
    show ?thesis
    proof (cases "d < o1")
      case True
      have n: "weekStart y = weekStart (y - 1) + 7 * maxWeekNumberInYear (dc\<lparr>m_type := Invalid, m_year := y - 1\<rparr>)"
        using weekStart_next [of "y - 1" "dc\<lparr>m_type := Invalid, m_year := y - 1\<rparr>"] y1 by simp
      have r: "setMillisecondsSinceEpochForWeek (Some (of_int ms)) dc =
        (if y = 1583 then (False, dc\<lparr>m_type := Invalid, m_year := 1582\<rparr>)
         else (True, dc\<lparr>m_type := Week, m_year := y - 1,
           m_week := maxWeekNumberInYear (dc\<lparr>m_type := Invalid, m_year := y - 1\<rparr>)\<rparr>))"
        using True y1 by (simp add: setMillisecondsSinceEpochForWeek_def Let_def gregorian_defs flip: y_def d_def o1_def)
      show ?thesis
      proof (cases "y = 1583")
        case 1: True
        then have "ms div msPerDay < weekStart 1583" using True md wy by simp
        then show ?thesis using 1 r by simp
      next
        case 2: False
        have m: "1 \<le> maxWeekNumberInYear (dc\<lparr>m_type := Invalid, m_year := y - 1\<rparr>)"
          by (rule maxWeek_pos)
        have mm: "maxWeekNumberInYear (dc\<lparr>m_type := t, m_year := y - 1, m_week := w\<rparr>) =
          maxWeekNumberInYear (dc\<lparr>m_type := Invalid, m_year := y - 1\<rparr>)" for t w by (simp add: maxWeekNumberInYear_def)
        show ?thesis using 2 r True md n wy yd ob later m y1 mm by (auto simp: in_week_def)
      qed
    next
      case ge: False
      let ?w = "(d - o1) div 7 + 1"
      have sd: "(d - o1) sdiv 7 = (d - o1) div 7" using ge by (simp add: sdiv_eq smod_nonneg)
      have w1: "0 \<le> (d - o1) div 7" using ge by (simp add: pos_imp_zdiv_nonneg_iff)
      have dm: "(d - o1) div 7 * 7 + (d - o1) mod 7 = d - o1" by (rule div_mult_mod_eq)
      have "0 \<le> (d - o1) mod 7" "(d - o1) mod 7 < 7" by simp_all
      then have mb: "o1 + (d - o1) div 7 * 7 \<le> d" "d < o1 + (d - o1) div 7 * 7 + 7" using dm by linarith+
      let ?M = "maxWeekNumberInYear (dc\<lparr>m_year := y\<rparr>)"
      have mm: "maxWeekNumberInYear (dc\<lparr>m_type := t, m_year := y, m_week := w\<rparr>) = ?M" for t w
        by (simp add: maxWeekNumberInYear_def)
      have r: "setMillisecondsSinceEpochForWeek (Some (of_int ms)) dc =
        (True, if ?M < ?w then dc\<lparr>m_type := Week, m_year := y + 1, m_week := 1\<rparr>
               else dc\<lparr>m_type := Week, m_year := y, m_week := ?w\<rparr>)"
        using ge y1 by (simp add: setMillisecondsSinceEpochForWeek_def Let_def gregorian_defs sd mm flip: y_def d_def o1_def)
      have n: "weekStart (y + 1) = weekStart y + 7 * ?M" using weekStart_next [of y "dc\<lparr>m_year := y\<rparr>"] y1 by simp
      have ok: "weekStart 1583 \<le> ms div msPerDay" using ge md wy yd later w3 by (cases "y = 1583") auto
      have "in_week (if ?M < ?w then dc\<lparr>m_type := Week, m_year := y + 1, m_week := 1\<rparr>
               else dc\<lparr>m_type := Week, m_year := y, m_week := ?w\<rparr>) ms"
      proof (cases "?M < ?w")
        case True
        have "1 \<le> maxWeekNumberInYear (dc\<lparr>m_type := Week, m_year := y + 1, m_week := 1\<rparr>)"
          by (rule maxWeek_pos)
        moreover have "ms div msPerDay < weekStart (y + 1) + 7"
          using md yd offset_bounds [OF y1(4)] by (simp add: weekStart_def next_year)
        moreover have "weekStart (y + 1) \<le> ms div msPerDay" using True n md wy mb by simp
        ultimately show ?thesis using True y1 by (simp add: in_week_def)
      next
        case False
        then show ?thesis using y1 w1 md wy mb mm by (simp add: in_week_def)
      qed
      then show ?thesis using r ok by simp
    qed
  qed
qed

subsection \<open>Print and parse\<close>

lemma isASCIIDigit_iff: "isASCIIDigit = is_digit"
  by (simp add: fun_eq_iff isASCIIDigit_def is_digit_def word_le_nat_alt)

lemma toIntLoop_spec:
  "list_all is_digit s \<Longrightarrow> dec_value i s \<le> 2147483647 \<Longrightarrow> toIntLoop s (int i) = Some (int (dec_value i s))"
proof (induction s arbitrary: i)
  case (Cons c s)
  have c: "is_digit c" "list_all is_digit s" using Cons.prems by auto
  have u: "uint c - 0x30 = int (unat c - 0x30)" using c by (simp add: is_digit_def of_nat_diff)
  have le: "i * 10 + (unat c - 0x30) \<le> 2147483647"
    using dec_value_mono [of "i * 10 + (unat c - 0x30)" s] Cons.prems by simp
  define d where "d = unat c - 0x30"
  have "\<not> (2147483647 - int d) div 10 < int i" using le by (simp add: int_div_less d_def)
  then show ?case using Cons.IH [of "i * 10 + d"] c Cons.prems
    by (simp add: isASCIIDigit_iff u Let_def mult.commute flip: d_def)
qed simp

lemma dec_value_zeros: "dec_value 0 (replicate n 0x30 @ s) = dec_value 0 s"
  by (induction n) simp_all

lemma formatInt_spec:
  assumes "0 \<le> v"
  shows "list_all is_digit (formatInt w v) \<and> dec_value 0 (formatInt w v) = nat v \<and> w \<le> length (formatInt w v)"
proof -
  have "list_all is_digit (replicate n 0x30)" for n by (simp add: list_all_length is_digit_def)
  then show ?thesis using assms fromDigits_spec [of "nat v"]
    by (auto simp: formatInt_def Let_def dec_value_zeros is_digit_def [of "0x30"])
qed

lemma formatInt_length:
  assumes "0 \<le> v" "v < 10 ^ w" "0 < w"
  shows "length (formatInt w v) = w"
proof -
  have "nat v < 10 ^ w" using assms by (simp add: nat_less_iff)
  then have "length (if v = 0 then [0x30 :: uchar] else fromDigits (nat v) []) \<le> w"
    using length_fromDigits [of w "nat v"] assms by auto
  then show ?thesis using assms by (auto simp: formatInt_def Let_def)
qed

lemma toIntLoop_format:
  "0 \<le> v \<Longrightarrow> v \<le> 2147483647 \<Longrightarrow> toIntLoop (formatInt w v) 0 = Some v"
  using toIntLoop_spec [of "formatInt w v" 0] formatInt_spec [of v] by simp

lemma two_digits:
  assumes "0 \<le> v" "v < 100"
  obtains a b where "formatInt 2 v = [a, b]" "toIntLoop [a, b] 0 = Some v" "isASCIIDigit a" "isASCIIDigit b"
proof -
  have l: "length (formatInt 2 v) = 2" using formatInt_length [of v 2] assms by simp
  obtain a b where ab: "formatInt 2 v = [a, b]" using l by (auto simp: numeral_2_eq_2 length_Suc_conv)
  then show ?thesis using that [of a b] toIntLoop_format [of v 2] formatInt_spec [of v 2] assms
    by (simp add: isASCIIDigit_iff del: toIntLoop.simps)
qed

lemma three_digits:
  assumes "0 \<le> v" "v < 1000"
  obtains a b c where "formatInt 3 v = [a, b, c]" "toIntLoop [a, b, c] 0 = Some v"
    "isASCIIDigit a" "isASCIIDigit b" "isASCIIDigit c"
proof -
  have l: "length (formatInt 3 v) = 3" using formatInt_length [of v 3] assms by simp
  obtain a b c where ab: "formatInt 3 v = [a, b, c]" using l by (auto simp: numeral_3_eq_3 length_Suc_conv)
  then show ?thesis using that [of a b c] toIntLoop_format [of v 3] formatInt_spec [of v 3] assms
    by (simp add: isASCIIDigit_iff del: toIntLoop.simps)
qed

text \<open>Reading behind a prefix.\<close>

lemma toInt_shift: "toInt (y @ r) (length y + k) n = toInt r k n"
  by (simp add: toInt_def)

lemma countDigits_shift: "countDigits (y @ r) (length y + k) = countDigits r k"
  by (simp add: countDigits_def)

lemma countDigits_format:
  assumes "0 \<le> v" "r = [] \<or> \<not> isASCIIDigit (hd r)"
  shows "countDigits (formatInt w v @ r) 0 = length (formatInt w v)"
proof -
  have "\<forall>c\<in>set (formatInt w v). isASCIIDigit c"
    using formatInt_spec [OF assms(1)] by (simp add: isASCIIDigit_iff list_all_iff)
  moreover have "takeWhile isASCIIDigit r = []" using assms(2) by (cases r) auto
  ultimately show ?thesis by (simp add: countDigits_def takeWhile_append)
qed

definition shiftEnd :: "nat \<Rightarrow> DateComponents \<times> nat option \<Rightarrow> DateComponents \<times> nat option" where
  "shiftEnd n r = (fst r, map_option ((+) n) (snd r))"

lemma parse_indices:
  "(n :: nat) + 2 + 1 = n + 3" "n + 3 + 2 = n + 5" "n + 5 + 2 = n + 7" "n + 5 + 1 = n + 6" "n + 3 + 3 = n + 6" "n + 5 + 3 = n + 8"
  by simp_all

lemma parseFraction_shift:
  "parseFraction (y @ r) (length y + j) = (case parseFraction r j of (ms, i) \<Rightarrow> (ms, length y + i))"
  using countDigits_shift [of y r "j + 1"] toInt_shift [of y r "j + 1"]
  by (simp add: parseFraction_def Let_def nth_append_length_plus add.assoc [symmetric])

lemma parseTime_shift: "parseTime (y @ r) (length y + k) dc = shiftEnd (length y) (parseTime r k dc)"
proof -
  define s n where "s = y @ r" and "n = length y + k"
  have 1: "toInt s n 2 = toInt r k 2" "toInt s (n + j) 2 = toInt r (k + j) 2" for j
    using toInt_shift [of y r k 2] toInt_shift [of y r "k + j" 2] by (simp_all add: s_def n_def add.assoc)
  have 2: "s ! (n + j) = r ! (k + j)" "length s \<le> n + j \<longleftrightarrow> length r \<le> k + j" "n + j < length s \<longleftrightarrow> k + j < length r" for j
    using nth_append_length_plus [of y r "k + j"] by (simp_all add: s_def n_def add.assoc)
  have 3: "parseFraction s (n + j) = (case parseFraction r (k + j) of (ms, i) \<Rightarrow> (ms, length y + i))" for j
    using parseFraction_shift [of y r "k + j"] by (simp add: s_def n_def add.assoc)
  have 4: "n + j = length y + (k + j)" for j by (simp add: n_def)
  show ?thesis
    unfolding s_def [symmetric] n_def [symmetric] parseTime_def Let_def parse_indices 1 2 3
    by (cases "toInt r k 2"; cases "toInt r (k + 3) 2"; cases "toInt r (k + 6) 2"; cases "parseFraction r (k + 8)";
      simp add: shiftEnd_def 4)
qed

lemma parseTime_toString:
  assumes "valid_time dc" "r = [] \<or> r = [0x5A]"
  shows "parseTime (toStringForTime f dc @ r) 0 dc0 =
    (dc0\<lparr>m_hour := m_hour dc, m_minute := m_minute dc, m_second := m_second dc, m_millisecond := m_millisecond dc, m_type := Time\<rparr>,
     Some (length (toStringForTime f dc)))"
proof -
  have v: "0 \<le> m_hour dc" "m_hour dc < 24" "0 \<le> m_minute dc" "m_minute dc < 60" "0 \<le> m_second dc" "m_second dc < 60"
    "0 \<le> m_millisecond dc" "m_millisecond dc < 1000" using assms by (auto simp: valid_time_def)
  obtain h1 h2 where h: "formatInt 2 (m_hour dc) = [h1, h2]" "toIntLoop [h1, h2] 0 = Some (m_hour dc)"
    using v by (auto intro: two_digits [of "m_hour dc"] simp del: toIntLoop.simps)
  obtain m1 m2 where m: "formatInt 2 (m_minute dc) = [m1, m2]" "toIntLoop [m1, m2] 0 = Some (m_minute dc)"
    using v by (auto intro: two_digits [of "m_minute dc"] simp del: toIntLoop.simps)
  obtain s1 s2 where s: "formatInt 2 (m_second dc) = [s1, s2]" "toIntLoop [s1, s2] 0 = Some (m_second dc)"
    using v by (auto intro: two_digits [of "m_second dc"] simp del: toIntLoop.simps)
  obtain x1 x2 x3 where x: "formatInt 3 (m_millisecond dc) = [x1, x2, x3]" "toIntLoop [x1, x2, x3] 0 = Some (m_millisecond dc)"
     "isASCIIDigit x1" "isASCIIDigit x2" "isASCIIDigit x3"
    using v by (auto intro: three_digits [of "m_millisecond dc"] simp del: toIntLoop.simps)
  have z: "\<not> isASCIIDigit 0x5A" by (simp add: isASCIIDigit_def)
  consider "m_millisecond dc \<noteq> 0 \<or> f = Milliseconds" | "m_millisecond dc = 0" "f = Seconds \<or> f = NoSeconds \<and> m_second dc \<noteq> 0"
    | "m_millisecond dc = 0" "f = NoSeconds" "m_second dc = 0" by (cases f) auto
  then show ?thesis
  proof cases
    case 1
    then have t: "toStringForTime f dc = [h1, h2, 0x3A, m1, m2, 0x3A, s1, s2, 0x2E, x1, x2, x3]"
      using h m s x by (auto simp: toStringForTime_def)
    have "parseFraction ([h1, h2, 0x3A, m1, m2, 0x3A, s1, s2, 0x2E, x1, x2, x3] @ r) 8 = (m_millisecond dc, 12)"
      using x z assms(2) by (auto simp: parseFraction_def countDigits_def toInt_def)
    then show ?thesis unfolding t using h m s v
      by (simp add: parseTime_def toInt_def)
  next
    case 2
    then have t: "toStringForTime f dc = [h1, h2, 0x3A, m1, m2, 0x3A, s1, s2]"
      using h m s x by (auto simp: toStringForTime_def)
    have "parseFraction ([h1, h2, 0x3A, m1, m2, 0x3A, s1, s2] @ r) 8 = (0, 8)"
      using assms(2) by (auto simp: parseFraction_def)
    then show ?thesis unfolding t using h m s v 2
      by (simp add: parseTime_def toInt_def)
  next
    case 3
    then have t: "toStringForTime f dc = [h1, h2, 0x3A, m1, m2]"
      using h m s x by (auto simp: toStringForTime_def)
    then show ?thesis unfolding t using h m v 3 assms(2)
      by (auto simp: parseTime_def toInt_def)
  qed
qed

definition printable :: "DateComponents \<Rightarrow> bool" where
  "printable dc \<longleftrightarrow> valid_date dc \<and> valid_time dc \<and> m_year dc \<le> 2147483647 \<and>
     \<not> beforeGregorianStartDate (m_year dc) (m_month dc) (m_monthDay dc)"

lemma parseDate_toString:
  assumes "printable dc" "0 < length r"
  shows "parseDate (toStringForDate dc @ r) 0 dc0 =
    (dc0\<lparr>m_year := m_year dc, m_month := m_month dc, m_monthDay := m_monthDay dc, m_type := Date\<rparr>,
     Some (length (toStringForDate dc)))"
proof -
  have v: "0 \<le> m_month dc" "m_month dc < 12" "1 \<le> m_monthDay dc" "m_monthDay dc \<le> maxDayOfMonth (m_year dc) (m_month dc)"
    "1582 \<le> m_year dc" "m_year dc \<le> 2147483647" "\<not> beforeGregorianStartDate (m_year dc) (m_month dc) (m_monthDay dc)"
    using assms by (auto simp: printable_def valid_date_def valid_ymd_def beforeGregorianStartDate_def gregorian_defs)
  have day: "m_monthDay dc \<le> 31" using v by (simp add: maxDayOfMonth_eq monthLength_def split: if_splits)
  obtain a b where m: "formatInt 2 (m_month dc + 1) = [a, b]" "toIntLoop [a, b] 0 = Some (m_month dc + 1)"
    using v by (auto intro: two_digits [of "m_month dc + 1"] simp del: toIntLoop.simps)
  obtain c d where d: "formatInt 2 (m_monthDay dc) = [c, d]" "toIntLoop [c, d] 0 = Some (m_monthDay dc)"
    using v day by (auto intro: two_digits [of "m_monthDay dc"] simp del: toIntLoop.simps)
  define y q where "y = formatInt 4 (m_year dc)" and "q = 0x2D # a # b # 0x2D # c # d # r"
  have t: "toStringForDate dc @ r = y @ q" "length (toStringForDate dc) = length y + 6"
    by (simp_all add: toStringForDate_def m d y_def q_def)
  have "countDigits (y @ q) 0 = length y"
    unfolding y_def by (rule countDigits_format) (use v in \<open>simp_all add: q_def isASCIIDigit_def\<close>)
  moreover have "toInt (y @ q) 0 (length y) = Some (m_year dc)" "4 \<le> length y"
    using toIntLoop_format [of "m_year dc" 4] formatInt_spec [of "m_year dc" 4] v by (auto simp: toInt_def y_def)
  ultimately have py: "parseYear (y @ q) 0 dc0 = (dc0\<lparr>m_year := m_year dc\<rparr>, Some (length y))"
    using v by (simp add: parseYear_def gregorian_defs)
  have ix: "(y @ q) ! length y = 0x2D" "(y @ q) ! (length y + 3) = 0x2D" "length (y @ q) = length y + 6 + length r"
    by (simp_all add: q_def nth_append)
  have ti: "toInt (y @ q) (length y + 1) 2 = Some (m_month dc + 1)" "toInt (y @ q) (length y + 3 + 1) 2 = Some (m_monthDay dc)"
    using m d by (simp_all only: add.assoc toInt_shift) (simp_all add: q_def toInt_def)
  then have ti': "toInt (y @ q) (Suc (length y)) 2 = Some (m_month dc + 1)" "toInt (y @ q) (length y + 4) 2 = Some (m_monthDay dc)"
    and ti'': "toInt (y @ q) (4 + length y) 2 = Some (m_monthDay dc)"
    by (simp_all add: add.commute)
  have "\<not> beforeGregorianStartDate (m_year dc) (m_month dc) 15" "\<not> (m_year dc = 1582 \<and> m_month dc = 9 \<and> m_monthDay dc < 15)"
    using v by (auto simp: beforeGregorianStartDate_def gregorian_defs)
  then have pm: "parseMonth (y @ q) 0 dc0 = (dc0\<lparr>m_year := m_year dc, m_month := m_month dc, m_type := Month\<rparr>, Some (length y + 3))"
    using v by (simp add: parseMonth_def py ix(1,3) ti' gregorian_defs Let_def del: add_2_eq_Suc' length_append) 
  have e: "length y + 3 + 2 = length y + 5" "length y + 3 + 1 = length y + 4" "length y + 4 + 2 = length y + 6" by simp_all
  show ?thesis unfolding t
    using v assms(2) ix(2) ti' ix(3) \<open>\<not> (m_year dc = 1582 \<and> m_month dc = 9 \<and> m_monthDay dc < 15)\<close>
    by (simp add: parseDate_def pm gregorian_defs Let_def e ti'' del: length_append)
qed

lemma toString_DateTime:
  "m_type dc = DateTime \<Longrightarrow> toString f dc = toStringForDate dc @ 0x54 # toStringForTime f dc @ [0x5A]"
  by (simp add: toString_def)

lemma parse_date_time:
  assumes "printable dc" "r = [] \<or> r = [0x5A]"
  shows "parseDate (toStringForDate dc @ 0x54 # toStringForTime f dc @ r) 0 dc0 =
      (dc0\<lparr>m_year := m_year dc, m_month := m_month dc, m_monthDay := m_monthDay dc, m_type := Date\<rparr>,
       Some (length (toStringForDate dc)))"
    "parseTime (toStringForDate dc @ 0x54 # toStringForTime f dc @ r) (Suc (length (toStringForDate dc))) dc0 =
      (dc0\<lparr>m_hour := m_hour dc, m_minute := m_minute dc, m_second := m_second dc, m_millisecond := m_millisecond dc, m_type := Time\<rparr>,
       Some (length (toStringForDate dc) + 1 + length (toStringForTime f dc)))"
  using parseDate_toString [OF assms(1), of "0x54 # toStringForTime f dc @ r"]
    parseTime_toString [OF _ assms(2), of dc f dc0] assms(1)
    parseTime_shift [of "toStringForDate dc @ [0x54]" "toStringForTime f dc @ r" 0 dc0]
  by (simp_all add: printable_def shiftEnd_def)

text \<open>
  parsing the printed form of a local date and time, in any of the three second
  formats, consumes all of it and gives the object back, whatever number of digits the
  year has.
\<close>

theorem parseDateTimeLocal_toString:
  assumes "printable dc" "m_type dc = DateTimeLocal" "m_week dc = 0"
  shows "parseDateTimeLocal (toString f dc) 0 newDateComponents = (dc, Some (length (toString f dc)))"
  using parse_date_time [OF assms(1), of "[]" f] assms(2,3)
  by (simp add: parseDateTimeLocal_def toString_def newDateComponents_def)

text \<open>
  C37: parsing the printed form of a UTC date and time, with its Z, consumes all of it
  and gives the object back.
\<close>

theorem parseDateTime_toString:
  assumes "printable dc" "m_type dc = DateTime" "m_week dc = 0"
  shows "parseDateTime (toString f dc) 0 newDateComponents = (dc, Some (length (toString f dc)))"
proof -
  have "parseTimeZone (toStringForDate dc @ 0x54 # toStringForTime f dc @ [0x5A])
      (length (toStringForDate dc) + 1 + length (toStringForTime f dc)) x =
      (x, Some (length (toStringForDate dc) + 1 + length (toStringForTime f dc) + 1))" for x
    by (simp add: parseTimeZone_def nth_append)
  then show ?thesis using parse_date_time [OF assms(1), of "[0x5A]" f] assms(2,3)
    by (simp add: parseDateTime_def toString_def newDateComponents_def)
qed

definition epochDate :: "int \<Rightarrow> int \<Rightarrow> int \<Rightarrow> DateType \<Rightarrow> DateComponents" where
  "epochDate yr mon day t = newDateComponents\<lparr>m_year := yr, m_month := mon, m_monthDay := day, m_hour := 12, m_type := t\<rparr>"

lemma epochDate_printable: "printable (epochDate 2000 1 29 t)"
  by (simp add: printable_def epochDate_def newDateComponents_def valid_date_def valid_ymd_def valid_time_def
      maxDayOfMonth_def isLeap_eq isLeapYear_iff beforeGregorianStartDate_def gregorian_defs)

lemma parseDateTime_toString_witness:
  "parseDateTime (toString Milliseconds (epochDate 2000 1 29 DateTime)) 0 newDateComponents =
    (epochDate 2000 1 29 DateTime, Some (length (toString Milliseconds (epochDate 2000 1 29 DateTime))))"
  by (rule parseDateTime_toString [OF epochDate_printable]) (simp_all add: epochDate_def newDateComponents_def)

text \<open>
  setting a date and time from milliseconds gives valid fields whose milliseconds
  since the epoch are the argument again, and is refused exactly before 15 October 1582.
\<close>

theorem setMillisecondsSinceEpochForDateTime_roundtrip:
  "case setMillisecondsSinceEpochForDateTime (Some (of_int ms)) dc of (ok, dc') \<Rightarrow>
     ok = (-141427 * msPerDay \<le> ms) \<and> valid_date dc' \<and> valid_time dc' \<and>
     millisecondsSinceEpoch dc' = (if ok then Some ms else None)"
  by (rule dateTime_roundtrip)

lemma weekStart_1583: "weekStart 1583 = -141347"
proof -
  have s: "daysFrom1970ToYear 1583 = -141349" by (simp add: daysFrom1970_eq)
  then show ?thesis using new_year_weekday [of 1583] by (simp add: weekStart_def offsetTo1stWeekStart_def)
qed

lemma in_week_ms:
  assumes "in_week dc ms"
  obtains s where "millisecondsSinceEpoch dc = Some s" "s \<le> ms" "ms < s + 7 * msPerDay" "msToWeekDay s = 1"
proof -
  define d where "d = weekStart (m_year dc) + (m_week dc - 1) * 7"
  have w: "m_type dc = Week" "1 \<le> m_year dc" "d \<le> ms div msPerDay" "ms div msPerDay < d + 7"
    using assms by (auto simp: in_week_def d_def)
  have "\<not> ms < d * msPerDay" "ms < (d + 7) * msPerDay"
    using w int_div_less [of msPerDay ms d] int_div_less [of msPerDay ms "d + 7"] by (simp_all add: ms_values)
  moreover have "msToWeekDay (d * msPerDay) = (d + 4) mod 7" by (simp add: time_fields(4) ms_values)
  moreover have "d + 4 = weekStart (m_year dc) + 4 + (m_week dc - 1) * 7" by (simp add: d_def)
  then have "(d + 4) mod 7 = 1" using weekStart_monday [OF w(2)] by (simp only: mod_mult_self1)
  ultimately show ?thesis using that [of "d * msPerDay"] week_ms [OF w(1), folded d_def] by (simp add: distrib_right)
qed

text \<open>
  setting a week from milliseconds gives a week number that its year has, whose
  first day is a Monday at most seven days before the argument; it is refused exactly
  before the first week of 1583.
\<close>

theorem setMillisecondsSinceEpochForWeek_correct:
  "case setMillisecondsSinceEpochForWeek (Some (of_int ms)) dc of (ok, dc') \<Rightarrow>
     if -141347 * msPerDay \<le> ms
     then ok \<and> 1 \<le> m_week dc' \<and> m_week dc' \<le> maxWeekNumberInYear dc' \<and>
       (case millisecondsSinceEpoch dc' of None \<Rightarrow> False
        | Some s \<Rightarrow> s \<le> ms \<and> ms < s + 7 * msPerDay \<and> msToWeekDay s = 1)
     else \<not> ok"
proof -
  obtain ok dc' where r: "setMillisecondsSinceEpochForWeek (Some (of_int ms)) dc = (ok, dc')" by (cases "setMillisecondsSinceEpochForWeek (Some (of_int ms)) dc")
  have ok: "ok = (weekStart 1583 \<le> ms div msPerDay)" "ok \<Longrightarrow> in_week dc' ms" using forWeek_spec [of ms dc] r by auto
  have iff: "ok \<longleftrightarrow> -141347 * msPerDay \<le> ms"
    using ok(1) int_div_less [of msPerDay ms "-141347"] by (simp add: weekStart_1583 ms_values linorder_not_less [symmetric])
  show ?thesis
  proof (cases ok)
    case True
    note w = ok(2) [OF True]
    obtain s where "millisecondsSinceEpoch dc' = Some s" "s \<le> ms" "ms < s + 7 * msPerDay" "msToWeekDay s = 1"
      using in_week_ms [OF w] by blast
    then show ?thesis using True iff w by (simp add: r in_week_def)
  next
    case False
    then show ?thesis using iff by (simp add: r)
  qed
qed

lemma addMinute_total_witness:
  "total_minutes (snd (addMinute 780 (epochDate 2000 1 29 DateTime))) = total_minutes (epochDate 2000 1 29 DateTime) + 780"
proof -
  have "\<exists>dc'. addMinute 780 (epochDate 2000 1 29 DateTime) = (True, dc')"
    by (simp add: addMinute_def addMinuteCarry_def epochDate_def newDateComponents_def addDay_def maxDayOfMonth_def isLeap_eq
       isLeapYear_iff signed_divide_int_def smod_int_alt_def Let_def numeral_eq_Suc)
  then obtain dc' where "addMinute 780 (epochDate 2000 1 29 DateTime) = (True, dc')" by blast
  then show ?thesis using addMinute_total [of "epochDate 2000 1 29 DateTime" 780 dc'] epochDate_printable [of DateTime]
    by (simp add: printable_def) (simp add: epochDate_def newDateComponents_def)
qed

text \<open>
  addMinute tests the member m_minute where it means the sum, so a time zone offset
  ahead of UTC leaves a negative minute in the object, which then prints in a form that
  no parser accepts.
\<close>

theorem parse_offset_prints_negative:
  "case parseDateTime (ustr ''1970-01-01T00:00+09:00'') 0 newDateComponents of (dc, n) \<Rightarrow>
     n = Some 22 \<and> m_minute dc = -540 \<and> toString NoSeconds dc = ustr ''1970-01-01T00:-540Z'' \<and>
     snd (parseDateTime (toString NoSeconds dc) 0 newDateComponents) = None"
  by code_simp

end
