(* ===== verification/PageCache.thy ===== *)
theory PageCache
  imports Prelude Complex_Main
begin

section \<open>The cache of suspended pages (WebCore/history/PageCache.cpp)\<close>

text \<open>
  The history items form a doubly linked list through their own m_next and m_prev, most
  recently added first. Items and cached pages are addresses; the fields of HistoryItem
  that the cache and the back/forward list use are a store from items to nodes
  (m_stateObject only tells whether there is one). Null is \<open>None\<close>. The calls that
  leave the component when pages are released are recorded in order.
\<close>

type_synonym item = nat
type_synonym cachedPage = nat

record HistoryItem =
  m_next :: "item option"
  m_prev :: "item option"
  m_cachedPage :: "cachedPage option"
  refCount :: int
  m_stateObject :: bool

datatype release_event = SetPruneEnabled bool | DestroyPages "cachedPage set" | PruneCache

record PageCache =
  m_capacity :: int
  m_size :: int
  m_head :: "item option"
  m_tail :: "item option"
  m_autoreleaseSet :: "cachedPage set"
  timerActive :: bool
  items :: "item \<Rightarrow> HistoryItem"
  releaseEvents :: "release_event list"

definition newPageCache :: "(item \<Rightarrow> HistoryItem) \<Rightarrow> PageCache" where
  "newPageCache store =
     \<lparr>m_capacity = 0, m_size = 0, m_head = None, m_tail = None, m_autoreleaseSet = {}, timerActive = False,
      items = store, releaseEvents = []\<rparr>"

text \<open>Assignment to a field of an item.\<close>

definition setNext :: "item \<Rightarrow> item option \<Rightarrow> PageCache \<Rightarrow> PageCache" where
  "setNext i n s = s\<lparr>items := (items s)(i := (items s i)\<lparr>m_next := n\<rparr>)\<rparr>"

definition setPrev :: "item \<Rightarrow> item option \<Rightarrow> PageCache \<Rightarrow> PageCache" where
  "setPrev i p s = s\<lparr>items := (items s)(i := (items s i)\<lparr>m_prev := p\<rparr>)\<rparr>"

definition setCachedPage :: "item \<Rightarrow> cachedPage option \<Rightarrow> PageCache \<Rightarrow> PageCache" where
  "setCachedPage i p s = s\<lparr>items := (items s)(i := (items s i)\<lparr>m_cachedPage := p\<rparr>)\<rparr>"

definition addRef :: "int \<Rightarrow> item \<Rightarrow> PageCache \<Rightarrow> PageCache" where
  "addRef d i s = s\<lparr>items := (items s)(i := (items s i)\<lparr>refCount := refCount (items s i) + d\<rparr>)\<rparr>"

definition addToLRUList :: "item \<Rightarrow> PageCache \<Rightarrow> PageCache" where
  "addToLRUList i s =
     (let s = setNext i (m_head s) s;
          s = setPrev i None s;
          s = (case m_head s of
                 Some h \<Rightarrow> setPrev h (Some i) s
               | None \<Rightarrow> s\<lparr>m_tail := Some i\<rparr>)
      in s\<lparr>m_head := Some i\<rparr>)"

definition removeFromLRUList :: "item \<Rightarrow> PageCache \<Rightarrow> PageCache" where
  "removeFromLRUList i s =
     (let s = (case m_next (items s i) of
                 None \<Rightarrow> s\<lparr>m_tail := m_prev (items s i)\<rparr>
               | Some n \<Rightarrow> setPrev n (m_prev (items s i)) s)
      in case m_prev (items s i) of
           None \<Rightarrow> s\<lparr>m_head := m_next (items s i)\<rparr>
         | Some p \<Rightarrow> setNext p (m_next (items s i)) s)"

definition autorelease :: "cachedPage \<Rightarrow> PageCache \<Rightarrow> PageCache" where
  "autorelease page s =
     (let s = s\<lparr>m_autoreleaseSet := insert page (m_autoreleaseSet s)\<rparr>
      in if \<not> timerActive s then s\<lparr>timerActive := True\<rparr> else s)"

text \<open>\<open>item->m_cachedPage.release()\<close> empties the field.\<close>

definition removePage :: "item option \<Rightarrow> PageCache \<Rightarrow> PageCache" where
  "removePage i s =
     (case i of
        None \<Rightarrow> s
      | Some i \<Rightarrow>
          (case m_cachedPage (items s i) of
             None \<Rightarrow> s
           | Some page \<Rightarrow>
               let s = setCachedPage i None s;
                   s = autorelease page s;
                   s = removeFromLRUList i s;
                   s = s\<lparr>m_size := m_size s - 1\<rparr>
               in addRef (-1) i s))"

text \<open>The loop of prune; \<open>None\<close> is a run that never ends.\<close>

partial_function (option) prune :: "PageCache \<Rightarrow> PageCache option" where
  "prune s = (if m_capacity s < m_size s then prune (removePage (m_tail s) s) else Some s)"

definition setPageCapacity :: "int \<Rightarrow> PageCache \<Rightarrow> PageCache option" where
  "setPageCapacity capacity s = prune (s\<lparr>m_capacity := max capacity 0\<rparr>)"

definition addPage :: "item \<Rightarrow> cachedPage \<Rightarrow> PageCache \<Rightarrow> PageCache option" where
  "addPage i page s =
     (let s = addRef 1 i s;
          s = (if m_cachedPage (items s i) \<noteq> None then removePage (Some i) s else s);
          s = setCachedPage i (Some page) s;
          s = addToLRUList i s;
          s = s\<lparr>m_size := m_size s + 1\<rparr>
      in prune s)"

definition getPage :: "item option \<Rightarrow> PageCache \<Rightarrow> cachedPage option" where
  "getPage i s = (case i of Some i \<Rightarrow> m_cachedPage (items s i) | None \<Rightarrow> None)"

text \<open>frameCount; \<open>descendants\<close> is the number of descendant frames of a page.\<close>

partial_function (option) countFrames :: "(cachedPage \<Rightarrow> int) \<Rightarrow> PageCache \<Rightarrow> item option \<Rightarrow> int \<Rightarrow> int option" where
  "countFrames descendants s current count =
     (case current of
        None \<Rightarrow> Some count
      | Some i \<Rightarrow>
          countFrames descendants s (m_next (items s i))
            (count + 1 + (case m_cachedPage (items s i) of Some p \<Rightarrow> descendants p | None \<Rightarrow> 0)))"

definition frameCount :: "(cachedPage \<Rightarrow> int) \<Rightarrow> PageCache \<Rightarrow> int option" where
  "frameCount descendants s = countFrames descendants s (m_head s) 0"

definition autoreleasedPageCount :: "PageCache \<Rightarrow> nat" where
  "autoreleasedPageCount s = card (m_autoreleaseSet s)"

definition releaseAutoreleasedPagesNow :: "PageCache \<Rightarrow> PageCache" where
  "releaseAutoreleasedPagesNow s =
     (let s = s\<lparr>timerActive := False\<rparr>;
          tmp = m_autoreleaseSet s
      in s\<lparr>m_autoreleaseSet := {},
           releaseEvents := releaseEvents s @ [SetPruneEnabled False, DestroyPages tmp, SetPruneEnabled True, PruneCache]\<rparr>)"

definition releaseAutoreleasedPagesNowOrReschedule :: "rat \<Rightarrow> rat \<Rightarrow> PageCache \<Rightarrow> PageCache" where
  "releaseAutoreleasedPagesNowOrReschedule loadDelta userDelta s =
     (if (userDelta < 1 / 2 \<or> loadDelta < 5 / 4) \<and> card (m_autoreleaseSet s) < 42
      then s\<lparr>timerActive := True\<rparr>
      else releaseAutoreleasedPagesNow s)"

subsection \<open>The pointers represent a list\<close>

definition first :: "item list \<Rightarrow> item option \<Rightarrow> item option" where
  "first xs n = (case xs of [] \<Rightarrow> n | x # _ \<Rightarrow> Some x)"

definition final :: "item list \<Rightarrow> item option \<Rightarrow> item option" where
  "final xs p = (if xs = [] then p else Some (last xs))"

lemma first_simps [simp]: "first [] n = n" "first (x # xs) n = Some x"
  by (simp_all add: first_def)

lemma final_simps [simp]: "final [] p = p" "final (x # xs) p = final xs (Some x)" "final (xs @ [x]) p = Some x"
  by (simp_all add: final_def)

lemma first_append [simp]: "first (xs @ ys) n = first xs (first ys n)"
  by (cases xs) simp_all

text \<open>A segment of the list, with what is in front of it and behind it.\<close>

fun chain :: "(item \<Rightarrow> HistoryItem) \<Rightarrow> item option \<Rightarrow> item list \<Rightarrow> item option \<Rightarrow> bool" where
  "chain f p [] n = True"
| "chain f p (x # xs) n \<longleftrightarrow> m_prev (f x) = p \<and> m_next (f x) = first xs n \<and> chain f (Some x) xs n"

lemma chain_append: "chain f p (xs @ ys) n \<longleftrightarrow> chain f p xs (first ys n) \<and> chain f (final xs p) ys n"
  by (induction xs arbitrary: p) auto

lemma chain_cong:
  "(\<And>x. x \<in> set xs \<Longrightarrow> m_prev (g x) = m_prev (f x) \<and> m_next (g x) = m_next (f x)) \<Longrightarrow> chain g p xs n = chain f p xs n"
  by (induction xs arbitrary: p) auto

lemma chain_update_other [simp]: "x \<notin> set xs \<Longrightarrow> chain (f(x := v)) p xs n = chain f p xs n"
  by (rule chain_cong) auto

lemma chain_setNext_end:
  "chain f p (xs @ [x]) n \<Longrightarrow> x \<notin> set xs \<Longrightarrow> chain (f(x := (f x)\<lparr>m_next := n'\<rparr>)) p (xs @ [x]) n'"
  by (simp add: chain_append)

lemma chain_setPrev_start:
  "chain f p (x # xs) n \<Longrightarrow> x \<notin> set xs \<Longrightarrow> chain (f(x := (f x)\<lparr>m_prev := p'\<rparr>)) p' (x # xs) n"
  by simp

text \<open>The abstract state: the cached items, most recently added first.\<close>

definition links :: "PageCache \<Rightarrow> item list \<Rightarrow> bool" where
  "links s xs \<longleftrightarrow> distinct xs \<and> chain (items s) None xs None \<and> m_head s = first xs None \<and> m_tail s = final xs None"

definition represents :: "PageCache \<Rightarrow> item list \<Rightarrow> bool" where
  "represents s xs \<longleftrightarrow> links s xs \<and> m_size s = int (length xs) \<and> 0 \<le> m_capacity s \<and>
     (\<forall>i. m_cachedPage (items s i) \<noteq> None \<longleftrightarrow> i \<in> set xs)"

lemma addToLRUList_links:
  assumes "links s xs" "i \<notin> set xs"
  shows "links (addToLRUList i s) (i # xs)"
proof (cases xs)
  case Nil
  then show ?thesis using assms by (simp add: links_def addToLRUList_def setNext_def setPrev_def)
next
  case (Cons h t)
  define f where "f = items (setPrev i None (setNext i (m_head s) s))"
  have "chain f None (h # t) None" using assms Cons
    by (subst chain_cong [of _ _ "items s"]) (auto simp: f_def links_def setNext_def setPrev_def)
  then have "chain (f(h := (f h)\<lparr>m_prev := Some i\<rparr>)) (Some i) (h # t) None"
    by (rule chain_setPrev_start) (use assms Cons in \<open>auto simp: links_def\<close>)
  then show ?thesis using assms Cons
    by (auto simp: links_def addToLRUList_def setNext_def setPrev_def f_def final_def)
qed

lemma removeFromLRUList_links:
  assumes "links s (ys @ i # zs)"
  shows "links (removeFromLRUList i s) (ys @ zs)"
proof -
  have d: "distinct ys" "distinct zs" "set ys \<inter> set zs = {}" "i \<notin> set ys" "i \<notin> set zs"
    and c: "chain (items s) None ys (Some i)" "m_prev (items s i) = final ys None" "m_next (items s i) = first zs None"
      "chain (items s) (Some i) zs None"
    and h: "m_head s = first ys (Some i)" "m_tail s = final (i # zs) (final ys None)"
    using assms by (auto simp: links_def chain_append final_def)
  define f where "f = (case zs of [] \<Rightarrow> items s | z # _ \<Rightarrow> (items s)(z := (items s z)\<lparr>m_prev := final ys None\<rparr>))"
  have z: "chain f (final ys None) zs None"
    using c(4) d chain_setPrev_start [of "items s" "Some i"] by (cases zs) (auto simp: f_def)
  have y: "chain f None ys (Some i)"
    using c(1) d by (subst chain_cong [of _ _ "items s"]) (auto simp: f_def split: list.splits)
  define g where "g = (if ys = [] then f else f(last ys := (f (last ys))\<lparr>m_next := first zs None\<rparr>))"
  have "chain g None ys (first zs None)"
  proof (cases ys rule: rev_cases)
    case (snoc ys' y')
    then show ?thesis using y d chain_setNext_end [of f None ys' y'] by (simp add: g_def)
  qed simp
  moreover have "chain g (final ys None) zs None"
    using z d last_in_set [of ys] by (subst chain_cong [of _ _ f]) (auto simp: g_def disjoint_iff)
  ultimately have "chain g None (ys @ zs) None" by (simp add: chain_append)
  moreover have "items (removeFromLRUList i s) = g"
    using c d by (auto simp: removeFromLRUList_def g_def f_def setNext_def setPrev_def final_def fun_eq_iff split: list.split option.split)
  moreover have "m_head (removeFromLRUList i s) = first (ys @ zs) None" "m_tail (removeFromLRUList i s) = final (ys @ zs) None"
    using c h by (auto simp: removeFromLRUList_def setNext_def setPrev_def final_def first_def split: list.split option.split)
  ultimately show ?thesis using d by (simp add: links_def)
qed

lemma removeFromLRUList_other [simp]:
  "m_size (removeFromLRUList i s) = m_size s" "m_capacity (removeFromLRUList i s) = m_capacity s"
  "m_cachedPage (items (removeFromLRUList i s) j) = m_cachedPage (items s j)"
  "m_autoreleaseSet (removeFromLRUList i s) = m_autoreleaseSet s" "timerActive (removeFromLRUList i s) = timerActive s"
  "refCount (items (removeFromLRUList i s) j) = refCount (items s j)"
  by (simp_all add: removeFromLRUList_def setNext_def setPrev_def Let_def split: option.split)

lemma addToLRUList_other [simp]:
  "m_size (addToLRUList i s) = m_size s" "m_capacity (addToLRUList i s) = m_capacity s"
  "m_cachedPage (items (addToLRUList i s) j) = m_cachedPage (items s j)"
  "m_autoreleaseSet (addToLRUList i s) = m_autoreleaseSet s" "timerActive (addToLRUList i s) = timerActive s"
  "refCount (items (addToLRUList i s) j) = refCount (items s j)"
  by (simp_all add: addToLRUList_def setNext_def setPrev_def Let_def split: option.split)

lemma links_cong:
  "(\<And>x. x \<in> set xs \<Longrightarrow> m_prev (items s' x) = m_prev (items s x) \<and> m_next (items s' x) = m_next (items s x)) \<Longrightarrow>
   m_head s' = m_head s \<Longrightarrow> m_tail s' = m_tail s \<Longrightarrow> links s xs \<Longrightarrow> links s' xs"
  using chain_cong [of xs "items s'" "items s" None None] by (simp add: links_def)

lemma filter_remove: "distinct (ys @ i # zs) \<Longrightarrow> filter (\<lambda>x. x \<noteq> i) (ys @ i # zs) = ys @ zs"
  by simp (metis (mono_tags, lifting) filter_True)

lemma removePage_represents:
  assumes "represents s xs"
  shows "represents (removePage (Some i) s) (filter (\<lambda>x. x \<noteq> i) xs)"
proof (cases "m_cachedPage (items s i)")
  case None
  then have "i \<notin> set xs" using assms by (metis represents_def)
  then have "filter (\<lambda>x. x \<noteq> i) xs = xs" by (auto simp: filter_id_conv)
  then show ?thesis using assms None by (simp add: removePage_def)
next
  case (Some page)
  then have "i \<in> set xs" using assms unfolding represents_def by blast
  then obtain ys zs where xs: "xs = ys @ i # zs" by (auto dest: split_list)
  define s1 where "s1 = autorelease page (setCachedPage i None s)"
  have "links s1 xs"
    by (rule links_cong [of xs s1 s])
      (use assms in \<open>simp_all add: s1_def represents_def autorelease_def setCachedPage_def Let_def\<close>)
  then have "links (removeFromLRUList i s1) (ys @ zs)" using removeFromLRUList_links xs by blast
  then have l: "links (removePage (Some i) s) (ys @ zs)"
    by (rule links_cong [rotated -1]) (simp_all add: Some removePage_def s1_def addRef_def Let_def)
  have d: "distinct (ys @ i # zs)" using assms xs by (simp add: represents_def links_def)
  have "m_cachedPage (items (removePage (Some i) s) j) = (if j = i then None else m_cachedPage (items s j))" for j
    using Some by (auto simp: removePage_def addRef_def autorelease_def setCachedPage_def Let_def)
  moreover have "m_size (removePage (Some i) s) = m_size s - 1" "m_capacity (removePage (Some i) s) = m_capacity s"
    using Some by (simp_all add: removePage_def addRef_def autorelease_def setCachedPage_def Let_def)
  moreover have "i \<notin> set ys" "i \<notin> set zs" using d by auto
  moreover have "\<And>j. m_cachedPage (items s j) \<noteq> None \<longleftrightarrow> j \<in> set ys \<or> j = i \<or> j \<in> set zs"
    using assms by (simp add: represents_def xs) blast
  moreover have "m_size s = int (length ys + length zs) + 1" "0 \<le> m_capacity s"
    using assms by (simp_all add: represents_def xs)
  ultimately show ?thesis using l unfolding xs filter_remove [OF d]
    by (simp add: represents_def)
qed

lemma prune_represents:
  "represents s xs \<Longrightarrow> \<exists>s'. prune s = Some s' \<and> represents s' (take (nat (m_capacity s)) xs) \<and> m_capacity s' = m_capacity s"
proof (induction "length xs" arbitrary: s xs)
  case 0
  then show ?case by (subst prune.simps) (simp add: represents_def)
next
  case (Suc n)
  show ?case
  proof (cases "m_capacity s < m_size s")
    case False
    then show ?thesis using Suc.prems by (subst prune.simps) (simp add: represents_def)
  next
    case True
    obtain ys x where xs: "xs = ys @ [x]" using Suc.hyps(2) by (cases xs rule: rev_cases) auto
    have t: "m_tail s = Some x" using Suc.prems xs by (simp add: represents_def links_def)
    have "distinct (ys @ [x])" using Suc.prems xs by (simp add: represents_def links_def)
    then have "represents (removePage (Some x) s) ys"
      using removePage_represents [OF Suc.prems, of x] filter_remove [of ys x "[]"] by (simp add: xs)
    moreover have c: "m_capacity (removePage (Some x) s) = m_capacity s"
      by (simp add: removePage_def addRef_def autorelease_def setCachedPage_def Let_def split: option.split)
    moreover have "nat (m_capacity s) \<le> length ys" using True Suc.prems xs by (simp add: represents_def)
    moreover have "n = length ys" using Suc.hyps(2) xs by simp
    ultimately show ?thesis using Suc.hyps(1) [of ys "removePage (Some x) s"] True t
      by (subst prune.simps) (auto simp: xs)
  qed
qed

lemma represents_cached: "represents s xs \<Longrightarrow> m_cachedPage (items s i) \<noteq> None \<longleftrightarrow> i \<in> set xs"
  by (simp add: represents_def)

lemma removePage_capacity [simp]: "m_capacity (removePage i s) = m_capacity s"
  by (simp add: removePage_def addRef_def autorelease_def setCachedPage_def Let_def split: option.split)

lemma addRef_represents [simp]: "represents (addRef d i s) xs = represents s xs"
proof -
  have p: "m_cachedPage (items (addRef d i s) j) = m_cachedPage (items s j)" for j
    by (simp add: addRef_def)
  have "links (addRef d i s) xs = links s xs"
    using chain_cong [of xs "items (addRef d i s)" "items s" None None] by (simp add: links_def addRef_def)
  then show ?thesis unfolding represents_def p by (simp add: addRef_def)
qed

text \<open>The state of addPage before it prunes.\<close>

definition addFront :: "item \<Rightarrow> cachedPage \<Rightarrow> PageCache \<Rightarrow> PageCache" where
  "addFront i page s =
     (let s = addRef 1 i s;
          s = (if m_cachedPage (items s i) \<noteq> None then removePage (Some i) s else s);
          s = addToLRUList i (setCachedPage i (Some page) s)
      in s\<lparr>m_size := m_size s + 1\<rparr>)"

lemma addPage_addFront: "addPage i page s = prune (addFront i page s)"
  by (simp add: addPage_def addFront_def Let_def)

lemma addFront_represents:
  assumes "represents s xs"
  shows "represents (addFront i page s) (i # filter (\<lambda>x. x \<noteq> i) xs)"
proof -
  let ?xs = "filter (\<lambda>x. x \<noteq> i) xs"
  define s1 where "s1 = addRef 1 i s"
  define s2 where "s2 = (if m_cachedPage (items s1 i) \<noteq> None then removePage (Some i) s1 else s1)"
  have s1: "represents s1 xs" using assms by (simp add: s1_def)
  have s2: "represents s2 ?xs"
  proof (cases "m_cachedPage (items s1 i)")
    case None
    then have "?xs = xs" using represents_cached [OF s1, of i] by (auto intro: filter_True)
    then show ?thesis using s1 None by (simp add: s2_def)
  next
    case (Some p)
    then show ?thesis using removePage_represents [OF s1, of i] by (simp add: s2_def)
  qed
  have "links (setCachedPage i (Some page) s2) ?xs"
    by (rule links_cong [of ?xs _ s2]) (use s2 in \<open>simp_all add: represents_def setCachedPage_def\<close>)
  then have "links (addToLRUList i (setCachedPage i (Some page) s2)) (i # ?xs)"
    by (rule addToLRUList_links) simp
  moreover have "addFront i page s = (addToLRUList i (setCachedPage i (Some page) s2))\<lparr>m_size := m_size s2 + 1\<rparr>"
    by (simp add: addFront_def s1_def s2_def Let_def setCachedPage_def)
  ultimately show ?thesis
    using s2 by (auto simp: represents_def links_def setCachedPage_def)
qed

lemma addFront_capacity [simp]: "m_capacity (addFront i page s) = m_capacity s"
  by (simp add: addFront_def addRef_def setCachedPage_def Let_def)

lemma addFront_page: "m_cachedPage (items (addFront i page s) j) = (if j = i then Some page else m_cachedPage (items s j))"
  by (simp add: addFront_def addRef_def setCachedPage_def autorelease_def removePage_def Let_def split: option.split)

lemma prune_pages:
  assumes "represents s xs" "prune s = Some s'"
  shows "m_cachedPage (items s' i) = (if i \<in> set (take (nat (m_capacity s)) xs) then m_cachedPage (items s i) else None)"
  using assms
proof (induction "length xs" arbitrary: s xs)
  case 0
  then have "s' = s" by (subst (asm) prune.simps) (simp add: represents_def)
  then show ?case using 0 by (auto simp: represents_def)
next
  case (Suc n)
  show ?case
  proof (cases "m_capacity s < m_size s")
    case False
    then have "s' = s" using Suc.prems by (subst (asm) prune.simps) simp
    then show ?thesis using False Suc.prems represents_cached [of s xs i] by (auto simp: represents_def)
  next
    case True
    obtain ys x where xs: "xs = ys @ [x]" using Suc.hyps(2) by (cases xs rule: rev_cases) auto
    have t: "m_tail s = Some x" using Suc.prems xs by (simp add: represents_def links_def)
    have d: "x \<notin> set ys" using Suc.prems xs by (simp add: represents_def links_def)
    have "filter (\<lambda>y. y \<noteq> x) xs = ys" using d xs by (auto intro: filter_True)
    then have r: "represents (removePage (Some x) s) ys"
      using removePage_represents [OF Suc.prems(1), of x] by simp
    have p: "prune (removePage (Some x) s) = Some s'"
      using Suc.prems(2) True t by (subst (asm) prune.simps) simp
    have c: "nat (m_capacity s) \<le> length ys" using True Suc.prems xs by (simp add: represents_def)
    have "i \<noteq> x \<Longrightarrow> m_cachedPage (items (removePage (Some x) s) i) = m_cachedPage (items s i)"
      by (simp add: removePage_def addRef_def autorelease_def setCachedPage_def Let_def split: option.split)
    then show ?thesis
      using Suc.hyps(1) [OF _ r p] Suc.hyps(2) xs c d by (auto dest: in_set_takeD)
  qed
qed

subsection \<open>The cache as a list of pages\<close>

text \<open>The contents of the cache, most recently added first.\<close>

definition contents :: "PageCache \<Rightarrow> item list \<Rightarrow> (item \<times> cachedPage) list" where
  "contents s xs = map (\<lambda>i. (i, the (m_cachedPage (items s i)))) xs"

text \<open>What addPage means for them.\<close>

definition cachePage :: "nat \<Rightarrow> item \<Rightarrow> cachedPage \<Rightarrow> (item \<times> cachedPage) list \<Rightarrow> (item \<times> cachedPage) list" where
  "cachePage capacity i page entries = take capacity ((i, page) # filter (\<lambda>e. fst e \<noteq> i) entries)"

lemma addPage_refines:
  assumes "represents s xs"
  shows "\<exists>s' ys. addPage i page s = Some s' \<and> represents s' ys \<and> m_capacity s' = m_capacity s \<and>
    contents s' ys = cachePage (nat (m_capacity s)) i page (contents s xs)"
proof -
  let ?ys = "take (nat (m_capacity s)) (i # filter (\<lambda>x. x \<noteq> i) xs)"
  have f: "represents (addFront i page s) (i # filter (\<lambda>x. x \<noteq> i) xs)"
    by (rule addFront_represents [OF assms])
  then obtain s' where s': "prune (addFront i page s) = Some s'" "represents s' ?ys" "m_capacity s' = m_capacity s"
    using prune_represents [OF f] by auto
  have "contents s' ?ys = cachePage (nat (m_capacity s)) i page (contents s xs)"
  proof -
    have "contents s' ?ys = map (\<lambda>j. (j, the (if j = i then Some page else m_cachedPage (items s j)))) ?ys"
      using prune_pages [OF f s'(1)] unfolding contents_def by (intro map_cong) (simp_all add: addFront_page)
    also have "\<dots> = take (nat (m_capacity s))
        ((i, page) # map (\<lambda>j. (j, the (if j = i then Some page else m_cachedPage (items s j)))) (filter (\<lambda>x. x \<noteq> i) xs))"
      by (cases "nat (m_capacity s)") (simp_all add: take_map)
    also have "map (\<lambda>j. (j, the (if j = i then Some page else m_cachedPage (items s j)))) (filter (\<lambda>x. x \<noteq> i) xs) =
        filter (\<lambda>e. fst e \<noteq> i) (contents s xs)"
      by (simp add: contents_def filter_map o_def)
    finally show ?thesis by (simp add: cachePage_def)
  qed
  then show ?thesis using s' by (auto simp: addPage_addFront)
qed

lemma setPageCapacity_refines:
  assumes "represents s xs"
  shows "\<exists>s' ys. setPageCapacity c s = Some s' \<and> represents s' ys \<and> m_capacity s' = max c 0 \<and>
    contents s' ys = take (nat c) (contents s xs)"
proof -
  let ?s = "s\<lparr>m_capacity := max c 0\<rparr>"
  have "links ?s xs" using assms by (simp add: represents_def links_def)
  then have r: "represents ?s xs" using assms by (simp add: represents_def)
  then obtain s' where s': "prune ?s = Some s'" "represents s' (take (nat c) xs)" "m_capacity s' = max c 0"
    using prune_represents [OF r] by (auto simp: max_def split: if_splits)
  have "contents s' (take (nat c) xs) = take (nat c) (contents s xs)"
    using prune_pages [OF r s'(1)] unfolding contents_def take_map
    by (intro map_cong) (auto simp: max_def)
  then show ?thesis using s' by (auto simp: setPageCapacity_def)
qed

lemma removePage_page: "m_cachedPage (items (removePage (Some i) s) j) = (if j = i then None else m_cachedPage (items s j))"
  by (simp add: removePage_def addRef_def autorelease_def setCachedPage_def Let_def split: option.split)

lemma removePage_refines:
  assumes "represents s xs"
  shows "represents (removePage (Some i) s) (filter (\<lambda>x. x \<noteq> i) xs) \<and>
    contents (removePage (Some i) s) (filter (\<lambda>x. x \<noteq> i) xs) = filter (\<lambda>e. fst e \<noteq> i) (contents s xs)"
  using removePage_represents [OF assms, of i] by (simp add: contents_def filter_map o_def removePage_page)

lemma getPage_refines: "represents s xs \<Longrightarrow> getPage (Some i) s = map_of (contents s xs) i"
  using represents_cached [of s xs i]
  by (auto simp: getPage_def contents_def map_of_map_restrict restrict_map_def)

lemma removePage_autorelease:
  "m_autoreleaseSet (removePage (Some i) s) =
     m_autoreleaseSet s \<union> set_option (getPage (Some i) s)"
  by (auto simp: removePage_def addRef_def autorelease_def setCachedPage_def getPage_def Let_def split: option.split)

lemma countFrames_chain:
  "chain (items s) p xs None \<Longrightarrow> (\<And>i. i \<in> set xs \<Longrightarrow> m_cachedPage (items s i) \<noteq> None) \<Longrightarrow>
   countFrames d s (first xs None) n = Some (n + (\<Sum>e\<leftarrow>contents s xs. 1 + d (snd e)))"
proof (induction xs arbitrary: p n)
  case Nil
  then show ?case by (subst countFrames.simps) (simp add: contents_def)
next
  case (Cons x xs)
  then obtain g where "m_cachedPage (items s x) = Some g" by force
  then show ?case using Cons.prems Cons.IH [of "Some x" "n + 1 + d g"]
    by (subst countFrames.simps) (simp add: contents_def algebra_simps)
qed

lemma frameCount_sum:
  assumes "represents s xs"
  shows "frameCount d s = Some (\<Sum>e\<leftarrow>contents s xs. 1 + d (snd e))"
  using countFrames_chain [of s None xs d 0] assms represents_cached [OF assms]
  by (simp add: frameCount_def represents_def links_def)

lemma represents_release:
  "represents s xs \<Longrightarrow> represents (releaseAutoreleasedPagesNow s) xs"
  "represents s xs \<Longrightarrow> represents (releaseAutoreleasedPagesNowOrReschedule a b s) xs"
  by (simp_all add: releaseAutoreleasedPagesNowOrReschedule_def releaseAutoreleasedPagesNow_def represents_def links_def Let_def)

lemma contents_release:
  "contents (releaseAutoreleasedPagesNow s) xs = contents s xs"
  "contents (releaseAutoreleasedPagesNowOrReschedule a b s) xs = contents s xs"
  by (simp_all add: releaseAutoreleasedPagesNowOrReschedule_def releaseAutoreleasedPagesNow_def contents_def Let_def)

lemma capacity_release:
  "m_capacity (releaseAutoreleasedPagesNow s) = m_capacity s"
  "m_capacity (releaseAutoreleasedPagesNowOrReschedule a b s) = m_capacity s"
  by (simp_all add: releaseAutoreleasedPagesNowOrReschedule_def releaseAutoreleasedPagesNow_def Let_def)

subsection \<open>Histories of operations\<close>

datatype cache_op =
    AddPage item cachedPage
  | RemovePage "item option"
  | SetPageCapacity int
  | ReleaseNow
  | ReleaseTimer rat rat

definition run_op :: "cache_op \<Rightarrow> PageCache \<Rightarrow> PageCache option" where
  "run_op p s =
     (case p of
        AddPage i g \<Rightarrow> addPage i g s
      | RemovePage i \<Rightarrow> Some (removePage i s)
      | SetPageCapacity c \<Rightarrow> setPageCapacity c s
      | ReleaseNow \<Rightarrow> Some (releaseAutoreleasedPagesNow s)
      | ReleaseTimer a b \<Rightarrow> Some (releaseAutoreleasedPagesNowOrReschedule a b s))"

fun run_ops :: "cache_op list \<Rightarrow> PageCache \<Rightarrow> PageCache option" where
  "run_ops [] s = Some s"
| "run_ops (p # ps) s = Option.bind (run_op p s) (run_ops ps)"

text \<open>The specification: a capacity, and the pages with the most recent one first.\<close>

fun spec_op :: "cache_op \<Rightarrow> nat \<times> (item \<times> cachedPage) list \<Rightarrow> nat \<times> (item \<times> cachedPage) list" where
  "spec_op (AddPage i g) (n, l) = (n, cachePage n i g l)"
| "spec_op (RemovePage None) (n, l) = (n, l)"
| "spec_op (RemovePage (Some i)) (n, l) = (n, filter (\<lambda>e. fst e \<noteq> i) l)"
| "spec_op (SetPageCapacity c) (n, l) = (nat c, take (nat c) l)"
| "spec_op ReleaseNow (n, l) = (n, l)"
| "spec_op (ReleaseTimer a b) (n, l) = (n, l)"

definition implements :: "PageCache \<Rightarrow> nat \<times> (item \<times> cachedPage) list \<Rightarrow> bool" where
  "implements s a \<longleftrightarrow> (\<exists>xs. represents s xs \<and> a = (nat (m_capacity s), contents s xs))"

lemma implementsI: "represents s xs \<Longrightarrow> m_capacity s = int n \<Longrightarrow> contents s xs = l \<Longrightarrow> implements s (n, l)"
  by (auto simp: implements_def)

lemma run_op_implements:
  assumes "implements s a"
  shows "\<exists>s'. run_op p s = Some s' \<and> implements s' (spec_op p a)"
proof -
  obtain xs where r: "represents s xs" and a: "a = (nat (m_capacity s), contents s xs)"
    using assms by (auto simp: implements_def)
  have c: "m_capacity s = int (nat (m_capacity s))" using r by (simp add: represents_def)
  show ?thesis
  proof (cases p)
    case (AddPage i g)
    then show ?thesis using addPage_refines [OF r, of i g] c
      by (auto simp: run_op_def a intro!: implementsI)
  next
    case (RemovePage i)
    then show ?thesis
    proof (cases i)
      case None
      then show ?thesis using RemovePage r c by (auto simp: run_op_def a removePage_def intro!: implementsI)
    next
      case (Some j)
      then show ?thesis using RemovePage removePage_refines [OF r, of j] c
        by (auto simp: run_op_def a intro!: implementsI)
    qed
  next
    case (SetPageCapacity k)
    then show ?thesis using setPageCapacity_refines [OF r, of k]
      by (auto simp: run_op_def a intro!: implementsI)
  next
    case ReleaseNow
    then show ?thesis using represents_release(1) [OF r] c
      by (auto simp: run_op_def a contents_release capacity_release intro!: implementsI)
  next
    case (ReleaseTimer d u)
    then show ?thesis using represents_release(2) [OF r, of d u] c
      by (auto simp: run_op_def a contents_release capacity_release intro!: implementsI)
  qed
qed

lemma run_ops_implements:
  "implements s a \<Longrightarrow> \<exists>s'. run_ops ps s = Some s' \<and> implements s' (fold spec_op ps a)"
proof (induction ps arbitrary: s a)
  case (Cons p ps)
  obtain s' where s': "run_op p s = Some s'" "implements s' (spec_op p a)"
    using run_op_implements [OF Cons.prems, of p] by blast
  then show ?case using Cons.IH [OF s'(2)] by simp
qed simp

definition uncached :: "item \<Rightarrow> HistoryItem" where
  "uncached i = \<lparr>m_next = None, m_prev = None, m_cachedPage = None, refCount = 1, m_stateObject = False\<rparr>"

lemma newPageCache_represents: "(\<And>i. m_cachedPage (f i) = None) \<Longrightarrow> represents (newPageCache f) []"
  by (simp add: represents_def newPageCache_def links_def)

lemma newPageCache_implements: "implements (newPageCache uncached) (0, [])"
  by (rule implementsI [OF newPageCache_represents]) (simp_all add: uncached_def newPageCache_def contents_def)

text \<open>
  C2: Every sequence of add, remove, setCapacity and releases on a new cache returns,
  and the doubly linked list then implements the specification of a least-recently-added
  cache: get finds the page that the specification holds for the item, the size is the
  number of its entries, and frameCount walks exactly its pages.
\<close>

theorem page_cache_is_lru:
  "\<exists>s. run_ops ps (newPageCache uncached) = Some s \<and>
     (let l = snd (fold spec_op ps (0, []))
      in (\<forall>i. getPage (Some i) s = map_of l i) \<and> m_size s = int (length l) \<and>
         (\<forall>d. frameCount d s = Some (\<Sum>e\<leftarrow>l. 1 + d (snd e))))"
proof -
  obtain s where s: "run_ops ps (newPageCache uncached) = Some s" "implements s (fold spec_op ps (0, []))"
    using run_ops_implements [OF newPageCache_implements] by blast
  then obtain xs where r: "represents s xs" and l: "snd (fold spec_op ps (0, [])) = contents s xs"
    by (auto simp: implements_def)
  have "m_size s = int (length (contents s xs))" using r by (simp add: represents_def contents_def)
  then show ?thesis using s l getPage_refines [OF r] frameCount_sum [OF r] by (simp add: Let_def)
qed

subsection \<open>References to the items\<close>

text \<open>The cache holds one reference to each item in it: what add takes, remove gives back.\<close>

definition balanced :: "(item \<Rightarrow> int) \<Rightarrow> PageCache \<Rightarrow> bool" where
  "balanced base s \<longleftrightarrow>
     (\<forall>i. refCount (items s i) = base i + (case m_cachedPage (items s i) of None \<Rightarrow> 0 | Some _ \<Rightarrow> 1))"

lemma balanced_cong:
  "(\<And>i. refCount (items s' i) = refCount (items s i) \<and> m_cachedPage (items s' i) = m_cachedPage (items s i)) \<Longrightarrow>
   balanced base s \<Longrightarrow> balanced base s'"
  by (simp add: balanced_def)

lemma removePage_balanced: "balanced base s \<Longrightarrow> balanced base (removePage i s)"
  by (auto simp: balanced_def removePage_def addRef_def autorelease_def setCachedPage_def Let_def split: option.split)

lemma prune_balanced:
  "balanced base s \<Longrightarrow> represents s xs \<Longrightarrow> prune s = Some s' \<Longrightarrow> balanced base s'"
proof (induction "length xs" arbitrary: s xs)
  case 0
  then show ?case by (subst (asm) prune.simps) (simp add: represents_def)
next
  case (Suc n)
  show ?case
  proof (cases "m_capacity s < m_size s")
    case False
    then show ?thesis using Suc.prems by (subst (asm) prune.simps) simp
  next
    case True
    obtain ys x where xs: "xs = ys @ [x]" using Suc.hyps(2) by (cases xs rule: rev_cases) auto
    have t: "m_tail s = Some x" and d: "x \<notin> set ys" using Suc.prems xs by (simp_all add: represents_def links_def)
    have "filter (\<lambda>y. y \<noteq> x) xs = ys" using d xs by (auto intro: filter_True)
    then have r: "represents (removePage (Some x) s) ys"
      using removePage_represents [OF Suc.prems(2), of x] by simp
    have "prune (removePage (Some x) s) = Some s'"
      using Suc.prems(3) True t by (subst (asm) prune.simps) simp
    then show ?thesis using Suc.hyps(1) [OF _ removePage_balanced [OF Suc.prems(1)] r] Suc.hyps(2) xs by simp
  qed
qed

lemma addFront_balanced: "balanced base s \<Longrightarrow> balanced base (addFront i page s)"
  by (auto simp: balanced_def addFront_def removePage_def addRef_def autorelease_def setCachedPage_def Let_def split: option.split)

lemma run_op_balanced:
  assumes "balanced base s" "implements s a" "run_op p s = Some s'"
  shows "balanced base s'"
proof -
  obtain xs where r: "represents s xs" using assms(2) by (auto simp: implements_def)
  show ?thesis
  proof (cases p)
    case (AddPage i g)
    then have "prune (addFront i g s) = Some s'" using assms(3) by (simp add: run_op_def addPage_addFront)
    then show ?thesis using prune_balanced [OF addFront_balanced [OF assms(1)] addFront_represents [OF r]] by blast
  next
    case (SetPageCapacity c)
    have "represents (s\<lparr>m_capacity := max c 0\<rparr>) xs" using r by (simp add: represents_def links_def)
    moreover have "balanced base (s\<lparr>m_capacity := max c 0\<rparr>)" by (rule balanced_cong [OF _ assms(1)]) simp
    ultimately show ?thesis using prune_balanced assms(3) SetPageCapacity
      by (simp add: run_op_def setPageCapacity_def)
  qed (use assms removePage_balanced in \<open>auto simp: run_op_def releaseAutoreleasedPagesNowOrReschedule_def
      releaseAutoreleasedPagesNow_def Let_def balanced_def split: if_splits\<close>)
qed

lemma run_ops_balanced:
  "balanced base s \<Longrightarrow> implements s a \<Longrightarrow> run_ops ps s = Some s' \<Longrightarrow> balanced base s'"
proof (induction ps arbitrary: s a)
  case (Cons p ps)
  obtain s1 where s1: "run_op p s = Some s1" "implements s1 (spec_op p a)" "run_ops ps s1 = Some s'"
    using run_op_implements [OF Cons.prems(2), of p] Cons.prems(3) by auto
  then show ?case using Cons.IH run_op_balanced [OF Cons.prems(1,2) s1(1)] by blast
qed simp

text \<open>
  C12: The references that add takes and remove gives back are in balance: after every
  sequence of operations each item has one reference more than its owners hold exactly
  while the cache holds a page for it.
\<close>

theorem page_cache_references_balance:
  "(case run_ops ps (newPageCache uncached) of
      None \<Rightarrow> False
    | Some s \<Rightarrow> \<forall>i. refCount (items s i) = 1 + (if getPage (Some i) s = None then 0 else 1))"
proof -
  obtain s where s: "run_ops ps (newPageCache uncached) = Some s"
    using run_ops_implements [OF newPageCache_implements] by blast
  have "balanced (\<lambda>_. 1) (newPageCache uncached)" by (simp add: balanced_def newPageCache_def uncached_def)
  then have "balanced (\<lambda>_. 1) s" using run_ops_balanced newPageCache_implements s by blast
  then show ?thesis using s by (auto simp: balanced_def getPage_def split: option.splits)
qed

subsection \<open>What the clients of the cache rely on\<close>

text \<open>
  A client names items that are to leave the cache; the contract is all that
  BackForwardList uses.
\<close>

locale evicting_cache =
  fixes wf :: "'c \<Rightarrow> bool"
    and evict :: "'i \<Rightarrow> 'c \<Rightarrow> 'c"
    and cached :: "'c \<Rightarrow> 'i \<Rightarrow> bool"
  assumes evict_wf: "wf c \<Longrightarrow> wf (evict i c)"
    and evict_cached: "wf c \<Longrightarrow> cached (evict i c) j \<longleftrightarrow> cached c j \<and> j \<noteq> i"
begin

lemma fold_evict_wf: "wf c \<Longrightarrow> wf (fold evict is c)"
  by (induction "is" arbitrary: c) (simp_all add: evict_wf)

lemma fold_evict_cached: "wf c \<Longrightarrow> cached (fold evict is c) j \<longleftrightarrow> cached c j \<and> j \<notin> set is"
  by (induction "is" arbitrary: c) (auto simp: evict_wf evict_cached)

end

definition consistent :: "PageCache \<Rightarrow> bool" where
  "consistent s \<longleftrightarrow> (\<exists>xs. represents s xs)"

definition isCached :: "PageCache \<Rightarrow> item \<Rightarrow> bool" where
  "isCached s i \<longleftrightarrow> getPage (Some i) s \<noteq> None"

interpretation cache: evicting_cache consistent "\<lambda>i. removePage (Some i)" isCached
  by unfold_locales (auto simp: consistent_def isCached_def getPage_def removePage_page intro: removePage_represents)

end
