(* ===== verification/BackForwardList.thy ===== *)
theory BackForwardList
  imports PageCache
begin

section \<open>The back/forward list (WebCore/history/BackForwardList.cpp)\<close>

text \<open>
  The session history of a page: a vector of items with a current index, and a set of the
  same items. Items that leave the list leave the page cache (theory PageCache). The calls
  to the client of the page are recorded in order; m_page is whether there is a page.
  A result \<open>None\<close> stands for undefined behaviour: an access outside the vector or a null
  item in the hash set. size_t has 64 bits.
\<close>

datatype client_event = DidAdd item | DidRemove item | DidChangeIndex

record BackForwardList =
  m_page :: bool
  m_entries :: "item list"
  m_entryHash :: "item set"
  m_current :: u32
  m_capacity :: u32
  m_closed :: bool
  m_enabled :: bool
  pageCache :: PageCache
  clientEvents :: "client_event list"

definition DefaultCapacity :: u32 where "DefaultCapacity = 100"
definition NoCurrentItemIndex :: u32 where "NoCurrentItemIndex = 0xFFFFFFFF"

definition newBackForwardList :: "bool \<Rightarrow> PageCache \<Rightarrow> BackForwardList" where
  "newBackForwardList page cache =
     \<lparr>m_page = page, m_entries = [], m_entryHash = {}, m_current = NoCurrentItemIndex, m_capacity = DefaultCapacity,
      m_closed = True, m_enabled = True, pageCache = cache, clientEvents = []\<rparr>"

definition dispatch :: "client_event \<Rightarrow> BackForwardList \<Rightarrow> BackForwardList" where
  "dispatch e s = (if m_page s then s\<lparr>clientEvents := clientEvents s @ [e]\<rparr> else s)"

text \<open>\<open>m_entries.size()\<close> as a size_t, and \<open>m_entries[k]\<close>.\<close>

definition sizeOf :: "BackForwardList \<Rightarrow> 64 word" where
  "sizeOf s = of_nat (length (m_entries s))"

definition intSize :: "BackForwardList \<Rightarrow> int" where
  "intSize s = sint (of_nat (length (m_entries s)) :: u32)"

definition entryAt :: "BackForwardList \<Rightarrow> nat \<Rightarrow> item option" where
  "entryAt s k = (if k < length (m_entries s) then Some (m_entries s ! k) else None)"

definition currentItem :: "BackForwardList \<Rightarrow> item option option" where
  "currentItem s =
     (if m_current s \<noteq> NoCurrentItemIndex then map_option Some (entryAt s (unat (m_current s))) else Some None)"

text \<open>The bodies of the loops that shorten the list from its end.\<close>

definition removeLastEntry :: "BackForwardList \<Rightarrow> BackForwardList" where
  "removeLastEntry s =
     (let item = last (m_entries s)
      in s\<lparr>m_entries := butlast (m_entries s), m_entryHash := m_entryHash s - {item},
           pageCache := removePage (Some item) (pageCache s)\<rparr>)"

function tossForward :: "64 word \<Rightarrow> BackForwardList \<Rightarrow> BackForwardList" where
  "tossForward target s = (if target < sizeOf s then tossForward target (removeLastEntry s) else s)"
  by pat_completeness auto
termination
proof (relation "measure (\<lambda>(_, s). length (m_entries s))")
  fix target :: "64 word" and s
  assume "target < sizeOf s"
  then have "m_entries s \<noteq> []" by (auto simp: sizeOf_def)
  then show "((target, removeLastEntry s), target, s) \<in> measure (\<lambda>(_, s). length (m_entries s))"
    by (simp add: removeLastEntry_def Let_def)
qed simp

function shrink :: "int \<Rightarrow> BackForwardList \<Rightarrow> BackForwardList option" where
  "shrink newSize s =
     (if newSize < intSize s
      then if m_entries s = [] then None else shrink newSize (removeLastEntry s)
      else Some s)"
  by pat_completeness auto
termination
  by (relation "measure (\<lambda>(_, s). length (m_entries s))") (auto simp: removeLastEntry_def Let_def)

definition insertAt :: "nat \<Rightarrow> 'a \<Rightarrow> 'a list \<Rightarrow> 'a list option" where
  "insertAt k x xs = (if k \<le> length xs then Some (take k xs @ x # drop k xs) else None)"

definition tossFirst :: "BackForwardList \<Rightarrow> BackForwardList option" where
  "tossFirst s =
     (if sizeOf s = ucast (m_capacity s) \<and> (m_current s \<noteq> 0 \<or> m_capacity s = 1)
      then case m_entries s of
             [] \<Rightarrow> None
           | item # rest \<Rightarrow>
               Some (dispatch (DidRemove item)
                 (s\<lparr>m_entries := rest, m_entryHash := m_entryHash s - {item},
                    pageCache := removePage (Some item) (pageCache s), m_current := m_current s - 1\<rparr>))
      else Some s)"

definition addItem :: "item option \<Rightarrow> BackForwardList \<Rightarrow> BackForwardList option" where
  "addItem prpItem s =
     (if m_capacity s = 0 \<or> \<not> m_enabled s then Some s
      else case prpItem of
        None \<Rightarrow> None
      | Some item \<Rightarrow>
          let s = (if m_current s \<noteq> NoCurrentItemIndex then tossForward (ucast (m_current s + 1)) s else s)
          in Option.bind (tossFirst s) (\<lambda>s.
             Option.bind (insertAt (unat (m_current s + 1)) item (m_entries s)) (\<lambda>es.
               let s = s\<lparr>m_entryHash := insert item (m_entryHash s), m_entries := es, m_current := m_current s + 1\<rparr>
               in map_option (\<lambda>c. case c of Some i \<Rightarrow> dispatch (DidAdd i) s | None \<Rightarrow> s) (currentItem s))))"

definition goBack :: "BackForwardList \<Rightarrow> BackForwardList" where
  "goBack s = (if 0 < m_current s then dispatch DidChangeIndex (s\<lparr>m_current := m_current s - 1\<rparr>) else s)"

definition goForward :: "BackForwardList \<Rightarrow> BackForwardList" where
  "goForward s =
     (if ucast (m_current s) < sizeOf s - 1 then dispatch DidChangeIndex (s\<lparr>m_current := m_current s + 1\<rparr>) else s)"

fun indexOf :: "item \<Rightarrow> item list \<Rightarrow> nat \<Rightarrow> nat" where
  "indexOf x [] k = k"
| "indexOf x (y # ys) k = (if y = x then k else indexOf x ys (Suc k))"

definition goToItem :: "item option \<Rightarrow> BackForwardList \<Rightarrow> BackForwardList" where
  "goToItem item s =
     (case item of
        None \<Rightarrow> s
      | Some item \<Rightarrow>
          if m_entries s = [] then s
          else let index = indexOf item (m_entries s) 0
               in if index < length (m_entries s)
                  then dispatch DidChangeIndex (s\<lparr>m_current := of_nat index\<rparr>) else s)"

definition backItem :: "BackForwardList \<Rightarrow> item option option" where
  "backItem s =
     (if m_current s \<noteq> 0 \<and> m_current s \<noteq> NoCurrentItemIndex
      then map_option Some (entryAt s (unat (m_current s - 1))) else Some None)"

definition forwardItem :: "BackForwardList \<Rightarrow> item option option" where
  "forwardItem s =
     (if sizeOf s \<noteq> 0 \<and> ucast (m_current s) < sizeOf s - 1
      then map_option Some (entryAt s (unat (m_current s + 1))) else Some None)"

text \<open>Appending the entries from \<open>k\<close> on, \<open>n\<close> of them.\<close>

fun appendEntries :: "BackForwardList \<Rightarrow> nat \<Rightarrow> nat \<Rightarrow> item list option" where
  "appendEntries s k 0 = Some []"
| "appendEntries s k (Suc n) =
     Option.bind (entryAt s k) (\<lambda>i. map_option ((#) i) (appendEntries s (Suc k) n))"

text \<open>\<open>(int)m_current - limit\<close> is taken over the integers: its range is a lemma below.\<close>

definition backListWithLimit :: "int \<Rightarrow> BackForwardList \<Rightarrow> item list option" where
  "backListWithLimit limit s =
     (if m_current s \<noteq> NoCurrentItemIndex
      then let start = nat (max (sint (m_current s) - limit) 0)
           in appendEntries s start (unat (m_current s) - start)
      else Some [])"

definition forwardListWithLimit :: "int \<Rightarrow> BackForwardList \<Rightarrow> item list option" where
  "forwardListWithLimit limit s =
     (if m_entries s = [] then Some []
      else let lastEntry = ucast (sizeOf s - 1) :: u32
           in if m_current s < lastEntry
              then let stop = sint (min (m_current s + word_of_int limit) lastEntry);
                       start = sint (m_current s + 1)
                   in appendEntries s (nat start) (nat (stop + 1 - start))
              else Some [])"

definition capacity :: "BackForwardList \<Rightarrow> int" where
  "capacity s = sint (m_capacity s)"

definition setCapacity :: "int \<Rightarrow> BackForwardList \<Rightarrow> BackForwardList option" where
  "setCapacity newSize s =
     Option.bind (shrink newSize s) (\<lambda>s.
       let s = (if newSize = 0 then s\<lparr>m_current := NoCurrentItemIndex\<rparr>
                else if sizeOf s - 1 < ucast (m_current s)
                then dispatch DidChangeIndex (s\<lparr>m_current := ucast (sizeOf s - 1)\<rparr>)
                else s)
       in Some (s\<lparr>m_capacity := word_of_int newSize\<rparr>))"

definition setEnabled :: "bool \<Rightarrow> BackForwardList \<Rightarrow> BackForwardList option" where
  "setEnabled enabled s =
     (let s = s\<lparr>m_enabled := enabled\<rparr>
      in if \<not> enabled
         then let c = capacity s in Option.bind (setCapacity 0 s) (setCapacity c)
         else Some s)"

definition backListCount :: "BackForwardList \<Rightarrow> int" where
  "backListCount s = (if m_current s = NoCurrentItemIndex then 0 else sint (m_current s))"

definition forwardListCount :: "BackForwardList \<Rightarrow> int" where
  "forwardListCount s =
     (if m_current s = NoCurrentItemIndex then 0
      else sint (of_nat (length (m_entries s)) - (m_current s + 1) :: u32))"

text \<open>The index of the access is the sum of an int and an unsigned, which is unsigned.\<close>

definition itemAtIndex :: "int \<Rightarrow> BackForwardList \<Rightarrow> item option option" where
  "itemAtIndex index s =
     (if index < - sint (m_current s) then Some None
      else if forwardListCount s < index then Some None
      else map_option Some (entryAt s (unat (word_of_int index + m_current s))))"

definition entries :: "BackForwardList \<Rightarrow> item list" where
  "entries s = m_entries s"

definition pushStateItem :: "item \<Rightarrow> BackForwardList \<Rightarrow> BackForwardList option" where
  "pushStateItem newItem s =
     Option.bind (currentItem s) (\<lambda>current.
     case current of
       None \<Rightarrow> None
     | Some current \<Rightarrow>
         Option.bind (addItem (Some newItem) s) (\<lambda>s.
         let f = items (pageCache s)
         in Some (if \<not> m_stateObject (f current)
                  then s\<lparr>pageCache := (pageCache s)\<lparr>items := f(current := (f current)\<lparr>m_stateObject := True\<rparr>)\<rparr>\<rparr>
                  else s)))"

definition closeList :: "BackForwardList \<Rightarrow> BackForwardList" where
  "closeList s =
     s\<lparr>pageCache := fold (\<lambda>i. removePage (Some i)) (m_entries s) (pageCache s),
       m_entries := [], m_entryHash := {}, m_page := False, m_closed := True\<rparr>"

definition removeItem :: "item option \<Rightarrow> BackForwardList \<Rightarrow> BackForwardList" where
  "removeItem item s =
     (case item of
        None \<Rightarrow> s
      | Some item \<Rightarrow>
          let i = indexOf item (m_entries s) 0
          in if i < length (m_entries s)
             then let s = s\<lparr>m_entries := take i (m_entries s) @ drop (Suc i) (m_entries s),
                            m_entryHash := m_entryHash s - {item}\<rparr>
                  in if m_current s = NoCurrentItemIndex \<or> m_current s < of_nat i then s
                     else if of_nat i < m_current s then s\<lparr>m_current := m_current s - 1\<rparr>
                     else let count = sizeOf s
                          in if count \<le> ucast (m_current s)
                             then s\<lparr>m_current := (if count \<noteq> 0 then ucast (count - 1) else NoCurrentItemIndex)\<rparr>
                             else s
             else s)"

definition containsItem :: "item \<Rightarrow> BackForwardList \<Rightarrow> bool" where
  "containsItem entry s = (entry \<in> m_entryHash s)"

definition clearWMLPageHistory :: "BackForwardList \<Rightarrow> BackForwardList option" where
  "clearWMLPageHistory s =
     Option.bind (currentItem s) (\<lambda>currentItem.
       addItem currentItem
         (s\<lparr>pageCache := fold (\<lambda>i. removePage (Some i)) (m_entries s) (pageCache s),
            m_entries := [], m_entryHash := {}, m_current := NoCurrentItemIndex\<rparr>))"

declare tossForward.simps [simp del] shrink.simps [simp del]

lemma sint_of_nat_small: "n < 2 ^ 31 \<Longrightarrow> sint (of_nat n :: u32) = int n"
  by (simp add: signed_of_nat signed_take_bit_int_eq_self)

subsection \<open>The history that a list stands for\<close>

text \<open>Nothing, or a current item with the items behind it and the items in front of it.\<close>

datatype history = Empty | At "item list" item "item list"

fun itemsOf :: "history \<Rightarrow> item list" where
  "itemsOf Empty = []"
| "itemsOf (At b c f) = b @ c # f"

fun currentIndex :: "history \<Rightarrow> u32" where
  "currentIndex Empty = NoCurrentItemIndex"
| "currentIndex (At b c f) = of_nat (length b)"

definition bounded :: "BackForwardList \<Rightarrow> bool" where
  "bounded s \<longleftrightarrow> length (m_entries s) \<le> unat (m_capacity s) \<and> unat (m_capacity s) < 2 ^ 31 \<and>
     distinct (m_entries s) \<and> m_entryHash s = set (m_entries s) \<and> consistent (pageCache s)"

definition presents :: "BackForwardList \<Rightarrow> history \<Rightarrow> bool" where
  "presents s h \<longleftrightarrow> bounded s \<and> m_entries s = itemsOf h \<and> m_current s = currentIndex h"

lemma sizeOf_unat: "length (m_entries s) < 2 ^ 31 \<Longrightarrow> unat (sizeOf s) = length (m_entries s)"
  by (simp add: sizeOf_def unat_of_nat)

lemma bounded_length: "bounded s \<Longrightarrow> length (m_entries s) < 2 ^ 31"
  by (simp add: bounded_def)

lemma index_unat: "presents s (At b c f) \<Longrightarrow> unat (m_current s) = length b"
  using bounded_length [of s] by (simp add: presents_def unat_of_nat)

lemma index_not_none: "presents s (At b c f) \<Longrightarrow> m_current s \<noteq> NoCurrentItemIndex"
  using index_unat [of s b c f] bounded_length [of s] by (auto simp: presents_def NoCurrentItemIndex_def)

lemma before_last:
  assumes "presents s (At b c f)"
  shows "ucast (m_current s) < sizeOf s - 1 \<longleftrightarrow> f \<noteq> []"
proof -
  have l: "length (m_entries s) = Suc (length b + length f)" "length (m_entries s) < 2 ^ 31"
    using assms bounded_length [of s] by (simp_all add: presents_def)
  have "unat (sizeOf s - 1) = length b + length f"
    using l sizeOf_unat [OF l(2)] by (simp add: unat_sub_if' word_le_nat_alt)
  moreover have "unat (ucast (m_current s) :: 64 word) = length b"
    using index_unat [OF assms] l by (simp add: unat_ucast_mod)
  ultimately show ?thesis by (simp add: word_less_nat_alt)
qed

lemma presents_dispatch [simp]: "presents (dispatch e s) h = presents s h"
  by (simp add: dispatch_def presents_def bounded_def)

lemma bounded_current [simp]: "bounded (s\<lparr>m_current := k\<rparr>) = bounded s"
  by (simp add: bounded_def)

subsection \<open>Shortening the list\<close>

definition dropTo :: "nat \<Rightarrow> BackForwardList \<Rightarrow> BackForwardList" where
  "dropTo k s =
     s\<lparr>m_entries := take k (m_entries s), m_entryHash := m_entryHash s - set (drop k (m_entries s)),
       pageCache := fold (\<lambda>i. removePage (Some i)) (rev (drop k (m_entries s))) (pageCache s)\<rparr>"

lemma dropTo_removeLastEntry:
  assumes "k < length (m_entries s)"
  shows "dropTo k (removeLastEntry s) = dropTo k s"
proof -
  obtain xs x where "m_entries s = xs @ [x]" using assms by (cases "m_entries s" rule: rev_cases) auto
  moreover have "m_entryHash s - insert x (set (drop k xs)) = m_entryHash s - {x} - set (drop k xs)" by blast
  ultimately show ?thesis using assms by (simp add: dropTo_def removeLastEntry_def Let_def)
qed

lemma length_removeLastEntry [simp]: "length (m_entries (removeLastEntry s)) = length (m_entries s) - 1"
  by (simp add: removeLastEntry_def Let_def)

lemma tossForward_dropTo:
  "length (m_entries s) < 2 ^ 31 \<Longrightarrow> tossForward target s = dropTo (unat target) s"
proof (induction "length (m_entries s)" arbitrary: s)
  case 0
  then show ?case by (subst tossForward.simps) (simp add: sizeOf_def dropTo_def)
next
  case (Suc n)
  have i: "target < sizeOf s \<longleftrightarrow> unat target < length (m_entries s)"
    using sizeOf_unat [of s] Suc.prems by (simp add: word_less_nat_alt)
  have l: "n = length (m_entries (removeLastEntry s))" using Suc.hyps(2) by simp
  show ?case
  proof (cases "target < sizeOf s")
    case True
    have "tossForward target (removeLastEntry s) = dropTo (unat target) (removeLastEntry s)"
      by (rule Suc.hyps(1) [OF l]) (use Suc.prems in simp)
    then show ?thesis using True i by (subst tossForward.simps) (simp add: dropTo_removeLastEntry)
  next
    case False
    then show ?thesis using i by (subst tossForward.simps) (simp add: dropTo_def)
  qed
qed

lemma shrink_dropTo:
  "length (m_entries s) < 2 ^ 31 \<Longrightarrow> 0 \<le> n \<Longrightarrow> shrink n s = Some (dropTo (nat n) s)"
proof (induction "length (m_entries s)" arbitrary: s)
  case 0
  then show ?case by (subst shrink.simps) (simp add: intSize_def dropTo_def)
next
  case (Suc m)
  have i: "n < intSize s \<longleftrightarrow> nat n < length (m_entries s)"
    using Suc.prems unfolding intSize_def by (subst sint_of_nat_small) auto
  have l: "m = length (m_entries (removeLastEntry s))" using Suc.hyps(2) by simp
  show ?case
  proof (cases "n < intSize s")
    case True
    have "shrink n (removeLastEntry s) = Some (dropTo (nat n) (removeLastEntry s))"
      by (rule Suc.hyps(1) [OF l]) (use Suc.prems in simp_all)
    then show ?thesis using True i by (subst shrink.simps) (auto simp: dropTo_removeLastEntry)
  next
    case False
    then show ?thesis using i by (subst shrink.simps) (simp add: dropTo_def)
  qed
qed

lemma dropTo_bounded:
  assumes "bounded s"
  shows "bounded (dropTo k s)"
proof -
  have "distinct (take k (m_entries s) @ drop k (m_entries s))" using assms by (simp add: bounded_def)
  then have "set (take k (m_entries s)) \<inter> set (drop k (m_entries s)) = {}" by (simp only: distinct_append)
  moreover have "set (m_entries s) = set (take k (m_entries s)) \<union> set (drop k (m_entries s))"
    by (metis append_take_drop_id set_append)
  ultimately show ?thesis using assms cache.fold_evict_wf by (auto simp: bounded_def dropTo_def)
qed

lemma dropTo_cached:
  "bounded s \<Longrightarrow> isCached (pageCache (dropTo k s)) i \<longleftrightarrow> isCached (pageCache s) i \<and> i \<notin> set (drop k (m_entries s))"
  by (simp add: dropTo_def bounded_def cache.fold_evict_cached)

lemma dropTo_simps [simp]:
  "m_entries (dropTo k s) = take k (m_entries s)" "m_current (dropTo k s) = m_current s"
  "m_capacity (dropTo k s) = m_capacity s" "m_enabled (dropTo k s) = m_enabled s" "m_page (dropTo k s) = m_page s"
  by (simp_all add: dropTo_def)

subsection \<open>What the operations mean for the history\<close>

fun visit :: "nat \<Rightarrow> item \<Rightarrow> history \<Rightarrow> history" where
  "visit n i Empty = At [] i []"
| "visit n i (At b c f) = At (drop (length b + 2 - n) (b @ [c])) i []"

fun moveBack :: "history \<Rightarrow> history" where
  "moveBack (At (x # b) c f) = At (butlast (x # b)) (last (x # b)) (c # f)"
| "moveBack h = h"

fun moveForward :: "history \<Rightarrow> history" where
  "moveForward (At b c (y # f)) = At (b @ [c]) y f"
| "moveForward h = h"

definition moveTo :: "item \<Rightarrow> history \<Rightarrow> history" where
  "moveTo i h =
     (if i \<in> set (itemsOf h)
      then At (takeWhile (\<lambda>x. x \<noteq> i) (itemsOf h)) i (tl (dropWhile (\<lambda>x. x \<noteq> i) (itemsOf h)))
      else h)"

fun limit :: "nat \<Rightarrow> history \<Rightarrow> history" where
  "limit n Empty = Empty"
| "limit n (At b c f) =
     (if n = 0 then Empty
      else if n \<le> length b then At (take (n - 1) b) (b ! (n - 1)) []
      else At b c (take (n - length b - 1) f))"

fun forget :: "item \<Rightarrow> history \<Rightarrow> history" where
  "forget i Empty = Empty"
| "forget i (At b c f) =
     (if i \<in> set b then At (remove1 i b) c f
      else if i \<noteq> c then At b c (remove1 i f)
      else case f of
             y # f' \<Rightarrow> At b y f'
           | [] \<Rightarrow> if b = [] then Empty else At (butlast b) (last b) [])"

subsection \<open>Moving\<close>

lemma goBack_presents:
  assumes "presents s h" "h \<noteq> Empty"
  shows "presents (goBack s) (moveBack h)"
proof -
  obtain b c f where h: "h = At b c f" using assms(2) by (cases h) auto
  have u: "unat (m_current s) = length b" using assms h index_unat by blast
  show ?thesis
  proof (cases b rule: rev_cases)
    case Nil
    then have "\<not> 0 < m_current s" using u by (simp add: word_less_nat_alt)
    then show ?thesis using assms h Nil by (simp add: goBack_def)
  next
    case (snoc b' x)
    then have "0 < m_current s" using u by (simp add: word_less_nat_alt)
    moreover have "m_current s - 1 = of_nat (length b')"
      using assms h snoc by (simp add: presents_def)
    moreover have "moveBack h = At b' x (c # f)"
      by (cases b') (simp_all add: h snoc)
    ultimately show ?thesis using assms h snoc by (simp add: goBack_def) (simp add: presents_def)
  qed
qed

lemma goForward_presents:
  assumes "presents s h" "h \<noteq> Empty"
  shows "presents (goForward s) (moveForward h)"
proof -
  obtain b c f where h: "h = At b c f" using assms(2) by (cases h) auto
  have i: "ucast (m_current s) < sizeOf s - 1 \<longleftrightarrow> f \<noteq> []" using assms h before_last by blast
  show ?thesis
  proof (cases f)
    case Nil
    then show ?thesis using assms h i by (simp add: goForward_def)
  next
    case (Cons y f')
    then show ?thesis using assms h i by (simp add: goForward_def) (simp add: presents_def)
  qed
qed

lemma indexOf_shift: "indexOf x xs k = k + length (takeWhile (\<lambda>y. y \<noteq> x) xs)"
  by (induction xs arbitrary: k) auto

lemma indexOf_0: "indexOf x xs 0 = length (takeWhile (\<lambda>y. y \<noteq> x) xs)"
  by (simp add: indexOf_shift)

lemma length_takeWhile_less_iff: "length (takeWhile (\<lambda>y. y \<noteq> x) xs) < length xs \<longleftrightarrow> x \<in> set xs"
  by (induction xs) auto

lemma split_at_item: "x \<in> set xs \<Longrightarrow> takeWhile (\<lambda>y. y \<noteq> x) xs @ x # tl (dropWhile (\<lambda>y. y \<noteq> x) xs) = xs"
  by (induction xs) auto

lemma goToItem_presents:
  assumes "presents s h"
  shows "presents (goToItem (Some i) s) (moveTo i h)"
proof (cases "i \<in> set (itemsOf h)")
  case True
  then have "m_entries s \<noteq> []" "indexOf i (m_entries s) 0 < length (m_entries s)"
    using assms by (auto simp: presents_def indexOf_0 length_takeWhile_less_iff)
  then show ?thesis using assms True split_at_item [OF True]
    by (simp add: goToItem_def moveTo_def) (simp add: presents_def indexOf_0)
next
  case False
  then show ?thesis using assms
    by (auto simp: goToItem_def moveTo_def presents_def indexOf_0 length_takeWhile_less_iff)
qed

subsection \<open>Reading\<close>

lemma currentItem_presents:
  "presents s h \<Longrightarrow> currentItem s = Some (case h of Empty \<Rightarrow> None | At b c f \<Rightarrow> Some c)"
  using index_unat [of s] index_not_none [of s]
  by (cases h) (auto simp: currentItem_def entryAt_def presents_def)

lemma backItem_presents:
  assumes "presents s h"
  shows "backItem s = Some (case h of At (x # b) c f \<Rightarrow> Some (last (x # b)) | _ \<Rightarrow> None)"
proof (cases h)
  case Empty
  then show ?thesis using assms by (simp add: backItem_def presents_def)
next
  case (At b c f)
  have u: "unat (m_current s) = length b" and n: "m_current s \<noteq> NoCurrentItemIndex"
    using assms At index_unat index_not_none by blast+
  show ?thesis
  proof (cases b rule: rev_cases)
    case Nil
    then show ?thesis using u At by (simp add: backItem_def unat_eq_0)
  next
    case (snoc b' x)
    then have "m_current s \<noteq> 0" using u by auto
    moreover have "unat (m_current s - 1) = length b'" using u snoc \<open>m_current s \<noteq> 0\<close>
      by (simp add: unat_minus_one)
    ultimately show ?thesis using n At snoc assms
      by (cases b') (simp_all add: backItem_def entryAt_def presents_def nth_append)
  qed
qed

lemma forwardItem_presents:
  assumes "presents s h"
  shows "forwardItem s = Some (case h of At b c (y # f) \<Rightarrow> Some y | _ \<Rightarrow> None)"
proof (cases h)
  case Empty
  then show ?thesis using assms by (simp add: forwardItem_def presents_def sizeOf_def)
next
  case (At b c f)
  have u: "unat (m_current s) = length b" and i: "ucast (m_current s) < sizeOf s - 1 \<longleftrightarrow> f \<noteq> []"
    using assms At index_unat before_last by blast+
  have l: "length (m_entries s) < 2 ^ 31" "m_entries s = b @ c # f"
    using assms At bounded_length [of s] by (simp_all add: presents_def)
  have "unat (m_current s + 1) = Suc (length b)"
    using u l by (simp add: unat_word_ariths)
  moreover have "sizeOf s \<noteq> 0" using sizeOf_unat [OF l(1)] l(2) by auto
  ultimately show ?thesis using At l i
    by (cases f) (auto simp: forwardItem_def entryAt_def nth_append)
qed

subsection \<open>Adding\<close>

lemma dispatch_simps [simp]:
  "m_entries (dispatch e s) = m_entries s" "m_current (dispatch e s) = m_current s"
  "m_capacity (dispatch e s) = m_capacity s" "m_enabled (dispatch e s) = m_enabled s"
  "pageCache (dispatch e s) = pageCache s" "m_entryHash (dispatch e s) = m_entryHash s" "m_page (dispatch e s) = m_page s"
  by (simp_all add: dispatch_def)

lemma bounded_dispatch [simp]: "bounded (dispatch e s) = bounded s"
  by (simp add: bounded_def)

lemma tossForward_presents:
  assumes "presents s (At b c f)"
  shows "presents (tossForward (ucast (m_current s + 1)) s) (At b c [])"
proof -
  have l: "length (m_entries s) < 2 ^ 31" "m_entries s = b @ c # f"
    using assms bounded_length [of s] by (simp_all add: presents_def)
  have "unat (m_current s + 1) = Suc (length b)"
    using index_unat [OF assms] l by (simp add: unat_word_ariths)
  then have "unat (ucast (m_current s + 1) :: 64 word) = Suc (length b)"
    using l by (simp add: unat_ucast_mod)
  then have "tossForward (ucast (m_current s + 1)) s = dropTo (Suc (length b)) s"
    using tossForward_dropTo [OF l(1)] by simp
  then show ?thesis using assms dropTo_bounded [of s] by (simp add: presents_def)
qed

text \<open>A list that is ready for one more item: the item goes to the position after the current one.\<close>

definition ready :: "BackForwardList \<Rightarrow> item list \<Rightarrow> bool" where
  "ready s es \<longleftrightarrow> bounded s \<and> m_entries s = es \<and> m_current s = of_nat (length es) - 1 \<and> length es < unat (m_capacity s)"

lemma sizeOf_is_capacity:
  "bounded s \<Longrightarrow> sizeOf s = ucast (m_capacity s) \<longleftrightarrow> length (m_entries s) = unat (m_capacity s)"
  using sizeOf_unat [of s] bounded_length [of s]
  by (auto simp: word_unat_eq_iff unat_ucast_mod bounded_def)

lemma tossFirst_ready:
  assumes "bounded s" "m_current s = of_nat (length (m_entries s)) - 1" "m_capacity s \<noteq> 0"
  shows "\<exists>s'. tossFirst s = Some s' \<and> ready s' (drop (length (m_entries s) + 1 - unat (m_capacity s)) (m_entries s)) \<and>
    m_capacity s' = m_capacity s \<and> m_enabled s' = m_enabled s"
proof (cases "length (m_entries s) = unat (m_capacity s)")
  case True
  have p: "0 < unat (m_capacity s)" using assms(3) by (simp add: unat_gt_0)
  then obtain x xs where e: "m_entries s = x # xs" using True by (cases "m_entries s") auto
  have "m_current s \<noteq> 0 \<or> m_capacity s = 1"
  proof (cases xs)
    case Nil
    then have "unat (m_capacity s) = unat (1 :: u32)" using True e by simp
    then have "m_capacity s = 1" by (rule word_eqI_unat)
    then show ?thesis by simp
  next
    case (Cons y ys)
    have "unat (m_current s) = Suc (length ys)"
      using assms e Cons bounded_length [of s] by (simp add: unat_of_nat del: of_nat_Suc) (simp add: unat_word_ariths unat_of_nat)
    then show ?thesis by auto
  qed
  then have t: "tossFirst s = Some (dispatch (DidRemove x)
      (s\<lparr>m_entries := xs, m_entryHash := m_entryHash s - {x},
         pageCache := removePage (Some x) (pageCache s), m_current := m_current s - 1\<rparr>))"
    using True e sizeOf_is_capacity [OF assms(1)] by (simp add: tossFirst_def)
  have "bounded (s\<lparr>m_entries := xs, m_entryHash := m_entryHash s - {x},
         pageCache := removePage (Some x) (pageCache s), m_current := m_current s - 1\<rparr>)"
    using assms(1) e cache.evict_wf by (auto simp: bounded_def)
  then show ?thesis using t assms(2) True e by (auto simp: ready_def)
next
  case False
  then have "length (m_entries s) < unat (m_capacity s)" using assms(1) by (simp add: bounded_def)
  then show ?thesis using False assms sizeOf_is_capacity [OF assms(1)] by (simp add: tossFirst_def ready_def)
qed

lemma insert_ready:
  assumes "ready s es" "i \<notin> set es"
  defines "s' \<equiv> s\<lparr>m_entryHash := insert i (m_entryHash s), m_entries := es @ [i], m_current := m_current s + 1\<rparr>"
  shows "insertAt (unat (m_current s + 1)) i (m_entries s) = Some (es @ [i])" "presents s' (At es i [])"
proof -
  have l: "length es < 2 ^ 31" using assms(1) bounded_length [of s] by (simp add: ready_def)
  then show "insertAt (unat (m_current s + 1)) i (m_entries s) = Some (es @ [i])"
    using assms(1) by (simp add: ready_def insertAt_def unat_of_nat)
  show "presents s' (At es i [])"
    using assms(1,2) by (auto simp: s'_def presents_def bounded_def ready_def)
qed

lemma addItem_presents:
  assumes "presents s h" "i \<notin> set (itemsOf h)" "m_capacity s \<noteq> 0" "m_enabled s"
  shows "\<exists>s'. addItem (Some i) s = Some s' \<and> presents s' (visit (unat (m_capacity s)) i h) \<and>
    m_capacity s' = m_capacity s \<and> m_enabled s' = m_enabled s"
proof -
  define s1 where "s1 = (if m_current s \<noteq> NoCurrentItemIndex then tossForward (ucast (m_current s + 1)) s else s)"
  define es where "es = (case h of Empty \<Rightarrow> [] | At b c f \<Rightarrow> b @ [c])"
  have s1: "bounded s1" "m_entries s1 = es" "m_current s1 = of_nat (length es) - 1"
    "m_capacity s1 = m_capacity s" "m_enabled s1 = m_enabled s"
  proof -
    have "bounded s1 \<and> m_entries s1 = es \<and> m_current s1 = of_nat (length es) - 1 \<and>
      m_capacity s1 = m_capacity s \<and> m_enabled s1 = m_enabled s"
    proof (cases h)
      case Empty
      then show ?thesis using assms(1) by (simp add: s1_def es_def presents_def NoCurrentItemIndex_def)
    next
      case (At b c f)
      have "tossForward (ucast (m_current s + 1)) s = dropTo (unat (ucast (m_current s + 1) :: 64 word)) s"
        using assms(1) bounded_length [of s] by (intro tossForward_dropTo) (simp add: presents_def)
      then show ?thesis
        using At tossForward_presents [of s b c f] index_not_none [of s b c f] assms(1)
        by (simp add: s1_def es_def presents_def)
    qed
    then show "bounded s1" "m_entries s1 = es" "m_current s1 = of_nat (length es) - 1"
      "m_capacity s1 = m_capacity s" "m_enabled s1 = m_enabled s" by blast+
  qed
  let ?es = "drop (length es + 1 - unat (m_capacity s)) es"
  obtain s2 where s2: "tossFirst s1 = Some s2" "ready s2 ?es" "m_capacity s2 = m_capacity s" "m_enabled s2 = m_enabled s"
    using tossFirst_ready [of s1] s1 assms(3) by auto
  have "set es \<subseteq> set (itemsOf h)" by (cases h) (auto simp: es_def)
  then have n: "i \<notin> set ?es" using assms(2) by (meson in_mono set_drop_subset)
  let ?s = "s2\<lparr>m_entryHash := insert i (m_entryHash s2), m_entries := ?es @ [i], m_current := m_current s2 + 1\<rparr>"
  have p: "presents ?s (At ?es i [])" using insert_ready(2) [OF s2(2) n] .
  have "addItem (Some i) s = Some (dispatch (DidAdd i) ?s)"
    using assms(3,4) s2(1) insert_ready(1) [OF s2(2) n] currentItem_presents [OF p]
    by (simp add: addItem_def s1_def Let_def)
  moreover have "At ?es i [] = visit (unat (m_capacity s)) i h"
    using assms(3) by (cases h) (simp_all add: es_def del: drop_append)
  moreover have "m_capacity (dispatch (DidAdd i) ?s) = m_capacity s" "m_enabled (dispatch (DidAdd i) ?s) = m_enabled s"
    "presents (dispatch (DidAdd i) ?s) (At ?es i [])"
    using s2(3,4) p by simp_all
  ultimately show ?thesis by metis
qed

lemma addItem_ignored: "m_capacity s = 0 \<or> \<not> m_enabled s \<Longrightarrow> addItem i s = Some s"
  by (auto simp: addItem_def)

subsection \<open>Capacity\<close>

lemma presents_enabled: "presents (s\<lparr>m_enabled := e\<rparr>) h = presents s h"
  by (simp add: presents_def bounded_def)

lemma presents_dispatch_capacity:
  "presents ((dispatch e s)\<lparr>m_capacity := c\<rparr>) h = presents (s\<lparr>m_capacity := c\<rparr>) h"
  by (simp add: presents_def bounded_def)

lemma presents_distinct: "presents s h \<Longrightarrow> distinct (itemsOf h)"
  by (metis presents_def bounded_def)

lemma setCapacity_presents:
  assumes "presents s h" "0 \<le> n" "n < 2 ^ 31"
  shows "\<exists>s'. setCapacity n s = Some s' \<and> presents s' (limit (nat n) h) \<and> unat (m_capacity s') = nat n \<and>
    m_enabled s' = m_enabled s"
proof -
  let ?s = "dropTo (nat n) s"
  have l: "length (m_entries s) < 2 ^ 31" using assms(1) bounded_length [of s] by (simp add: presents_def)
  have sh: "shrink n s = Some ?s" by (rule shrink_dropTo [OF l assms(2)])
  have b: "bounded ?s" using assms(1) dropTo_bounded by (simp add: presents_def)
  have c: "unat (word_of_int n :: u32) = nat n" using assms by (simp add: unat_eq_nat_uint unsigned_of_int take_bit_int_eq_self)
  have fin: "presents (s1\<lparr>m_capacity := word_of_int n\<rparr>) h'"
    if s1: "m_entries s1 = itemsOf h'" "m_current s1 = currentIndex h'" "bounded s1" "length (m_entries s1) \<le> nat n" for s1 h'
    using s1 c assms(3) by (simp add: presents_def bounded_def)
  show ?thesis
  proof (cases "n = 0")
    case True
    have "presents (?s\<lparr>m_current := NoCurrentItemIndex, m_capacity := word_of_int n\<rparr>) (limit (nat n) h)"
      using fin [of "?s\<lparr>m_current := NoCurrentItemIndex\<rparr>" Empty] b True by (cases h) simp_all
    then show ?thesis using sh True c by (simp add: setCapacity_def)
  next
    case False
    show ?thesis
    proof (cases h)
      case Empty
      have e: "m_entries s = []" "m_current s = NoCurrentItemIndex" using assms(1) Empty by (simp_all add: presents_def)
      have "\<not> sizeOf ?s - 1 < ucast (m_current ?s)"
        using e by (simp add: sizeOf_def)
      then show ?thesis using sh False c fin [of ?s Empty] e b Empty by (simp add: setCapacity_def)
    next
      case (At bs x fs)
      have e: "m_entries s = bs @ x # fs" using assms(1) At by (simp add: presents_def)
      have u: "unat (m_current s) = length bs" using assms(1) At index_unat by blast
      have m: "unat (sizeOf ?s - 1) = min (nat n) (length (m_entries s)) - 1"
      proof -
        have "length (m_entries ?s) = min (nat n) (length (m_entries s))" by simp
        then have "unat (sizeOf ?s) = min (nat n) (length (m_entries s))" using l by (subst sizeOf_unat) linarith+
        moreover have "0 < min (nat n) (length (m_entries s))" using False assms(2) e by simp
        ultimately show ?thesis by (subst unat_sub) (auto simp: word_le_nat_alt Suc_le_eq)
      qed
      have "unat (ucast (m_current s) :: 64 word) = length bs"
        using u l e by (simp add: unat_ucast_mod)
      then have i: "sizeOf ?s - 1 < ucast (m_current ?s) \<longleftrightarrow> nat n \<le> length bs"
        using m e False assms by (auto simp: word_less_nat_alt)
      show ?thesis
      proof (cases "nat n \<le> length bs")
        case True
        have "unat (ucast (sizeOf ?s - 1) :: u32) = nat n - 1"
          using m True e l by (simp add: unat_ucast_mod min_def)
        then have k: "ucast (sizeOf ?s - 1) = (of_nat (nat n - 1) :: u32)"
          using l True e by (intro word_eqI_unat) (simp add: unat_of_nat)
        have t: "take (nat n) bs = take (nat n - 1) bs @ [bs ! (nat n - 1)]"
          using True False assms(2) take_Suc_conv_app_nth [of "nat n - 1" bs] by simp
        have "presents (?s\<lparr>m_current := ucast (sizeOf ?s - 1), m_capacity := word_of_int n\<rparr>) (limit (nat n) h)"
          using fin [of "?s\<lparr>m_current := ucast (sizeOf ?s - 1)\<rparr>" "limit (nat n) h"] b True False assms(2) t k e At
          by simp
        then show ?thesis using sh False i True c
          by (simp add: setCapacity_def presents_dispatch_capacity)
      next
        case outside: False
        have "presents (?s\<lparr>m_capacity := word_of_int n\<rparr>) (limit (nat n) h)"
          using fin [of ?s "limit (nat n) h"] b outside e At assms(1)
          by (simp add: presents_def take_Cons' Suc_diff_Suc)
        then show ?thesis using sh False i outside c by (simp add: setCapacity_def)
      qed
    qed
  qed
qed

lemma capacity_presents: "presents s h \<Longrightarrow> capacity s = int (unat (m_capacity s))"
  using sint_of_nat_small [of "unat (m_capacity s)"] by (simp add: capacity_def presents_def bounded_def)

lemma limit_0: "limit 0 h = Empty"
  by (cases h) simp_all

lemma capacity_range:
  assumes "presents s h"
  shows "0 \<le> capacity s" "capacity s < 2 ^ 31" "nat (capacity s) = unat (m_capacity s)"
proof -
  define k where "k = unat (m_capacity s)"
  have "k < 2 ^ 31" "capacity s = int k"
    using assms capacity_presents [OF assms] by (simp_all add: presents_def bounded_def k_def)
  then have "0 \<le> capacity s \<and> capacity s < 2 ^ 31 \<and> nat (capacity s) = k" by simp
  then show "0 \<le> capacity s" "capacity s < 2 ^ 31" "nat (capacity s) = unat (m_capacity s)"
    unfolding k_def by blast+
qed

subsection \<open>Removing\<close>

lemma takeWhile_drop_remove1:
  "take (length (takeWhile (\<lambda>y. y \<noteq> x) xs)) xs @ drop (Suc (length (takeWhile (\<lambda>y. y \<noteq> x) xs))) xs = remove1 x xs"
  by (induction xs) auto

lemma removeItem_presents:
  assumes "presents s h"
  shows "presents (removeItem (Some i) s) (forget i h) \<and>
    m_capacity (removeItem (Some i) s) = m_capacity s \<and> m_enabled (removeItem (Some i) s) = m_enabled s"
proof (cases h)
  case Empty
  then show ?thesis using assms by (simp add: removeItem_def presents_def)
next
  case (At b c f)
  have e: "m_entries s = b @ c # f" "distinct (b @ c # f)" and bd: "bounded s"
    using assms At presents_distinct [OF assms] by (simp_all add: presents_def)
  have l: "length b + length f + 1 < 2 ^ 31" using bounded_length [OF bd] e by simp
  have u: "unat (m_current s) = length b" and nn: "m_current s \<noteq> NoCurrentItemIndex"
    using assms At index_unat index_not_none by blast+
  have cur: "m_current s = of_nat (length b)" using assms At by (simp add: presents_def)
  define k where "k = indexOf i (m_entries s) 0"
  define s1 where "s1 = s\<lparr>m_entries := remove1 i (m_entries s), m_entryHash := m_entryHash s - {i}\<rparr>"
  have s1: "bounded s1" using bd e unfolding s1_def bounded_def
    by (auto simp: set_remove1_eq length_remove1)
  have r: "removeItem (Some i) s =
      (if k < length (m_entries s)
       then if unat (m_current s) < k then s1
            else if k < unat (m_current s) then s1\<lparr>m_current := m_current s - 1\<rparr>
            else if sizeOf s1 \<le> ucast (m_current s)
            then s1\<lparr>m_current := (if sizeOf s1 \<noteq> 0 then ucast (sizeOf s1 - 1) else NoCurrentItemIndex)\<rparr>
            else s1
       else s)"
  proof -
    have "unat (of_nat k :: u32) = k" if "k < length (m_entries s)"
      using that l e by (simp add: unat_of_nat)
    then show ?thesis using nn
      by (auto simp: removeItem_def k_def [symmetric] s1_def word_less_nat_alt Let_def indexOf_0 takeWhile_drop_remove1 k_def)
  qed
  consider "i \<in> set b" | "i \<notin> set b" "i = c" | "i \<notin> set b" "i \<in> set f" "i \<noteq> c" | "i \<notin> set (b @ c # f)" by auto
  then show ?thesis
  proof cases
    case 1
    then have k: "k < length b" using e length_takeWhile_less_iff [of i b]
      by (simp add: k_def indexOf_0 takeWhile_append2 takeWhile_append)
    have "length b = Suc (length (remove1 i b))" using 1 by (simp add: length_remove1) (metis Suc_pred length_pos_if_in_set)
    then have "m_current s - 1 = of_nat (length (remove1 i b))" using cur by (metis add_diff_cancel_left' of_nat_Suc)
    moreover have "i \<noteq> c" "i \<notin> set f" using 1 e by auto
    ultimately show ?thesis using r k u e s1 1 At by (simp add: presents_def s1_def remove1_append)
  next
    case 2
    have "takeWhile (\<lambda>y. y \<noteq> i) (b @ c # f) = b"
      using 2 by (subst takeWhile_append2) auto
    then have k: "k = length b" using e by (simp add: k_def indexOf_0)
    have m1: "m_entries s1 = b @ f" using 2 e by (simp add: s1_def remove1_append)
    have sz: "unat (sizeOf s1) = length b + length f" using sizeOf_unat [of s1] m1 l by simp
    have cu: "unat (ucast (m_current s) :: 64 word) = length b" using u l by (simp add: unat_ucast_mod)
    have r': "removeItem (Some i) s =
      (if f = [] then s1\<lparr>m_current := (if b \<noteq> [] then ucast (sizeOf s1 - 1) else NoCurrentItemIndex)\<rparr> else s1)"
      using r k u e sz cu by (auto simp: word_le_nat_alt unat_eq_0 simp flip: unat_eq_0)
    show ?thesis
    proof (cases f)
      case (Cons y f')
      then show ?thesis using r' 2 At m1 s1 cur by (simp add: presents_def s1_def)
    next
      case Nil
      show ?thesis
      proof (cases b rule: rev_cases)
        case (snoc b' x)
        have "unat (ucast (sizeOf s1 - 1) :: u32) = length b'"
          using sz Nil snoc l by (simp add: unat_ucast_mod unat_sub_if' word_le_nat_alt)
        then have "ucast (sizeOf s1 - 1) = (of_nat (length b') :: u32)" using l snoc by (intro word_eqI_unat) (simp add: unat_of_nat)
        then show ?thesis using r' 2 At m1 s1 snoc Nil by (simp add: presents_def s1_def)
      qed (use r' 2 At m1 s1 Nil in \<open>simp add: presents_def s1_def\<close>)
    qed
  next
    case 3
    have "takeWhile (\<lambda>y. y \<noteq> i) (b @ c # f) = b @ c # takeWhile (\<lambda>y. y \<noteq> i) f"
      using 3 by (subst takeWhile_append2) auto
    then have "length b < k" "k < length (m_entries s)" using 3 e length_takeWhile_less_iff [of i f]
      by (simp_all add: k_def indexOf_0)
    then show ?thesis using r u e s1 3 At assms by (simp add: presents_def s1_def remove1_append)
  next
    case 4
    then have "\<not> k < length (m_entries s)" using e length_takeWhile_less_iff [of i "m_entries s"]
      by (simp add: k_def indexOf_0)
    then show ?thesis using r 4 At assms by (simp add: remove1_idem)
  qed
qed

end
