(* ===== verification/SessionHistory.thy ===== *)
theory SessionHistory
  imports BackForwardList
begin

section \<open>The back/forward list and the page cache together\<close>

text \<open>
  The operations of theory BackForwardList as the steps of a state machine, next to their
  specification on a history that has a current item, items behind it and items in front
  of it. The theorems are about the reachable states.
\<close>

subsection \<open>The page cache holds items of the list only\<close>

definition cachedWithin :: "item set \<Rightarrow> BackForwardList \<Rightarrow> bool" where
  "cachedWithin X s \<longleftrightarrow> (\<forall>i. isCached (pageCache s) i \<longrightarrow> i \<in> set (m_entries s) \<union> X)"

lemma cachedWithin_dispatch [simp]: "cachedWithin X (dispatch e s) = cachedWithin X s"
  by (simp add: cachedWithin_def)

lemma cachedWithin_dropTo:
  assumes "bounded s" "cachedWithin X s"
  shows "cachedWithin X (dropTo k s)"
proof -
  have "set (m_entries s) = set (take k (m_entries s)) \<union> set (drop k (m_entries s))"
    by (metis append_take_drop_id set_append)
  then show ?thesis using assms by (auto simp: cachedWithin_def dropTo_cached)
qed

lemma cachedWithin_tossFirst:
  assumes "bounded s" "cachedWithin X s" "tossFirst s = Some s'"
  shows "cachedWithin X s'"
  using assms cache.evict_cached [of "pageCache s"]
  by (auto simp: tossFirst_def cachedWithin_def bounded_def split: if_splits list.splits)

lemma cachedWithin_addItem:
  assumes "presents s h" "cachedWithin X s" "addItem (Some i) s = Some s'"
  shows "cachedWithin X s'"
proof (cases "m_capacity s = 0 \<or> \<not> m_enabled s")
  case True
  then show ?thesis using assms by (simp add: addItem_ignored)
next
  case False
  define s1 where "s1 = (if m_current s \<noteq> NoCurrentItemIndex then tossForward (ucast (m_current s + 1)) s else s)"
  have b: "bounded s" using assms(1) by (simp add: presents_def)
  then have l: "length (m_entries s) < 2 ^ 31" by (rule bounded_length)
  have s1: "bounded s1" "cachedWithin X s1"
    using b assms(2) tossForward_dropTo [OF l] cachedWithin_dropTo dropTo_bounded by (simp_all add: s1_def)
  obtain s2 es where s2: "tossFirst s1 = Some s2" "insertAt (unat (m_current s2 + 1)) i (m_entries s2) = Some es"
    and s': "pageCache s' = pageCache s2" "m_entries s' = es"
    using assms(3) False by (auto simp: addItem_def s1_def Let_def bind_eq_Some_conv split: option.splits)
  have "set es = insert i (set (m_entries s2))"
  proof -
    have "set (m_entries s2) = set (take k (m_entries s2)) \<union> set (drop k (m_entries s2))" for k
      by (metis append_take_drop_id set_append)
    then show ?thesis using s2(2) by (auto simp: insertAt_def split: if_splits)
  qed
  then show ?thesis using cachedWithin_tossFirst [OF s1 s2(1)] s' by (auto simp: cachedWithin_def)
qed

lemma cachedWithin_setCapacity:
  assumes "presents s h" "0 \<le> n" "cachedWithin X s" "setCapacity n s = Some s'"
  shows "cachedWithin X s'"
proof -
  have b: "bounded s" using assms(1) by (simp add: presents_def)
  then have "shrink n s = Some (dropTo (nat n) s)" by (rule shrink_dropTo [OF bounded_length assms(2)])
  then have "pageCache s' = pageCache (dropTo (nat n) s)" "m_entries s' = m_entries (dropTo (nat n) s)"
    using assms(4) by (auto simp: setCapacity_def Let_def simp del: dropTo_simps split: if_splits)
  then show ?thesis using cachedWithin_dropTo [OF b assms(3)] by (simp add: cachedWithin_def del: dropTo_simps)
qed

lemma cachedWithin_empty: "cachedWithin X s \<Longrightarrow> cachedWithin (X \<union> set (m_entries s)) (s\<lparr>m_entries := es\<rparr>)"
  by (auto simp: cachedWithin_def)

subsection \<open>Commands\<close>

text \<open>
  What the embedder does with a list and the page cache. CachePage is the loader that
  suspends the page of an item of the list.
\<close>

datatype command =
    AddItem item
  | GoBack
  | GoForward
  | GoToItem "item option"
  | SetCapacity int
  | SetEnabled bool
  | RemoveItem "item option"
  | PushStateItem item
  | ClearWML
  | CachePage item cachedPage

fun exec :: "command \<Rightarrow> BackForwardList \<Rightarrow> BackForwardList option" where
  "exec (AddItem i) s = addItem (Some i) s"
| "exec GoBack s = Some (goBack s)"
| "exec GoForward s = Some (goForward s)"
| "exec (GoToItem i) s = Some (goToItem i s)"
| "exec (SetCapacity n) s = setCapacity n s"
| "exec (SetEnabled e) s = setEnabled e s"
| "exec (RemoveItem i) s = Some (removeItem i s)"
| "exec (PushStateItem i) s = pushStateItem i s"
| "exec ClearWML s = clearWMLPageHistory s"
| "exec (CachePage i p) s = map_option (\<lambda>c. s\<lparr>pageCache := c\<rparr>) (addPage i p (pageCache s))"

text \<open>The specification: capacity, enabled, history, and the items that removeItem took out.\<close>

record session =
  limitOf :: nat
  recording :: bool
  history :: history
  removed :: "item set"

definition addTo :: "item \<Rightarrow> session \<Rightarrow> session" where
  "addTo i a = (if limitOf a = 0 \<or> \<not> recording a then a else a\<lparr>history := visit (limitOf a) i (history a)\<rparr>)"

fun spec :: "command \<Rightarrow> session \<Rightarrow> session" where
  "spec (AddItem i) a = addTo i a"
| "spec GoBack a = a\<lparr>history := moveBack (history a)\<rparr>"
| "spec GoForward a = a\<lparr>history := moveForward (history a)\<rparr>"
| "spec (GoToItem None) a = a"
| "spec (GoToItem (Some i)) a = a\<lparr>history := moveTo i (history a)\<rparr>"
| "spec (SetCapacity n) a = a\<lparr>limitOf := nat n, history := limit (nat n) (history a)\<rparr>"
| "spec (SetEnabled e) a = a\<lparr>recording := e, history := (if e then history a else Empty)\<rparr>"
| "spec (RemoveItem None) a = a"
| "spec (RemoveItem (Some i)) a = a\<lparr>history := forget i (history a), removed := insert i (removed a)\<rparr>"
| "spec (PushStateItem i) a = addTo i a"
| "spec ClearWML a =
     (case history a of Empty \<Rightarrow> a | At b c f \<Rightarrow> addTo c (a\<lparr>history := Empty\<rparr>))"
| "spec (CachePage i p) a = a"

text \<open>What the callers have to respect; the code asserts it in part.\<close>

fun allowed :: "command \<Rightarrow> session \<Rightarrow> bool" where
  "allowed (AddItem i) a = (i \<notin> set (itemsOf (history a)))"
| "allowed (PushStateItem i) a = (history a \<noteq> Empty \<and> i \<notin> set (itemsOf (history a)))"
| "allowed (SetCapacity n) a = (0 \<le> n \<and> n < 2 ^ 31)"
| "allowed (CachePage i p) a = (i \<in> set (itemsOf (history a)))"
| "allowed GoBack a = (history a \<noteq> Empty)"
| "allowed GoForward a = (history a \<noteq> Empty)"
| "allowed ClearWML a = (history a \<noteq> Empty)"
| "allowed (GoToItem i) a = True"
| "allowed (SetEnabled e) a = True"
| "allowed (RemoveItem i) a = True"

definition meets :: "BackForwardList \<Rightarrow> session \<Rightarrow> bool" where
  "meets s a \<longleftrightarrow> presents s (history a) \<and> unat (m_capacity s) = limitOf a \<and> m_enabled s = recording a \<and>
     cachedWithin (removed a) s"

lemma meetsD: "meets s a \<Longrightarrow> presents s (history a)" "meets s a \<Longrightarrow> cachedWithin (removed a) s"
  "meets s a \<Longrightarrow> bounded s"
  by (simp_all add: meets_def presents_def)

lemma meets_cached:
  "meets s a \<Longrightarrow> presents s' h \<Longrightarrow> m_capacity s' = m_capacity s \<Longrightarrow> m_enabled s' = m_enabled s \<Longrightarrow>
   pageCache s' = pageCache s \<Longrightarrow> m_entries s' = m_entries s \<Longrightarrow> meets s' (a\<lparr>history := h\<rparr>)"
  by (simp add: meets_def cachedWithin_def)

lemma addItem_meets:
  assumes "meets s a" "i \<notin> set (itemsOf (history a))"
  shows "\<exists>s'. addItem (Some i) s = Some s' \<and> meets s' (addTo i a)"
proof (cases "m_capacity s = 0 \<or> \<not> m_enabled s")
  case True
  then have "limitOf a = 0 \<or> \<not> recording a" using assms(1) by (auto simp: meets_def unat_eq_0)
  then show ?thesis using True assms(1) by (simp add: addItem_ignored addTo_def)
next
  case False
  then have n: "limitOf a \<noteq> 0" "recording a" using assms(1) by (auto simp: meets_def simp flip: unat_eq_0)
  obtain s' where s': "addItem (Some i) s = Some s'" "presents s' (visit (unat (m_capacity s)) i (history a))"
    "m_capacity s' = m_capacity s" "m_enabled s' = m_enabled s"
    using addItem_presents [OF meetsD(1) [OF assms(1)] assms(2)] False by blast
  have "cachedWithin (removed a) s'"
    by (rule cachedWithin_addItem [OF meetsD(1,2) [OF assms(1)] s'(1)])
  then show ?thesis using s' n assms(1) by (auto simp: meets_def addTo_def)
qed

lemma goBack_fields [simp]:
  "m_entries (goBack s) = m_entries s" "pageCache (goBack s) = pageCache s" "m_capacity (goBack s) = m_capacity s"
  "m_enabled (goBack s) = m_enabled s"
  by (simp_all add: goBack_def)

lemma goForward_fields [simp]:
  "m_entries (goForward s) = m_entries s" "pageCache (goForward s) = pageCache s" "m_capacity (goForward s) = m_capacity s"
  "m_enabled (goForward s) = m_enabled s"
  by (simp_all add: goForward_def)

lemma goToItem_fields [simp]:
  "m_entries (goToItem i s) = m_entries s" "pageCache (goToItem i s) = pageCache s" "m_capacity (goToItem i s) = m_capacity s"
  "m_enabled (goToItem i s) = m_enabled s"
  by (simp_all add: goToItem_def Let_def split: option.split)

lemma set_forget: "set (itemsOf h) - {i} \<subseteq> set (itemsOf (forget i h))"
  by (cases h) (auto simp: in_set_remove1 split: list.splits dest: in_set_remove1 [THEN iffD2, rotated])

lemma setCapacity_meets:
  assumes "meets s a" "0 \<le> n" "n < 2 ^ 31"
  shows "\<exists>s'. setCapacity n s = Some s' \<and> meets s' (a\<lparr>limitOf := nat n, history := limit (nat n) (history a)\<rparr>)"
proof -
  obtain s' where s': "setCapacity n s = Some s'" "presents s' (limit (nat n) (history a))"
    "unat (m_capacity s') = nat n" "m_enabled s' = m_enabled s"
    using setCapacity_presents [OF meetsD(1) [OF assms(1)] assms(2,3)] by blast
  have "cachedWithin (removed a) s'"
    by (rule cachedWithin_setCapacity [OF meetsD(1) [OF assms(1)] assms(2) meetsD(2) [OF assms(1)] s'(1)])
  then show ?thesis using s' assms(1) by (auto simp: meets_def)
qed

lemma meets_emptied:
  assumes "meets s a"
  shows "meets (s\<lparr>pageCache := fold (\<lambda>i. removePage (Some i)) (m_entries s) (pageCache s), m_entries := [],
    m_entryHash := {}, m_current := NoCurrentItemIndex\<rparr>) (a\<lparr>history := Empty\<rparr>)"
proof -
  have c: "consistent (pageCache s)" using meetsD(3) [OF assms] by (simp add: bounded_def)
  have "cachedWithin (removed a) s" by (rule meetsD(2) [OF assms])
  then show ?thesis using assms cache.fold_evict_wf [OF c] cache.fold_evict_cached [OF c]
    by (auto simp: meets_def presents_def bounded_def cachedWithin_def)
qed

lemma consistent_items:
  "consistent c \<Longrightarrow> consistent (c\<lparr>items := (items c)(i := (items c i)\<lparr>m_stateObject := True\<rparr>)\<rparr>)"
  "isCached (c\<lparr>items := (items c)(i := (items c i)\<lparr>m_stateObject := True\<rparr>)\<rparr>) j = isCached c j"
proof -
  let ?c = "c\<lparr>items := (items c)(i := (items c i)\<lparr>m_stateObject := True\<rparr>)\<rparr>"
  have p: "m_cachedPage (items ?c j) = m_cachedPage (items c j)" for j by simp
  then show "isCached ?c j = isCached c j" by (simp add: isCached_def getPage_def)
  assume "consistent c"
  then obtain xs where xs: "represents c xs" by (auto simp: consistent_def)
  have "links ?c xs" by (rule links_cong [of xs ?c c]) (use xs in \<open>simp_all add: represents_def\<close>)
  then have "represents ?c xs" using xs unfolding represents_def p by simp
  then show "consistent ?c" by (auto simp: consistent_def)
qed

lemma meets_cache:
  "meets s a \<Longrightarrow> consistent c \<Longrightarrow> (\<And>i. isCached c i \<Longrightarrow> isCached (pageCache s) i \<or> i \<in> set (itemsOf (history a))) \<Longrightarrow>
   meets (s\<lparr>pageCache := c\<rparr>) a"
proof -
  assume a: "meets s a" "consistent c" "\<And>i. isCached c i \<Longrightarrow> isCached (pageCache s) i \<or> i \<in> set (itemsOf (history a))"
  have "m_entries s = itemsOf (history a)" using a(1) by (simp add: meets_def presents_def)
  then have "cachedWithin (removed a) (s\<lparr>pageCache := c\<rparr>)"
    using meetsD(2) [OF a(1)] a(3) unfolding cachedWithin_def by simp blast
  then show "meets (s\<lparr>pageCache := c\<rparr>) a" using a(1,2) by (clarsimp simp: meets_def presents_def bounded_def)
qed

lemma addPage_consistent:
  assumes "consistent c"
  shows "\<exists>c'. addPage i p c = Some c' \<and> consistent c' \<and> (\<forall>j. isCached c' j \<longrightarrow> j = i \<or> isCached c j)"
proof -
  obtain xs where r: "represents c xs" using assms by (auto simp: consistent_def)
  obtain c' ys where c': "addPage i p c = Some c'" "represents c' ys"
    and l: "contents c' ys = cachePage (nat (PageCache.m_capacity c)) i p (contents c xs)"
    using addPage_refines [OF r] by blast
  have s: "isCached c' j \<longleftrightarrow> j \<in> fst ` set (contents c' ys)" "isCached c j \<longleftrightarrow> j \<in> fst ` set (contents c xs)" for j
    using represents_cached [OF c'(2)] represents_cached [OF r]
    by (auto simp: isCached_def getPage_def contents_def image_image)
  have "isCached c' j \<longrightarrow> j = i \<or> isCached c j" for j
    unfolding s l by (auto simp: cachePage_def dest!: in_set_takeD)
  then show ?thesis using c' by (auto simp: consistent_def)
qed

lemma pushStateItem_meets:
  assumes "meets s a" "allowed (PushStateItem i) a"
  shows "\<exists>s'. pushStateItem i s = Some s' \<and> meets s' (addTo i a)"
proof -
  obtain b c f where h: "history a = At b c f" using assms(2) by (cases "history a") auto
  have cur: "currentItem s = Some (Some c)"
    using currentItem_presents [OF meetsD(1) [OF assms(1)]] h by simp
  obtain s1 where s1: "addItem (Some i) s = Some s1" "meets s1 (addTo i a)"
    using addItem_meets [OF assms(1)] assms(2) by auto
  have c: "consistent (pageCache s1)" using meetsD(3) [OF s1(2)] by (simp add: bounded_def)
  let ?s = "s1\<lparr>pageCache := (pageCache s1)\<lparr>items := (items (pageCache s1))(c := (items (pageCache s1) c)\<lparr>m_stateObject := True\<rparr>)\<rparr>\<rparr>"
  have "meets ?s (addTo i a)"
    by (rule meets_cache [OF s1(2) consistent_items(1) [OF c]]) (simp add: consistent_items(2))
  then show ?thesis using cur s1 by (auto simp: pushStateItem_def Let_def)
qed

lemma setEnabled_meets:
  assumes "meets s a"
  shows "\<exists>s'. setEnabled e s = Some s' \<and>
    meets s' (a\<lparr>recording := e, history := (if e then history a else Empty)\<rparr>)"
proof -
  have m: "meets (s\<lparr>m_enabled := e\<rparr>) (a\<lparr>recording := e\<rparr>)"
    using assms by (simp add: meets_def presents_enabled cachedWithin_def)
  show ?thesis
  proof (cases e)
    case True
    then show ?thesis using m by (simp add: setEnabled_def Let_def)
  next
    case False
    obtain s1 where s1: "setCapacity 0 (s\<lparr>m_enabled := e\<rparr>) = Some s1"
      "meets s1 (a\<lparr>recording := e, limitOf := 0, history := Empty\<rparr>)"
      using setCapacity_meets [OF m, of 0] by (auto simp: limit_0)
    have c: "0 \<le> capacity s" "capacity s < 2 ^ 31" "nat (capacity s) = limitOf a"
      "capacity (s\<lparr>m_enabled := e\<rparr>) = capacity s"
      using capacity_range [OF meetsD(1) [OF assms]] assms by (simp_all add: meets_def capacity_def)
    obtain s2 where "setCapacity (capacity s) s1 = Some s2"
      "meets s2 (a\<lparr>recording := e, limitOf := limitOf a, history := Empty\<rparr>)"
      using setCapacity_meets [OF s1(2) c(1,2)] c(3) by auto
    then show ?thesis using False s1 c(4) by (simp add: setEnabled_def Let_def)
  qed
qed

lemma removeItem_pageCache [simp]: "pageCache (removeItem i s) = pageCache s"
  by (simp add: removeItem_def Let_def split: option.split)

lemma exec_meets:
  assumes m: "meets s a" and ok: "allowed c a"
  shows "\<exists>s'. exec c s = Some s' \<and> meets s' (spec c a)"
proof -
  have p: "presents s (history a)" by (rule meetsD(1) [OF m])
  show ?thesis
  proof (cases c)
    case (AddItem i)
    then show ?thesis using addItem_meets [OF m] ok by simp
  next
    case GoBack
    then have "presents (goBack s) (moveBack (history a))" using goBack_presents [OF p] ok by simp
    then show ?thesis using meets_cached [OF m, of "goBack s"] GoBack by simp
  next
    case GoForward
    then have "presents (goForward s) (moveForward (history a))" using goForward_presents [OF p] ok by simp
    then show ?thesis using meets_cached [OF m, of "goForward s"] GoForward by simp
  next
    case (GoToItem i)
    then show ?thesis using goToItem_presents [OF p] meets_cached [OF m, of "goToItem i s"] m
      by (cases i) (simp_all add: goToItem_def [of None])
  next
    case (SetCapacity n)
    then show ?thesis using setCapacity_meets [OF m] ok by simp
  next
    case (SetEnabled e)
    then show ?thesis using setEnabled_meets [OF m] by simp
  next
    case (RemoveItem i)
    show ?thesis
    proof (cases i)
      case (Some j)
      have "cachedWithin (insert j (removed a)) (removeItem (Some j) s)"
        using meetsD(2) [OF m] set_forget [of "history a" j] removeItem_presents [OF p, of j] p
        by (auto simp: cachedWithin_def presents_def)
      then show ?thesis using removeItem_presents [OF p, of j] m RemoveItem Some by (simp add: meets_def)
    qed (use m RemoveItem in \<open>simp add: removeItem_def\<close>)
  next
    case (PushStateItem i)
    then show ?thesis using pushStateItem_meets [OF m] ok by simp
  next
    case ClearWML
    then obtain b x f where h: "history a = At b x f" using ok by (cases "history a") auto
    then have "currentItem s = Some (Some x)" using currentItem_presents [OF p] by simp
    then show ?thesis using ClearWML h addItem_meets [OF meets_emptied [OF m], of x]
      by (simp add: clearWMLPageHistory_def)
  next
    case (CachePage i g)
    have c: "consistent (pageCache s)" using meetsD(3) [OF m] by (simp add: bounded_def)
    obtain c' where c': "addPage i g (pageCache s) = Some c'" "consistent c'"
      "\<And>j. isCached c' j \<Longrightarrow> j = i \<or> isCached (pageCache s) j"
      using addPage_consistent [OF c] by blast
    have "meets (s\<lparr>pageCache := c'\<rparr>) a"
      by (rule meets_cache [OF m c'(2)]) (use c'(3) ok CachePage in auto)
    then show ?thesis using CachePage c'(1) by simp
  qed
qed

subsection \<open>Reachable states\<close>

inductive reachable :: "BackForwardList \<Rightarrow> session \<Rightarrow> bool" where
  start: "consistent c \<Longrightarrow> \<not> (\<exists>i. isCached c i) \<Longrightarrow>
    reachable (newBackForwardList page c) \<lparr>limitOf = 100, recording = True, history = Empty, removed = {}\<rparr>"
| step: "reachable s a \<Longrightarrow> allowed c a \<Longrightarrow> exec c s = Some s' \<Longrightarrow> reachable s' (spec c a)"

lemma new_meets:
  "consistent c \<Longrightarrow> \<not> (\<exists>i. isCached c i) \<Longrightarrow>
   meets (newBackForwardList page c) \<lparr>limitOf = 100, recording = True, history = Empty, removed = {}\<rparr>"
  by (simp add: meets_def newBackForwardList_def presents_def bounded_def cachedWithin_def DefaultCapacity_def)

lemma reachable_meets: "reachable s a \<Longrightarrow> meets s a"
proof (induction rule: reachable.induct)
  case (start c page)
  then show ?case by (rule new_meets)
next
  case (step s a c s')
  then show ?case using exec_meets [of s a c] by auto
qed

lemma exec_reachable: "reachable s a \<Longrightarrow> allowed c a \<Longrightarrow> \<exists>s'. exec c s = Some s' \<and> reachable s' (spec c a)"
  using exec_meets [OF reachable_meets] reachable.step by blast

lemma appendEntries_take:
  "k + n \<le> length (m_entries s) \<Longrightarrow> appendEntries s k n = Some (take n (drop k (m_entries s)))"
proof (induction n arbitrary: k)
  case (Suc n)
  have "drop k (m_entries s) = m_entries s ! k # drop (Suc k) (m_entries s)"
    using Suc.prems by (simp add: Cons_nth_drop_Suc)
  then show ?case using Suc by (simp add: entryAt_def)
qed simp

lemma backList_presents:
  assumes "presents s h" "0 \<le> l"
  shows "backListWithLimit l s = Some (case h of Empty \<Rightarrow> [] | At b c f \<Rightarrow> drop (length b - nat l) b)"
proof (cases h)
  case Empty
  then show ?thesis using assms by (simp add: backListWithLimit_def presents_def)
next
  case (At b c f)
  have u: "unat (m_current s) = length b" and n: "m_current s \<noteq> NoCurrentItemIndex"
    using assms At index_unat index_not_none by blast+
  have e: "m_entries s = b @ c # f" "length b < 2 ^ 31" "m_current s = of_nat (length b)"
    using assms At bounded_length [of s] by (simp_all add: presents_def)
  have "nat (max (sint (m_current s) - l) 0) = length b - nat l"
    using assms(2) sint_of_nat_small [OF e(2)] unfolding e(3) by linarith
  then show ?thesis using At n u e(1) by (simp add: backListWithLimit_def appendEntries_take)
qed

lemma forwardList_presents:
  assumes "presents s h" "0 \<le> l" "l < 2 ^ 31"
  shows "forwardListWithLimit l s = Some (case h of Empty \<Rightarrow> [] | At b c f \<Rightarrow> take (nat l) f)"
proof (cases h)
  case Empty
  then show ?thesis using assms by (simp add: forwardListWithLimit_def presents_def)
next
  case (At b c f)
  have e: "m_entries s = b @ c # f" "length b + length f + 1 < 2 ^ 31" "m_current s = of_nat (length b)"
    using assms At bounded_length [of s] by (simp_all add: presents_def)
  define lastEntry :: u32 where "lastEntry = ucast (sizeOf s - 1)"
  have "unat (sizeOf s) = length b + length f + 1" using sizeOf_unat [of s] e by simp
  then have "unat (sizeOf s - 1) = length b + length f" by (subst unat_sub) (simp_all add: word_le_nat_alt)
  then have ul: "unat lastEntry = length b + length f" using e by (simp add: lastEntry_def unat_ucast_mod)
  have uc: "unat (m_current s) = length b" using e by (simp add: unat_of_nat)
  have "unat (word_of_int l :: u32) = nat l"
    using assms by (simp add: unat_eq_nat_uint unsigned_of_int take_bit_int_eq_self)
  then have "unat (m_current s + word_of_int l) = length b + nat l"
    using uc e assms by (simp add: unat_word_ariths)
  then have "unat (min (m_current s + word_of_int l) lastEntry) = length b + min (nat l) (length f)"
    using ul by (auto simp: min_def word_le_nat_alt)
  then have "min (m_current s + word_of_int l) lastEntry = of_nat (length b + min (nat l) (length f))"
    using e by (intro word_eqI_unat) (simp add: unat_of_nat del: of_nat_add)
  then have t: "sint (min (m_current s + word_of_int l) lastEntry) = int (length b + min (nat l) (length f))"
    using sint_of_nat_small [of "length b + min (nat l) (length f)"] e by simp
  have "m_current s + 1 = of_nat (length b + 1)" using e(3) by simp
  then have st: "sint (m_current s + 1) = int (length b + 1)"
    using sint_of_nat_small [of "length b + 1"] e(2) by (simp add: add.commute)
  have lt: "m_current s < lastEntry \<longleftrightarrow> f \<noteq> []" using uc ul by (simp add: word_less_nat_alt)
  show ?thesis
  proof (cases "f = []")
    case True
    then show ?thesis using lt At e by (simp add: forwardListWithLimit_def Let_def flip: lastEntry_def)
  next
    case False
    have n: "nat (int (length b + min (nat l) (length f)) + 1 - int (length b + 1)) = min (nat l) (length f)" by simp
    have k: "nat (int (length b + 1)) = length b + 1" by simp
    have "forwardListWithLimit l s = appendEntries s (length b + 1) (min (nat l) (length f))"
      using lt False e(1) unfolding forwardListWithLimit_def Let_def lastEntry_def [symmetric] t st n k by simp
    then show ?thesis using At e(1) by (simp add: appendEntries_take min_def)
  qed
qed

lemma counts_presents:
  assumes "presents s h"
  shows "backListCount s = (case h of Empty \<Rightarrow> 0 | At b c f \<Rightarrow> int (length b))"
    and "forwardListCount s = (case h of Empty \<Rightarrow> 0 | At b c f \<Rightarrow> int (length f))"
proof -
  have "backListCount s = (case h of Empty \<Rightarrow> 0 | At b c f \<Rightarrow> int (length b)) \<and>
    forwardListCount s = (case h of Empty \<Rightarrow> 0 | At b c f \<Rightarrow> int (length f))"
  proof (cases h)
    case Empty
    then show ?thesis using assms by (simp add: backListCount_def forwardListCount_def presents_def)
  next
    case (At b c f)
    have e: "m_entries s = b @ c # f" "length b + length f + 1 < 2 ^ 31" "m_current s = of_nat (length b)"
      using assms At bounded_length [of s] by (simp_all add: presents_def)
    have n: "m_current s \<noteq> NoCurrentItemIndex" using assms At index_not_none by blast
    have "of_nat (length (m_entries s)) - (m_current s + 1) = (of_nat (length f) :: u32)" using e by simp
    then show ?thesis using At n e sint_of_nat_small [of "length b"] sint_of_nat_small [of "length f"]
      by (simp add: backListCount_def forwardListCount_def)
  qed
  then show "backListCount s = (case h of Empty \<Rightarrow> 0 | At b c f \<Rightarrow> int (length b))"
    "forwardListCount s = (case h of Empty \<Rightarrow> 0 | At b c f \<Rightarrow> int (length f))" by blast+
qed

text \<open>The item at a distance from the current one.\<close>

fun atDistance :: "int \<Rightarrow> history \<Rightarrow> item option" where
  "atDistance k Empty = None"
| "atDistance k (At b c f) =
     (if - int (length b) \<le> k \<and> k \<le> int (length f) then Some ((b @ c # f) ! nat (int (length b) + k)) else None)"

lemma itemAtIndex_presents:
  assumes "presents s h"
  shows "itemAtIndex k s = Some (atDistance k h)"
proof (cases h)
  case Empty
  then have "sint (m_current s) = -1" "forwardListCount s = 0"
    using assms counts_presents(2) [OF assms] by (simp_all add: presents_def NoCurrentItemIndex_def)
  then show ?thesis using Empty by (simp add: itemAtIndex_def)
next
  case (At b c f)
  have e: "m_entries s = b @ c # f" "length b + length f + 1 < 2 ^ 31" "m_current s = of_nat (length b)"
    using assms At bounded_length [of s] by (simp_all add: presents_def)
  have s: "sint (m_current s) = int (length b)" using e sint_of_nat_small [of "length b"] by simp
  have fc: "forwardListCount s = int (length f)" using counts_presents(2) [OF assms] At by simp
  show ?thesis
  proof (cases "- int (length b) \<le> k \<and> k \<le> int (length f)")
    case True
    define d where "d = nat (int (length b) + k)"
    have d: "d \<le> length b + length f" using True by (auto simp: d_def)
    have "word_of_int k + m_current s = (of_nat d :: u32)"
    proof -
      have "of_int (int d) = (of_int (k + int (length b)) :: u32)" using True by (simp add: d_def)
      then show ?thesis using e(3) by simp
    qed
    then have "unat (word_of_int k + m_current s) = d" using d e by (simp add: unat_of_nat)
    then show ?thesis using True At d e s fc by (simp add: itemAtIndex_def entryAt_def flip: d_def)
  next
    case False
    then show ?thesis using At s fc by (auto simp: itemAtIndex_def)
  qed
qed

lemma example_reachable:
  "\<exists>s. reachable s \<lparr>limitOf = 100, recording = True, history = At [1] 2 [3], removed = {}\<rparr>"
proof -
  let ?a = "\<lambda>h. \<lparr>limitOf = 100, recording = True, history = h, removed = {}\<rparr>"
  have "consistent (newPageCache uncached)" "\<not> (\<exists>i. isCached (newPageCache uncached) i)"
    using newPageCache_represents [of uncached]
    by (auto simp: consistent_def isCached_def getPage_def newPageCache_def uncached_def)
  then obtain s where s: "reachable s (?a Empty)" using reachable.start by blast
  obtain s1 where s1: "reachable s1 (?a (At [] 1 []))"
    using exec_reachable [OF s, of "AddItem 1"] by (auto simp: addTo_def)
  obtain s2 where s2: "reachable s2 (?a (At [1] 2 []))"
    using exec_reachable [OF s1, of "AddItem 2"] by (auto simp: addTo_def)
  obtain s3 where s3: "reachable s3 (?a (At [1, 2] 3 []))"
    using exec_reachable [OF s2, of "AddItem 3"] by (auto simp: addTo_def)
  show ?thesis using exec_reachable [OF s3, of GoBack] by auto
qed

text \<open>
  C1: Every command that respects what the callers owe the list runs without an access
  outside the vector, and its result stands for the history that the specification
  computes: items added after the current one replace those in front of it, the oldest
  item goes when the capacity is reached, and moves, removals and changes of the
  capacity act on the three parts of the history.
\<close>

theorem history_refines:
  assumes "reachable s a" "allowed c a"
  shows "\<exists>s'. exec c s = Some s' \<and> reachable s' (spec c a) \<and> m_entries s' = itemsOf (history (spec c a)) \<and>
    unat (m_capacity s') = limitOf (spec c a) \<and> length (m_entries s') \<le> limitOf (spec c a)"
proof -
  obtain s' where s': "exec c s = Some s'" "reachable s' (spec c a)"
    using exec_reachable [OF assms] by blast
  have m: "meets s' (spec c a)" by (rule reachable_meets [OF s'(2)])
  then have "length (m_entries s') \<le> limitOf (spec c a)" by (clarsimp simp: meets_def presents_def bounded_def)
  then show ?thesis using s' m by (auto simp: meets_def presents_def)
qed

lemma history_refines_witness:
  "\<exists>s s'. reachable s \<lparr>limitOf = 100, recording = True, history = At [1] 2 [3], removed = {}\<rparr> \<and>
     exec (AddItem 4) s = Some s' \<and> m_entries s' = [1, 2, 4]"
proof -
  obtain s where s: "reachable s \<lparr>limitOf = 100, recording = True, history = At [1] 2 [3], removed = {}\<rparr>"
    using example_reachable by blast
  show ?thesis using history_refines [OF s, of "AddItem 4"] s by (auto simp: addTo_def)
qed

lemma atDistance_near:
  "atDistance 0 h = (case h of Empty \<Rightarrow> None | At b c f \<Rightarrow> Some c)"
  "atDistance 1 h = (case h of At b c (y # f) \<Rightarrow> Some y | _ \<Rightarrow> None)"
  "atDistance (- 1) h = (case h of At (x # b) c f \<Rightarrow> Some (last (x # b)) | _ \<Rightarrow> None)"
proof -
  show "atDistance 0 h = (case h of Empty \<Rightarrow> None | At b c f \<Rightarrow> Some c)" by (cases h) simp_all
  show "atDistance 1 h = (case h of At b c (y # f) \<Rightarrow> Some y | _ \<Rightarrow> None)"
    by (cases h) (auto simp: nth_append nat_add_distrib split: list.split)
  show "atDistance (- 1) h = (case h of At (x # b) c f \<Rightarrow> Some (last (x # b)) | _ \<Rightarrow> None)"
    by (cases h) (auto simp: nth_append last_conv_nth nat_diff_distrib split: list.split)
qed

text \<open>
  C3: In every reachable state the readers stay inside the vector and return the item at
  the distance they name from the current one, the numbers of items behind and in front,
  the nearest items up to a limit, and whether an item is in the list.
\<close>

theorem history_reads:
  assumes "reachable s a" "0 \<le> l" "l < 2 ^ 31"
  shows "currentItem s = Some (atDistance 0 (history a)) \<and> backItem s = Some (atDistance (- 1) (history a)) \<and>
    forwardItem s = Some (atDistance 1 (history a)) \<and> itemAtIndex k s = Some (atDistance k (history a)) \<and>
    (case history a of
       Empty \<Rightarrow> backListCount s = 0 \<and> forwardListCount s = 0 \<and> backListWithLimit l s = Some [] \<and>
         forwardListWithLimit l s = Some []
     | At b c f \<Rightarrow> backListCount s = int (length b) \<and> forwardListCount s = int (length f) \<and>
         backListWithLimit l s = Some (drop (length b - nat l) b) \<and> forwardListWithLimit l s = Some (take (nat l) f)) \<and>
    containsItem i s = (i \<in> set (itemsOf (history a)))"
proof -
  have m: "meets s a" by (rule reachable_meets [OF assms(1)])
  have p: "presents s (history a)" by (rule meetsD(1) [OF m])
  have "containsItem i s = (i \<in> set (itemsOf (history a)))"
    using p by (simp add: containsItem_def presents_def bounded_def)
  then show ?thesis
    using currentItem_presents [OF p] backItem_presents [OF p] forwardItem_presents [OF p] itemAtIndex_presents [OF p]
      counts_presents [OF p] backList_presents [OF p assms(2)] forwardList_presents [OF p assms(2,3)]
    unfolding atDistance_near by (cases "history a") (simp_all del: atDistance.simps)
qed

lemma history_reads_witness:
  "\<exists>s. reachable s \<lparr>limitOf = 100, recording = True, history = At [1] 2 [3], removed = {}\<rparr> \<and>
     backItem s = Some (Some 1) \<and> itemAtIndex 1 s = Some (Some 3)"
proof -
  obtain s where s: "reachable s \<lparr>limitOf = 100, recording = True, history = At [1] 2 [3], removed = {}\<rparr>"
    using example_reachable by blast
  show ?thesis using history_reads [OF s, of 1 1] s by (auto simp: numeral_2_eq_2)
qed

text \<open>
  C4: The page cache holds pages only for items of the list and for items that
  removeItem took out, whatever commands and suspended pages led to the state; after
  close it holds pages only for the latter.
\<close>

theorem dropped_items_leave_cache:
  assumes "reachable s a"
  shows "(isCached (pageCache s) i \<longrightarrow> i \<in> set (m_entries s) \<or> i \<in> removed a) \<and>
    (isCached (pageCache (closeList s)) i \<longrightarrow> i \<in> removed a)"
proof -
  have m: "meets s a" by (rule reachable_meets [OF assms])
  have "consistent (pageCache s)" using meetsD(3) [OF m] by (simp add: bounded_def)
  then show ?thesis using meetsD(2) [OF m] cache.fold_evict_cached
    by (auto simp: cachedWithin_def closeList_def)
qed

text \<open>A session whose page cache holds the page of its item.\<close>

lemma example_cached:
  "\<exists>s. reachable s \<lparr>limitOf = 100, recording = True, history = At [] 1 [], removed = {}\<rparr> \<and> isCached (pageCache s) 1"
proof -
  let ?a = "\<lambda>h. \<lparr>limitOf = 100, recording = True, history = h, removed = {}\<rparr>"
  have "represents (newPageCache uncached) []" by (simp add: newPageCache_represents uncached_def)
  then obtain c ys where c: "represents c ys" "PageCache.m_capacity c = 3" "contents c ys = []"
    using setPageCapacity_refines [of "newPageCache uncached" "[]" 3] by (auto simp: contents_def)
  have y: "ys = []" using c(3) by (simp add: contents_def)
  have "consistent c" "\<not> (\<exists>i. isCached c i)"
    using c(1) represents_cached [OF c(1)] y by (auto simp: consistent_def isCached_def getPage_def)
  then have s: "reachable (newBackForwardList True c) (?a Empty)" by (rule reachable.start)
  define s1 where "s1 = (newBackForwardList True c)\<lparr>m_entries := [1], m_entryHash := {1}, m_current := 0, clientEvents := [DidAdd 1]\<rparr>"
  have "exec (AddItem 1) (newBackForwardList True c) = Some s1"
    by (simp add: s1_def newBackForwardList_def addItem_def DefaultCapacity_def NoCurrentItemIndex_def tossFirst_def sizeOf_def
        insertAt_def currentItem_def entryAt_def dispatch_def)
  then have s1: "reachable s1 (?a (At [] 1 []))"
    using reachable.step [OF s, of "AddItem 1" s1] by (simp add: addTo_def)
  obtain c' zs where c': "addPage 1 7 c = Some c'" "represents c' zs" "contents c' zs = cachePage 3 1 7 []"
    using addPage_refines [OF c(1), of 1 7] c(2,3) by auto
  have "exec (CachePage 1 7) s1 = Some (s1\<lparr>pageCache := c'\<rparr>)"
    using c'(1) by (simp add: s1_def newBackForwardList_def)
  then have "reachable (s1\<lparr>pageCache := c'\<rparr>) (?a (At [] 1 []))"
    using reachable.step [OF s1, of "CachePage 1 7"] by simp
  moreover have "isCached c' 1" using getPage_refines [OF c'(2), of 1] c'(3) by (simp add: isCached_def cachePage_def)
  ultimately show ?thesis by force
qed

lemma dropped_items_leave_cache_witness:
  "\<exists>s. reachable s \<lparr>limitOf = 100, recording = True, history = At [] 1 [], removed = {}\<rparr> \<and>
     isCached (pageCache s) 1 \<and> \<not> isCached (pageCache (closeList s)) 1"
proof -
  obtain s where s: "reachable s \<lparr>limitOf = 100, recording = True, history = At [] 1 [], removed = {}\<rparr>"
    "isCached (pageCache s) 1"
    using example_cached by blast
  then show ?thesis using dropped_items_leave_cache [OF s(1), of 1] by auto
qed

text \<open>
  On an empty list the index is UINT_MAX, which goBack takes for a position behind
  which there is another and goForward compares with a size minus one that wraps around;
  both move the index, and reading the current item then leaves the vector.
\<close>

theorem empty_list_moves_outside:
  "currentItem (newBackForwardList page c) = Some None \<and>
   currentItem (goForward (newBackForwardList page c)) = None \<and> currentItem (goBack (newBackForwardList page c)) = None"
  by (simp add: newBackForwardList_def currentItem_def goForward_def goBack_def sizeOf_def NoCurrentItemIndex_def
      entryAt_def dispatch_def)

end
