(* ===== verification/WtfString.thy ===== *)
theory WtfString
  imports UStrings
begin

section \<open>The string class of WebCore (JavaScriptCore/wtf/text)\<close>

text \<open>
  The operations of WTFString.cpp and StringImpl.cpp on the characters of a string. A
  string is a list of UTF-16 units; the null string is the empty list where the code treats
  them alike. What the code takes from the Unicode library is an argument: \<open>ws\<close> tells which
  characters above U+007F are white space, \<open>toLowerU\<close> is the full lower-case mapping and
  \<open>sameFold\<close> the comparison under case folding.
\<close>

type_synonym wtf_string = "uchar list"

definition isSpaceOrNewline :: "(uchar \<Rightarrow> bool) \<Rightarrow> uchar \<Rightarrow> bool" where
  "isSpaceOrNewline ws c = (if c \<le> 0x7F then isASCIISpace c else ws c)"

definition charactersAreAllASCII :: "wtf_string \<Rightarrow> bool" where
  "charactersAreAllASCII s = (fold (OR) s 0 AND 0xFF80 = 0)"

subsection \<open>Parts of a string\<close>

text \<open>\<open>operator[]\<close> reads 0 behind the end; \<open>len = None\<close> is the default UINT_MAX.\<close>

definition charAt :: "wtf_string \<Rightarrow> nat \<Rightarrow> uchar" where
  "charAt s i = (if i < length s then s ! i else 0)"

definition substring :: "wtf_string \<Rightarrow> nat \<Rightarrow> nat option \<Rightarrow> wtf_string" where
  "substring s start len =
     (if length s \<le> start then []
      else case len of None \<Rightarrow> drop start s | Some n \<Rightarrow> take (min n (length s - start)) (drop start s))"

definition left :: "wtf_string \<Rightarrow> nat \<Rightarrow> wtf_string" where
  "left s n = substring s 0 (Some n)"

definition insertString :: "wtf_string \<Rightarrow> wtf_string \<Rightarrow> nat \<Rightarrow> wtf_string" where
  "insertString s t pos =
     (if length s \<le> pos then s @ t else take pos s @ t @ drop pos s)"

definition truncate :: "wtf_string \<Rightarrow> nat \<Rightarrow> wtf_string" where
  "truncate s pos = (if length s \<le> pos then s else take pos s)"

definition removeRange :: "wtf_string \<Rightarrow> nat \<Rightarrow> int \<Rightarrow> wtf_string" where
  "removeRange s pos lengthToRemove =
     (if lengthToRemove \<le> 0 then s
      else if length s \<le> pos then s
      else let n = min (nat lengthToRemove) (length s - pos)
           in take pos s @ drop (pos + n) s)"

subsection \<open>Case\<close>

definition lower :: "(wtf_string \<Rightarrow> wtf_string option) \<Rightarrow> wtf_string \<Rightarrow> wtf_string" where
  "lower toLowerU s =
     (if fold (OR) s 0 AND NOT 0x7F = 0 then map toASCIILower s
      else case toLowerU s of Some t \<Rightarrow> t | None \<Rightarrow> s)"

subsection \<open>Searching\<close>

fun findFrom :: "(uchar \<Rightarrow> bool) \<Rightarrow> wtf_string \<Rightarrow> nat \<Rightarrow> int" where
  "findFrom P [] i = -1"
| "findFrom P (c # s) i = (if P c then int i else findFrom P s (Suc i))"

definition findMatch :: "wtf_string \<Rightarrow> (uchar \<Rightarrow> bool) \<Rightarrow> int \<Rightarrow> int" where
  "findMatch s P startPosition =
     (if int (length s) \<le> startPosition then -1
      else if startPosition < 0 then -1
      else findFrom P (drop (nat startPosition) s) (nat startPosition))"

definition findChar :: "wtf_string \<Rightarrow> uchar \<Rightarrow> int \<Rightarrow> int" where
  "findChar s c startPosition = findMatch s (\<lambda>d. d = c) startPosition"

fun reverseFrom :: "wtf_string \<Rightarrow> uchar \<Rightarrow> nat \<Rightarrow> int" where
  "reverseFrom s c 0 = (if s ! 0 = c then 0 else -1)"
| "reverseFrom s c (Suc i) = (if s ! Suc i = c then int (Suc i) else reverseFrom s c i)"

text \<open>\<open>None\<close> is a read in front of the buffer.\<close>

definition reverseFindChar :: "wtf_string \<Rightarrow> uchar \<Rightarrow> int \<Rightarrow> int option" where
  "reverseFindChar s c startPosition =
     (if int (length s) \<le> startPosition \<or> s = [] then Some (-1)
      else let p = (if startPosition < 0 then startPosition + int (length s) else startPosition)
           in if p < 0 then None else Some (reverseFrom s c (nat p)))"

text \<open>
  The search for a string compares sums of characters first. \<open>h\<close> is what is summed (the
  character, or its ASCII lower case) and \<open>same\<close> the comparison behind it.
\<close>

definition windowSum :: "(uchar \<Rightarrow> uchar) \<Rightarrow> wtf_string \<Rightarrow> u32" where
  "windowSum h s = sum_list (map (\<lambda>c. ucast (h c)) s)"

fun findLoop :: "(uchar \<Rightarrow> uchar) \<Rightarrow> (wtf_string \<Rightarrow> wtf_string \<Rightarrow> bool) \<Rightarrow> wtf_string \<Rightarrow> wtf_string \<Rightarrow>
    u32 \<Rightarrow> u32 \<Rightarrow> nat \<Rightarrow> nat \<Rightarrow> nat option" where
  "findLoop h same uthis pat hstr hthis i remaining =
     (if hthis = hstr \<and> same (take (length pat) (drop i uthis)) pat then Some i
      else case remaining of
             0 \<Rightarrow> None
           | Suc n \<Rightarrow>
               findLoop h same uthis pat hstr
                 (hthis + ucast (h (uthis ! (i + length pat))) - ucast (h (uthis ! i))) (Suc i) n)"

definition findString :: "(uchar \<Rightarrow> uchar) \<Rightarrow> (wtf_string \<Rightarrow> wtf_string \<Rightarrow> bool) \<Rightarrow> wtf_string \<Rightarrow> wtf_string \<Rightarrow> int \<Rightarrow> int" where
  "findString h same s str index =
     (let index = (if index < 0 then index + int (length s) else index);
          lthis = int (length s) - index;
          delta = lthis - int (length str)
      in if \<not> (0 \<le> lthis \<and> lthis \<le> int (length s)) then -1
         else if delta < 0 then -1
         else let uthis = drop (nat index) s
              in case findLoop h same uthis str (windowSum h str) (windowSum h (take (length str) uthis)) 0 (nat delta) of
                   None \<Rightarrow> -1
                 | Some i \<Rightarrow> index + int i)"

fun reverseLoop :: "(uchar \<Rightarrow> uchar) \<Rightarrow> (wtf_string \<Rightarrow> wtf_string \<Rightarrow> bool) \<Rightarrow> wtf_string \<Rightarrow> wtf_string \<Rightarrow>
    u32 \<Rightarrow> u32 \<Rightarrow> nat \<Rightarrow> int" where
  "reverseLoop h same uthis pat hstr hthis i =
     (if hthis = hstr \<and> same (take (length pat) (drop i uthis)) pat then int i
      else case i of
             0 \<Rightarrow> -1
           | Suc j \<Rightarrow>
               reverseLoop h same uthis pat hstr
                 (hthis - ucast (h (uthis ! (j + length pat))) + ucast (h (uthis ! j))) j)"

definition reverseFindString :: "(uchar \<Rightarrow> uchar) \<Rightarrow> (wtf_string \<Rightarrow> wtf_string \<Rightarrow> bool) \<Rightarrow> wtf_string \<Rightarrow> wtf_string \<Rightarrow> int \<Rightarrow> int" where
  "reverseFindString h same s str index =
     (let index = (if index < 0 then index + int (length s) else index);
          delta = int (length s) - int (length str)
      in if index < 0 \<or> int (length s) < index \<or> delta < 0 then -1
         else let index = (if delta < index then delta else index)
              in reverseLoop h same s str (windowSum h str) (windowSum h (take (length str) (drop (nat index) s))) (nat index))"

definition endsWith :: "wtf_string \<Rightarrow> wtf_string \<Rightarrow> bool" where
  "endsWith s t =
     (let start = int (length s) - int (length t)
      in if 0 \<le> start then findString (\<lambda>c. c) (=) s t start = start else False)"

definition startsWith :: "wtf_string \<Rightarrow> wtf_string \<Rightarrow> bool" where
  "startsWith s t = (reverseFindString (\<lambda>c. c) (=) s t 0 = 0)"

subsection \<open>Numbers\<close>

definition isCharacterAllowedInBase :: "uchar \<Rightarrow> int \<Rightarrow> bool" where
  "isCharacterAllowedInBase c base =
     (if 0x7F < c then False
      else if isASCIIDigit c then uint c - 48 < base
      else if isASCIIAlpha c then
        (let base = min base 36
         in (97 \<le> uint c \<and> uint c < 97 + base - 10) \<or> (65 \<le> uint c \<and> uint c < 65 + base - 10))
      else False)"

definition digitValue :: "uchar \<Rightarrow> int" where
  "digitValue c =
     (if isASCIIDigit c then uint c - 48 else if 97 \<le> uint c then uint c - 97 + 10 else uint c - 65 + 10)"

text \<open>The types the template is used with: whether it is signed, and its width.\<close>

datatype integralType = IntegralType (isSigned: bool) (bits: nat)

definition integralMax :: "integralType \<Rightarrow> int" where
  "integralMax t = (if isSigned t then 2 ^ (bits t - 1) - 1 else 2 ^ bits t - 1)"

text \<open>The value that the type keeps of a result: arithmetic wraps around.\<close>

definition narrow :: "integralType \<Rightarrow> int \<Rightarrow> int" where
  "narrow t x =
     (if isSigned t then (x + 2 ^ (bits t - 1)) mod 2 ^ bits t - 2 ^ (bits t - 1) else x mod 2 ^ bits t)"

text \<open>The digits: \<open>None\<close> is a value that does not fit.\<close>

fun digitLoop :: "integralType \<Rightarrow> int \<Rightarrow> bool \<Rightarrow> wtf_string \<Rightarrow> int \<Rightarrow> (int \<times> wtf_string) option" where
  "digitLoop t base isNegative [] value = Some (value, [])"
| "digitLoop t base isNegative (c # s) value =
     (if isCharacterAllowedInBase c base then
        let maxMultiplier = integralMax t div base
        in if maxMultiplier < value \<or>
              (value = maxMultiplier \<and> integralMax t mod base + (if isNegative then 1 else 0) < digitValue c)
           then None
           else digitLoop t base isNegative s (narrow t (base * value + digitValue c))
      else Some (value, c # s))"

text \<open>\<open>None\<close> is the result 0 with \<open>ok\<close> set to false.\<close>

definition toIntegralType :: "integralType \<Rightarrow> (uchar \<Rightarrow> bool) \<Rightarrow> int \<Rightarrow> wtf_string \<Rightarrow> int option" where
  "toIntegralType t ws base s =
     (let s = dropWhile (isSpaceOrNewline ws) s;
          isNegative = (isSigned t \<and> s \<noteq> [] \<and> hd s = 0x2D);
          s = (if isNegative then tl s else if s \<noteq> [] \<and> hd s = 0x2B then tl s else s)
      in if s = [] \<or> \<not> isCharacterAllowedInBase (hd s) base then None
         else case digitLoop t base isNegative s 0 of
                None \<Rightarrow> None
              | Some (value, rest) \<Rightarrow>
                  if dropWhile (isSpaceOrNewline ws) rest = []
                  then Some (if isNegative then narrow t (- value) else value) else None)"

definition signPart :: "wtf_string \<Rightarrow> nat" where
  "signPart s = (if s \<noteq> [] \<and> (hd s = 0x2B \<or> hd s = 0x2D) then 1 else 0)"

definition lengthOfCharactersAsInteger :: "(uchar \<Rightarrow> bool) \<Rightarrow> wtf_string \<Rightarrow> nat" where
  "lengthOfCharactersAsInteger ws s =
     (let i = length (takeWhile (isSpaceOrNewline ws) s);
          i = i + signPart (drop i s)
      in i + length (takeWhile isASCIIDigit (drop i s)))"

definition charactersToIntStrict :: "(uchar \<Rightarrow> bool) \<Rightarrow> int \<Rightarrow> wtf_string \<Rightarrow> int option" where
  "charactersToIntStrict ws base s = toIntegralType (IntegralType True 32) ws base s"

definition charactersToUIntStrict :: "(uchar \<Rightarrow> bool) \<Rightarrow> int \<Rightarrow> wtf_string \<Rightarrow> int option" where
  "charactersToUIntStrict ws base s = toIntegralType (IntegralType False 32) ws base s"

definition charactersToInt :: "(uchar \<Rightarrow> bool) \<Rightarrow> wtf_string \<Rightarrow> int option" where
  "charactersToInt ws s = toIntegralType (IntegralType True 32) ws 10 (take (lengthOfCharactersAsInteger ws s) s)"

definition charactersToUInt :: "(uchar \<Rightarrow> bool) \<Rightarrow> wtf_string \<Rightarrow> int option" where
  "charactersToUInt ws s = toIntegralType (IntegralType False 32) ws 10 (take (lengthOfCharactersAsInteger ws s) s)"

subsection \<open>White space, replacing and splitting\<close>

definition stripWhiteSpace :: "(uchar \<Rightarrow> bool) \<Rightarrow> wtf_string \<Rightarrow> wtf_string" where
  "stripWhiteSpace ws s =
     (let start = length (takeWhile (isSpaceOrNewline ws) s)
      in if length s \<le> start then []
         else let stop = length s - 1 - length (takeWhile (isSpaceOrNewline ws) (rev s))
              in take (stop + 1 - start) (drop start s))"

text \<open>The state of the loop of simplifyWhiteSpace: what is left and what was written.\<close>

function simplifyLoop :: "(uchar \<Rightarrow> bool) \<Rightarrow> wtf_string \<Rightarrow> wtf_string \<Rightarrow> wtf_string" where
  "simplifyLoop ws s out =
     (let s = dropWhile (isSpaceOrNewline ws) s;
          word = takeWhile (\<lambda>c. \<not> isSpaceOrNewline ws c) s;
          s = dropWhile (\<lambda>c. \<not> isSpaceOrNewline ws c) s
      in if s \<noteq> [] then simplifyLoop ws s (out @ word @ [0x20]) else out @ word)"
  by pat_completeness auto
termination
proof (relation "measure (\<lambda>(_, s, _). length s)", goal_cases)
  case (2 ws s out s1 word s2)
  show ?case
  proof (cases s1)
    case (Cons c r)
    have "\<not> isSpaceOrNewline ws (hd s1)"
      using 2(1) Cons by (metis dropWhile_eq_Cons_conv list.sel(1))
    then have "length s2 < length s1"
      using 2(3) Cons length_dropWhile_le [of "\<lambda>c. \<not> isSpaceOrNewline ws c" r] by simp
    moreover have "length s1 \<le> length s" using 2(1) by (simp add: length_dropWhile_le)
    ultimately show ?thesis by simp
  next
    case Nil
    then have "s2 = []" using 2(3) by simp
    then show ?thesis using 2(4) by simp
  qed
qed simp

definition simplifyWhiteSpace :: "(uchar \<Rightarrow> bool) \<Rightarrow> wtf_string \<Rightarrow> wtf_string" where
  "simplifyWhiteSpace ws s =
     (let out = simplifyLoop ws s []
      in if out \<noteq> [] \<and> last out = 0x20 then butlast out else out)"

definition replaceChar :: "uchar \<Rightarrow> uchar \<Rightarrow> wtf_string \<Rightarrow> wtf_string" where
  "replaceChar oldC newC s = map (\<lambda>c. if c = oldC then newC else c) s"

lemma findFrom_range: "findFrom P s i = -1 \<or> (int i \<le> findFrom P s i \<and> findFrom P s i < int (i + length s))"
proof (induction s arbitrary: i)
  case (Cons c s)
  show ?case using Cons [of "Suc i"] by auto
qed simp

lemma findMatch_range: "findMatch s P p = -1 \<or> (p \<le> findMatch s P p \<and> 0 \<le> findMatch s P p \<and> findMatch s P p < int (length s))"
  using findFrom_range [of P "drop (nat p) s" "nat p"] by (auto simp: findMatch_def)

function split :: "uchar \<Rightarrow> bool \<Rightarrow> wtf_string \<Rightarrow> nat \<Rightarrow> wtf_string list" where
  "split separator allowEmptyEntries s startPos =
     (let endPos = findChar s separator (int startPos)
      in if endPos \<noteq> -1
         then (if allowEmptyEntries \<or> int startPos \<noteq> endPos
               then [substring s startPos (Some (nat endPos - startPos))] else []) @
              split separator allowEmptyEntries s (nat endPos + 1)
         else if allowEmptyEntries \<or> startPos \<noteq> length s then [substring s startPos None] else [])"
  by pat_completeness auto
termination
proof (relation "measure (\<lambda>(_, _, s, p). length s - p)", goal_cases)
  case (2 separator allowEmptyEntries s startPos x)
  then show ?case using findMatch_range [of s "\<lambda>d. d = separator" "int startPos"]
    by (auto simp: findChar_def)
qed simp

text \<open>The loop that constructs the result of replacing one character by a string.\<close>

function replaceLoop :: "uchar \<Rightarrow> wtf_string \<Rightarrow> wtf_string \<Rightarrow> nat \<Rightarrow> wtf_string" where
  "replaceLoop pattern replacement s srcSegmentStart =
     (let srcSegmentEnd = findChar s pattern (int srcSegmentStart)
      in if 0 \<le> srcSegmentEnd
         then take (nat srcSegmentEnd - srcSegmentStart) (drop srcSegmentStart s) @ replacement @
              replaceLoop pattern replacement s (nat srcSegmentEnd + 1)
         else drop srcSegmentStart s)"
  by pat_completeness auto
termination
proof (relation "measure (\<lambda>(_, _, s, p). length s - p)", goal_cases)
  case (2 pattern replacement s start x)
  then show ?case using findMatch_range [of s "\<lambda>d. d = pattern" "int start"]
    by (auto simp: findChar_def)
qed simp

definition replaceCharBy :: "uchar \<Rightarrow> wtf_string \<Rightarrow> wtf_string \<Rightarrow> wtf_string" where
  "replaceCharBy pattern replacement s =
     (if findChar s pattern 0 < 0 then s else replaceLoop pattern replacement s 0)"

subsection \<open>UTF-8\<close>

definition putUTF8Triple :: "uchar \<Rightarrow> byte list" where
  "putUTF8Triple ch =
     [ucast ((drop_bit 12 ch AND 0x0F) OR 0xE0), ucast ((drop_bit 6 ch AND 0x3F) OR 0x80), ucast ((ch AND 0x3F) OR 0x80)]"

text \<open>String::utf8: a high surrogate that the conversion leaves at the end is encoded by itself.\<close>

definition utf8 :: "wtf_string \<Rightarrow> byte list" where
  "utf8 s =
     (case convertUTF16ToUTF8 False s (length s * 3) [] of
        (result, rest, out) \<Rightarrow> if result = sourceExhausted then out @ putUTF8Triple (hd rest) else out)"

definition fromUTF8 :: "byte list \<Rightarrow> wtf_string option" where
  "fromUTF8 bytes =
     (case convertUTF8ToUTF16 True bytes (length bytes) [] of
        (result, rest, out) \<Rightarrow> if result \<noteq> conversionOK then None else Some out)"

subsection \<open>The search loops\<close>

declare findLoop.simps [simp del] reverseLoop.simps [simp del] split.simps [simp del] replaceLoop.simps [simp del]
  simplifyLoop.simps [simp del]

definition window :: "wtf_string \<Rightarrow> nat \<Rightarrow> nat \<Rightarrow> wtf_string" where
  "window s n i = take n (drop i s)"

lemma windowSum_slide:
  assumes "i + n < length s"
  shows "windowSum h (window s n (Suc i)) = windowSum h (window s n i) + ucast (h (s ! (i + n))) - ucast (h (s ! i))"
proof -
  have "window s (Suc n) i = s ! i # window s n (Suc i)"
    using assms by (simp add: window_def flip: Cons_nth_drop_Suc)
  moreover have "window s (Suc n) i = window s n i @ [s ! (i + n)]"
    using assms by (simp add: window_def take_Suc_conv_app_nth)
  ultimately have "s ! i # window s n (Suc i) = window s n i @ [s ! (i + n)]" by simp
  then have "windowSum h (s ! i # window s n (Suc i)) = windowSum h (window s n i @ [s ! (i + n)])" by simp
  then show ?thesis by (simp add: windowSum_def algebra_simps)
qed

text \<open>Whether the loop stops at a position.\<close>

definition matches :: "(uchar \<Rightarrow> uchar) \<Rightarrow> (wtf_string \<Rightarrow> wtf_string \<Rightarrow> bool) \<Rightarrow> wtf_string \<Rightarrow> wtf_string \<Rightarrow> nat \<Rightarrow> bool" where
  "matches h same s t j \<longleftrightarrow> windowSum h t = windowSum h (window s (length t) j) \<and> same (window s (length t) j) t"

lemma findLoop_step:
  assumes "i + Suc n + length t = length s"
  shows "findLoop h same s t (windowSum h t) (windowSum h (window s (length t) i)) i (Suc n) =
    (if matches h same s t i then Some i
     else findLoop h same s t (windowSum h t) (windowSum h (window s (length t) (Suc i))) (Suc i) n)"
proof -
  have "windowSum h (window s (length t) i) + ucast (h (s ! (i + length t))) - ucast (h (s ! i)) =
      windowSum h (window s (length t) (Suc i))"
    using assms by (subst windowSum_slide) simp_all
  then show ?thesis by (subst findLoop.simps) (auto simp: matches_def window_def)
qed

lemma findLoop_first:
  "i + n + length t = length s \<Longrightarrow>
   findLoop h same s t (windowSum h t) (windowSum h (window s (length t) i)) i n = find (matches h same s t) [i..<Suc (i + n)]"
proof (induction n arbitrary: i)
  case 0
  have "findLoop h same s t (windowSum h t) (windowSum h (window s (length t) i)) i 0 =
      (if matches h same s t i then Some i else None)"
    by (subst findLoop.simps) (auto simp: matches_def window_def)
  then show ?case by simp
next
  case (Suc n)
  have u: "[i..<Suc (i + Suc n)] = i # [Suc i..<Suc (Suc i + n)]" by (simp add: upt_conv_Cons del: upt_Suc)
  have ih: "findLoop h same s t (windowSum h t) (windowSum h (window s (length t) (Suc i))) (Suc i) n =
      find (matches h same s t) [Suc i..<Suc (Suc i + n)]"
    by (rule Suc.IH) (use Suc.prems in simp)
  show ?case unfolding u find.simps findLoop_step [OF Suc.prems] ih ..
qed

lemma find_upt_Some: "find P [a..<b] = Some i \<longleftrightarrow> a \<le> i \<and> i < b \<and> P i \<and> (\<forall>j. a \<le> j \<and> j < i \<longrightarrow> \<not> P j)"
proof
  assume "find P [a..<b] = Some i"
  then obtain k where "k < length [a..<b]" "P ([a..<b] ! k)" "i = [a..<b] ! k" "\<forall>j<k. \<not> P ([a..<b] ! j)"
    by (auto simp: find_Some_iff)
  then show "a \<le> i \<and> i < b \<and> P i \<and> (\<forall>j. a \<le> j \<and> j < i \<longrightarrow> \<not> P j)"
    by simp (metis add_diff_inverse_nat le_Suc_ex less_diff_conv nat_add_left_cancel_less add.commute not_less)
next
  assume r: "a \<le> i \<and> i < b \<and> P i \<and> (\<forall>j. a \<le> j \<and> j < i \<longrightarrow> \<not> P j)"
  then have "i - a < length [a..<b]" "P ([a..<b] ! (i - a))" "i = [a..<b] ! (i - a)" "\<forall>j<i - a. \<not> P ([a..<b] ! j)" by auto
  then show "find P [a..<b] = Some i" unfolding find_Some_iff by blast
qed

lemma find_upt_None: "find P [a..<b] = None \<longleftrightarrow> (\<forall>j. a \<le> j \<and> j < b \<longrightarrow> \<not> P j)"
  by (auto simp: find_None_iff)

text \<open>The first occurrence at or after a position, as it is usually stated.\<close>

definition occursAt :: "wtf_string \<Rightarrow> wtf_string \<Rightarrow> nat \<Rightarrow> bool" where
  "occursAt s t i \<longleftrightarrow> i + length t \<le> length s \<and> window s (length t) i = t"

lemma findString_matches:
  assumes "k + length t \<le> length s"
  shows "findString (\<lambda>c. c) (=) s t (int k) =
    (case find (matches (\<lambda>c. c) (=) (drop k s) t) [0..<Suc (length s - k - length t)] of None \<Rightarrow> -1 | Some i \<Rightarrow> int (k + i))"
proof -
  let ?u = "drop k s"
  define d where "d = length s - k - length t"
  have d: "int (length s) - int k - int (length t) = int d" "int (length s) - int k = int (d + length t)"
    using assms by (simp_all add: d_def)
  have w: "take (length t) ?u = window ?u (length t) 0" by (simp add: window_def)
  have f: "findLoop (\<lambda>c. c) (=) ?u t (windowSum (\<lambda>c. c) t) (windowSum (\<lambda>c. c) (window ?u (length t) 0)) 0 d =
      find (matches (\<lambda>c. c) (=) ?u t) [0..<Suc d]"
    using findLoop_first [of 0 d t ?u "\<lambda>c. c" "(=)"] assms by (simp add: d_def del: upt_Suc)
  have "d + length t \<le> length s" using assms by (simp add: d_def)
  then show ?thesis unfolding findString_def Let_def d_def [symmetric]
    by (simp add: d w f del: upt_Suc split: option.split)
qed

lemma matches_occursAt:
  "k + length t \<le> length s \<Longrightarrow> j < Suc (length s - k - length t) \<Longrightarrow>
   matches (\<lambda>c. c) (=) (drop k s) t j \<longleftrightarrow> occursAt s t (k + j)"
  by (auto simp: matches_def occursAt_def window_def add.commute)

lemma findString_none:
  assumes "\<And>i. k \<le> i \<Longrightarrow> \<not> occursAt s t i"
  shows "findString (\<lambda>c. c) (=) s t (int k) = -1"
proof (cases "k + length t \<le> length s")
  case False
  then have "length s < k \<or> int (length s) - int k - int (length t) < 0" by linarith
  then show ?thesis by (auto simp: findString_def Let_def)
next
  case True
  have "find (matches (\<lambda>c. c) (=) (drop k s) t) [0..<Suc (length s - k - length t)] = None"
    unfolding find_upt_None using matches_occursAt [OF True] assms by auto
  then show ?thesis unfolding findString_matches [OF True] by simp
qed

lemma findString_some:
  assumes "occursAt s t i" "k \<le> i" "\<And>j. k \<le> j \<Longrightarrow> j < i \<Longrightarrow> \<not> occursAt s t j"
  shows "findString (\<lambda>c. c) (=) s t (int k) = int i"
proof -
  have k: "k + length t \<le> length s" "i - k < Suc (length s - k - length t)" using assms(1,2) by (auto simp: occursAt_def)
  have "matches (\<lambda>c. c) (=) (drop k s) t (i - k)" using matches_occursAt [OF k] assms(1,2) by simp
  moreover have "\<not> matches (\<lambda>c. c) (=) (drop k s) t j" if "j < i - k" for j
    using matches_occursAt [OF k(1), of j] that k(2) assms(3) [of "k + j"] by simp
  ultimately have "find (matches (\<lambda>c. c) (=) (drop k s) t) [0..<Suc (length s - k - length t)] = Some (i - k)"
    unfolding find_upt_Some using k(2) by blast
  then show ?thesis unfolding findString_matches [OF k(1)] using assms(2) by simp
qed

text \<open>
  C31: The search for a string, which compares sums of characters that it updates as the
  window slides, returns the least position at or after the start at which the string
  occurs, and -1 exactly when there is none.
\<close>

theorem findString_least:
  "findString (\<lambda>c. c) (=) s t (int k) =
     (if \<exists>i\<ge>k. occursAt s t i then int (LEAST i. k \<le> i \<and> occursAt s t i) else -1)"
proof (cases "\<exists>i\<ge>k. occursAt s t i")
  case True
  then have "k \<le> (LEAST i. k \<le> i \<and> occursAt s t i) \<and> occursAt s t (LEAST i. k \<le> i \<and> occursAt s t i)"
    by (rule LeastI_ex [of "\<lambda>i. k \<le> i \<and> occursAt s t i", simplified])
  moreover have "\<not> occursAt s t j" if "k \<le> j" "j < (LEAST i. k \<le> i \<and> occursAt s t i)" for j
    using not_less_Least [OF that(2)] that(1) by blast
  ultimately show ?thesis using True findString_some by auto
next
  case False
  then show ?thesis by (auto intro: findString_none)
qed

text \<open>The sums of a search without case are sums of ASCII lower case only.\<close>

text \<open>
  A search without regard to case sums ASCII lower case only, so it misses an
  occurrence that differs in the case of a letter outside ASCII, whatever the comparison
  under case folding says.
\<close>

theorem findString_misses_accents:
  "findString toASCIILower same [0xC9] [0xE9] 0 = -1"
  by (simp add: findString_def Let_def findLoop.simps windowSum_def toASCIILower_def)

subsection \<open>Numbers and their digits\<close>

lemma digitValue_dec: "is_digit c \<Longrightarrow> isASCIIDigit c \<and> uint c - 48 = int (unat c - 48) \<and> digitValue c = int (unat c - 48)"
proof -
  assume d: "is_digit c"
  have u: "uint c = int (unat c)" by simp
  show ?thesis using d unfolding is_digit_def digitValue_def isASCIIDigit_def word_le_nat_alt u by auto
qed

lemma is_digit_cases: "is_digit c \<Longrightarrow> isASCIIDigit c \<and> c \<le> 0x7F \<and> uint c - 48 < 10 \<and> 0 \<le> digitValue c \<and> digitValue c \<le> 9"
proof -
  assume d: "is_digit c"
  define k where "k = unat c - 48"
  have "k \<le> 9" "unat c \<le> 0x7F" using d unfolding is_digit_def k_def by linarith+
  moreover have "isASCIIDigit c \<and> uint c - 48 = int k \<and> digitValue c = int k" using digitValue_dec [OF d] by (simp only: k_def)
  ultimately show ?thesis by (simp add: word_le_nat_alt)
qed

lemma overflow_guard:
  "0 \<le> d \<Longrightarrow> d \<le> 9 \<Longrightarrow> (m div 10 < v \<or> (v = m div 10 \<and> m mod 10 < d)) \<longleftrightarrow> m < 10 * v + (d :: int)"
proof -
  assume d: "0 \<le> d" "d \<le> 9"
  define q r where "q = m div 10" and "r = m mod 10"
  have "m = 10 * q + r" "0 \<le> r" "r < 10" by (simp_all add: q_def r_def)
  then show ?thesis using d unfolding q_def [symmetric] r_def [symmetric] by linarith
qed

lemma digit_allowed [simp]: "is_digit c \<Longrightarrow> isCharacterAllowedInBase c 10"
  using is_digit_cases [of c] by (simp add: isCharacterAllowedInBase_def word_le_def word_less_def)

lemma narrow_id:
  assumes "0 \<le> x" "x \<le> integralMax t" "0 < bits t"
  shows "narrow t x = x"
proof -
  have "(2 :: int) ^ bits t = 2 * 2 ^ (bits t - 1)" using assms(3) by (cases "bits t") simp_all
  then show ?thesis using assms by (auto simp: narrow_def integralMax_def)
qed

lemma digitLoop_digits:
  assumes "list_all is_digit ds" "rest = [] \<or> \<not> isCharacterAllowedInBase (hd rest) 10" "0 < bits t"
  shows "int (dec_value v ds) \<le> integralMax t \<Longrightarrow>
    digitLoop t 10 neg (ds @ rest) (int v) = Some (int (dec_value v ds), rest)"
  using assms(1)
proof (induction ds arbitrary: v)
  case Nil
  then show ?case using assms(2) by (cases rest) simp_all
next
  case (Cons c ds)
  have d: "is_digit c" using Cons.prems by simp
  have m: "dec_value v (c # ds) = dec_value (10 * v + (unat c - 48)) ds" by (simp add: mult.commute)
  have le: "10 * v + (unat c - 48) \<le> dec_value (10 * v + (unat c - 48)) ds" by (rule dec_value_mono)
  then have b: "10 * int v + digitValue c \<le> integralMax t" using Cons.prems(1) m digitValue_dec [OF d] by linarith
  then have "\<not> (integralMax t div 10 < int v \<or>
      (int v = integralMax t div 10 \<and> integralMax t mod 10 + (if neg then 1 else 0) < digitValue c))"
    using overflow_guard [of "digitValue c" "integralMax t" "int v"] is_digit_cases [OF d] by auto
  moreover have "narrow t (10 * int v + digitValue c) = int (10 * v + (unat c - 48))"
    using b is_digit_cases [OF d] digitValue_dec [OF d] assms(3) by (simp add: narrow_id)
  moreover have "digitLoop t 10 neg (ds @ rest) (int (10 * v + (unat c - 48))) = Some (int (dec_value (10 * v + (unat c - 48)) ds), rest)"
    by (rule Cons.IH) (use Cons.prems m in simp_all)
  ultimately show ?case using m d by simp
qed

lemma digitLoop_too_big:
  assumes "list_all is_digit ds" "0 < bits t"
  shows "integralMax t < int (dec_value v ds) \<Longrightarrow> int v \<le> integralMax t \<Longrightarrow> digitLoop t 10 False (ds @ rest) (int v) = None"
  using assms(1)
proof (induction ds arbitrary: v)
  case (Cons c ds)
  have d: "is_digit c" using Cons.prems by simp
  have m: "dec_value v (c # ds) = dec_value (10 * v + (unat c - 48)) ds" by (simp add: mult.commute)
  show ?case
  proof (cases "10 * int v + digitValue c \<le> integralMax t")
    case True
    then have "\<not> (integralMax t div 10 < int v \<or> (int v = integralMax t div 10 \<and> integralMax t mod 10 < digitValue c))"
      using overflow_guard [of "digitValue c" "integralMax t" "int v"] is_digit_cases [OF d] by linarith
    moreover have "narrow t (10 * int v + digitValue c) = int (10 * v + (unat c - 48))"
      using True is_digit_cases [OF d] digitValue_dec [OF d] assms(2) by (simp add: narrow_id)
    moreover have "int (10 * v + (unat c - 48)) \<le> integralMax t" using True digitValue_dec [OF d] by simp
    ultimately show ?thesis using Cons.IH [of "10 * v + (unat c - 48)"] Cons.prems m d by simp
  next
    case False
    then have "integralMax t div 10 < int v \<or> (int v = integralMax t div 10 \<and> integralMax t mod 10 < digitValue c)"
      using overflow_guard [of "digitValue c" "integralMax t" "int v"] is_digit_cases [OF d] by linarith
    then show ?thesis using d by auto
  qed
qed simp

lemma digit_not_space [simp]: "is_digit c \<Longrightarrow> \<not> isSpaceOrNewline ws c"
  using is_digit_cases [of c] by (auto simp: isSpaceOrNewline_def isASCIISpace_def isASCIIDigit_def word_le_nat_alt)

lemma digit_not_sign: "is_digit c \<Longrightarrow> c \<noteq> 0x2D \<and> c \<noteq> 0x2B"
  by (auto simp: is_digit_def)

lemma toIntegralType_digits:
  assumes "list_all is_digit s" "s \<noteq> []" "0 < bits t" "0 \<le> integralMax t"
  shows "toIntegralType t ws 10 s = (if int (dec_value 0 s) \<le> integralMax t then Some (int (dec_value 0 s)) else None)"
proof -
  obtain c cs where c: "s = c # cs" "is_digit c" using assms by (cases s) auto
  have "digitLoop t 10 False s 0 = (if int (dec_value 0 s) \<le> integralMax t then Some (int (dec_value 0 s), []) else None)"
    using digitLoop_digits [OF assms(1), of "[]" t 0 False] digitLoop_too_big [OF assms(1,3), of 0 "[]"] assms by simp
  moreover have "dropWhile (isSpaceOrNewline ws) s = s" using c by simp
  moreover have "hd s \<noteq> 0x2D" "hd s \<noteq> 0x2B" "isCharacterAllowedInBase (hd s) 10" using c digit_not_sign by auto
  ultimately show ?thesis using assms(2) by (simp add: toIntegralType_def Let_def)
qed

lemma minus_not_space [simp]: "\<not> isSpaceOrNewline ws 0x2D"
  by (simp add: isSpaceOrNewline_def isASCIISpace_def)

lemma toIntegralType_minus_digits:
  assumes "list_all is_digit s" "s \<noteq> []" "isSigned t" "0 < bits t" "int (dec_value 0 s) \<le> integralMax t"
  shows "toIntegralType t ws 10 (0x2D # s) = Some (narrow t (- int (dec_value 0 s)))"
proof -
  have "digitLoop t 10 True s 0 = Some (int (dec_value 0 s), [])"
    using digitLoop_digits [OF assms(1), of "[]" t 0 True] assms by simp
  moreover have "isCharacterAllowedInBase (hd s) 10" using assms(1,2) by (cases s) simp_all
  ultimately show ?thesis using assms(2,3) by (simp add: toIntegralType_def Let_def)
qed

text \<open>
  C33: charactersToIntStrict reads the decimal form of every 32-bit integer back, the
  least one included.
\<close>

theorem toInt_from_int:
  "charactersToIntStrict ws 10 (from_int i) = Some (sint i)"
proof -
  let ?t = "IntegralType True 32"
  have r: "- (2 ^ 31) \<le> sint i" "sint i < 2 ^ 31" using sint_ge [of i] sint_lt [of i] by simp_all
  consider "i = 0" | "sint i = -2147483648" | "i \<noteq> 0" "sint i < 0" "sint i \<noteq> -2147483648" | "0 < sint i"
    by (metis signed_eq_0_iff linorder_neqE_linordered_idom)
  then show ?thesis
  proof cases
    case 1
    then show ?thesis
      using toIntegralType_digits [of "[0x30]" ?t ws] by (simp add: from_int_def charactersToIntStrict_def integralMax_def is_digit_def)
  next
    case 2
    then have "i \<noteq> 0" by auto
    then show ?thesis using 2
      by (simp add: from_int_def charactersToIntStrict_def toIntegralType_def ustr_def isSpaceOrNewline_def isASCIISpace_def
          isCharacterAllowedInBase_def isASCIIDigit_def digitValue_def integralMax_def narrow_def)
  next
    case 3
    have "narrow ?t (sint i) = sint i" using r by (simp add: narrow_def)
    then show ?thesis
      using 3 r fromDigits_spec [of "nat (- sint i)"] toIntegralType_minus_digits [of "fromDigits (nat (- sint i)) []" ?t ws]
      by (simp add: from_int_def charactersToIntStrict_def integralMax_def)
  next
    case 4
    then have "i \<noteq> 0" by auto
    then show ?thesis
      using 4 r fromDigits_spec [of "nat (sint i)"] toIntegralType_digits [of "fromDigits (nat (sint i)) []" ?t ws]
      by (simp add: from_int_def charactersToIntStrict_def integralMax_def)
  qed
qed

text \<open>
  The guard against overflow lets a negative number reach the magnitude 2147483648,
  which wraps around to a negative value that passes the guard for the next digit:
  -21474836481 is accepted and its value is -1.
\<close>

theorem toInt_overflow_accepted:
  "charactersToIntStrict ws 10 (ustr ''-21474836481'') = Some (-1)"
  by (simp add: charactersToIntStrict_def toIntegralType_def ustr_def isSpaceOrNewline_def isASCIISpace_def
      isCharacterAllowedInBase_def isASCIIDigit_def digitValue_def integralMax_def narrow_def)

subsection \<open>UTF-8\<close>

lemma units_le_bytes: "length (concat (map utf16_units cs)) \<le> length (concat (map utf8_bytes cs))"
proof (induction cs)
  case (Cons c cs)
  have "length (utf16_units c) \<le> length (utf8_bytes c)"
    by (simp add: utf16_units_def utf16_of_def utf8_bytes_def utf8_of_def)
  then show ?case using Cons by simp
qed simp

lemma utf8_encoded:
  "list_all scalar cs \<Longrightarrow> utf8 (concat (map utf16_units cs)) = concat (map utf8_bytes cs)"
  using convertUTF16ToUTF8_encoded [of cs "length (concat (map utf16_units cs)) * 3" False "[]"] concat_bytes_le_units [of cs]
  by (simp add: utf8_def mult.commute)

text \<open>
  C32: Decoding the UTF-8 form of a string gives the string back exactly when its
  surrogates are paired.
\<close>

theorem fromUTF8_utf8:
  "fromUTF8 (utf8 s) = Some s \<longleftrightarrow> (\<exists>cs. list_all scalar cs \<and> s = concat (map utf16_units cs))"
proof
  assume "fromUTF8 (utf8 s) = Some s"
  then obtain ps where "list_all (\<lambda>(bs, c). decodes bs c) ps" "s = concat (map (utf16_units \<circ> snd) ps)"
    using convertUTF8ToUTF16_gen [where strict = True and source = "utf8 s" and room = "length (utf8 s)" and target = "[]"]
    by (auto simp: fromUTF8_def split: prod.splits if_splits)
  then have "list_all scalar (map snd ps)" "s = concat (map utf16_units (map snd ps))"
    using decodes_scalar by (fastforce simp: list_all_iff)+
  then show "\<exists>cs. list_all scalar cs \<and> s = concat (map utf16_units cs)" by blast
next
  assume "\<exists>cs. list_all scalar cs \<and> s = concat (map utf16_units cs)"
  then show "fromUTF8 (utf8 s) = Some s"
    using convertUTF8ToUTF16_encoded units_le_bytes by (auto simp: utf8_encoded fromUTF8_def)
qed

subsection \<open>Splitting\<close>

fun join :: "uchar \<Rightarrow> wtf_string list \<Rightarrow> wtf_string" where
  "join c [] = []"
| "join c [s] = s"
| "join c (s # t # ss) = s @ c # join c (t # ss)"

lemma findFrom_spec:
  "(findFrom P s i = -1 \<longleftrightarrow> (\<forall>c\<in>set s. \<not> P c)) \<and>
   (\<forall>j. findFrom P s i = int (i + j) \<longleftrightarrow> j < length s \<and> P (s ! j) \<and> (\<forall>c\<in>set (take j s). \<not> P c))"
proof (induction s arbitrary: i)
  case (Cons c s)
  show ?case
  proof (cases "P c")
    case True
    have "int i = int (i + j) \<longleftrightarrow> j < length (c # s) \<and> P ((c # s) ! j) \<and> (\<forall>d\<in>set (take j (c # s)). \<not> P d)" for j
      using True by (cases j) auto
    then show ?thesis using True by simp
  next
    case False
    have "findFrom P s (Suc i) = int (i + j) \<longleftrightarrow> j < length (c # s) \<and> P ((c # s) ! j) \<and> (\<forall>d\<in>set (take j (c # s)). \<not> P d)" for j
    proof (cases j)
      case 0
      then show ?thesis using False findFrom_range [of P s "Suc i"] by auto
    next
      case (Suc k)
      have "findFrom P s (Suc i) = int (i + j) \<longleftrightarrow> findFrom P s (Suc i) = int (Suc i + k)" using Suc by simp
      then show ?thesis using Cons [of "Suc i"] False Suc by auto
    qed
    then show ?thesis using Cons [of "Suc i"] False by simp
  qed
qed auto

lemma findChar_cases:
  assumes "k \<le> length s"
  obtains "findChar s c (int k) = -1" "c \<notin> set (drop k s)"
    | i where "findChar s c (int k) = int (k + i)" "drop k s = take i (drop k s) @ c # drop (k + i + 1) s" "c \<notin> set (take i (drop k s))"
      "k + i < length s"
proof (cases "c \<in> set (drop k s)")
  case False
  have "findChar s c (int k) = -1"
    using False assms findFrom_spec [of "\<lambda>d. d = c" "drop k s" k] by (auto simp: findChar_def findMatch_def)
  then show ?thesis using that(1) False by blast
next
  case True
  then have "findFrom (\<lambda>d. d = c) (drop k s) k \<noteq> -1" using findFrom_spec [of "\<lambda>d. d = c" "drop k s" k] by auto
  then obtain i where i: "findFrom (\<lambda>d. d = c) (drop k s) k = int (k + i)"
  proof -
    have "int k \<le> findFrom (\<lambda>d. d = c) (drop k s) k"
      using findFrom_range [of "\<lambda>d. d = c" "drop k s" k] \<open>findFrom (\<lambda>d. d = c) (drop k s) k \<noteq> -1\<close> by blast
    then have "findFrom (\<lambda>d. d = c) (drop k s) k = int (k + (nat (findFrom (\<lambda>d. d = c) (drop k s) k) - k))" by linarith
    then show ?thesis by (rule that)
  qed
  then have s: "i < length (drop k s)" "drop k s ! i = c" "c \<notin> set (take i (drop k s))"
    using findFrom_spec [of "\<lambda>d. d = c" "drop k s" k] by auto
  have "drop i (drop k s) = c # drop (k + i + 1) s"
    using s(1,2) by (metis Cons_nth_drop_Suc drop_drop add.commute Suc_eq_plus1 add.left_commute)
  then have "drop k s = take i (drop k s) @ c # drop (k + i + 1) s"
    using append_take_drop_id [of i "drop k s"] by simp
  moreover have "findChar s c (int k) = int (k + i)" using i s(1) by (simp add: findChar_def findMatch_def)
  moreover have "k + i < length s" using s(1) by simp
  ultimately show ?thesis using that(2) s(3) by blast
qed

lemma split_parts:
  "k \<le> length s \<Longrightarrow> split c True s k \<noteq> [] \<and> join c (split c True s k) = drop k s \<and> (\<forall>t\<in>set (split c True s k). c \<notin> set t)"
proof (induction "length s - k" arbitrary: k rule: less_induct)
  case less
  show ?case
  proof (rule findChar_cases [OF less.prems, of c])
    assume "findChar s c (int k) = -1" "c \<notin> set (drop k s)"
    then show ?thesis by (subst (1 2 3) split.simps) (simp add: substring_def)
  next
    fix i assume i: "findChar s c (int k) = int (k + i)" "drop k s = take i (drop k s) @ c # drop (k + i + 1) s"
      "c \<notin> set (take i (drop k s))" "k + i < length s"
    let ?rest = "split c True s (k + i + 1)"
    have ih: "?rest \<noteq> [] \<and> join c ?rest = drop (k + i + 1) s \<and> (\<forall>t\<in>set ?rest. c \<notin> set t)"
      by (rule less.hyps) (use i(4) in auto)
    then obtain r rs where r: "?rest = r # rs" by (cases ?rest) auto
    define t where "t = take i (drop k s)"
    have sp: "split c True s k = t # ?rest"
      using i(1,4) by (subst split.simps) (simp add: substring_def nat_add_distrib min_def t_def)
    have "join c (split c True s k) = t @ c # drop (k + i + 1) s" using ih r unfolding sp by simp
    also have "\<dots> = drop k s" using i(2) unfolding t_def by (rule sym)
    finally show ?thesis using ih i(3) unfolding sp t_def by simp
  qed
qed

text \<open>
  Splitting with empty entries kept loses nothing: the parts joined by the separator
  are the string, and no part contains the separator.
\<close>

theorem split_join: "join c (split c True s 0) = s \<and> list_all (\<lambda>t. c \<notin> set t) (split c True s 0)"
  using split_parts [of 0 s c] by (simp add: list_all_iff)

end
