(* ===== verification/Kurl.thy ===== *)
theory Kurl
  imports WtfString
begin

section \<open>URLs (WebCore/platform/KURL.cpp)\<close>

text \<open>
  The parser of KURL and the accessors of its result. A \<open>const char*\<close> is a list of bytes
  without the terminating null, which \<open>byteAt\<close> reads behind the end; a null inside ends the
  scans just as in the code. Offsets into the text are natural numbers.
\<close>

subsection \<open>Character classes\<close>

definition SchemeFirstChar :: byte where "SchemeFirstChar = push_bit 0 1"
definition SchemeChar :: byte where "SchemeChar = push_bit 1 1"
definition UserInfoChar :: byte where "UserInfoChar = push_bit 2 1"
definition HostnameChar :: byte where "HostnameChar = push_bit 3 1"
definition IPv6Char :: byte where "IPv6Char = push_bit 4 1"
definition PathSegmentEndChar :: byte where "PathSegmentEndChar = push_bit 5 1"
definition BadChar :: byte where "BadChar = push_bit 6 1"

definition characterClassTable :: "byte list" where
  "characterClassTable =
     [PathSegmentEndChar] @ replicate 32 BadChar @
     [UserInfoChar, BadChar, PathSegmentEndChar OR BadChar, UserInfoChar,
      UserInfoChar OR HostnameChar OR IPv6Char OR BadChar] @
     replicate 5 UserInfoChar @
     [SchemeChar OR UserInfoChar, UserInfoChar, SchemeChar OR UserInfoChar OR HostnameChar,
      SchemeChar OR UserInfoChar OR HostnameChar OR IPv6Char, PathSegmentEndChar] @
     replicate 10 (SchemeChar OR UserInfoChar OR HostnameChar OR IPv6Char) @
     [UserInfoChar OR IPv6Char, UserInfoChar, BadChar, UserInfoChar, BadChar, PathSegmentEndChar OR BadChar, 0] @
     replicate 6 (SchemeFirstChar OR SchemeChar OR UserInfoChar OR HostnameChar OR IPv6Char) @
     replicate 20 (SchemeFirstChar OR SchemeChar OR UserInfoChar OR HostnameChar) @
     [0, 0, 0, 0, UserInfoChar OR HostnameChar, 0] @
     replicate 6 (SchemeFirstChar OR SchemeChar OR UserInfoChar OR HostnameChar OR IPv6Char) @
     replicate 20 (SchemeFirstChar OR SchemeChar OR UserInfoChar OR HostnameChar) @
     [0, 0, 0, UserInfoChar] @ replicate 129 BadChar"

definition charClass :: "byte \<Rightarrow> byte \<Rightarrow> bool" where
  "charClass k c = (characterClassTable ! unat c AND k \<noteq> 0)"

definition isSchemeFirstChar :: "byte \<Rightarrow> bool" where "isSchemeFirstChar c = charClass SchemeFirstChar c"
definition isSchemeChar :: "byte \<Rightarrow> bool" where "isSchemeChar c = charClass SchemeChar c"
definition isUserInfoChar :: "byte \<Rightarrow> bool" where "isUserInfoChar c = charClass UserInfoChar c"
definition isHostnameChar :: "byte \<Rightarrow> bool" where "isHostnameChar c = charClass HostnameChar c"
definition isIPv6Char :: "byte \<Rightarrow> bool" where "isIPv6Char c = charClass IPv6Char c"
definition isPathSegmentEndChar :: "byte \<Rightarrow> bool" where "isPathSegmentEndChar c = charClass PathSegmentEndChar c"
definition isBadChar :: "byte \<Rightarrow> bool" where "isBadChar c = charClass BadChar c"

text \<open>The overloads for UChar.\<close>

definition uSchemeFirstChar :: "uchar \<Rightarrow> bool" where
  "uSchemeFirstChar c = (c \<le> 0xFF \<and> isSchemeFirstChar (ucast c))"

definition uSchemeChar :: "uchar \<Rightarrow> bool" where
  "uSchemeChar c = (c \<le> 0xFF \<and> isSchemeChar (ucast c))"

definition uPathSegmentEndChar :: "uchar \<Rightarrow> bool" where
  "uPathSegmentEndChar c = (c \<le> 0xFF \<and> isPathSegmentEndChar (ucast c))"

definition isByteDigit :: "byte \<Rightarrow> bool" where
  "isByteDigit c = (0x30 \<le> c \<and> c \<le> 0x39)"

definition matchLetter :: "byte \<Rightarrow> byte \<Rightarrow> bool" where
  "matchLetter c lowercaseLetter = (c OR 0x20 = lowercaseLetter)"

subsection \<open>Text\<close>

definition byteAt :: "byte list \<Rightarrow> nat \<Rightarrow> byte" where
  "byteAt url i = (if i < length url then url ! i else 0)"

definition slice :: "byte list \<Rightarrow> nat \<Rightarrow> nat \<Rightarrow> byte list" where
  "slice url a b = take (b - a) (drop a url)"

text \<open>\<open>while (P(url[i])) i++\<close> for a test that the terminating null fails.\<close>

function scan :: "(byte \<Rightarrow> bool) \<Rightarrow> byte list \<Rightarrow> nat \<Rightarrow> nat" where
  "scan P url i = (if i < length url \<and> P (url ! i) then scan P url (i + 1) else i)"
  by pat_completeness auto
termination
  by (relation "measure (\<lambda>(_, url, i). length url - i)") auto

definition copyASCII :: "wtf_string \<Rightarrow> byte list" where
  "copyASCII s = map ucast s"

text \<open>The constructor of String for characters of 8 bits.\<close>

definition fromBytes :: "byte list \<Rightarrow> wtf_string" where
  "fromBytes bs = map ucast bs"

definition findFirstOf :: "wtf_string \<Rightarrow> int \<Rightarrow> uchar list \<Rightarrow> int" where
  "findFirstOf s startPos toFind = findMatch s (\<lambda>c. c \<in> set toFind) startPos"

subsection \<open>Escaping and paths\<close>

definition hexDigit :: "byte \<Rightarrow> byte" where
  "hexDigit d = bstr ''0123456789ABCDEF'' ! unat d"

definition escapeBadChar :: "byte \<Rightarrow> byte list" where
  "escapeBadChar c =
     (if isBadChar c then
        if c = 0x25 \<or> c = 0x3F then [c]
        else if c \<noteq> 0x09 \<and> c \<noteq> 0x0A \<and> c \<noteq> 0x0D then [0x25, hexDigit (drop_bit 4 c), hexDigit (c AND 0xF)]
        else []
      else [c])"

definition appendEscapingBadChars :: "byte list \<Rightarrow> byte list" where
  "appendEscapingBadChars str = concat (map escapeBadChar str)"

text \<open>
  copyPathRemovingDots. The destination is kept with its last character first;
  \<open>bufferPathStart\<close> is where it is empty.
\<close>

fun dropSlashes :: "byte list \<Rightarrow> byte list" where
  "dropSlashes (c # d # dst) = (if c = 0x2F then dropSlashes (d # dst) else c # d # dst)"
| "dropSlashes dst = dst"

fun dropToSlash :: "byte list \<Rightarrow> byte list" where
  "dropToSlash [] = []"
| "dropToSlash (c # dst) = (if c \<noteq> 0x2F then dropToSlash dst else c # dst)"

definition rewindSegment :: "byte list \<Rightarrow> byte list" where
  "rewindSegment dst = dropToSlash (dropSlashes (if 1 < length dst then tl dst else dst))"

fun removeDots :: "byte list \<Rightarrow> byte list \<Rightarrow> byte list" where
  "removeDots dst [] = rev dst"
| "removeDots dst [a] =
     (if a = 0x2E \<and> hd dst = 0x2F then rev dst else rev (a # dst))"
| "removeDots dst [a, b] =
     (if a = 0x2E \<and> hd dst = 0x2F then
        if b = 0x2F then rev dst
        else if b = 0x2E then rev (rewindSegment dst)
        else removeDots (a # dst) [b]
      else removeDots (a # dst) [b])"
| "removeDots dst (a # b # c # src) =
     (if a = 0x2E \<and> hd dst = 0x2F then
        if b = 0x2F then removeDots dst (c # src)
        else if b = 0x2E \<and> c = 0x2F then removeDots (rewindSegment dst) src
        else removeDots (a # dst) (b # c # src)
      else removeDots (a # dst) (b # c # src))"

definition copyPathRemovingDots :: "byte list \<Rightarrow> byte list" where
  "copyPathRemovingDots src = (case src of [] \<Rightarrow> [] | c # cs \<Rightarrow> removeDots [c] cs)"

fun dotAfter :: "byte \<Rightarrow> byte list \<Rightarrow> bool" where
  "dotAfter pc [] = False"
| "dotAfter pc (c # str) =
     (if c = 0 then False
      else if c = 0x2E \<and> (pc = 0x2F \<or> pc = 0x2E) then True else dotAfter c str)"

definition hasSlashDotOrDotDot :: "byte list \<Rightarrow> bool" where
  "hasSlashDotOrDotDot str = (case str of [] \<Rightarrow> False | c # cs \<Rightarrow> if c = 0 then False else dotAfter c cs)"

subsection \<open>The parser\<close>

record KURL =
  m_string :: wtf_string
  m_isValid :: bool
  m_protocolInHTTPFamily :: bool
  m_schemeEnd :: nat
  m_userStart :: nat
  m_userEnd :: nat
  m_passwordEnd :: nat
  m_hostEnd :: nat
  m_portEnd :: nat
  m_pathAfterLastSlash :: nat
  m_pathEnd :: nat
  m_queryEnd :: nat
  m_fragmentEnd :: nat

definition invalidate :: "wtf_string \<Rightarrow> KURL" where
  "invalidate string =
     \<lparr>m_string = string, m_isValid = False, m_protocolInHTTPFamily = False, m_schemeEnd = 0, m_userStart = 0, m_userEnd = 0,
      m_passwordEnd = 0, m_hostEnd = 0, m_portEnd = 0, m_pathAfterLastSlash = 0, m_pathEnd = 0, m_queryEnd = 0,
      m_fragmentEnd = 0\<rparr>"

record authority =
  userStart :: nat
  userEnd :: nat
  passwordStart :: nat
  passwordEnd :: nat
  hostStart :: nat
  hostEnd :: nat
  portStart :: nat
  portEnd :: nat

definition noAuthority :: "nat \<Rightarrow> authority" where
  "noAuthority i =
     \<lparr>userStart = i, userEnd = i, passwordStart = i, passwordEnd = i, hostStart = i, hostEnd = i, portStart = i, portEnd = i\<rparr>"

text \<open>The user information: where the user ends, the password, and where the host starts.\<close>

definition firstColon :: "byte list \<Rightarrow> nat \<Rightarrow> nat \<Rightarrow> nat" where
  "firstColon url a b = (let i = scan (\<lambda>c. c \<noteq> 0x3A) (take b url) a in if i < b then i else 0)"

definition parseUserInfo :: "byte list \<Rightarrow> nat \<Rightarrow> (nat \<times> nat \<times> nat \<times> nat) option" where
  "parseUserInfo url start =
     (let stop = scan isUserInfoChar url start;
          colonPos = firstColon url start stop
      in if byteAt url stop = 0x40 then
           (if colonPos \<noteq> 0 then Some (colonPos, colonPos + 1, stop, stop + 1) else Some (stop, stop, stop, stop + 1))
         else if byteAt url stop = 0x5B \<or> isPathSegmentEndChar (byteAt url stop) then Some (start, start, start, start)
         else None)"

definition parseHost :: "byte list \<Rightarrow> nat \<Rightarrow> nat option" where
  "parseHost url start =
     (if byteAt url start = 0x5B then
        (let stop = scan isIPv6Char url (start + 1) in if byteAt url stop = 0x5D then Some (stop + 1) else None)
      else Some (scan isHostnameChar url start))"

definition parsePort :: "byte list \<Rightarrow> nat \<Rightarrow> nat \<times> nat" where
  "parsePort url hostStop =
     (if byteAt url hostStop = 0x3A then (hostStop + 1, scan isByteDigit url (hostStop + 1)) else (hostStop, hostStop))"

definition parseAuthority :: "byte list \<Rightarrow> nat \<Rightarrow> bool \<Rightarrow> bool \<Rightarrow> authority option" where
  "parseAuthority url start httpFamily isFile =
     (case parseUserInfo url start of
        None \<Rightarrow> None
      | Some (ue, ps, pe, hs) \<Rightarrow>
          (case parseHost url hs of
             None \<Rightarrow> None
           | Some he \<Rightarrow>
               (case parsePort url he of
                  (po, pt) \<Rightarrow>
                    if \<not> isPathSegmentEndChar (byteAt url pt) then None
                    else if start = pt \<and> \<not> httpFamily \<and> \<not> isFile then Some (noAuthority (start - 2))
                    else Some \<lparr>userStart = start, userEnd = ue, passwordStart = ps, passwordEnd = pe, hostStart = hs, hostEnd = he,
                               portStart = po, portEnd = pt\<rparr>)))"

definition matchesWord :: "byte list \<Rightarrow> nat \<Rightarrow> string \<Rightarrow> bool" where
  "matchesWord url i word = list_all (\<lambda>k. matchLetter (byteAt url (i + k)) (bstr word ! k)) [0..<length word]"

definition isHTTPFamily :: "byte list \<Rightarrow> bool" where
  "isHTTPFamily url =
     (matchesWord url 0 ''http'' \<and> (byteAt url 4 = 0x3A \<or> (matchLetter (byteAt url 4) 0x73 \<and> byteAt url 5 = 0x3A)))"

text \<open>The text of the authority and the offsets that go with it.\<close>

record assembled =
  a_text :: "byte list"
  a_userStart :: nat
  a_userEnd :: nat
  a_passwordEnd :: nat
  a_hostEnd :: nat
  a_portEnd :: nat

definition assembleAuthority :: "byte list \<Rightarrow> authority \<Rightarrow> bool \<Rightarrow> bool \<Rightarrow> byte list \<Rightarrow> assembled" where
  "assembleAuthority url a hideHost present p =
     (if present then
        let p = p @ [0x2F, 0x2F]; us = length p;
            p = p @ slice url (userStart a) (userEnd a); ue = length p;
            p = (if passwordEnd a \<noteq> passwordStart a then p @ 0x3A # slice url (passwordStart a) (passwordEnd a) else p);
            pe = length p;
            p = (if length p \<noteq> us then p @ [0x40] else p);
            p = (if hideHost then p else p @ slice url (hostStart a) (hostEnd a)); he = length p;
            p = (if hostEnd a \<noteq> portStart a then p @ 0x3A # slice url (portStart a) (portEnd a) else p)
        in \<lparr>a_text = p, a_userStart = us, a_userEnd = ue, a_passwordEnd = pe, a_hostEnd = he, a_portEnd = length p\<rparr>
      else \<lparr>a_text = p, a_userStart = length p, a_userEnd = length p, a_passwordEnd = length p, a_hostEnd = length p,
            a_portEnd = length p\<rparr>)"

fun lastSlash :: "byte list \<Rightarrow> nat \<Rightarrow> nat \<Rightarrow> nat" where
  "lastSlash buffer low 0 = 0"
| "lastSlash buffer low (Suc i) =
     (if low < Suc i then if buffer ! i = 0x2F then Suc i else lastSlash buffer low i else Suc i)"

text \<open>The rest of the parser, behind the authority: the path, the query and the fragment, and the text that is stored.\<close>

definition assembleURL :: "byte list \<Rightarrow> wtf_string option \<Rightarrow> nat \<Rightarrow> bool \<Rightarrow> bool \<Rightarrow> bool \<Rightarrow> authority \<Rightarrow> KURL" where
  "assembleURL url originalString schemeEnd hierarchical isFile http a =
     (let pathStart = portEnd a;
          pathEnd = scan (\<lambda>c. c \<noteq> 0 \<and> c \<noteq> 0x3F \<and> c \<noteq> 0x23) url pathStart;
          queryEnd = (if byteAt url pathEnd = 0x3F then scan (\<lambda>c. c \<noteq> 0 \<and> c \<noteq> 0x23) url pathEnd else pathEnd);
          hasFragment = (byteAt url queryEnd = 0x23);
          fragmentStart = (if hasFragment then queryEnd + 1 else queryEnd);
          fragmentEnd = (if hasFragment then scan (\<lambda>c. c \<noteq> 0) url fragmentStart else queryEnd);
          hostIsLocalHost = (portEnd a - userStart a = 9 \<and> matchesWord url (userStart a) ''localhost'');
          degenFilePath = (pathStart = pathEnd \<and> (hostStart a = hostEnd a \<or> hostIsLocalHost));
          haveNonHostAuthorityPart =
            (userStart a \<noteq> userEnd a \<or> passwordStart a \<noteq> passwordEnd a \<or> portStart a \<noteq> portEnd a);
          present = (if isFile then \<not> degenFilePath else haveNonHostAuthorityPart \<or> hostStart a \<noteq> hostEnd a);
          auth = assembleAuthority url a (isFile \<and> hostIsLocalHost \<and> \<not> haveNonHostAuthorityPart) present
                   (slice url 0 schemeEnd @ [0x3A]);
          p = a_text auth;
          p = (if http \<and> hierarchical \<and> pathEnd = pathStart then p @ [0x2F] else p);
          p = p @ (if \<not> hierarchical \<or> \<not> hasSlashDotOrDotDot url
                   then appendEscapingBadChars (slice url pathStart pathEnd)
                   else appendEscapingBadChars (copyPathRemovingDots (slice url pathStart pathEnd)));
          outPathEnd = length p;
          afterLastSlash = lastSlash p (a_portEnd auth) outPathEnd;
          p = p @ appendEscapingBadChars (slice url pathEnd queryEnd);
          outQueryEnd = length p;
          p = (if fragmentEnd \<noteq> queryEnd then p @ 0x23 # appendEscapingBadChars (slice url fragmentStart fragmentEnd) else p)
      in \<lparr>m_string = (case originalString of
                       Some s \<Rightarrow> if length s = length p \<and> p = take (length p) url then s else fromBytes p
                     | None \<Rightarrow> fromBytes p),
          m_isValid = True, m_protocolInHTTPFamily = http, m_schemeEnd = schemeEnd, m_userStart = a_userStart auth,
          m_userEnd = a_userEnd auth, m_passwordEnd = a_passwordEnd auth, m_hostEnd = a_hostEnd auth,
          m_portEnd = a_portEnd auth, m_pathAfterLastSlash = afterLastSlash, m_pathEnd = outPathEnd,
          m_queryEnd = outQueryEnd, m_fragmentEnd = length p\<rparr>)"

definition parseBytes :: "byte list \<Rightarrow> wtf_string option \<Rightarrow> KURL" where
  "parseBytes url originalString =
     (let failed = invalidate (case originalString of Some s \<Rightarrow> s | None \<Rightarrow> fromBytes (takeWhile (\<lambda>c. c \<noteq> 0) url))
      in if byteAt url 0 = 0 then failed
         else if \<not> isSchemeFirstChar (byteAt url 0) then failed
         else let schemeEnd = scan isSchemeChar url 0
         in if byteAt url schemeEnd \<noteq> 0x3A then failed
         else let hierarchical = (byteAt url (schemeEnd + 1) = 0x2F);
                  isFile = (schemeEnd = 4 \<and> matchesWord url 0 ''file'');
                  http = isHTTPFamily url
         in case (if hierarchical \<and> byteAt url (schemeEnd + 2) = 0x2F
                  then parseAuthority url (schemeEnd + 3) http isFile
                  else Some (noAuthority (schemeEnd + 1))) of
              None \<Rightarrow> failed
            | Some a \<Rightarrow> assembleURL url originalString schemeEnd hierarchical isFile http a)"

definition parseString :: "wtf_string \<Rightarrow> KURL" where
  "parseString s = parseBytes (copyASCII s) (Some s)"

end
