(* ===== verification/KurlParse.thy ===== *)
theory KurlParse
  imports Kurl
begin

section \<open>What the URL parser computes\<close>

text \<open>
  The parser of theory Kurl on the printed form of a URL in parts, and the removal of dot
  segments from a path.
\<close>

subsection \<open>The classes as ranges\<close>

definition alpha :: "nat \<Rightarrow> bool" where "alpha n \<longleftrightarrow> (65 \<le> n \<and> n \<le> 90) \<or> (97 \<le> n \<and> n \<le> 122)"
definition digit :: "nat \<Rightarrow> bool" where "digit n \<longleftrightarrow> 48 \<le> n \<and> n \<le> 57"

definition classOf :: "nat \<Rightarrow> byte" where
  "classOf n =
     (if alpha n then
        if (65 \<le> n \<and> n \<le> 70) \<or> (97 \<le> n \<and> n \<le> 102)
        then SchemeFirstChar OR SchemeChar OR UserInfoChar OR HostnameChar OR IPv6Char
        else SchemeFirstChar OR SchemeChar OR UserInfoChar OR HostnameChar
      else if digit n \<or> n = 46 then SchemeChar OR UserInfoChar OR HostnameChar OR IPv6Char
      else if n = 45 then SchemeChar OR UserInfoChar OR HostnameChar
      else if n = 43 then SchemeChar OR UserInfoChar
      else if n = 95 then UserInfoChar OR HostnameChar
      else if n = 58 then UserInfoChar OR IPv6Char
      else if n = 37 then UserInfoChar OR HostnameChar OR IPv6Char OR BadChar
      else if n \<in> {33, 36, 38, 39, 40, 41, 42, 44, 59, 61, 126} then UserInfoChar
      else if n \<in> {0, 47} then PathSegmentEndChar
      else if n \<in> {35, 63} then PathSegmentEndChar OR BadChar
      else if n \<in> {64, 91, 92, 93, 94, 96, 123, 124, 125} then 0
      else BadChar)"

lemma characterClassTable_classOf: "characterClassTable = map classOf [0..<256]"
  by code_simp

lemma charClass_classOf: "charClass k c \<longleftrightarrow> classOf (unat c) AND k \<noteq> 0"
  using unat_less_length [of c] by (simp add: charClass_def characterClassTable_classOf)

lemmas class_bits = SchemeFirstChar_def SchemeChar_def UserInfoChar_def HostnameChar_def IPv6Char_def
  PathSegmentEndChar_def BadChar_def

lemma class_ranges:
  "isSchemeFirstChar c \<longleftrightarrow> alpha (unat c)"
  "isSchemeChar c \<longleftrightarrow> alpha (unat c) \<or> digit (unat c) \<or> unat c \<in> {43, 45, 46}"
  "isUserInfoChar c \<longleftrightarrow> alpha (unat c) \<or> digit (unat c) \<or>
     unat c \<in> {33, 36, 37, 38, 39, 40, 41, 42, 43, 44, 45, 46, 58, 59, 61, 95, 126}"
  "isHostnameChar c \<longleftrightarrow> alpha (unat c) \<or> digit (unat c) \<or> unat c \<in> {37, 45, 46, 95}"
  "isPathSegmentEndChar c \<longleftrightarrow> unat c \<in> {0, 35, 47, 63}"
  by (auto simp: isSchemeFirstChar_def isSchemeChar_def isUserInfoChar_def isHostnameChar_def isPathSegmentEndChar_def
      charClass_classOf classOf_def class_bits alpha_def digit_def)

definition badCode :: "nat \<Rightarrow> bool" where
  "badCode n \<longleftrightarrow> (0 < n \<and> n < 33) \<or> n \<in> {34, 35, 37, 60, 62, 63} \<or> 127 \<le> n"

lemma bad_table: "list_all (\<lambda>n. (classOf n AND BadChar \<noteq> 0) = badCode n) [0..<256]"
  by code_simp

lemma bad_range: "isBadChar c \<longleftrightarrow> badCode (unat c)"
  using bad_table unat_less_length [of c] by (simp add: isBadChar_def charClass_classOf list_all_iff)

lemma digit_range: "isByteDigit c \<longleftrightarrow> digit (unat c)"
  by (simp add: isByteDigit_def digit_def word_le_nat_alt)

subsection \<open>Scanning a text that is known piece by piece\<close>

declare scan.simps [simp del]

lemma scan_takeWhile: "i \<le> length url \<Longrightarrow> scan P url i = i + length (takeWhile P (drop i url))"
proof (induction "length url - i" arbitrary: i)
  case 0
  then show ?case by (subst scan.simps) simp
next
  case (Suc n)
  then have "drop i url = url ! i # drop (Suc i) url" by (simp add: Cons_nth_drop_Suc)
  then show ?case using Suc(1) [of "Suc i"] Suc(2,3) by (subst scan.simps) auto
qed

lemma scanI:
  "url = xs @ as @ bs \<Longrightarrow> i = length xs \<Longrightarrow> list_all P as \<Longrightarrow> bs = [] \<or> \<not> P (hd bs) \<Longrightarrow> scan P url i = i + length as"
proof -
  assume a: "url = xs @ as @ bs" "i = length xs" "list_all P as" "bs = [] \<or> \<not> P (hd bs)"
  have "takeWhile P bs = []" using a(4) by (cases bs) auto
  then have "takeWhile P (as @ bs) = as" using a(3) by (simp add: list_all_iff takeWhile_append2)
  then show "scan P url i = i + length as" using a by (simp add: scan_takeWhile)
qed

lemma byteAtI: "url = xs @ bs \<Longrightarrow> i = length xs \<Longrightarrow> byteAt url i = (case bs of [] \<Rightarrow> 0 | b # _ \<Rightarrow> b)"
  by (cases bs) (simp_all add: byteAt_def)

lemma sliceI: "url = xs @ as @ bs \<Longrightarrow> i = length xs \<Longrightarrow> j = i + length as \<Longrightarrow> slice url i j = as"
  by (simp add: slice_def)

subsection \<open>URLs in parts\<close>

text \<open>A hierarchical URL with an authority. An empty password is one that is not there.\<close>

record url_parts =
  scheme :: "byte list"
  user :: "byte list"
  password :: "byte list"
  host :: "byte list"
  port :: "byte list option"
  path :: "byte list"
  query :: "byte list option"
  fragment :: "byte list option"

definition userInfoText :: "url_parts \<Rightarrow> byte list" where
  "userInfoText u =
     (if user u = [] \<and> password u = [] then []
      else user u @ (if password u = [] then [] else 0x3A # password u) @ [0x40])"

definition portText :: "url_parts \<Rightarrow> byte list" where
  "portText u = (case port u of None \<Rightarrow> [] | Some p \<Rightarrow> 0x3A # p)"

definition queryText :: "url_parts \<Rightarrow> byte list" where
  "queryText u = (case query u of None \<Rightarrow> [] | Some q \<Rightarrow> 0x3F # q)"

definition fragmentText :: "url_parts \<Rightarrow> byte list" where
  "fragmentText u = (case fragment u of None \<Rightarrow> [] | Some f \<Rightarrow> 0x23 # f)"

definition printURL :: "url_parts \<Rightarrow> byte list" where
  "printURL u =
     scheme u @ [0x3A, 0x2F, 0x2F] @ userInfoText u @ host u @ portText u @ path u @ queryText u @ fragmentText u"

definition pathChar :: "byte \<Rightarrow> bool" where
  "pathChar c \<longleftrightarrow> c \<noteq> 0 \<and> (\<not> isBadChar c \<or> c = 0x25)"

definition queryChar :: "byte \<Rightarrow> bool" where
  "queryChar c \<longleftrightarrow> pathChar c \<or> c = 0x3F"

definition plain :: "url_parts \<Rightarrow> bool" where
  "plain u \<longleftrightarrow>
     scheme u \<noteq> [] \<and> isSchemeFirstChar (hd (scheme u)) \<and> list_all isSchemeChar (scheme u) \<and>
     \<not> (length (scheme u) = 4 \<and> matchesWord (scheme u) 0 ''file'') \<and>
     list_all (\<lambda>c. isUserInfoChar c \<and> c \<noteq> 0x3A) (user u) \<and> list_all isUserInfoChar (password u) \<and>
     host u \<noteq> [] \<and> list_all isHostnameChar (host u) \<and>
     (case port u of None \<Rightarrow> True | Some p \<Rightarrow> list_all isByteDigit p) \<and>
     (path u = [] \<or> hd (path u) = 0x2F) \<and> list_all pathChar (path u) \<and> copyPathRemovingDots (path u) = path u \<and>
     (case query u of None \<Rightarrow> True | Some q \<Rightarrow> list_all queryChar q) \<and>
     (case fragment u of None \<Rightarrow> True | Some f \<Rightarrow> list_all queryChar f)"

text \<open>The parser adds the path of an http URL when there is none; the parts that it leaves as they are.\<close>

definition rooted :: "url_parts \<Rightarrow> url_parts" where
  "rooted u = (if isHTTPFamily (printURL u) \<and> path u = [] then u\<lparr>path := [0x2F]\<rparr> else u)"

definition canonical :: "url_parts \<Rightarrow> bool" where
  "canonical u \<longleftrightarrow> plain u \<and> (isHTTPFamily (printURL u) \<longrightarrow> path u \<noteq> [])"

text \<open>What the parser makes of it.\<close>

definition parsed :: "url_parts \<Rightarrow> KURL" where
  "parsed u =
     (let us = length (scheme u) + 3;
          ue = us + length (user u);
          pe = ue + (if password u = [] then 0 else 1 + length (password u));
          he = us + length (userInfoText u) + length (host u);
          pt = he + length (portText u);
          pa = pt + length (path u);
          qe = pa + length (queryText u)
      in \<lparr>m_string = fromBytes (printURL u), m_isValid = True, m_protocolInHTTPFamily = isHTTPFamily (printURL u),
          m_schemeEnd = length (scheme u), m_userStart = us, m_userEnd = ue, m_passwordEnd = pe, m_hostEnd = he,
          m_portEnd = pt, m_pathAfterLastSlash = lastSlash (take pa (printURL u)) pt pa, m_pathEnd = pa, m_queryEnd = qe,
          m_fragmentEnd = length (printURL u)\<rparr>)"

lemma plainD:
  assumes "plain u"
  shows "scheme u \<noteq> []" "isSchemeFirstChar (hd (scheme u))" "list_all isSchemeChar (scheme u)"
    "\<not> (length (scheme u) = 4 \<and> matchesWord (scheme u) 0 ''file'')"
    "list_all (\<lambda>c. isUserInfoChar c \<and> c \<noteq> 0x3A) (user u)" "list_all isUserInfoChar (password u)"
    "host u \<noteq> []" "list_all isHostnameChar (host u)" "case port u of None \<Rightarrow> True | Some p \<Rightarrow> list_all isByteDigit p"
    "path u = [] \<or> hd (path u) = 0x2F" "list_all pathChar (path u)" "copyPathRemovingDots (path u) = path u"
    "case query u of None \<Rightarrow> True | Some q \<Rightarrow> list_all queryChar q"
    "case fragment u of None \<Rightarrow> True | Some f \<Rightarrow> list_all queryChar f"
  using assms by (simp_all add: plain_def)

lemma canonical_plain: "canonical u \<Longrightarrow> plain u" by (simp add: canonical_def)

lemmas canonicalD = plainD [OF canonical_plain]

lemma rooted_canonical: "canonical u \<Longrightarrow> rooted u = u" by (auto simp: canonical_def rooted_def)

text \<open>What is behind the authority starts with a character that ends a path segment.\<close>

definition tailText :: "url_parts \<Rightarrow> byte list" where
  "tailText u = path u @ queryText u @ fragmentText u"

lemma tailText_hd:
  assumes "plain u"
  shows "case tailText u of [] \<Rightarrow> True | c # _ \<Rightarrow> c = 0x2F \<or> c = 0x3F \<or> c = 0x23"
  using plainD(10) [OF assms]
  by (cases "path u") (auto simp: tailText_def queryText_def fragmentText_def split: option.splits list.splits)

lemma classes_at_ends:
  "\<not> isSchemeChar 0x3A" "\<not> isUserInfoChar 0x40" "\<not> isHostnameChar 0x3A" "isUserInfoChar 0x3A"
  "c = 0x2F \<or> c = 0x3F \<or> c = 0x23 \<Longrightarrow>
     isPathSegmentEndChar c \<and> \<not> isUserInfoChar c \<and> \<not> isHostnameChar c \<and> \<not> isByteDigit c \<and> c \<noteq> 0x3A \<and> c \<noteq> 0x40 \<and> c \<noteq> 0x5B"
  "isPathSegmentEndChar 0"
  by (auto simp: class_ranges digit_range alpha_def digit_def)

lemma host_chars: "isHostnameChar c \<Longrightarrow> isUserInfoChar c \<and> c \<noteq> 0x3A \<and> c \<noteq> 0x40 \<and> c \<noteq> 0x5B"
  by (auto simp: class_ranges alpha_def digit_def)

lemma digit_chars: "isByteDigit c \<Longrightarrow> isUserInfoChar c \<and> c \<noteq> 0x3A \<and> c \<noteq> 0x40 \<and> c \<noteq> 0x5B"
  by (auto simp: class_ranges digit_range alpha_def digit_def)

text \<open>The user information.\<close>

lemma firstColon_none:
  assumes "url = xs @ as @ bs" "a = length xs" "b = a + length as" "0x3A \<notin> set as"
  shows "firstColon url a b = 0"
proof -
  have "scan (\<lambda>c. c \<noteq> 0x3A) (xs @ as) a = a + length as"
    by (rule scanI [of _ xs as "[]"]) (use assms in \<open>auto simp: list_all_iff\<close>)
  then show ?thesis using assms by (simp add: firstColon_def)
qed

lemma firstColon_some:
  assumes "url = xs @ as @ 0x3A # bs" "a = length xs" "0x3A \<notin> set as" "a + length as < b" "b \<le> length url"
  shows "firstColon url a b = a + length as"
proof -
  obtain cs where c: "take b url = xs @ as @ 0x3A # cs"
    using assms by (cases "b - length xs - length as") auto
  have "scan (\<lambda>c. c \<noteq> 0x3A) (take b url) a = a + length as"
    by (rule scanI [OF c]) (use assms in \<open>auto simp: list_all_iff\<close>)
  then show ?thesis using assms by (simp add: firstColon_def)
qed

lemma parseUserInfo_printed:
  assumes c: "plain u"
    and url: "url = xs @ userInfoText u @ host u @ portText u @ tailText u" and i: "i = length xs" "0 < i"
  shows "parseUserInfo url i = Some
    (i + length (user u), i + length (user u) + (if password u = [] then 0 else 1),
     i + length (user u) + (if password u = [] then 0 else 1 + length (password u)), i + length (userInfoText u))"
proof (cases "user u = [] \<and> password u = []")
  case True
  then have n: "userInfoText u = []" by (simp add: userInfoText_def)
  note h = plainD(7,8) [OF c]
  let ?p = "case port u of None \<Rightarrow> [] | Some p \<Rightarrow> 0x3A # p"
  have all: "list_all isUserInfoChar (host u @ ?p)"
    using h plainD(9) [OF c] host_chars digit_chars classes_at_ends(4)
    by (auto simp: list_all_iff split: option.splits)
  have stop: "tailText u = [] \<or> \<not> isUserInfoChar (hd (tailText u))"
    using tailText_hd [OF c] classes_at_ends(5) by (auto split: list.splits)
  have s: "scan isUserInfoChar url i = i + length (host u @ ?p)"
    by (rule scanI [OF _ i(1) all stop]) (simp add: url n portText_def)
  have b: "byteAt url (i + length (host u @ ?p)) = (case tailText u of [] \<Rightarrow> 0 | b # _ \<Rightarrow> b)"
    by (rule byteAtI [of _ "xs @ host u @ ?p"]) (simp_all add: url n portText_def i)
  have "isPathSegmentEndChar (byteAt url (i + length (host u @ ?p))) \<and> byteAt url (i + length (host u @ ?p)) \<noteq> 0x40"
    unfolding b using tailText_hd [OF c] classes_at_ends(5,6) by (auto split: list.splits)
  then show ?thesis using True n s by (simp add: parseUserInfo_def Let_def)
next
  case False
  define pw where "pw = (if password u = [] then [] else 0x3A # password u)"
  have t: "userInfoText u = (user u @ pw) @ [0x40]" using False by (simp add: userInfoText_def pw_def)
  have all: "list_all isUserInfoChar (user u @ pw)"
    using plainD(5,6) [OF c] classes_at_ends(4) by (auto simp: list_all_iff pw_def)
  have s: "scan isUserInfoChar url i = i + length (user u @ pw)"
    by (rule scanI [OF _ i(1) all, of _ "0x40 # host u @ portText u @ tailText u"]) (simp_all add: url t classes_at_ends(2))
  have b: "byteAt url (i + length (user u @ pw)) = 0x40"
    by (subst byteAtI [of _ "xs @ user u @ pw" "0x40 # host u @ portText u @ tailText u"]) (simp_all add: url t i)
  have nc: "0x3A \<notin> set (user u)" using plainD(5) [OF c] by (auto simp: list_all_iff)
  show ?thesis
  proof (cases "password u = []")
    case True
    then have "firstColon url i (i + length (user u)) = 0"
      by (intro firstColon_none [of url xs "user u" "0x40 # host u @ portText u @ tailText u"])
        (simp_all add: url t i nc pw_def)
    then show ?thesis using True s b t by (simp add: parseUserInfo_def Let_def pw_def)
  next
    case False
    have "firstColon url i (i + length (user u @ pw)) = i + length (user u)"
      by (rule firstColon_some [of url xs "user u" "password u @ 0x40 # host u @ portText u @ tailText u"])
        (simp_all add: url t i nc pw_def False)
    then show ?thesis using False s b t i(2) by (simp add: parseUserInfo_def Let_def pw_def)
  qed
qed

lemma parseHost_printed:
  assumes c: "plain u" and url: "url = xs @ host u @ portText u @ tailText u" and i: "i = length xs"
  shows "parseHost url i = Some (i + length (host u))"
proof -
  obtain h hs where h: "host u = h # hs" "isHostnameChar h" using plainD(7,8) [OF c] by (cases "host u") auto
  have "byteAt url i = h" by (subst byteAtI [OF url i]) (simp add: h)
  then have b: "byteAt url i \<noteq> 0x5B" using h host_chars by auto
  have "portText u @ tailText u = [] \<or> \<not> isHostnameChar (hd (portText u @ tailText u))"
    using tailText_hd [OF c] classes_at_ends(3,5) by (auto simp: portText_def split: list.splits option.splits)
  then have "scan isHostnameChar url i = i + length (host u)"
    using plainD(8) [OF c] by (intro scanI [OF url i])
  then show ?thesis using b by (simp add: parseHost_def)
qed

lemma parsePort_printed:
  assumes c: "plain u" and url: "url = xs @ portText u @ tailText u" and i: "i = length xs"
  shows "parsePort url i = (i + (if port u = None then 0 else 1), i + length (portText u))"
proof (cases "port u")
  case None
  then have "byteAt url i = (case tailText u of [] \<Rightarrow> 0 | b # _ \<Rightarrow> b)"
    by (intro byteAtI [OF _ i]) (simp add: url portText_def)
  then have "byteAt url i \<noteq> 0x3A" using tailText_hd [OF c] by (auto split: list.splits)
  then show ?thesis using None by (simp add: parsePort_def portText_def)
next
  case (Some p)
  have "byteAt url i = 0x3A" by (subst byteAtI [OF url i]) (simp add: portText_def Some)
  moreover have "scan isByteDigit url (i + 1) = i + 1 + length p"
    by (rule scanI [of _ "xs @ [0x3A]" p "tailText u"])
      (use tailText_hd [OF c] classes_at_ends(5) plainD(9) [OF c] Some in
       \<open>auto simp: url portText_def i split: list.splits\<close>)
  ultimately show ?thesis using Some by (simp add: parsePort_def portText_def)
qed

definition printedAuthority :: "url_parts \<Rightarrow> authority" where
  "printedAuthority u =
     (let us = length (scheme u) + 3;
          ue = us + length (user u);
          hs = us + length (userInfoText u);
          he = hs + length (host u)
      in \<lparr>userStart = us, userEnd = ue, passwordStart = ue + (if password u = [] then 0 else 1),
          passwordEnd = ue + (if password u = [] then 0 else 1 + length (password u)), hostStart = hs, hostEnd = he,
          portStart = he + (if port u = None then 0 else 1), portEnd = he + length (portText u)\<rparr>)"

lemma printURL_tail:
  "printURL u = (scheme u @ [0x3A, 0x2F, 0x2F]) @ userInfoText u @ host u @ portText u @ tailText u"
  by (simp add: printURL_def tailText_def)

lemma parseAuthority_printed:
  assumes c: "plain u"
  shows "parseAuthority (printURL u) (length (scheme u) + 3) http isFile = Some (printedAuthority u)"
proof -
  let ?url = "printURL u" and ?xs = "scheme u @ [0x3A, 0x2F, 0x2F]"
  let ?us = "length (scheme u) + 3"
  let ?hs = "?us + length (userInfoText u)"
  let ?he = "?hs + length (host u)"
  let ?pt = "?he + length (portText u)"
  have ui: "parseUserInfo ?url ?us = Some
    (?us + length (user u), ?us + length (user u) + (if password u = [] then 0 else 1),
     ?us + length (user u) + (if password u = [] then 0 else 1 + length (password u)), ?hs)"
    by (rule parseUserInfo_printed [OF c printURL_tail]) simp_all
  have ho: "parseHost ?url ?hs = Some ?he"
    by (rule parseHost_printed [OF c, of _ "?xs @ userInfoText u"]) (simp_all add: printURL_tail)
  have po: "parsePort ?url ?he = (?he + (if port u = None then 0 else 1), ?pt)"
    by (rule parsePort_printed [OF c, of _ "?xs @ userInfoText u @ host u"]) (simp_all add: printURL_tail)
  have "byteAt ?url ?pt = (case tailText u of [] \<Rightarrow> 0 | b # _ \<Rightarrow> b)"
    by (rule byteAtI [of _ "?xs @ userInfoText u @ host u @ portText u"]) (simp_all add: printURL_tail)
  then have "isPathSegmentEndChar (byteAt ?url ?pt)"
    using tailText_hd [OF c] classes_at_ends(5,6) by (auto split: list.splits)
  moreover have "(?us = ?pt) = False" using plainD(7) [OF c] by simp
  ultimately show ?thesis
    using plainD(7) [OF c] unfolding parseAuthority_def ui ho po option.case prod.case
    by (simp add: printedAuthority_def Let_def)
qed

lemma assembleAuthority_printed:
  assumes c: "plain u"
  defines "p \<equiv> scheme u @ [0x3A]"
  shows "assembleAuthority (printURL u) (printedAuthority u) False True p =
    \<lparr>a_text = p @ [0x2F, 0x2F] @ userInfoText u @ host u @ portText u, a_userStart = length (scheme u) + 3,
     a_userEnd = length (scheme u) + 3 + length (user u),
     a_passwordEnd = length (scheme u) + 3 + length (user u) + (if password u = [] then 0 else 1 + length (password u)),
     a_hostEnd = length (scheme u) + 3 + length (userInfoText u) + length (host u),
     a_portEnd = length (scheme u) + 3 + length (userInfoText u) + length (host u) + length (portText u)\<rparr>"
proof -
  let ?url = "printURL u" and ?a = "printedAuthority u"
  let ?xs = "scheme u @ [0x3A, 0x2F, 0x2F]"
  have us: "slice ?url (userStart ?a) (userEnd ?a) = user u"
    by (rule sliceI [of _ ?xs "user u" "drop (length (user u)) (userInfoText u) @ host u @ portText u @ tailText u"])
      (simp_all add: printURL_tail userInfoText_def printedAuthority_def Let_def)
  have pw: "slice ?url (passwordStart ?a) (passwordEnd ?a) = password u" if "password u \<noteq> []"
    by (rule sliceI [of _ "?xs @ user u @ [0x3A]" "password u" "0x40 # host u @ portText u @ tailText u"])
      (use that in \<open>simp_all add: printURL_tail userInfoText_def printedAuthority_def Let_def\<close>)
  have ho: "slice ?url (hostStart ?a) (hostEnd ?a) = host u"
    by (rule sliceI [of _ "?xs @ userInfoText u" "host u" "portText u @ tailText u"])
      (simp_all add: printURL_tail printedAuthority_def Let_def)
  have po: "slice ?url (portStart ?a) (portEnd ?a) = q" if "port u = Some q" for q
    by (rule sliceI [of _ "?xs @ userInfoText u @ host u @ [0x3A]" q "tailText u"])
      (use that in \<open>simp_all add: printURL_tail portText_def printedAuthority_def Let_def\<close>)
  have e: "passwordEnd ?a \<noteq> passwordStart ?a \<longleftrightarrow> password u \<noteq> []" "hostEnd ?a \<noteq> portStart ?a \<longleftrightarrow> port u \<noteq> None"
    by (simp_all add: printedAuthority_def Let_def)
  show ?thesis
  proof (cases "port u")
    case None
    then show ?thesis using us pw ho e
      by (cases "password u = []"; cases "user u = []")
        (simp_all add: assembleAuthority_def Let_def p_def userInfoText_def portText_def)
  next
    case (Some q)
    then show ?thesis using us pw ho e po [OF Some]
      by (cases "password u = []"; cases "user u = []")
        (simp_all add: assembleAuthority_def Let_def p_def userInfoText_def portText_def)
  qed
qed

lemma escape_pathChars:
  "list_all queryChar s \<Longrightarrow> appendEscapingBadChars s = s"
  by (induction s) (auto simp: appendEscapingBadChars_def escapeBadChar_def queryChar_def pathChar_def)

lemma pathChar_not_end: "pathChar c \<Longrightarrow> c \<noteq> 0 \<and> c \<noteq> 0x3F \<and> c \<noteq> 0x23 \<and> queryChar c"
  by (auto simp: pathChar_def queryChar_def bad_range badCode_def)

lemma queryChar_not_end: "queryChar c \<Longrightarrow> c \<noteq> 0 \<and> c \<noteq> 0x23"
  by (auto simp: pathChar_def queryChar_def bad_range badCode_def)

lemma matchesWord_prefix:
  "i + length w \<le> length xs \<Longrightarrow> matchesWord (xs @ ys) i w = matchesWord xs i w"
  by (auto simp: matchesWord_def byteAt_def list_all_iff nth_append)

lemma http_scheme:
  "isHTTPFamily (s @ 0x3A # 0x2F # 0x2F # x) = isHTTPFamily (s @ 0x3A # 0x2F # 0x2F # [])"
proof (cases "3 \<le> length s")
  case True
  have b: "byteAt ((s @ [0x3A, 0x2F, 0x2F]) @ x) i = byteAt (s @ [0x3A, 0x2F, 0x2F]) i" if "i < 6" for i
    using that True unfolding byteAt_def by (subst nth_append) simp
  have "matchesWord ((s @ [0x3A, 0x2F, 0x2F]) @ x) 0 ''http'' = matchesWord (s @ [0x3A, 0x2F, 0x2F]) 0 ''http''"
    by (rule matchesWord_prefix) (use True in simp)
  then show ?thesis using b [of 4] b [of 5] by (simp add: isHTTPFamily_def)
next
  case False
  have n: "\<not> isHTTPFamily (s @ 0x3A # y)" for y
  proof
    assume "isHTTPFamily (s @ 0x3A # y)"
    then have "\<forall>k \<in> {0..<4}. matchLetter (byteAt (s @ 0x3A # y) k) (bstr ''http'' ! k)"
      unfolding isHTTPFamily_def matchesWord_def list_all_iff set_upt by simp
    moreover have "byteAt (s @ 0x3A # y) (length s) = 0x3A" by (simp add: byteAt_def)
    moreover have "length s \<in> {0..<4}" using False by simp
    ultimately have "matchLetter 0x3A (bstr ''http'' ! length s)" by metis
    moreover have "length s = 0 \<or> length s = 1 \<or> length s = 2" using False by arith
    ultimately have "matchLetter 0x3A (bstr ''http'' ! 0) \<or> matchLetter 0x3A (bstr ''http'' ! 1) \<or> matchLetter 0x3A (bstr ''http'' ! 2)"
      by auto
    moreover have "\<not> (matchLetter 0x3A (bstr ''http'' ! 0) \<or> matchLetter 0x3A (bstr ''http'' ! 1) \<or> matchLetter 0x3A (bstr ''http'' ! 2))"
      by code_simp
    ultimately show False by simp
  qed
  then show ?thesis by simp
qed

lemma http_printURL: "isHTTPFamily (printURL u) = isHTTPFamily (scheme u @ [0x3A, 0x2F, 0x2F])"
  unfolding printURL_def using http_scheme [of "scheme u" "userInfoText u @ host u @ portText u @ path u @ queryText u @ fragmentText u"]
  by simp

lemma parseBytes_plain:
  assumes c: "plain u"
  shows "parseBytes (printURL u) None = parsed (rooted u)"
proof -
  let ?url = "printURL u" and ?n = "length (scheme u)" and ?a = "printedAuthority u"
  note d = plainD [OF c]
  obtain s ss where s: "scheme u = s # ss" using d(1) by (cases "scheme u") auto
  have at0: "byteAt ?url 0 = s" using s by (simp add: byteAt_def printURL_def)
  have f: "isSchemeFirstChar s" using d(2) s by simp
  then have nz: "s \<noteq> 0" by (auto simp: class_ranges alpha_def)
  have se: "scan isSchemeChar ?url 0 = ?n"
    using scanI [of ?url "[]" "scheme u" "[0x3A, 0x2F, 0x2F] @ userInfoText u @ host u @ portText u @ tailText u" 0 isSchemeChar]
      d(3) classes_at_ends(1) by (simp add: printURL_tail)
  have at: "byteAt ?url ?n = 0x3A" "byteAt ?url (?n + 1) = 0x2F" "byteAt ?url (?n + 2) = 0x2F"
    by (simp_all add: printURL_def byteAt_def nth_append)
  have nf: "\<not> (?n = 4 \<and> matchesWord ?url 0 ''file'')"
    using d(4) matchesWord_prefix [of 0 "''file''" "scheme u"] by (auto simp: printURL_def)
  let ?ps = "portEnd ?a" and ?pre = "scheme u @ [0x3A, 0x2F, 0x2F] @ userInfoText u @ host u @ portText u"
  have ps: "?ps = length ?pre" by (simp add: printedAuthority_def Let_def)
  have stopP: "queryText u @ fragmentText u = [] \<or>
      \<not> (hd (queryText u @ fragmentText u) \<noteq> 0 \<and> hd (queryText u @ fragmentText u) \<noteq> 0x3F \<and> hd (queryText u @ fragmentText u) \<noteq> 0x23)"
    by (auto simp: queryText_def fragmentText_def split: option.splits)
  have pe: "scan (\<lambda>c. c \<noteq> 0 \<and> c \<noteq> 0x3F \<and> c \<noteq> 0x23) ?url ?ps = ?ps + length (path u)"
    by (rule scanI [of _ ?pre _ "queryText u @ fragmentText u"])
      (use d(11) pathChar_not_end stopP ps in \<open>auto simp: list_all_iff printURL_def\<close>)
  let ?q = "?ps + length (path u)"
  have qat: "byteAt ?url ?q = (case queryText u @ fragmentText u of [] \<Rightarrow> 0 | b # _ \<Rightarrow> b)"
    by (rule byteAtI [of _ "?pre @ path u"]) (simp_all add: ps printURL_def)
  have qe: "(if byteAt ?url ?q = 0x3F then scan (\<lambda>c. c \<noteq> 0 \<and> c \<noteq> 0x23) ?url ?q else ?q) = ?q + length (queryText u)"
  proof (cases "query u")
    case None
    then show ?thesis unfolding qat by (auto simp: queryText_def fragmentText_def split: option.splits)
  next
    case (Some q)
    have "scan (\<lambda>c. c \<noteq> 0 \<and> c \<noteq> 0x23) ?url ?q = ?q + length (queryText u)"
      by (rule scanI [of _ "?pre @ path u" _ "fragmentText u"])
        (use d(13) Some queryChar_not_end ps in \<open>auto simp: list_all_iff printURL_def queryText_def fragmentText_def split: option.splits\<close>)
    then show ?thesis unfolding qat using Some by (simp add: queryText_def)
  qed
  let ?r = "?q + length (queryText u)"
  have rat: "byteAt ?url ?r = (case fragmentText u of [] \<Rightarrow> 0 | b # _ \<Rightarrow> b)"
    by (rule byteAtI [of _ "?pre @ path u @ queryText u"]) (simp_all add: ps printURL_def)
  have fr: "byteAt ?url ?r = 0x23 \<longleftrightarrow> fragment u \<noteq> None"
    unfolding rat by (auto simp: fragmentText_def split: option.splits)
  have fe: "scan (\<lambda>c. c \<noteq> 0) ?url (?r + 1) = ?r + 1 + length f" if f: "fragment u = Some f" for f
    by (rule scanI [of _ "?pre @ path u @ queryText u @ [0x23]" _ "[]"])
      (use d(14) f queryChar_not_end ps in \<open>auto simp: list_all_iff printURL_def fragmentText_def\<close>)
  have sp: "slice ?url ?ps ?q = path u"
    by (rule sliceI [of _ ?pre _ "queryText u @ fragmentText u"]) (simp_all add: ps printURL_def)
  have sq: "slice ?url ?q ?r = queryText u"
    by (rule sliceI [of _ "?pre @ path u" _ "fragmentText u"]) (simp_all add: ps printURL_def)
  have sf: "slice ?url (?r + 1) (?r + 1 + length f) = f" if f: "fragment u = Some f" for f
    by (rule sliceI [of _ "?pre @ path u @ queryText u @ [0x23]" _ "[]"]) (use f in \<open>simp_all add: ps printURL_def fragmentText_def\<close>)
  have ss: "slice ?url 0 ?n = scheme u" by (rule sliceI [of _ "[]"]) (simp_all add: printURL_def)
  have ep: "appendEscapingBadChars (path u) = path u"
    by (rule escape_pathChars) (use d(11) pathChar_not_end in \<open>auto simp: list_all_iff\<close>)
  have eq: "appendEscapingBadChars (queryText u) = queryText u"
    by (rule escape_pathChars) (use d(13) in \<open>auto simp: queryText_def queryChar_def split: option.splits\<close>)
  have ef: "appendEscapingBadChars f = f" if "fragment u = Some f" for f
    by (rule escape_pathChars) (use d(14) that in simp)
  have ho: "hostStart ?a \<noteq> hostEnd ?a" using d(7) by (simp add: printedAuthority_def Let_def)
  have at0': "(byteAt ?url 0 = 0) = False" "isSchemeFirstChar (byteAt ?url 0) = True" using at0 nz f by simp_all
  have nf': "(?n = 4 \<and> matchesWord ?url 0 ''file'') = False" using nf by simp
  have ho': "(hostStart ?a \<noteq> hostEnd ?a) = True" using ho by simp
  have fs: "(if byteAt ?url ?r = 0x23 then ?r + 1 else ?r) = ?r + (if fragment u = None then 0 else 1)" using fr by simp
  have fe': "(if byteAt ?url ?r = 0x23 then scan (\<lambda>c. c \<noteq> 0) ?url (?r + (if fragment u = None then 0 else 1)) else ?r) =
      ?r + length (fragmentText u)"
    using fr fe by (cases "fragment u") (simp_all add: fragmentText_def)
  have tail: "(if ?r + length (fragmentText u) \<noteq> ?r
      then p @ 0x23 # appendEscapingBadChars (slice ?url (?r + (if fragment u = None then 0 else 1)) (?r + length (fragmentText u)))
      else p) = p @ fragmentText u" for p
    using sf ef by (cases "fragment u") (simp_all add: fragmentText_def)
  have pa: "(if \<not> hasSlashDotOrDotDot ?url then appendEscapingBadChars (path u)
      else appendEscapingBadChars (copyPathRemovingDots (path u))) = path u"
    using ep d(12) by simp
  have tr: "(a = a) = True" for a :: byte by simp
  define w where "w = (scheme u @ [0x3A]) @ [0x2F, 0x2F] @ userInfoText u @ host u @ portText u"
  have wl: "length w = length (scheme u) + 3 + length (userInfoText u) + length (host u) + length (portText u)"
    and wp: "?url = ((w @ path u) @ queryText u) @ fragmentText u"
    by (simp_all add: w_def printURL_def)
  note steps = at0' se at tr nf' parseAuthority_printed [OF c] option.case if_False if_True simp_thms pe qe fs fe' ss sp sq
      ho' assembleAuthority_printed [OF c] assembled.simps eq pa tail
  show ?thesis
  proof (cases "isHTTPFamily ?url \<and> path u = []")
    case False
    have http': "(isHTTPFamily ?url \<and> ?q = ?ps) = False" using False by simp
    have r: "rooted u = u" using False by (auto simp: rooted_def)
    have wt: "take (length (w @ path u)) ?url = w @ path u" unfolding wp by simp
    show ?thesis
      unfolding parseBytes_def assembleURL_def Let_def r
      apply (simp only: steps http' flip: w_def)
      using wl wt wp by (simp add: parsed_def Let_def)
  next
    case True
    then have http': "(isHTTPFamily ?url \<and> ?q = ?ps) = True" by simp
    let ?v = "u\<lparr>path := [0x2F]\<rparr>"
    have r: "rooted u = ?v" using True by (simp add: rooted_def)
    have vp: "printURL ?v = ((w @ [0x2F]) @ queryText u) @ fragmentText u"
      by (simp add: w_def printURL_def userInfoText_def portText_def queryText_def fragmentText_def)
    have vt: "take (length (w @ [0x2F])) (printURL ?v) = w @ [0x2F]" unfolding vp by simp
    have vh: "isHTTPFamily (printURL ?v) = isHTTPFamily ?url"
      by (simp add: http_printURL)
    have vx: "userInfoText ?v = userInfoText u" "portText ?v = portText u" "queryText ?v = queryText u" "fragmentText ?v = fragmentText u"
      by (simp_all add: userInfoText_def portText_def queryText_def fragmentText_def)
    have p0: "path u = []" using True by simp
    show ?thesis
      unfolding parseBytes_def assembleURL_def Let_def r
      apply (simp only: steps http' flip: w_def)
      using vt vp vh vx p0 by (simp add: parsed_def Let_def wl [symmetric])
  qed
qed

lemma parseBytes_printed: "canonical u \<Longrightarrow> parseBytes (printURL u) None = parsed u"
  by (simp add: parseBytes_plain canonical_plain rooted_canonical)

subsection \<open>Paths without dot segments\<close>

definition firstSegment :: "byte list \<Rightarrow> byte list" where
  "firstSegment s = takeWhile (\<lambda>c. c \<noteq> 0x2F) s"

definition isDots :: "byte list \<Rightarrow> bool" where
  "isDots s \<longleftrightarrow> s = [0x2E] \<or> s = [0x2E, 0x2E]"

definition dotFree :: "byte list \<Rightarrow> bool" where
  "dotFree p \<longleftrightarrow> (\<forall>xs ys. p = xs @ 0x2F # ys \<longrightarrow> \<not> isDots (firstSegment ys))"

text \<open>
  The invariant of removeDots: the segments begun in the destination are no dot segments,
  where the last one goes on in the source unless it is still empty.
\<close>

definition dotFreeUpTo :: "byte list \<Rightarrow> byte list \<Rightarrow> bool" where
  "dotFreeUpTo dst src \<longleftrightarrow> dst \<noteq> [] \<and> last dst = 0x2F \<and>
     (\<forall>xs ys. rev dst = xs @ 0x2F # ys \<and> ys \<noteq> [] \<longrightarrow> \<not> isDots (firstSegment (ys @ src)))"

lemma firstSegment_append: "0x2F \<in> set s \<Longrightarrow> firstSegment (s @ t) = firstSegment s"
  by (auto simp: firstSegment_def takeWhile_append1)

lemma dotFreeUpTo_end: "dotFreeUpTo dst [] \<Longrightarrow> dotFree (rev dst) \<and> rev dst \<noteq> [] \<and> hd (rev dst) = 0x2F"
proof -
  assume d: "dotFreeUpTo dst []"
  have "\<not> isDots (firstSegment ys)" if e: "rev dst = xs @ 0x2F # ys" for xs ys
  proof (cases "ys = []")
    case True
    then show ?thesis by (simp add: isDots_def firstSegment_def)
  next
    case False
    then show ?thesis using d e unfolding dotFreeUpTo_def by (metis append_Nil2)
  qed
  then show ?thesis using d by (auto simp: dotFree_def dotFreeUpTo_def hd_rev)
qed

lemma dotFreeUpTo_push:
  assumes "dotFreeUpTo dst (a # src)" "hd dst = 0x2F \<Longrightarrow> \<not> isDots (firstSegment (a # src))"
  shows "dotFreeUpTo (a # dst) src"
  unfolding dotFreeUpTo_def
proof (intro conjI allI impI)
  fix xs ys assume e: "rev (a # dst) = xs @ 0x2F # ys \<and> ys \<noteq> []"
  then obtain ys' where ys: "ys = ys' @ [a]" "rev dst = xs @ 0x2F # ys'"
    by (cases ys rule: rev_cases) auto
  show "\<not> isDots (firstSegment (ys @ src))"
  proof (cases "ys' = []")
    case True
    then have "hd dst = 0x2F" using ys(2) by (simp add: rev_swap)
    then show ?thesis using assms(2) True ys(1) by simp
  next
    case False
    then show ?thesis using assms(1) ys unfolding dotFreeUpTo_def by auto
  qed
qed (use assms(1) in \<open>auto simp: dotFreeUpTo_def\<close>)

lemma dotFreeUpTo_suffix:
  assumes "dotFreeUpTo dst src" "dst = us @ dst'" "dst' \<noteq> []" "hd dst' = 0x2F"
  shows "dotFreeUpTo dst' src'"
  unfolding dotFreeUpTo_def
proof (intro conjI allI impI)
  fix xs ys assume e: "rev dst' = xs @ 0x2F # ys \<and> ys \<noteq> []"
  then have "last (rev dst') = last ys" by auto
  then have "last ys = 0x2F" using assms(3,4) by (simp add: last_rev)
  then have s: "0x2F \<in> set ys" using e last_in_set [of ys] by auto
  have "rev dst = xs @ 0x2F # (ys @ rev us)" using e assms(2) by simp
  then have "\<not> isDots (firstSegment ((ys @ rev us) @ src))" using assms(1) e unfolding dotFreeUpTo_def by blast
  then show "\<not> isDots (firstSegment (ys @ src'))" using s by (simp add: firstSegment_append)
qed (use assms in \<open>auto simp: dotFreeUpTo_def\<close>)

lemma dropSlashes_suffix:
  "dst \<noteq> [] \<Longrightarrow> \<exists>us. dst = us @ dropSlashes dst \<and> dropSlashes dst \<noteq> []"
proof (induction dst rule: dropSlashes.induct)
  case (1 c d dst)
  show ?case
  proof (cases "c = 0x2F")
    case True
    then obtain us where "d # dst = us @ dropSlashes (d # dst)" "dropSlashes (d # dst) \<noteq> []" using 1 by auto
    then have "c # d # dst = (c # us) @ dropSlashes (c # d # dst)" "dropSlashes (c # d # dst) \<noteq> []" using True by simp_all
    then show ?thesis by blast
  qed simp
qed auto

lemma dropToSlash_suffix:
  "0x2F \<in> set dst \<Longrightarrow> \<exists>us. dst = us @ dropToSlash dst \<and> dropToSlash dst \<noteq> [] \<and> hd (dropToSlash dst) = 0x2F"
proof (induction dst)
  case (Cons c dst)
  show ?case
  proof (cases "c = 0x2F")
    case False
    then obtain us where "dst = us @ dropToSlash dst" "dropToSlash dst \<noteq> []" "hd (dropToSlash dst) = 0x2F"
      using Cons by auto
    then have "c # dst = (c # us) @ dropToSlash (c # dst)" "dropToSlash (c # dst) \<noteq> []" "hd (dropToSlash (c # dst)) = 0x2F"
      using False by simp_all
    then show ?thesis by blast
  qed simp
qed simp

lemma rewindSegment_suffix:
  assumes "dst \<noteq> []" "last dst = 0x2F"
  shows "\<exists>us. dst = us @ rewindSegment dst \<and> rewindSegment dst \<noteq> [] \<and> hd (rewindSegment dst) = 0x2F"
proof -
  define t where "t = (if 1 < length dst then tl dst else dst)"
  obtain c cs where c: "dst = c # cs" using assms(1) by (cases dst) auto
  have t: "\<exists>us. dst = us @ t" "t \<noteq> []"
  proof -
    have "dst = (if 1 < length dst then [c] else []) @ t" using c by (simp add: t_def)
    then show "\<exists>us. dst = us @ t" by blast
    show "t \<noteq> []" using c by (cases cs) (simp_all add: t_def)
  qed
  obtain us where us: "t = us @ dropSlashes t" "dropSlashes t \<noteq> []" using dropSlashes_suffix [OF t(2)] by blast
  have "last (dropSlashes t) = last dst" using t us by (metis last_appendR)
  then have "0x2F \<in> set (dropSlashes t)" using us(2) assms(2) last_in_set by metis
  then obtain vs where "dropSlashes t = vs @ dropToSlash (dropSlashes t)" "dropToSlash (dropSlashes t) \<noteq> []"
    "hd (dropToSlash (dropSlashes t)) = 0x2F"
    using dropToSlash_suffix by blast
  moreover have "rewindSegment dst = dropToSlash (dropSlashes t)" by (simp add: rewindSegment_def t_def)
  ultimately show ?thesis using t(1) us(1) by (metis append.assoc)
qed

lemma dotFreeUpTo_rewind: "dotFreeUpTo dst src \<Longrightarrow> dotFreeUpTo (rewindSegment dst) src'"
  using rewindSegment_suffix [of dst] dotFreeUpTo_suffix [of dst src] by (metis dotFreeUpTo_def)

lemma dotFreeUpTo_skip: "dotFreeUpTo dst src \<Longrightarrow> hd dst = 0x2F \<Longrightarrow> dotFreeUpTo dst src'"
  by (rule dotFreeUpTo_suffix [of dst src "[]"]) (auto simp: dotFreeUpTo_def)

lemma removeDots_dotFree:
  "dotFreeUpTo dst src \<Longrightarrow>
   dotFree (removeDots dst src) \<and> removeDots dst src \<noteq> [] \<and> hd (removeDots dst src) = 0x2F"
proof (induction dst src rule: removeDots.induct)
  case (1 dst)
  then show ?case using dotFreeUpTo_end by simp
next
  case (2 dst a)
  show ?case
  proof (cases "a = 0x2E \<and> hd dst = 0x2F")
    case True
    then show ?thesis using dotFreeUpTo_end [OF dotFreeUpTo_skip [OF 2]] by simp
  next
    case False
    have "dotFreeUpTo (a # dst) []"
      by (rule dotFreeUpTo_push [OF 2]) (use False in \<open>auto simp: isDots_def firstSegment_def\<close>)
    then show ?thesis using False dotFreeUpTo_end [of "a # dst"] by auto
  qed
next
  case (3 dst a b)
  consider "a = 0x2E" "hd dst = 0x2F" "b = 0x2F" | "a = 0x2E" "hd dst = 0x2F" "b = 0x2E"
    | "\<not> (a = 0x2E \<and> hd dst = 0x2F \<and> (b = 0x2F \<or> b = 0x2E))" by blast
  then show ?case
  proof cases
    case 1
    then show ?thesis using dotFreeUpTo_end [OF dotFreeUpTo_skip [OF 3(3)]] by simp
  next
    case 2
    then show ?thesis using dotFreeUpTo_end [OF dotFreeUpTo_rewind [OF 3(3)]] by simp
  next
    case c: 3
    have "dotFreeUpTo (a # dst) [b]"
      by (rule dotFreeUpTo_push [OF 3(3)]) (use c in \<open>auto simp: isDots_def firstSegment_def split: if_splits\<close>)
    then show ?thesis using 3(1,2) c by (cases "a = 0x2E \<and> hd dst = 0x2F") auto
  qed
next
  case (4 dst a b c src)
  consider "a = 0x2E" "hd dst = 0x2F" "b = 0x2F" | "a = 0x2E" "hd dst = 0x2F" "b = 0x2E" "c = 0x2F"
    | "\<not> (a = 0x2E \<and> hd dst = 0x2F \<and> (b = 0x2F \<or> (b = 0x2E \<and> c = 0x2F)))" by blast
  then show ?case
  proof cases
    case 1
    then show ?thesis using 4(1) dotFreeUpTo_skip [OF 4(5)] by simp
  next
    case 2
    then show ?thesis using 4(2) dotFreeUpTo_rewind [OF 4(5)] by simp
  next
    case n: 3
    have "dotFreeUpTo (a # dst) (b # c # src)"
      by (rule dotFreeUpTo_push [OF 4(5)]) (use n in \<open>auto simp: isDots_def firstSegment_def split: if_splits\<close>)
    then show ?thesis using 4(3,4) n by (cases "a = 0x2E \<and> hd dst = 0x2F") auto
  qed
qed

lemma removeDots_id:
  "dst \<noteq> [] \<Longrightarrow> dotFree (rev dst @ src) \<Longrightarrow> removeDots dst src = rev dst @ src"
proof (induction dst src rule: removeDots.induct)
  case (2 dst a)
  have "\<not> isDots (firstSegment [a])" if "hd dst = 0x2F"
    using 2 that unfolding dotFree_def by (cases dst) auto
  then show ?case by (auto simp: isDots_def firstSegment_def)
next
  case (3 dst a b)
  have "\<not> isDots (firstSegment [a, b])" if "hd dst = 0x2F"
    using 3(3,4) that unfolding dotFree_def by (cases dst) auto
  then show ?case using 3 by (auto simp: isDots_def firstSegment_def)
next
  case (4 dst a b c src)
  have "\<not> isDots (firstSegment (a # b # c # src))" if "hd dst = 0x2F"
    using 4(5,6) that unfolding dotFree_def by (cases dst) auto
  then show ?case using 4 by (auto simp: isDots_def firstSegment_def)
qed simp

lemma copyPathRemovingDots_slash:
  "dotFree (copyPathRemovingDots (0x2F # s)) \<and> copyPathRemovingDots (0x2F # s) \<noteq> [] \<and> hd (copyPathRemovingDots (0x2F # s)) = 0x2F"
proof -
  have "dotFreeUpTo [0x2F] s" by (auto simp: dotFreeUpTo_def Cons_eq_append_conv)
  then show ?thesis using removeDots_dotFree by (simp add: copyPathRemovingDots_def)
qed

lemma copyPathRemovingDots_id: "dotFree (0x2F # s) \<Longrightarrow> copyPathRemovingDots (0x2F # s) = 0x2F # s"
  using removeDots_id [of "[0x2F]" s] by (simp add: copyPathRemovingDots_def)

text \<open>
  On a path that starts with a slash, copyPathRemovingDots returns a path that
  starts with a slash and has no segment . or .., it changes nothing in such a path and
  only then, and it is idempotent.
\<close>

theorem copyPathRemovingDots_correct:
  "dotFree (copyPathRemovingDots (0x2F # s)) \<and> hd (copyPathRemovingDots (0x2F # s)) = 0x2F \<and>
   copyPathRemovingDots (copyPathRemovingDots (0x2F # s)) = copyPathRemovingDots (0x2F # s) \<and>
   (copyPathRemovingDots (0x2F # s) = 0x2F # s \<longleftrightarrow> dotFree (0x2F # s))"
proof -
  obtain t where t: "copyPathRemovingDots (0x2F # s) = 0x2F # t"
    using copyPathRemovingDots_slash [of s] by (cases "copyPathRemovingDots (0x2F # s)") auto
  then show ?thesis
    using copyPathRemovingDots_slash [of s] copyPathRemovingDots_id [of s] copyPathRemovingDots_id [of t] by auto
qed

subsection \<open>The round trip\<close>

lemma parseBytes_original:
  assumes "m_isValid (parseBytes url None)"
  shows "parseBytes url (Some (fromBytes url)) = parseBytes url None"
proof -
  have e: "(if length (fromBytes url) = length p \<and> p = take (length p) url then fromBytes url else fromBytes p) = fromBytes p" for p
    by (auto simp: fromBytes_def)
  then have a: "assembleURL url (Some (fromBytes url)) n b f h au = assembleURL url None n b f h au" for n b f h au
    unfolding assembleURL_def Let_def option.case by (rule arg_cong)
  have v: "\<not> m_isValid (invalidate t)" for t by (simp add: invalidate_def)
  show ?thesis using assms unfolding parseBytes_def Let_def option.case a
    by (auto simp only: v if_True if_False not_True_eq_False split: if_splits option.splits)
qed

lemma copyASCII_fromBytes [simp]: "copyASCII (fromBytes bs) = bs"
proof -
  have "ucast (ucast b :: uchar) = (b :: byte)" for b
    by (rule word_eqI_unat) (use unat_less_length [of b] in \<open>simp add: unat_ucast_mod\<close>)
  then show ?thesis by (simp add: copyASCII_def fromBytes_def comp_def)
qed

text \<open>
  C13: The parser reads the printed form of every canonical URL with an authority: the
  offsets delimit exactly the scheme, user, password, host, port, path, query and
  fragment that were printed, the text is unchanged, and parsing the stored text again
  gives the same object.
\<close>

theorem parse_print:
  assumes "canonical u"
  shows "parseBytes (printURL u) None = parsed u \<and> parseString (m_string (parsed u)) = parsed u"
proof -
  have "m_string (parsed u) = fromBytes (printURL u)" "m_isValid (parsed u)" by (simp_all add: parsed_def Let_def)
  then show ?thesis using parseBytes_printed [OF assms] parseBytes_original [of "printURL u"] by (simp add: parseString_def)
qed

definition exampleURL :: url_parts where
  "exampleURL = \<lparr>scheme = bstr ''http'', user = bstr ''u'', password = bstr ''p'', host = bstr ''h.com'',
     port = Some (bstr ''80''), path = bstr ''/a/b'', query = Some (bstr ''q''), fragment = Some (bstr ''f'')\<rparr>"

lemma exampleURL_canonical: "canonical exampleURL"
  by code_simp

lemma parse_print_witness:
  "parseString (fromBytes (bstr ''http://u:p@h.com:80/a/b?q#f'')) = parsed exampleURL"
proof -
  have "m_string (parsed exampleURL) = fromBytes (bstr ''http://u:p@h.com:80/a/b?q#f'')" by code_simp
  then show ?thesis using parse_print [OF exampleURL_canonical] by metis
qed

text \<open>Serialised forms that name another URL.\<close>

text \<open>
  An http URL with an empty authority and a path of two slashes is stored with the
  two slashes directly behind the scheme: the object has no host, and parsing its own
  text again gives a URL whose host is the first segment of the path.
\<close>

theorem parse_not_idempotent:
  "m_string (parseBytes (bstr ''http:////evil.com/'') None) = fromBytes (bstr ''http://evil.com/'') \<and>
   m_hostEnd (parseBytes (bstr ''http:////evil.com/'') None) = m_userStart (parseBytes (bstr ''http:////evil.com/'') None) \<and>
   m_hostEnd (parseString (fromBytes (bstr ''http://evil.com/''))) = 15 \<and>
   m_userStart (parseString (fromBytes (bstr ''http://evil.com/''))) = 7"
  by code_simp

text \<open>
  Dot segments are removed before tabs are, so a segment of two dots with a tab
  between them survives as a dot segment in the stored path, and parsing the stored text
  again gives another path.
\<close>

theorem dot_segment_from_tab:
  "m_string (parseBytes (bstr ''http://h/a/.'' @ [0x09] @ bstr ''./b'') None) = fromBytes (bstr ''http://h/a/../b'') \<and>
   m_string (parseString (fromBytes (bstr ''http://h/a/../b''))) = fromBytes (bstr ''http://h/b'')"
  by code_simp

subsection \<open>The offsets of every result\<close>

lemma assembleAuthority_mono:
  "length p \<le> a_userStart (assembleAuthority url a hide present p) \<and>
   a_userStart (assembleAuthority url a hide present p) \<le> a_userEnd (assembleAuthority url a hide present p) \<and>
   a_userEnd (assembleAuthority url a hide present p) \<le> a_passwordEnd (assembleAuthority url a hide present p) \<and>
   a_passwordEnd (assembleAuthority url a hide present p) \<le> a_hostEnd (assembleAuthority url a hide present p) \<and>
   a_hostEnd (assembleAuthority url a hide present p) \<le> a_portEnd (assembleAuthority url a hide present p) \<and>
   a_portEnd (assembleAuthority url a hide present p) = length (a_text (assembleAuthority url a hide present p))"
  by (simp add: assembleAuthority_def Let_def)

lemma lastSlash_bounds: "low \<le> i \<Longrightarrow> low \<le> lastSlash buffer low i \<and> lastSlash buffer low i \<le> i"
  by (induction i) auto

definition offsetsOrdered :: "KURL \<Rightarrow> bool" where
  "offsetsOrdered k \<longleftrightarrow> m_isValid k \<and>
     0 < m_schemeEnd k \<and> m_schemeEnd k < m_userStart k \<and> m_userStart k \<le> m_userEnd k \<and> m_userEnd k \<le> m_passwordEnd k \<and>
     m_passwordEnd k \<le> m_hostEnd k \<and> m_hostEnd k \<le> m_portEnd k \<and> m_portEnd k \<le> m_pathAfterLastSlash k \<and>
     m_pathAfterLastSlash k \<le> m_pathEnd k \<and> m_pathEnd k \<le> m_queryEnd k \<and> m_queryEnd k \<le> m_fragmentEnd k \<and>
     m_fragmentEnd k = length (m_string k)"

lemma offsets_tail:
  assumes "0 < n" "n < us" "us \<le> ue" "ue \<le> pe" "pe \<le> he" "he \<le> pt" "pt = length p"
  shows "offsetsOrdered \<lparr>m_string = fromBytes ((((p @ b) @ a) @ q) @ f), m_isValid = True, m_protocolInHTTPFamily = h, m_schemeEnd = n,
    m_userStart = us, m_userEnd = ue, m_passwordEnd = pe, m_hostEnd = he, m_portEnd = pt,
    m_pathAfterLastSlash = lastSlash ((p @ b) @ a) pt (length ((p @ b) @ a)), m_pathEnd = length ((p @ b) @ a),
    m_queryEnd = length (((p @ b) @ a) @ q), m_fragmentEnd = length ((((p @ b) @ a) @ q) @ f)\<rparr>"
  using assms lastSlash_bounds [of pt "length ((p @ b) @ a)" "(p @ b) @ a"] by (simp add: offsetsOrdered_def fromBytes_def)

lemma assembleURL_offsets:
  assumes "0 < n" "n \<le> length url"
  shows "offsetsOrdered (assembleURL url None n hierarchical isFile http au)"
proof -
  have c: "(if P then x @ y else x) = x @ (if P then y else [])" for P and x y :: "byte list" by simp
  have l: "length (slice url 0 n @ [0x3A]) = n + 1" using assms(2) by (simp add: slice_def)
  let ?A = "\<lambda>a hide present. assembleAuthority url a hide present (slice url 0 n @ [0x3A])"
  have m: "n < a_userStart (?A a hide present)" "a_userStart (?A a hide present) \<le> a_userEnd (?A a hide present)"
    "a_userEnd (?A a hide present) \<le> a_passwordEnd (?A a hide present)"
    "a_passwordEnd (?A a hide present) \<le> a_hostEnd (?A a hide present)"
    "a_hostEnd (?A a hide present) \<le> a_portEnd (?A a hide present)"
    "a_portEnd (?A a hide present) = length (a_text (?A a hide present))" for a hide present
    using assembleAuthority_mono [of "slice url 0 n @ [0x3A]" url a hide present] unfolding l by simp_all
  show ?thesis
    unfolding assembleURL_def Let_def option.case c
    by (rule offsets_tail) (rule assms(1) m)+
qed

lemma scan_le: "i \<le> length url \<Longrightarrow> scan P url i \<le> length url"
  by (simp add: scan_takeWhile) (metis add_le_cancel_left le_add_diff_inverse length_drop length_takeWhile_le)

lemma parseBytes_offsets:
  "parseBytes url None = invalidate (fromBytes (takeWhile (\<lambda>c. c \<noteq> 0) url)) \<or> offsetsOrdered (parseBytes url None)"
proof -
  let ?k = "parseBytes url None" and ?n = "scan isSchemeChar url 0"
  show ?thesis
  proof (cases "byteAt url 0 = 0 \<or> \<not> isSchemeFirstChar (byteAt url 0) \<or> byteAt url ?n \<noteq> 0x3A")
    case True
    then show ?thesis by (auto simp: parseBytes_def Let_def)
  next
    case False
    have n: "0 < ?n"
    proof (rule ccontr)
      assume "\<not> 0 < ?n"
      then have "byteAt url 0 = 0x3A" using False by simp
      then show False using False by (simp add: class_ranges alpha_def)
    qed
    have "?n \<le> length url" by (rule scan_le) simp
    then show ?thesis using False assembleURL_offsets [OF n]
      by (auto simp: parseBytes_def Let_def split: option.split)
  qed
qed

lemma parsed_offsets: "canonical u \<Longrightarrow> offsetsOrdered (parsed u)"
  using parseBytes_offsets [of "printURL u"] by (auto simp: parseBytes_printed parsed_def invalidate_def Let_def)

text \<open>
  C14: Whatever the input, a valid result has its offsets in order, from the end of the
  scheme to the length of the stored text, and an invalid one keeps the input up to its first null
  character with all offsets zero.
\<close>

theorem parse_offsets:
  "if m_isValid (parseBytes url None) then offsetsOrdered (parseBytes url None)
   else parseBytes url None = invalidate (fromBytes (takeWhile (\<lambda>c. c \<noteq> 0) url))"
  using parseBytes_offsets [of url] by (auto simp: invalidate_def offsetsOrdered_def)

end
