(* ===== verification/UrlOps.thy ===== *)
theory UrlOps
  imports KurlParse
begin

section \<open>Accessors, setters and escapes of URLs (WebCore/platform/KURL.cpp)\<close>

text \<open>
  The operations of KURL on a parsed object, and the functions of the file on ports,
  protocols, data URLs and escape sequences. The UTF-8 decoder of TextEncoding is the
  argument \<open>decode\<close>.
\<close>

subsection \<open>Escape sequences\<close>

definition hexDigitValue :: "uchar \<Rightarrow> nat" where
  "hexDigitValue c = (if c < 0x41 then unat (c - 0x30) else unat ((c - 0x41 + 10) AND 0xF))"

text \<open>The end of a run of escapes.\<close>

function escapeRunEnd :: "wtf_string \<Rightarrow> nat \<Rightarrow> nat" where
  "escapeRunEnd str p =
     (if 3 \<le> int (length str) - int p \<and> str ! p = 0x25 \<and> isASCIIHexDigit (str ! (p + 1)) \<and> isASCIIHexDigit (str ! (p + 2))
      then escapeRunEnd str (p + 3) else p)"
  by pat_completeness auto
termination
  by (relation "measure (\<lambda>(str, p). length str - p)") auto

fun decodeRun :: "wtf_string \<Rightarrow> byte list" where
  "decodeRun (q0 # q1 # q2 # q) = of_nat (16 * hexDigitValue q1 + hexDigitValue q2) # decodeRun q"
| "decodeRun q = []"

declare escapeRunEnd.simps [simp del]

lemma escapeRunEnd_bounds: "p \<le> escapeRunEnd str p \<and> (p \<le> length str \<longrightarrow> escapeRunEnd str p \<le> length str)"
proof (induction str p rule: escapeRunEnd.induct)
  case (1 str p)
  show ?case
  proof (cases "3 \<le> int (length str) - int p \<and> str ! p = 0x25 \<and> isASCIIHexDigit (str ! (p + 1)) \<and> isASCIIHexDigit (str ! (p + 2))")
    case True
    then have "escapeRunEnd str p = escapeRunEnd str (p + 3)" by (subst escapeRunEnd.simps) (simp only: if_P simp_thms)
    then show ?thesis using 1 [OF True] True by auto
  next
    case False
    then have "escapeRunEnd str p = p" by (subst escapeRunEnd.simps) (simp only: if_not_P if_False)
    then show ?thesis by simp
  qed
qed

function decodeLoop :: "(byte list \<Rightarrow> wtf_string) \<Rightarrow> wtf_string \<Rightarrow> nat \<Rightarrow> nat \<Rightarrow> wtf_string \<Rightarrow> wtf_string" where
  "decodeLoop decode str searchPosition decodedPosition result =
     (let e = findChar str 0x25 (int searchPosition)
      in if e < 0 then result @ drop decodedPosition str
         else if escapeRunEnd str (nat e) = nat e then decodeLoop decode str (searchPosition + 1) decodedPosition result
         else let encodedRunEnd = escapeRunEnd str (nat e);
                  decoded = decode (decodeRun (take (encodedRunEnd - nat e) (drop (nat e) str)))
              in decodeLoop decode str encodedRunEnd (if decoded = [] then decodedPosition else encodedRunEnd)
                   (if decoded = [] then result
                    else result @ take (nat e - decodedPosition) (drop decodedPosition str) @ decoded))"
  by pat_completeness auto
termination
proof (relation "measure (\<lambda>(_, str, p, _, _). length str - p)", goal_cases)
  case 1
  show ?case by simp
next
  case (2 decode str p d r e)
  then show ?case using findMatch_range [of str "\<lambda>d. d = 0x25" "int p"] by (simp add: findChar_def) linarith
next
  case (3 decode str p d r e run decoded)
  then show ?case using findMatch_range [of str "\<lambda>d. d = 0x25" "int p"] escapeRunEnd_bounds [of "nat e" str]
    by (simp add: findChar_def) linarith
qed

definition decodeURLEscapeSequences :: "(byte list \<Rightarrow> wtf_string) \<Rightarrow> wtf_string \<Rightarrow> wtf_string" where
  "decodeURLEscapeSequences decode str = decodeLoop decode str 0 0 []"

definition escapeByte :: "byte \<Rightarrow> byte list" where
  "escapeByte c = (if isBadChar c then [0x25, hexDigit (drop_bit 4 c), hexDigit (c AND 0xF)] else [c])"

definition encodeWithURLEscapeSequences :: "wtf_string \<Rightarrow> wtf_string" where
  "encodeWithURLEscapeSequences notEncodedString = fromBytes (concat (map escapeByte (utf8 notEncodedString)))"

subsection \<open>Accessors\<close>

definition hostStartOf :: "KURL \<Rightarrow> nat" where
  "hostStartOf k = (if m_passwordEnd k = m_userStart k then m_passwordEnd k else m_passwordEnd k + 1)"

definition hasPort :: "KURL \<Rightarrow> bool" where "hasPort k = (m_hostEnd k < m_portEnd k)"
definition hasPath :: "KURL \<Rightarrow> bool" where "hasPath k = (m_pathEnd k \<noteq> m_portEnd k)"
definition hasFragmentIdentifier :: "KURL \<Rightarrow> bool" where "hasFragmentIdentifier k = (m_fragmentEnd k \<noteq> m_queryEnd k)"
definition isHierarchical :: "KURL \<Rightarrow> bool" where
  "isHierarchical k = (if \<not> m_isValid k then False else charAt (m_string k) (m_schemeEnd k + 1) = 0x2F)"

definition part :: "KURL \<Rightarrow> nat \<Rightarrow> nat \<Rightarrow> wtf_string" where
  "part k a b = substring (m_string k) a (Some (b - a))"

text \<open>\<open>None\<close> in the outer option is a read outside the text; in the inner one the null string.\<close>

definition lastPathComponent :: "KURL \<Rightarrow> wtf_string option option" where
  "lastPathComponent k =
     (if \<not> hasPath k then Some None
      else let stop = int (m_pathEnd k) - 1;
               stop = (if charAt (m_string k) (nat stop) = 0x2F then stop - 1 else stop)
           in map_option (\<lambda>start. if start < int (m_portEnd k) then None
                                  else Some (substring (m_string k) (nat (start + 1)) (Some (nat (stop - (start + 1) + 1)))))
                (reverseFindChar (m_string k) 0x2F stop))"

definition protocol :: "KURL \<Rightarrow> wtf_string" where "protocol k = left (m_string k) (m_schemeEnd k)"

definition urlHost :: "(byte list \<Rightarrow> wtf_string) \<Rightarrow> KURL \<Rightarrow> wtf_string" where
  "urlHost decode k = decodeURLEscapeSequences decode (part k (hostStartOf k) (m_hostEnd k))"

definition maximumValidPortNumber :: int where "maximumValidPortNumber = 0xFFFE"
definition invalidPortNumber :: "16 word" where "invalidPortNumber = 0xFFFF"

definition urlPort :: "(uchar \<Rightarrow> bool) \<Rightarrow> KURL \<Rightarrow> 16 word" where
  "urlPort ws k =
     (if m_hostEnd k = m_portEnd k \<or> int (m_hostEnd k) = int (m_portEnd k) - 1 then 0
      else case charactersToUIntStrict ws 10 (take (m_portEnd k - m_hostEnd k - 1) (drop (m_hostEnd k + 1) (m_string k))) of
             None \<Rightarrow> invalidPortNumber
           | Some number \<Rightarrow> if maximumValidPortNumber < number then invalidPortNumber else word_of_int number)"

definition urlPass :: "(byte list \<Rightarrow> wtf_string) \<Rightarrow> KURL \<Rightarrow> wtf_string" where
  "urlPass decode k =
     (if m_passwordEnd k = m_userEnd k then []
      else decodeURLEscapeSequences decode (part k (m_userEnd k + 1) (m_passwordEnd k)))"

definition urlUser :: "(byte list \<Rightarrow> wtf_string) \<Rightarrow> KURL \<Rightarrow> wtf_string" where
  "urlUser decode k = decodeURLEscapeSequences decode (part k (m_userStart k) (m_userEnd k))"

definition fragmentIdentifier :: "KURL \<Rightarrow> wtf_string" where
  "fragmentIdentifier k = (if m_fragmentEnd k = m_queryEnd k then [] else part k (m_queryEnd k + 1) (m_fragmentEnd k))"

definition baseAsString :: "KURL \<Rightarrow> wtf_string" where "baseAsString k = left (m_string k) (m_pathAfterLastSlash k)"

definition urlQuery :: "KURL \<Rightarrow> wtf_string" where
  "urlQuery k = (if m_queryEnd k = m_pathEnd k then [] else part k (m_pathEnd k + 1) (m_queryEnd k))"

definition urlPath :: "(byte list \<Rightarrow> wtf_string) \<Rightarrow> KURL \<Rightarrow> wtf_string" where
  "urlPath decode k = decodeURLEscapeSequences decode (part k (m_portEnd k) (m_pathEnd k))"

fun matchesLower :: "wtf_string \<Rightarrow> nat \<Rightarrow> uchar list \<Rightarrow> uchar \<Rightarrow> bool" where
  "matchesLower url i [] final = (charAt url i = final)"
| "matchesLower url i (p # ps) final = (if toASCIILower (charAt url i) \<noteq> p then False else matchesLower url (i + 1) ps final)"

text \<open>The member and the free function of the name protocolIs.\<close>

definition kurlProtocolIs :: "KURL \<Rightarrow> string \<Rightarrow> bool" where
  "kurlProtocolIs k p = (m_isValid k \<and> map toASCIILower (left (m_string k) (m_schemeEnd k)) = ustr p)"

definition protocolIs :: "wtf_string \<Rightarrow> string \<Rightarrow> bool" where
  "protocolIs url p = matchesLower url 0 (ustr p) 0x3A"

definition protocolIsJavaScript :: "wtf_string \<Rightarrow> bool" where
  "protocolIsJavaScript url = protocolIs url ''javascript''"

definition isValidProtocol :: "wtf_string \<Rightarrow> bool" where
  "isValidProtocol p = (p \<noteq> [] \<and> uSchemeFirstChar (hd p) \<and> list_all uSchemeChar (tl p))"

definition isLocalFile :: "KURL \<Rightarrow> bool" where "isLocalFile k = kurlProtocolIs k ''file''"

definition equalIgnoringFragmentIdentifier :: "KURL \<Rightarrow> KURL \<Rightarrow> bool" where
  "equalIgnoringFragmentIdentifier a b =
     (m_queryEnd a = m_queryEnd b \<and>
      list_all (\<lambda>i. charAt (m_string a) i = charAt (m_string b) i) [0..<m_queryEnd a])"

definition protocolHostAndPortAreEqual :: "(uchar \<Rightarrow> bool) \<Rightarrow> KURL \<Rightarrow> KURL \<Rightarrow> bool" where
  "protocolHostAndPortAreEqual ws a b =
     (if m_schemeEnd a \<noteq> m_schemeEnd b then False
      else let hostLengthA = m_hostEnd a - hostStartOf a; hostLengthB = m_hostEnd b - hostStartOf b
           in if hostLengthA \<noteq> hostLengthB then False
              else if \<not> list_all (\<lambda>i. charAt (m_string a) i = charAt (m_string b) i) [0..<m_schemeEnd a] then False
              else if \<not> list_all (\<lambda>i. charAt (m_string a) (hostStartOf a + i) = charAt (m_string b) (hostStartOf b + i)) [0..<hostLengthA]
              then False
              else urlPort ws a = urlPort ws b)"

subsection \<open>Setters\<close>

definition setProtocol :: "KURL \<Rightarrow> wtf_string \<Rightarrow> KURL \<times> bool" where
  "setProtocol k s =
     (let separatorPosition = findChar s 0x3A 0;
          newProtocol = substring s 0 (if separatorPosition < 0 then None else Some (nat separatorPosition))
      in if \<not> isValidProtocol newProtocol then (k, False)
         else if \<not> m_isValid k then (parseString (newProtocol @ 0x3A # m_string k), True)
         else (parseString (newProtocol @ substring (m_string k) (m_schemeEnd k) None), True))"

definition setHost :: "KURL \<Rightarrow> wtf_string \<Rightarrow> KURL" where
  "setHost k s =
     (if \<not> m_isValid k then k
      else let slashSlashNeeded = (m_userStart k = m_schemeEnd k + 1)
           in parseString (left (m_string k) (hostStartOf k) @ (if slashSlashNeeded then ustr ''//'' else []) @ s @
                substring (m_string k) (m_hostEnd k) None))"

definition removePort :: "KURL \<Rightarrow> KURL" where
  "removePort k =
     (if m_hostEnd k = m_portEnd k then k
      else parseString (left (m_string k) (m_hostEnd k) @ substring (m_string k) (m_portEnd k) None))"

definition setPort :: "KURL \<Rightarrow> 16 word \<Rightarrow> KURL" where
  "setPort k i =
     (if \<not> m_isValid k then k
      else let colonNeeded = (m_portEnd k = m_hostEnd k);
               portStart = (if colonNeeded then m_hostEnd k else m_hostEnd k + 1)
           in parseString (left (m_string k) portStart @ (if colonNeeded then ustr '':'' else []) @ from_unsigned (ucast i) @
                substring (m_string k) (m_portEnd k) None))"

definition setHostAndPort :: "KURL \<Rightarrow> wtf_string \<Rightarrow> KURL" where
  "setHostAndPort k hostAndPort =
     (if \<not> m_isValid k then k
      else let slashSlashNeeded = (m_userStart k = m_schemeEnd k + 1)
           in parseString (left (m_string k) (hostStartOf k) @ (if slashSlashNeeded then ustr ''//'' else []) @ hostAndPort @
                substring (m_string k) (m_portEnd k) None))"

definition setUser :: "KURL \<Rightarrow> wtf_string \<Rightarrow> KURL" where
  "setUser k newUser =
     (if \<not> m_isValid k then k
      else let stop = m_userEnd k;
               (u, stop) =
                 (if newUser \<noteq> [] then
                    (let u = (if m_userStart k = m_schemeEnd k + 1 then ustr ''//'' @ newUser else newUser)
                     in (if stop = m_hostEnd k \<or> (stop = m_passwordEnd k \<and> charAt (m_string k) stop \<noteq> 0x40)
                         then u @ [0x40] else u, stop))
                  else if m_userEnd k = m_passwordEnd k \<and> stop \<noteq> m_hostEnd k \<and> charAt (m_string k) stop = 0x40
                  then ([], stop + 1) else ([], stop))
           in parseString (left (m_string k) (m_userStart k) @ u @ substring (m_string k) stop None))"

definition setPass :: "KURL \<Rightarrow> wtf_string \<Rightarrow> KURL" where
  "setPass k newPassword =
     (if \<not> m_isValid k then k
      else let stop = m_passwordEnd k;
               atSign = (stop \<noteq> m_hostEnd k \<and> charAt (m_string k) stop = 0x40);
               (p, stop) =
                 (if newPassword \<noteq> [] then
                    (let p = 0x3A # newPassword @ [0x40]
                     in (if m_userEnd k = m_schemeEnd k + 1 then ustr ''//'' @ p else p, if atSign then stop + 1 else stop))
                  else ([], if m_userStart k = m_userEnd k \<and> atSign then stop + 1 else stop))
           in parseString (left (m_string k) (m_userEnd k) @ p @ substring (m_string k) stop None))"

definition setFragmentIdentifier :: "KURL \<Rightarrow> wtf_string \<Rightarrow> KURL" where
  "setFragmentIdentifier k s =
     (if \<not> m_isValid k then k else parseString (left (m_string k) (m_queryEnd k) @ ustr ''#'' @ s))"

definition removeFragmentIdentifier :: "KURL \<Rightarrow> KURL" where
  "removeFragmentIdentifier k = (if \<not> m_isValid k then k else parseString (left (m_string k) (m_queryEnd k)))"

text \<open>\<open>None\<close> is the null string, which removes the query; the empty string leaves its question mark.\<close>

definition setQuery :: "KURL \<Rightarrow> wtf_string option \<Rightarrow> KURL" where
  "setQuery k newQuery =
     (if \<not> m_isValid k then k
      else let q = (case newQuery of None \<Rightarrow> [] | Some q \<Rightarrow> q)
           in if (q = [] \<or> charAt q 0 \<noteq> 0x3F) \<and> newQuery \<noteq> None
              then parseString (left (m_string k) (m_pathEnd k) @ ustr ''?'' @ q @ substring (m_string k) (m_queryEnd k) None)
              else parseString (left (m_string k) (m_pathEnd k) @ q @ substring (m_string k) (m_queryEnd k) None))"

definition setPath :: "KURL \<Rightarrow> wtf_string \<Rightarrow> KURL" where
  "setPath k s =
     (if \<not> m_isValid k then k
      else parseString (left (m_string k) (m_portEnd k) @ encodeWithURLEscapeSequences s @
             substring (m_string k) (m_pathEnd k) None))"

definition prettyURL :: "(uchar \<Rightarrow> bool) \<Rightarrow> (byte list \<Rightarrow> wtf_string) \<Rightarrow> KURL \<Rightarrow> wtf_string" where
  "prettyURL ws decode k =
     (if \<not> m_isValid k then m_string k
      else let authority =
                 (if m_hostEnd k \<noteq> m_passwordEnd k then
                    (if m_userEnd k \<noteq> m_userStart k then urlUser decode k @ [0x40] else []) @ urlHost decode k @
                    (if hasPort k \<and> urlPort ws k \<noteq> invalidPortNumber then 0x3A # from_unsigned (ucast (urlPort ws k)) else [])
                  else [])
           in protocol k @ [0x3A] @
              (if authority \<noteq> [] then [0x2F, 0x2F] @ authority else if kurlProtocolIs k ''file'' then [0x2F, 0x2F] else []) @
              urlPath decode k @
              (if m_pathEnd k \<noteq> m_queryEnd k then 0x3F # urlQuery k else []) @
              (if m_fragmentEnd k \<noteq> m_queryEnd k then 0x23 # fragmentIdentifier k else []))"

subsection \<open>Ports and data URLs\<close>

text \<open>HashMap::get gives 0 for a protocol that is not in the table; \<open>same\<close> is CaseFoldingHash::equal.\<close>

definition defaultPorts :: "(string \<times> 32 word) list" where
  "defaultPorts = [(''http'', 80), (''https'', 443), (''ftp'', 21), (''ftps'', 990)]"

definition isDefaultPortForProtocol :: "(wtf_string \<Rightarrow> wtf_string \<Rightarrow> bool) \<Rightarrow> 16 word \<Rightarrow> wtf_string \<Rightarrow> bool" where
  "isDefaultPortForProtocol same portNumber protocolName =
     (if protocolName = [] then False
      else (case find (\<lambda>(p, _). same (ustr p) protocolName) defaultPorts of None \<Rightarrow> 0 | Some (_, n) \<Rightarrow> n) = ucast portNumber)"

definition blockedPortList :: "16 word list" where
  "blockedPortList =
     [1, 7, 9, 11, 13, 15, 17, 19, 20, 21, 22, 23, 25, 37, 42, 43, 53, 77, 79, 87, 95, 101, 102, 103, 104, 109, 110, 111, 113,
      115, 117, 119, 123, 135, 139, 143, 179, 389, 465, 512, 513, 514, 515, 526, 530, 531, 532, 540, 556, 563, 587, 601, 636,
      993, 995, 2049, 3659, 4045, 6000, 6665, 6666, 6667, 6668, 6669, invalidPortNumber]"

text \<open>std::binary_search.\<close>

function lowerBound :: "('a :: linorder) list \<Rightarrow> 'a \<Rightarrow> nat \<Rightarrow> nat \<Rightarrow> nat" where
  "lowerBound xs x start count =
     (if count = 0 then start
      else let half = count div 2; middle = start + half
           in if xs ! middle < x then lowerBound xs x (middle + 1) (count - half - 1)
              else lowerBound xs x start half)"
  by pat_completeness auto
termination
  by (relation "measure (\<lambda>(_, _, _, count). count)") auto

definition binarySearch :: "('a :: linorder) list \<Rightarrow> 'a \<Rightarrow> bool" where
  "binarySearch xs x = (let i = lowerBound xs x 0 (length xs) in i \<noteq> length xs \<and> \<not> x < xs ! i)"

definition portAllowed :: "(uchar \<Rightarrow> bool) \<Rightarrow> KURL \<Rightarrow> bool" where
  "portAllowed ws url =
     (let portNumber = urlPort ws url
      in if portNumber = 0 then True
         else if \<not> binarySearch blockedPortList portNumber then True
         else if (portNumber = 21 \<or> portNumber = 22) \<and> kurlProtocolIs url ''ftp'' then True
         else kurlProtocolIs url ''file'')"

definition mimeTypeFromDataURL :: "wtf_string \<Rightarrow> wtf_string" where
  "mimeTypeFromDataURL url =
     (let index = findChar url 0x3B 0;
          index = (if index = -1 then findChar url 0x2C 0 else index)
      in if index \<noteq> -1
         then (if 0 < index - 5 then substring url 5 (Some (nat (index - 5))) else ustr ''text/plain'')
         else [])"

definition substituteBackslashes :: "wtf_string \<Rightarrow> wtf_string" where
  "substituteBackslashes s =
     (let questionPos = findChar s 0x3F 0; hashPos = findChar s 0x23 0;
          pathEnd = (if 0 \<le> hashPos \<and> (questionPos < 0 \<or> hashPos < questionPos) then nat hashPos
                     else if 0 \<le> questionPos then nat questionPos else length s)
      in replaceChar 0x5C 0x2F (left s pathEnd) @ substring s pathEnd None)"

end
