(* ===== verification/UrlParts.thy ===== *)
theory UrlParts
  imports UrlOps
begin

section \<open>What the operations of URLs do to their parts\<close>

text \<open>
  The accessors and the setters of KURL on the objects that the parser makes of the
  canonical URLs of the theory KurlParse: the accessors give the parts back, and every
  setter is the update of one part. Then the port check, and the round trip of escape
  sequences.
\<close>

subsection \<open>Cutting the stored text\<close>

lemma fromBytes_append: "fromBytes (a @ b) = fromBytes a @ fromBytes b"
  by (simp add: fromBytes_def)

lemma fromBytes_Nil [simp]: "fromBytes [] = []"
  by (simp add: fromBytes_def)

lemma fromBytes_eq_Nil [simp]: "fromBytes a = [] \<longleftrightarrow> a = []"
  by (simp add: fromBytes_def)

lemma length_fromBytes [simp]: "length (fromBytes a) = length a"
  by (simp add: fromBytes_def)

lemma leftI: "s = a @ b \<Longrightarrow> n = length a \<Longrightarrow> left s n = a"
  by (auto simp: left_def substring_def)

lemma substringI: "s = a @ b \<Longrightarrow> n = length a \<Longrightarrow> substring s n None = b"
  by (auto simp: substring_def)

lemma partI: "m_string k = x @ y @ z \<Longrightarrow> a = length x \<Longrightarrow> b = length x + length y \<Longrightarrow> part k a b = y"
  by (auto simp: part_def substring_def)

lemma parseString_fromBytes: "m_isValid (parseBytes bs None) \<Longrightarrow> parseString (fromBytes bs) = parseBytes bs None"
  by (simp add: parseString_def parseBytes_original)

lemma parseString_printed: "canonical u \<Longrightarrow> s = fromBytes (printURL u) \<Longrightarrow> parseString s = parsed u"
proof -
  assume u: "canonical u" "s = fromBytes (printURL u)"
  have "m_isValid (parsed u)" by (simp add: parsed_def Let_def)
  then show ?thesis using u by (simp add: parseString_fromBytes parseBytes_printed)
qed

lemma parsed_fields:
  "m_string (parsed u) = fromBytes (printURL u)" "m_isValid (parsed u)"
  "m_protocolInHTTPFamily (parsed u) = isHTTPFamily (printURL u)" "m_schemeEnd (parsed u) = length (scheme u)"
  "m_userStart (parsed u) = length (scheme u) + 3" "m_userEnd (parsed u) = length (scheme u) + 3 + length (user u)"
  "m_passwordEnd (parsed u) = length (scheme u) + 3 + length (user u) + (if password u = [] then 0 else 1 + length (password u))"
  "m_hostEnd (parsed u) = length (scheme u) + 3 + length (userInfoText u) + length (host u)"
  "m_portEnd (parsed u) = length (scheme u) + 3 + length (userInfoText u) + length (host u) + length (portText u)"
  "m_pathEnd (parsed u) =
     length (scheme u) + 3 + length (userInfoText u) + length (host u) + length (portText u) + length (path u)"
  "m_queryEnd (parsed u) = length (scheme u) + 3 + length (userInfoText u) + length (host u) + length (portText u) +
     length (path u) + length (queryText u)"
  "m_fragmentEnd (parsed u) = length (scheme u) + 3 + length (userInfoText u) + length (host u) + length (portText u) +
     length (path u) + length (queryText u) + length (fragmentText u)"
  by (simp_all add: parsed_def Let_def printURL_def)

text \<open>The separators of the text as a string.\<close>

lemma separators: "ustr ''//'' = fromBytes [0x2F, 0x2F]" "ustr '':'' = fromBytes [0x3A]" "ustr ''#'' = fromBytes [0x23]"
  "ustr ''?'' = fromBytes [0x3F]"
  by (simp_all add: ustr_def fromBytes_def)

definition schemeText :: "url_parts \<Rightarrow> byte list" where
  "schemeText u = scheme u @ [0x3A, 0x2F, 0x2F]"

lemma printURL_schemeText:
  "printURL u = schemeText u @ userInfoText u @ host u @ portText u @ path u @ queryText u @ fragmentText u"
  by (simp add: printURL_def schemeText_def)

lemma length_schemeText [simp]: "length (schemeText u) = length (scheme u) + 3"
  by (simp add: schemeText_def)

lemma hostStartOf_parsed: "hostStartOf (parsed u) = length (schemeText u @ userInfoText u)"
  by (simp add: hostStartOf_def parsed_fields userInfoText_def)

lemma cut_host:
  "left (m_string (parsed u)) (hostStartOf (parsed u)) = fromBytes (schemeText u @ userInfoText u)"
  "substring (m_string (parsed u)) (m_hostEnd (parsed u)) None = fromBytes (portText u @ path u @ queryText u @ fragmentText u)"
  "left (m_string (parsed u)) (m_hostEnd (parsed u)) = fromBytes (schemeText u @ userInfoText u @ host u)"
  "substring (m_string (parsed u)) (m_portEnd (parsed u)) None = fromBytes (path u @ queryText u @ fragmentText u)"
  "left (m_string (parsed u)) (m_portEnd (parsed u)) = fromBytes (schemeText u @ userInfoText u @ host u @ portText u)"
  by (rule leftI substringI, simp add: parsed_fields printURL_schemeText fromBytes_append,
      simp add: parsed_fields hostStartOf_parsed)+

lemma cut_tail:
  "left (m_string (parsed u)) (m_pathEnd (parsed u)) =
     fromBytes (schemeText u @ userInfoText u @ host u @ portText u @ path u)"
  "substring (m_string (parsed u)) (m_pathEnd (parsed u)) None = fromBytes (queryText u @ fragmentText u)"
  "left (m_string (parsed u)) (m_queryEnd (parsed u)) =
     fromBytes (schemeText u @ userInfoText u @ host u @ portText u @ path u @ queryText u)"
  "substring (m_string (parsed u)) (m_queryEnd (parsed u)) None = fromBytes (fragmentText u)"
  by (rule leftI substringI, simp add: parsed_fields printURL_schemeText fromBytes_append, simp add: parsed_fields)+

lemma cut_scheme:
  "left (m_string (parsed u)) (m_schemeEnd (parsed u)) = fromBytes (scheme u)"
  "substring (m_string (parsed u)) (m_schemeEnd (parsed u)) None = fromBytes ([0x3A, 0x2F, 0x2F] @ userInfoText u @ host u @
     portText u @ path u @ queryText u @ fragmentText u)"
  by (rule leftI substringI, simp add: parsed_fields printURL_def fromBytes_append, simp add: parsed_fields)+

subsection \<open>Setters\<close>

lemma text_updates [simp]:
  "schemeText (u\<lparr>user := x\<rparr>) = schemeText u" "schemeText (u\<lparr>password := x\<rparr>) = schemeText u"
  "schemeText (u\<lparr>host := x\<rparr>) = schemeText u" "schemeText (u\<lparr>port := y\<rparr>) = schemeText u"
  "schemeText (u\<lparr>path := x\<rparr>) = schemeText u" "schemeText (u\<lparr>query := y\<rparr>) = schemeText u"
  "schemeText (u\<lparr>fragment := y\<rparr>) = schemeText u"
  "userInfoText (u\<lparr>scheme := x\<rparr>) = userInfoText u" "userInfoText (u\<lparr>host := x\<rparr>) = userInfoText u"
  "userInfoText (u\<lparr>port := y\<rparr>) = userInfoText u" "userInfoText (u\<lparr>path := x\<rparr>) = userInfoText u"
  "userInfoText (u\<lparr>query := y\<rparr>) = userInfoText u" "userInfoText (u\<lparr>fragment := y\<rparr>) = userInfoText u"
  by (simp_all add: schemeText_def userInfoText_def)

lemma part_updates [simp]:
  "portText (u\<lparr>scheme := x\<rparr>) = portText u" "portText (u\<lparr>user := x\<rparr>) = portText u" "portText (u\<lparr>password := x\<rparr>) = portText u"
  "portText (u\<lparr>host := x\<rparr>) = portText u" "portText (u\<lparr>path := x\<rparr>) = portText u" "portText (u\<lparr>query := y\<rparr>) = portText u"
  "portText (u\<lparr>fragment := y\<rparr>) = portText u" "portText (u\<lparr>port := Some x\<rparr>) = 0x3A # x" "portText (u\<lparr>port := None\<rparr>) = []"
  "queryText (u\<lparr>scheme := x\<rparr>) = queryText u" "queryText (u\<lparr>user := x\<rparr>) = queryText u"
  "queryText (u\<lparr>password := x\<rparr>) = queryText u" "queryText (u\<lparr>host := x\<rparr>) = queryText u" "queryText (u\<lparr>port := y\<rparr>) = queryText u"
  "queryText (u\<lparr>path := x\<rparr>) = queryText u" "queryText (u\<lparr>fragment := y\<rparr>) = queryText u"
  "queryText (u\<lparr>query := Some x\<rparr>) = 0x3F # x" "queryText (u\<lparr>query := None\<rparr>) = []"
  "fragmentText (u\<lparr>scheme := x\<rparr>) = fragmentText u" "fragmentText (u\<lparr>user := x\<rparr>) = fragmentText u"
  "fragmentText (u\<lparr>password := x\<rparr>) = fragmentText u" "fragmentText (u\<lparr>host := x\<rparr>) = fragmentText u"
  "fragmentText (u\<lparr>port := y\<rparr>) = fragmentText u" "fragmentText (u\<lparr>path := x\<rparr>) = fragmentText u"
  "fragmentText (u\<lparr>query := y\<rparr>) = fragmentText u" "fragmentText (u\<lparr>fragment := Some x\<rparr>) = 0x23 # x"
  "fragmentText (u\<lparr>fragment := None\<rparr>) = []"
  by (simp_all add: portText_def queryText_def fragmentText_def)

text \<open>A setter parses the text with the new part in its place.\<close>

lemma setter:
  assumes "canonical v" "bs = schemeText v @ userInfoText v @ host v @ portText v @ path v @ queryText v @ fragmentText v"
  shows "parseString (fromBytes bs) = parsed v"
  using assms by (simp add: parseString_printed printURL_schemeText)

lemmas glue = fromBytes_append [symmetric] append_assoc

lemma parsed_valid [simp]: "m_isValid (parsed u)"
  by (simp add: parsed_fields)

lemma parsed_slashes [simp]:
  "m_userStart (parsed u) = Suc (m_schemeEnd (parsed u)) \<longleftrightarrow> False" "m_userEnd (parsed u) = Suc (m_schemeEnd (parsed u)) \<longleftrightarrow> False"
  by (simp_all add: parsed_fields)

lemma uchar_of_byte_inject: "(ucast (a :: byte) :: uchar) = ucast b \<longleftrightarrow> a = b"
proof
  assume "(ucast a :: uchar) = ucast b"
  then have "unat (ucast a :: uchar) = unat (ucast b :: uchar)" by simp
  then show "a = b" using unat_less_length [of a] unat_less_length [of b] by (intro word_eqI_unat) (simp add: unat_ucast_mod)
qed simp

lemma setHost_parsed: "canonical (u\<lparr>host := h\<rparr>) \<Longrightarrow> setHost (parsed u) (fromBytes h) = parsed (u\<lparr>host := h\<rparr>)"
  unfolding setHost_def Let_def cut_host by (simp add: glue, rule setter) simp_all

lemma setPath_parsed:
  assumes "canonical (u\<lparr>path := p\<rparr>)" "encodeWithURLEscapeSequences s = fromBytes p"
  shows "setPath (parsed u) s = parsed (u\<lparr>path := p\<rparr>)"
  unfolding setPath_def Let_def cut_host cut_tail assms(2)
  using assms(1) by (simp add: glue) (rule setter, simp_all)

lemma setPort_parsed:
  assumes "canonical (u\<lparr>port := Some p\<rparr>)" "from_unsigned (ucast i) = fromBytes p"
  shows "setPort (parsed u) i = parsed (u\<lparr>port := Some p\<rparr>)"
proof -
  let ?k = "parsed u"
  have e: "left (m_string ?k) (if m_portEnd ?k = m_hostEnd ?k then m_hostEnd ?k else m_hostEnd ?k + 1) @
      (if m_portEnd ?k = m_hostEnd ?k then ustr '':'' else []) @ x =
    fromBytes (schemeText u @ userInfoText u @ host u @ [0x3A]) @ x" for x
  proof (cases "port u")
    case None
    then show ?thesis using cut_host(3) [of u] by (simp add: parsed_fields portText_def separators glue)
  next
    case (Some q)
    then have "left (m_string ?k) (m_hostEnd ?k + 1) = fromBytes (schemeText u @ userInfoText u @ host u @ [0x3A])"
      by (intro leftI [where b = "fromBytes (q @ path u @ queryText u @ fragmentText u)"])
        (simp_all add: parsed_fields portText_def printURL_schemeText glue)
    then show ?thesis using Some by (simp add: parsed_fields portText_def)
  qed
  show ?thesis
    unfolding setPort_def Let_def e cut_host(4) assms(2)
    using assms(1) by (simp add: glue) (rule setter, simp_all)
qed

lemma removePort_parsed:
  assumes "canonical u" "canonical (u\<lparr>port := None\<rparr>)"
  shows "removePort (parsed u) = parsed (u\<lparr>port := None\<rparr>)"
proof (cases "port u")
  case None
  then have "u\<lparr>port := None\<rparr> = u" by simp
  then show ?thesis using None by (simp only: removePort_def parsed_fields portText_def) simp
next
  case (Some q)
  then have "m_hostEnd (parsed u) \<noteq> m_portEnd (parsed u)" by (simp add: parsed_fields portText_def)
  then show ?thesis unfolding removePort_def cut_host
    using assms(2) by (simp add: glue) (rule setter, simp_all)
qed

lemma setFragmentIdentifier_parsed:
  "canonical (u\<lparr>fragment := Some f\<rparr>) \<Longrightarrow> setFragmentIdentifier (parsed u) (fromBytes f) = parsed (u\<lparr>fragment := Some f\<rparr>)"
  unfolding setFragmentIdentifier_def cut_tail separators by (simp add: glue, rule setter) simp_all

lemma removeFragmentIdentifier_parsed:
  "canonical (u\<lparr>fragment := None\<rparr>) \<Longrightarrow> removeFragmentIdentifier (parsed u) = parsed (u\<lparr>fragment := None\<rparr>)"
  unfolding removeFragmentIdentifier_def cut_tail by (simp, rule setter) simp_all

lemma setQuery_parsed:
  assumes "canonical (u\<lparr>query := q\<rparr>)" "case q of None \<Rightarrow> True | Some b \<Rightarrow> b = [] \<or> hd b \<noteq> 0x3F"
  shows "setQuery (parsed u) (map_option fromBytes q) = parsed (u\<lparr>query := q\<rparr>)"
proof (cases q)
  case None
  then show ?thesis unfolding setQuery_def Let_def cut_tail using assms(1) by (simp add: glue) (rule setter, simp_all)
next
  case (Some b)
  have "ucast c = (0x3F :: uchar) \<longleftrightarrow> c = 0x3F" for c :: byte using uchar_of_byte_inject [of c "0x3F"] by simp
  then have "fromBytes b = [] \<or> charAt (fromBytes b) 0 \<noteq> 0x3F"
    using assms(2) Some by (cases b) (simp_all add: charAt_def fromBytes_def)
  then show ?thesis unfolding setQuery_def Let_def cut_tail using assms(1) Some
    by (simp add: glue separators) (rule setter, simp_all)
qed

text \<open>The at sign behind the user information.\<close>

definition atText :: "url_parts \<Rightarrow> byte list" where
  "atText u = (if user u = [] \<and> password u = [] then [] else [0x40])"

definition passwordText :: "url_parts \<Rightarrow> byte list" where
  "passwordText u = (if password u = [] then [] else 0x3A # password u)"

lemma userInfoText_parts: "userInfoText u = user u @ passwordText u @ atText u"
  by (simp add: userInfoText_def atText_def passwordText_def)

lemma printURL_user:
  "printURL u = schemeText u @ user u @ passwordText u @ atText u @ host u @ portText u @ path u @ queryText u @ fragmentText u"
  by (simp add: printURL_schemeText userInfoText_parts)

lemma cut_user:
  "left (m_string (parsed u)) (m_userStart (parsed u)) = fromBytes (schemeText u)"
  "left (m_string (parsed u)) (m_userEnd (parsed u)) = fromBytes (schemeText u @ user u)"
  "substring (m_string (parsed u)) (m_userEnd (parsed u)) None =
     fromBytes (passwordText u @ atText u @ host u @ portText u @ path u @ queryText u @ fragmentText u)"
  "substring (m_string (parsed u)) (m_passwordEnd (parsed u)) None =
     fromBytes (atText u @ host u @ portText u @ path u @ queryText u @ fragmentText u)"
  by (rule leftI substringI, simp add: parsed_fields printURL_user fromBytes_append, simp add: parsed_fields passwordText_def)+

lemma charAt_fromBytes: "i < length bs \<Longrightarrow> charAt (fromBytes bs) i = ucast (bs ! i)"
  by (simp add: charAt_def fromBytes_def)

lemma canonical_host_hd: "canonical u \<Longrightarrow> host u \<noteq> [] \<and> hd (host u) \<noteq> 0x40"
  using canonicalD(7,8) [of u] host_chars by (cases "host u") auto

text \<open>There is an at sign behind the password just when there is user information.\<close>

lemma at_sign:
  assumes "canonical u"
  shows "charAt (m_string (parsed u)) (m_passwordEnd (parsed u)) = 0x40 \<longleftrightarrow> atText u \<noteq> []"
proof -
  let ?n = "m_passwordEnd (parsed u)" and ?rest = "atText u @ host u @ portText u @ path u @ queryText u @ fragmentText u"
  have n: "?n = length (schemeText u @ user u @ passwordText u)" by (simp add: parsed_fields passwordText_def)
  have p: "printURL u = (schemeText u @ user u @ passwordText u) @ ?rest" by (simp add: printURL_user)
  have ne: "?rest \<noteq> []" using canonical_host_hd [OF assms] by simp
  have "charAt (m_string (parsed u)) ?n = ucast (printURL u ! ?n)"
    using ne by (simp only: parsed_fields(1)) (rule charAt_fromBytes, simp add: n p)
  also have "printURL u ! ?n = hd ?rest" using ne unfolding n p nth_append_length_plus by (simp add: nth_append hd_conv_nth)
  finally have "charAt (m_string (parsed u)) ?n = ucast (hd ?rest)" .
  moreover have "(ucast (hd ?rest) :: uchar) = 0x40 \<longleftrightarrow> hd ?rest = 0x40" using uchar_of_byte_inject [of "hd ?rest" "0x40"] by simp
  moreover have "hd ?rest = 0x40 \<longleftrightarrow> atText u \<noteq> []"
    using canonical_host_hd [OF assms] by (cases "atText u = []") (auto simp: atText_def)
  ultimately show ?thesis by simp
qed

lemma before_host: "canonical u \<Longrightarrow> m_passwordEnd (parsed u) \<noteq> m_hostEnd (parsed u) \<and> m_userEnd (parsed u) \<noteq> m_hostEnd (parsed u)"
  using canonical_host_hd [of u] by (auto simp: parsed_fields userInfoText_def)

lemma behind_at:
  assumes "canonical u" "atText u \<noteq> []"
  shows "substring (m_string (parsed u)) (Suc (m_passwordEnd (parsed u))) None =
    fromBytes (host u @ portText u @ path u @ queryText u @ fragmentText u)"
  by (rule substringI [where a = "fromBytes (schemeText u @ user u @ passwordText u @ atText u)"])
    (use assms(2) in \<open>auto simp: parsed_fields printURL_user passwordText_def atText_def glue split: if_splits\<close>)

lemma userEnd_passwordEnd: "m_userEnd (parsed u) = m_passwordEnd (parsed u) \<longleftrightarrow> password u = []"
  by (simp add: parsed_fields)

lemma userStart_userEnd: "m_userStart (parsed u) = m_userEnd (parsed u) \<longleftrightarrow> user u = []"
  by (simp add: parsed_fields)

lemma setUser_parsed:
  assumes "canonical u" "canonical (u\<lparr>user := x\<rparr>)"
  shows "setUser (parsed u) (fromBytes x) = parsed (u\<lparr>user := x\<rparr>)"
proof -
  let ?k = "parsed u" and ?tail = "host u @ portText u @ path u @ queryText u @ fragmentText u"
  have goal: "setUser ?k (fromBytes x) = parseString (fromBytes (schemeText u @ x @ passwordText u @ atText (u\<lparr>user := x\<rparr>) @ ?tail))"
  proof (cases "password u = []")
    case True
    then have "charAt (m_string ?k) (m_userEnd ?k) = 0x40 \<longleftrightarrow> atText u \<noteq> []"
      using at_sign [OF assms(1)] userEnd_passwordEnd [of u] by simp
    then show ?thesis
      using True before_host [OF assms(1)] cut_user(1,3) [of u] behind_at [OF assms(1)] userEnd_passwordEnd [of u]
      by (auto simp: setUser_def Let_def atText_def passwordText_def fromBytes_append split: if_splits)
        (simp_all add: fromBytes_def)
  next
    case False
    then show ?thesis
      using before_host [OF assms(1)] cut_user(1,3) [of u] userEnd_passwordEnd [of u]
      by (simp add: setUser_def Let_def atText_def fromBytes_append)
  qed
  show ?thesis unfolding goal by (rule setter [OF assms(2)]) (simp add: userInfoText_parts passwordText_def)
qed

lemma setPass_parsed:
  assumes "canonical u" "canonical (u\<lparr>password := x\<rparr>)"
  shows "setPass (parsed u) (fromBytes x) = parsed (u\<lparr>password := x\<rparr>)"
proof -
  let ?k = "parsed u" and ?tail = "host u @ portText u @ path u @ queryText u @ fragmentText u"
  have goal: "setPass ?k (fromBytes x) =
      parseString (fromBytes (schemeText u @ user u @ passwordText (u\<lparr>password := x\<rparr>) @ atText (u\<lparr>password := x\<rparr>) @ ?tail))"
  proof (cases "atText u = []")
    case True
    then show ?thesis
      using before_host [OF assms(1)] cut_user(2,4) [of u] at_sign [OF assms(1)] userStart_userEnd [of u]
      by (auto simp: setPass_def Let_def atText_def passwordText_def fromBytes_append split: if_splits)
        (simp_all add: fromBytes_def)
  next
    case False
    then show ?thesis
      using before_host [OF assms(1)] cut_user(2,4) [of u] at_sign [OF assms(1)] userStart_userEnd [of u] behind_at [OF assms(1) False]
      by (auto simp: setPass_def Let_def atText_def passwordText_def fromBytes_append split: if_splits)
        (simp_all add: fromBytes_def)
  qed
  show ?thesis unfolding goal by (rule setter [OF assms(2)]) (simp add: userInfoText_parts)
qed

text \<open>
  C18: On a URL that the parser made of canonical parts, each setter of the authority gives
  the object that the parser makes of the same parts with the host, the port, the user
  or the password replaced, whatever was there before, provided those parts are
  canonical again.
\<close>

theorem authority_setters:
  assumes "canonical u"
  shows "(canonical (u\<lparr>host := h\<rparr>) \<longrightarrow> setHost (parsed u) (fromBytes h) = parsed (u\<lparr>host := h\<rparr>)) \<and>
    (canonical (u\<lparr>port := Some p\<rparr>) \<and> from_unsigned (ucast i) = fromBytes p \<longrightarrow> setPort (parsed u) i = parsed (u\<lparr>port := Some p\<rparr>)) \<and>
    (canonical (u\<lparr>port := None\<rparr>) \<longrightarrow> removePort (parsed u) = parsed (u\<lparr>port := None\<rparr>)) \<and>
    (canonical (u\<lparr>user := x\<rparr>) \<longrightarrow> setUser (parsed u) (fromBytes x) = parsed (u\<lparr>user := x\<rparr>)) \<and>
    (canonical (u\<lparr>password := w\<rparr>) \<longrightarrow> setPass (parsed u) (fromBytes w) = parsed (u\<lparr>password := w\<rparr>))"
  using assms setHost_parsed setPort_parsed removePort_parsed setUser_parsed setPass_parsed by blast

definition anonymousURL :: url_parts where
  "anonymousURL = exampleURL\<lparr>user := [], password := []\<rparr>"

lemma authority_setters_witness:
  "setUser (parsed anonymousURL) (fromBytes (bstr ''me'')) = parsed (anonymousURL\<lparr>user := bstr ''me''\<rparr>) \<and>
   setPass (parsed anonymousURL) (fromBytes (bstr ''s'')) = parsed (anonymousURL\<lparr>password := bstr ''s''\<rparr>)"
proof -
  have c: "canonical anonymousURL" "canonical (anonymousURL\<lparr>user := bstr ''me''\<rparr>)" "canonical (anonymousURL\<lparr>password := bstr ''s''\<rparr>)"
    by code_simp+
  show ?thesis
    using authority_setters [OF c(1), where x = "bstr ''me''" and w = "bstr ''s''"] c(2,3) by blast
qed

text \<open>
  C19: On a URL that the parser made of canonical parts, the setters behind the authority
  replace the path, the query and the fragment, and nothing else.
\<close>

theorem path_setters:
  "(canonical (u\<lparr>path := p\<rparr>) \<and> encodeWithURLEscapeSequences s = fromBytes p \<longrightarrow> setPath (parsed u) s = parsed (u\<lparr>path := p\<rparr>)) \<and>
   (canonical (u\<lparr>query := q\<rparr>) \<and> (case q of None \<Rightarrow> True | Some b \<Rightarrow> b = [] \<or> hd b \<noteq> 0x3F) \<longrightarrow>
      setQuery (parsed u) (map_option fromBytes q) = parsed (u\<lparr>query := q\<rparr>)) \<and>
   (canonical (u\<lparr>fragment := Some f\<rparr>) \<longrightarrow> setFragmentIdentifier (parsed u) (fromBytes f) = parsed (u\<lparr>fragment := Some f\<rparr>)) \<and>
   (canonical (u\<lparr>fragment := None\<rparr>) \<longrightarrow> removeFragmentIdentifier (parsed u) = parsed (u\<lparr>fragment := None\<rparr>))"
  using setPath_parsed setQuery_parsed setFragmentIdentifier_parsed removeFragmentIdentifier_parsed by blast

lemma path_setters_witness:
  "setQuery (parsed exampleURL) None = parsed (exampleURL\<lparr>query := None\<rparr>) \<and>
   setPath (parsed exampleURL) (ustr ''/x y'') = parsed (exampleURL\<lparr>path := bstr ''/x%20y''\<rparr>)"
proof -
  have c: "canonical (exampleURL\<lparr>query := None\<rparr>)" "canonical (exampleURL\<lparr>path := bstr ''/x%20y''\<rparr>)"
    "encodeWithURLEscapeSequences (ustr ''/x y'') = fromBytes (bstr ''/x%20y'')"
    by code_simp+
  then show ?thesis
    using path_setters [where u = exampleURL and p = "bstr ''/x%20y''" and s = "ustr ''/x y''" and q = None] by simp
qed

subsection \<open>Accessors\<close>

lemma part_host: "part (parsed u) (hostStartOf (parsed u)) (m_hostEnd (parsed u)) = fromBytes (host u)"
  by (rule partI [where x = "fromBytes (schemeText u @ userInfoText u)"
        and z = "fromBytes (portText u @ path u @ queryText u @ fragmentText u)"])
    (simp_all add: parsed_fields hostStartOf_parsed printURL_schemeText glue)

lemma part_user: "part (parsed u) (m_userStart (parsed u)) (m_userEnd (parsed u)) = fromBytes (user u)"
  by (rule partI [where x = "fromBytes (schemeText u)"
        and z = "fromBytes (passwordText u @ atText u @ host u @ portText u @ path u @ queryText u @ fragmentText u)"])
    (simp_all add: parsed_fields printURL_user glue)

lemma part_password:
  "password u \<noteq> [] \<Longrightarrow> part (parsed u) (m_userEnd (parsed u) + 1) (m_passwordEnd (parsed u)) = fromBytes (password u)"
  by (rule partI [where x = "fromBytes (schemeText u @ user u @ [0x3A])"
        and z = "fromBytes (atText u @ host u @ portText u @ path u @ queryText u @ fragmentText u)"])
    (simp_all add: parsed_fields printURL_user passwordText_def glue)

lemma part_path: "part (parsed u) (m_portEnd (parsed u)) (m_pathEnd (parsed u)) = fromBytes (path u)"
  by (rule partI [where x = "fromBytes (schemeText u @ userInfoText u @ host u @ portText u)"
        and z = "fromBytes (queryText u @ fragmentText u)"])
    (simp_all add: parsed_fields printURL_schemeText glue)

lemma part_query:
  "query u = Some q \<Longrightarrow> part (parsed u) (m_pathEnd (parsed u) + 1) (m_queryEnd (parsed u)) = fromBytes q"
  by (rule partI [where x = "fromBytes (schemeText u @ userInfoText u @ host u @ portText u @ path u @ [0x3F])"
        and z = "fromBytes (fragmentText u)"])
    (simp_all add: parsed_fields printURL_schemeText queryText_def glue)

lemma part_fragment:
  "fragment u = Some f \<Longrightarrow> part (parsed u) (m_queryEnd (parsed u) + 1) (m_fragmentEnd (parsed u)) = fromBytes f"
  by (rule partI [where x = "fromBytes (schemeText u @ userInfoText u @ host u @ portText u @ path u @ queryText u @ [0x23])"
        and z = "[]"])
    (simp_all add: parsed_fields printURL_schemeText fragmentText_def glue)

text \<open>
  C20: The accessors of an object with the offsets of canonical parts give the parts:
  the scheme, the decoded user, password, host and path, the query and the fragment.
\<close>

theorem accessors_give_parts:
  "protocol (parsed u) = fromBytes (scheme u) \<and>
   urlUser decode (parsed u) = decodeURLEscapeSequences decode (fromBytes (user u)) \<and>
   urlPass decode (parsed u) = (if password u = [] then [] else decodeURLEscapeSequences decode (fromBytes (password u))) \<and>
   urlHost decode (parsed u) = decodeURLEscapeSequences decode (fromBytes (host u)) \<and>
   urlPath decode (parsed u) = decodeURLEscapeSequences decode (fromBytes (path u)) \<and>
   urlQuery (parsed u) = fromBytes (case query u of None \<Rightarrow> [] | Some q \<Rightarrow> q) \<and>
   fragmentIdentifier (parsed u) = fromBytes (case fragment u of None \<Rightarrow> [] | Some f \<Rightarrow> f)"
proof -
  have "m_queryEnd (parsed u) = m_pathEnd (parsed u) \<longleftrightarrow> query u = None" "m_fragmentEnd (parsed u) = m_queryEnd (parsed u) \<longleftrightarrow> fragment u = None"
    by (simp_all add: parsed_fields queryText_def fragmentText_def split: option.split)
  then have "urlQuery (parsed u) = fromBytes (case query u of None \<Rightarrow> [] | Some q \<Rightarrow> q)"
    "fragmentIdentifier (parsed u) = fromBytes (case fragment u of None \<Rightarrow> [] | Some f \<Rightarrow> f)"
    using part_query [of u] part_fragment [of u]
    by (auto simp: urlQuery_def fragmentIdentifier_def split: option.split)
  moreover have "m_passwordEnd (parsed u) = m_userEnd (parsed u) \<longleftrightarrow> password u = []" by (simp add: parsed_fields)
  ultimately show ?thesis using part_password [of u]
    by (simp add: protocol_def cut_scheme urlUser_def part_user urlPass_def urlHost_def part_host urlPath_def part_path)
qed

subsection \<open>Ports\<close>

declare lowerBound.simps [simp del]

lemma lowerBound_bounds:
  "sorted xs \<Longrightarrow> start + count \<le> length xs \<Longrightarrow> (\<forall>i < start. xs ! i < x) \<Longrightarrow> (\<forall>i. start + count \<le> i \<and> i < length xs \<longrightarrow> x \<le> xs ! i) \<Longrightarrow>
   lowerBound xs x start count \<le> length xs \<and> (\<forall>i < lowerBound xs x start count. xs ! i < x) \<and>
   (\<forall>i. lowerBound xs x start count \<le> i \<and> i < length xs \<longrightarrow> x \<le> xs ! i)"
proof (induction xs x start count rule: lowerBound.induct)
  case (1 xs x start count)
  show ?case
  proof (cases "count = 0")
    case True
    then have "lowerBound xs x start count = start" by (subst lowerBound.simps) simp
    then show ?thesis using 1(3-6) True by simp
  next
    case False
    define half middle where "half = count div 2" and "middle = start + half"
    have h: "half < count" "middle < length xs" using False 1(4) by (auto simp: half_def middle_def)
    show ?thesis
    proof (cases "xs ! middle < x")
      case True
      then have e: "lowerBound xs x start count = lowerBound xs x (middle + 1) (count - half - 1)"
        using False by (subst lowerBound.simps) (simp add: Let_def half_def middle_def)
      have below: "\<forall>i < middle + 1. xs ! i < x"
        using 1(3) True h(2) by (auto simp: less_Suc_eq_le intro: le_less_trans sorted_nth_mono)
      have "middle + 1 + (count - half - 1) = start + count" using h by (simp add: middle_def)
      then show ?thesis unfolding e
        using 1(1) [OF False half_def middle_def True 1(3)] 1(4,6) below by simp
    next
      case nl: False
      then have e: "lowerBound xs x start count = lowerBound xs x start half"
        using False by (subst lowerBound.simps) (simp add: Let_def half_def middle_def)
      have above: "\<forall>i. start + half \<le> i \<and> i < length xs \<longrightarrow> x \<le> xs ! i"
        using 1(3) nl h(2) by (auto simp: not_less middle_def [symmetric] intro: order_trans sorted_nth_mono)
      show ?thesis unfolding e
        using 1(2) [OF False half_def middle_def nl 1(3)] 1(4,5) above h by simp
    qed
  qed
qed

lemma binarySearch_sorted: "sorted xs \<Longrightarrow> binarySearch xs x \<longleftrightarrow> x \<in> set xs"
proof -
  assume s: "sorted xs"
  define i where "i = lowerBound xs x 0 (length xs)"
  have b: "i \<le> length xs" "\<forall>j < i. xs ! j < x" "\<forall>j. i \<le> j \<and> j < length xs \<longrightarrow> x \<le> xs ! j"
    using lowerBound_bounds [OF s, of 0 "length xs" x] unfolding i_def by (metis add_0 leD le_refl not_less_zero)+
  have "binarySearch xs x \<longleftrightarrow> i < length xs \<and> xs ! i = x"
    using b by (auto simp: binarySearch_def Let_def i_def [symmetric] not_less intro: antisym)
  also have "\<dots> \<longleftrightarrow> x \<in> set xs"
  proof
    assume "x \<in> set xs"
    then obtain j where j: "j < length xs" "xs ! j = x" by (auto simp: in_set_conv_nth)
    then have "i \<le> j" using b(2) by (metis not_le_imp_less order_less_irrefl)
    then have "i < length xs" "xs ! i \<le> x" using j sorted_nth_mono [OF s] by auto
    then show "i < length xs \<and> xs ! i = x" using b(3) by (auto intro: antisym)
  qed auto
  finally show ?thesis .
qed

text \<open>The port that is written in a URL, 0 when there is none.\<close>

definition portValue :: "url_parts \<Rightarrow> nat" where
  "portValue u = (case port u of None \<Rightarrow> 0 | Some p \<Rightarrow> dec_value 0 (fromBytes p))"

lemma portDigits: "list_all isByteDigit p \<Longrightarrow> list_all is_digit (fromBytes p)"
  by (auto simp: list_all_iff fromBytes_def is_digit_def digit_range digit_def unat_ucast_mod word_le_nat_alt)

lemma urlPort_parsed:
  assumes "canonical u"
  shows "urlPort ws (parsed u) = (if portValue u \<le> 65534 then of_nat (portValue u) else invalidPortNumber)"
proof (cases "port u")
  case None
  then show ?thesis by (simp add: urlPort_def parsed_fields portText_def portValue_def)
next
  case (Some p)
  show ?thesis
  proof (cases "p = []")
    case True
    then show ?thesis using Some by (simp add: urlPort_def parsed_fields portText_def portValue_def)
  next
    case False
    have d: "list_all is_digit (fromBytes p)" using canonicalD(9) [OF assms] Some by (simp add: portDigits)
    have s: "m_string (parsed u) = fromBytes (schemeText u @ userInfoText u @ host u @ [0x3A]) @ fromBytes p @
        fromBytes (path u @ queryText u @ fragmentText u)"
      using Some by (simp add: parsed_fields printURL_schemeText portText_def glue)
    have h: "m_hostEnd (parsed u) + 1 = length (fromBytes (schemeText u @ userInfoText u @ host u @ [0x3A]))"
      "m_portEnd (parsed u) - m_hostEnd (parsed u) - 1 = length (fromBytes p)"
      using Some by (simp_all add: parsed_fields portText_def)
    have t: "take (m_portEnd (parsed u) - m_hostEnd (parsed u) - 1) (drop (m_hostEnd (parsed u) + 1) (m_string (parsed u))) = fromBytes p"
      unfolding h s append_eq_conv_conj by (simp del: length_fromBytes)
    have v: "charactersToUIntStrict ws 10 (fromBytes p) = (if int (portValue u) \<le> 4294967295 then Some (int (portValue u)) else None)"
      using toIntegralType_digits [OF d, of "IntegralType False 32" ws] False Some
      by (simp add: charactersToUIntStrict_def integralMax_def portValue_def)
    have n: "\<not> (m_hostEnd (parsed u) = m_portEnd (parsed u) \<or> int (m_hostEnd (parsed u)) = int (m_portEnd (parsed u)) - 1)"
      using Some False by (simp add: parsed_fields portText_def)
    show ?thesis unfolding urlPort_def t v using n by (auto simp: maximumValidPortNumber_def)
  qed
qed

text \<open>
  C21: Any URL is refused just when its port is in the list of blocked ports, and it is neither
  an ftp URL with port 21 or 22 nor a file URL, whose port is ignored: the binary search finds every
  blocked port. For a canonical URL with an authority (which is no file URL) that port is the decimal
  value of the port text, however long it is, and is blocked when it is above 65534: the conversion
  does not wrap around.
\<close>

theorem portAllowed_blocks:
  assumes "canonical u"
  shows "(portAllowed ws (parsed u) \<longleftrightarrow>
      portValue u = 0 \<or> (portValue u \<le> 65534 \<and> portValue u \<notin> unat ` set blockedPortList) \<or>
      ((portValue u = 21 \<or> portValue u = 22) \<and> kurlProtocolIs (parsed u) ''ftp'') \<or> kurlProtocolIs (parsed u) ''file'') \<and>
    (portAllowed ws k \<longleftrightarrow>
      urlPort ws k = 0 \<or> urlPort ws k \<notin> set blockedPortList \<or>
      ((urlPort ws k = 21 \<or> urlPort ws k = 22) \<and> kurlProtocolIs k ''ftp'') \<or> kurlProtocolIs k ''file'')"
proof (rule conjI)
  show "portAllowed ws k \<longleftrightarrow>
      urlPort ws k = 0 \<or> urlPort ws k \<notin> set blockedPortList \<or>
      ((urlPort ws k = 21 \<or> urlPort ws k = 22) \<and> kurlProtocolIs k ''ftp'') \<or> kurlProtocolIs k ''file''"
  proof -
    have "sorted blockedPortList" by code_simp
    then show ?thesis by (auto simp: portAllowed_def Let_def binarySearch_sorted)
  qed
  have s: "sorted blockedPortList" by code_simp
  have i: "invalidPortNumber \<in> set blockedPortList" by (simp add: blockedPortList_def)
  define n where "n = portValue u"
  show "portAllowed ws (parsed u) \<longleftrightarrow>
      portValue u = 0 \<or> (portValue u \<le> 65534 \<and> portValue u \<notin> unat ` set blockedPortList) \<or>
      ((portValue u = 21 \<or> portValue u = 22) \<and> kurlProtocolIs (parsed u) ''ftp'') \<or> kurlProtocolIs (parsed u) ''file''"
  proof (cases "n \<le> 65534")
    case True
    then have u: "unat (of_nat n :: 16 word) = n" by (simp add: unsigned_of_nat take_bit_eq_mod)
    then have "of_nat n \<in> set blockedPortList \<longleftrightarrow> n \<in> unat ` set blockedPortList" by (force intro: word_eqI_unat)
    moreover have "(of_nat n :: 16 word) = 0 \<longleftrightarrow> n = 0" "(of_nat n :: 16 word) = 21 \<longleftrightarrow> n = 21" "(of_nat n :: 16 word) = 22 \<longleftrightarrow> n = 22"
      using u by auto
    ultimately show ?thesis
      using True by (simp add: portAllowed_def Let_def urlPort_parsed [OF assms] binarySearch_sorted [OF s] n_def)
  next
    case False
    then show ?thesis using i
      by (simp add: portAllowed_def Let_def urlPort_parsed [OF assms] binarySearch_sorted [OF s] n_def invalidPortNumber_def)
  qed
qed

lemma portAllowed_blocks_witness:
  "portAllowed (\<lambda>_. False) (parsed (exampleURL\<lparr>port := Some (bstr ''4294967376'')\<rparr>)) = False \<and>
   portAllowed (\<lambda>_. False) (parsed exampleURL) = True \<and>
   portAllowed (\<lambda>_. False) (parseString (ustr ''file://h:25/a'')) = True"
proof -
  have c: "canonical (exampleURL\<lparr>port := Some (bstr ''4294967376'')\<rparr>)" by code_simp
  have v: "portValue (exampleURL\<lparr>port := Some (bstr ''4294967376'')\<rparr>) = 4294967376" "portValue exampleURL = 80"
    by (simp_all add: portValue_def exampleURL_def bstr_def fromBytes_def)
  have k: "kurlProtocolIs (parsed (exampleURL\<lparr>port := Some (bstr ''4294967376'')\<rparr>)) ''file'' = False" by code_simp
  have b: "80 \<notin> unat ` set blockedPortList" by (simp add: blockedPortList_def invalidPortNumber_def)
  have f: "kurlProtocolIs (parseString (ustr ''file://h:25/a'')) ''file''" by code_simp
  show ?thesis
    using conjunct1 [OF portAllowed_blocks [OF c, of "\<lambda>_. False"]] b f
      conjunct1 [OF portAllowed_blocks [OF exampleURL_canonical, of "\<lambda>_. False"]]
      conjunct2 [OF portAllowed_blocks [OF c, of "\<lambda>_. False" "parseString (ustr ''file://h:25/a'')"]]
    by (simp add: v k)
qed

end
