(* ===== verification/UrlResolve.thy ===== *)
theory UrlResolve
  imports UrlParts "HOL-Library.Monad_Syntax"
begin

section \<open>Relative references and host names (WebCore/platform/KURL.cpp)\<close>

text \<open>
  \<open>KURL(base, relative, encoding)\<close>: the encoding of host names, the text as a buffer of
  bytes, and the resolution against the base. IDN and the text encodings are arguments.
  A buffer holds its terminating null; \<open>None\<close> is a read outside a buffer.
\<close>

subsection \<open>Host names\<close>

text \<open>
  \<open>idn\<close> is the conversion of a name, \<open>None\<close> for an error or a result above 2048 units.
  \<open>keepOnError\<close> is the behaviour of ApolloIDN; with ICU the name is dropped.
\<close>

definition appendEncodedHostname :: "(wtf_string \<Rightarrow> wtf_string option) \<Rightarrow> bool \<Rightarrow> wtf_string \<Rightarrow> wtf_string" where
  "appendEncodedHostname idn keepOnError str =
     (if 2048 < length str \<or> charactersAreAllASCII str then str
      else case idn str of Some t \<Rightarrow> t | None \<Rightarrow> if keepOnError then str else [])"

lemma findFirstOf_range: "findFirstOf s p cs = -1 \<or> (p \<le> findFirstOf s p cs \<and> 0 \<le> findFirstOf s p cs \<and> findFirstOf s p cs < int (length s))"
  by (simp add: findFirstOf_def findMatch_range)

text \<open>Behind a quoted string; \<open>None\<close> is the end of the text.\<close>

function skipQuoted :: "wtf_string \<Rightarrow> nat \<Rightarrow> nat option" where
  "skipQuoted str p =
     (let e = findFirstOf str (int p) [0x22, 0x5C]
      in if e = -1 then None
         else if str ! nat e = 0x22 then Some (nat e + 1)
         else if nat e + 1 = length str then None
         else skipQuoted str (nat e + 2))"
  by pat_completeness auto
termination
proof (relation "measure (\<lambda>(str, p). length str - p)", goal_cases)
  case (2 str p e)
  then show ?case using findFirstOf_range [of str "int p" "[0x22, 0x5C]"] by simp linarith
qed simp

lemma skipQuoted_less: "skipQuoted str p = Some q \<Longrightarrow> p < q \<and> q \<le> length str"
proof (induction str p rule: skipQuoted.induct)
  case (1 str p)
  define e where "e = findFirstOf str (int p) [0x22, 0x5C]"
  have r: "e = -1 \<or> (int p \<le> e \<and> 0 \<le> e \<and> e < int (length str))" unfolding e_def by (rule findFirstOf_range)
  have "e \<noteq> -1" using 1(2) by (subst (asm) skipQuoted.simps) (auto simp: e_def [symmetric])
  then have r: "p \<le> nat e" "nat e < length str" using r by auto
  show ?case
  proof (cases "str ! nat e = 0x22 \<or> nat e + 1 = length str")
    case True
    then show ?thesis using 1(2) r \<open>e \<noteq> -1\<close> by (subst (asm) skipQuoted.simps) (auto simp: e_def [symmetric] Let_def split: if_splits)
  next
    case False
    then have "skipQuoted str p = skipQuoted str (nat e + 2)"
      using \<open>e \<noteq> -1\<close> by (subst skipQuoted.simps) (simp add: e_def [symmetric] Let_def)
    then show ?thesis using 1(1) [OF e_def \<open>e \<noteq> -1\<close>] 1(2) False r by auto
  qed
qed

declare skipQuoted.simps [simp del]

function findHostnamesInMailToURL :: "wtf_string \<Rightarrow> nat \<Rightarrow> (nat \<times> nat) list" where
  "findHostnamesInMailToURL str p =
     (let h = findFirstOf str (int p) [0x22, 0x40, 0x3F]
      in if h = -1 then []
         else if str ! nat h = 0x3F then []
         else if str ! nat h = 0x40 then
           (let hostnameStart = nat h + 1;
                e = findFirstOf str (int hostnameStart) [0x3E, 0x2C, 0x3F]
            in if e = -1 then [(hostnameStart, length str)]
               else (hostnameStart, nat e) # findHostnamesInMailToURL str (nat e))
         else case skipQuoted str (nat h + 1) of
                None \<Rightarrow> []
              | Some q \<Rightarrow> findHostnamesInMailToURL str q)"
  by pat_completeness auto
termination
proof (relation "measure (\<lambda>(str, p). length str - p)", goal_cases)
  case (2 str p h s e)
  then show ?case using findFirstOf_range [of str "int p" "[0x22, 0x40, 0x3F]"] findFirstOf_range [of str "int s" "[0x3E, 0x2C, 0x3F]"]
    by simp linarith
next
  case (3 str p h q)
  then show ?case using findFirstOf_range [of str "int p" "[0x22, 0x40, 0x3F]"] skipQuoted_less [of str "nat h + 1" q]
    by simp linarith
qed simp

declare findHostnamesInMailToURL.simps [simp del]

definition findHostnameInHierarchicalURL :: "wtf_string \<Rightarrow> (nat \<times> nat) option" where
  "findHostnameInHierarchicalURL str =
     (let separator = findFirstOf str 0 [0x3A]
      in if separator = -1 \<or> int (length str) \<le> separator + 2 \<or>
            str ! (nat separator + 1) \<noteq> 0x2F \<or> str ! (nat separator + 2) \<noteq> 0x2F then None
         else if \<not> uSchemeFirstChar (str ! 0) then None
         else if \<not> list_all uSchemeChar (drop 1 (take (nat separator) str)) then None
         else let authorityStart = separator + 3;
                  e = findMatch str (\<lambda>c. c = 0x3A \<or> (uPathSegmentEndChar c \<and> c \<noteq> 0)) authorityStart;
                  hostnameEnd = (if e = -1 then int (length str) else e);
                  userInfoTerminator = findFirstOf str authorityStart [0x40];
                  hostnameStart = (if userInfoTerminator = -1 \<or> hostnameEnd < userInfoTerminator then authorityStart
                                   else userInfoTerminator + 1)
              in Some (nat hostnameStart, nat hostnameEnd))"

text \<open>The text from one position to another.\<close>

definition between :: "wtf_string \<Rightarrow> nat \<Rightarrow> nat \<Rightarrow> wtf_string" where
  "between str a b = take (b - a) (drop a str)"

fun encodeRanges :: "(wtf_string \<Rightarrow> wtf_string option) \<Rightarrow> bool \<Rightarrow> wtf_string \<Rightarrow> nat \<Rightarrow> (nat \<times> nat) list \<Rightarrow> wtf_string" where
  "encodeRanges idn keep str p [] = drop p str"
| "encodeRanges idn keep str p ((a, b) # rs) =
     between str p a @ appendEncodedHostname idn keep (between str a b) @ encodeRanges idn keep str b rs"

definition encodeHostnames :: "(wtf_string \<Rightarrow> wtf_string option) \<Rightarrow> bool \<Rightarrow> wtf_string \<Rightarrow> wtf_string" where
  "encodeHostnames idn keep str =
     (if protocolIs str ''mailto'' then encodeRanges idn keep str 0 (findHostnamesInMailToURL str 0)
      else case findHostnameInHierarchicalURL str of
             Some (a, b) \<Rightarrow> encodeRanges idn keep str 0 [(a, b)]
           | None \<Rightarrow> str)"

text \<open>
  What the encodings do: \<open>pathEncode\<close> is UTF-8, \<open>encode\<close> the encoding that is asked for,
  \<open>otherEncoding\<close> whether it is another one and valid.
\<close>

record encodings =
  idnToASCII :: "wtf_string \<Rightarrow> wtf_string option"
  keepUnconverted :: bool
  pathEncode :: "wtf_string \<Rightarrow> byte list"
  otherEncode :: "wtf_string \<Rightarrow> byte list"
  otherEncoding :: bool

definition encodeRelativeString :: "encodings \<Rightarrow> wtf_string \<Rightarrow> byte list" where
  "encodeRelativeString enc rel =
     (let s = encodeHostnames (idnToASCII enc) (keepUnconverted enc) rel;
          pathEnd = (if otherEncoding enc \<and> \<not> protocolIs rel ''mailto'' \<and> \<not> protocolIs rel ''data'' \<and> \<not> protocolIsJavaScript rel
                     then findFirstOf s 0 [0x23, 0x3F] else -1)
      in (if pathEnd = -1 then pathEncode enc s
          else pathEncode enc (take (nat pathEnd) s) @ otherEncode enc (drop (nat pathEnd) s)) @ [0])"

subsection \<open>Resolution\<close>

definition cstring :: "byte list \<Rightarrow> byte list" where
  "cstring b = takeWhile (\<lambda>c. c \<noteq> 0) b"

definition appendASCII :: "wtf_string \<Rightarrow> byte list \<Rightarrow> nat \<Rightarrow> byte list option" where
  "appendASCII base rel len =
     (if len \<le> length rel then Some (copyASCII base @ take len rel @ [0]) else None)"

text \<open>
  Reads of a buffer: of one byte, of the bytes up to one that a test refuses, and of a C string. A read
  outside the buffer is \<open>None\<close>.
\<close>

definition readAt :: "byte list \<Rightarrow> nat \<Rightarrow> byte option" where
  "readAt s i = (if i < length s then Some (s ! i) else None)"

definition scanIn :: "(byte \<Rightarrow> bool) \<Rightarrow> byte list \<Rightarrow> nat \<Rightarrow> nat option" where
  "scanIn P s i = (let p = scan P s i in if p < length s then Some p else None)"

definition cstringIn :: "byte list \<Rightarrow> byte list option" where
  "cstringIn b = (if 0 \<in> set b then Some (cstring b) else None)"

text \<open>The buffer, the bytes from \<open>str\<close> on, the length, and whether the text is still the original one.\<close>

definition relativeBuffer :: "encodings \<Rightarrow> wtf_string \<Rightarrow> (byte list \<times> nat \<times> bool) option" where
  "relativeBuffer enc rel =
     (let ascii = charactersAreAllASCII rel;
          buffer = (if ascii then copyASCII rel @ [0] else encodeRelativeString enc rel)
      in do {
        len \<leftarrow> (if ascii then Some (length rel) else map_option length (cstringIn buffer));
        leading \<leftarrow> scanIn (\<lambda>c. c = 0x20) buffer 0;
        let str = drop leading buffer;
            len = len - leading;
            trailing = length (takeWhile (\<lambda>c. c = 0x20) (rev (take len str)))
        in if length str < len then None
           else Some (take (len - trailing) str @ replicate trailing 0 @ drop len str, len - trailing,
                      ascii \<and> leading = 0 \<and> trailing = 0)
      })"

definition equalIgnoringCaseASCII :: "byte list \<Rightarrow> byte list \<Rightarrow> bool" where
  "equalIgnoringCaseASCII a b = (map (\<lambda>c. toASCIILower (ucast c)) a = map (\<lambda>c. toASCIILower (ucast c)) b)"

text \<open>Where the scheme of the reference ends, if it has one.\<close>

definition schemeOf :: "byte list \<Rightarrow> nat option option" where
  "schemeOf str =
     do {
       c \<leftarrow> readAt str 0;
       if isSchemeFirstChar c
       then do {
         p \<leftarrow> scanIn isSchemeChar str 1;
         d \<leftarrow> readAt str p;
         Some (if d = 0x3A then Some p else None)
       }
       else Some None
     }"

text \<open>
  The loop over a relative path; the path that is built has its last character first, \<open>before\<close> is the one in
  front of it, if there is one.
\<close>

fun rewindOne :: "byte list \<Rightarrow> byte list" where
  "rewindOne (c # d # dst) = (if c \<noteq> 0x2F then rewindOne (d # dst) else c # d # dst)"
| "rewindOne dst = dst"

definition skipSlash :: "byte list \<Rightarrow> byte list option" where
  "skipSlash s = map_option (\<lambda>c. if c = 0x2F then drop 1 s else s) (readAt s 0)"

lemma length_skipSlash: "skipSlash s = Some t \<Longrightarrow> length t \<le> length s"
  by (auto simp: skipSlash_def)

function mergePath :: "byte option \<Rightarrow> byte list \<Rightarrow> byte list \<Rightarrow> (byte list \<times> byte list) option" where
  "mergePath before dst s =
     (case readAt s 0 of
        None \<Rightarrow> None
      | Some a \<Rightarrow>
          if a = 0 \<or> a = 0x3F \<or> a = 0x23 then Some (dst, s)
          else if a \<noteq> 0x2E then mergePath before (a # dst) (drop 1 s)
          else (case (case dst of [] \<Rightarrow> before | c # _ \<Rightarrow> Some c) of
                  None \<Rightarrow> None
                | Some prev \<Rightarrow>
                    if prev \<noteq> 0x2F then mergePath before (a # dst) (drop 1 s)
                    else (case readAt s 1 of
                            None \<Rightarrow> None
                          | Some b \<Rightarrow>
                              if isPathSegmentEndChar b
                              then (case skipSlash (drop 1 s) of None \<Rightarrow> None | Some t \<Rightarrow> mergePath before dst t)
                              else if b \<noteq> 0x2E then mergePath before (a # dst) (drop 1 s)
                              else (case readAt s 2 of
                                      None \<Rightarrow> None
                                    | Some c \<Rightarrow>
                                        if isPathSegmentEndChar c
                                        then (case skipSlash (drop 2 s) of
                                                None \<Rightarrow> None
                                              | Some t \<Rightarrow> mergePath before (rewindOne (if 1 < length dst then tl dst else dst)) t)
                                        else mergePath before (a # dst) (drop 1 s)))))"
  by pat_completeness auto
termination
  by (relation "measure (\<lambda>(before, dst, s). length s)")
    (auto simp: readAt_def dest: length_skipSlash split: if_splits)

declare mergePath.simps [simp del]

definition relativePath :: "KURL \<Rightarrow> byte list \<Rightarrow> byte list option" where
  "relativePath base str =
     (let b = copyASCII (m_string base);
          prefix = take (m_portEnd base) b;
          basePath = rev (dropWhile (\<lambda>c. c \<noteq> 0x2F) (rev (slice b (m_portEnd base) (m_pathEnd base))))
      in if length b < m_portEnd base \<or> length b < m_pathEnd base then None
         else do {
           start \<leftarrow> (if basePath = []
                    then (if m_schemeEnd base + 1 = m_pathEnd base then Some []
                          else map_option (\<lambda>c. if c \<noteq> 0 \<and> c \<noteq> 0x3F \<and> c \<noteq> 0x23 then [0x2F] else []) (readAt str 0))
                    else Some (copyPathRemovingDots basePath));
           (dst, rest) \<leftarrow> mergePath (if prefix = [] then None else Some (last prefix)) (rev start) str;
           rest \<leftarrow> cstringIn rest;
           Some (prefix @ rev dst @ rest)
         })"

definition resolve :: "encodings \<Rightarrow> KURL \<Rightarrow> wtf_string \<Rightarrow> KURL option" where
  "resolve enc base relative =
     (if \<not> m_isValid base \<and> m_string base \<noteq> [] then Some (invalidate relative)
      else let rel = (if 0x5C \<in> set relative \<and> \<not> (protocolIsJavaScript relative \<or> protocolIs relative ''data'')
                      then substituteBackslashes relative else relative)
           in do {
             (str, len, original) \<leftarrow> relativeBuffer enc rel;
             found \<leftarrow> schemeOf str;
             sameScheme \<leftarrow> (case found of
                             None \<Rightarrow> Some False
                           | Some p \<Rightarrow>
                               map_option (\<lambda>c. c \<noteq> 0x2F \<and> equalIgnoringCaseASCII (copyASCII (protocol base)) (take p str) \<and> isHierarchical base)
                                 (readAt str (p + 1)));
             if found \<noteq> None \<and> \<not> sameScheme
             then map_option (\<lambda>b. parseBytes b (if original then Some rel else None)) (cstringIn str)
             else do {
               let str = (if sameScheme then drop (the found + 1) str else str);
                   append = (\<lambda>n. map_option (\<lambda>b. parseBytes (cstring b) None) (appendASCII (left (m_string base) n) str len))
               in do {
                 c \<leftarrow> readAt str 0;
                 if \<not> isHierarchical base then (if c = 0x23 then append (m_queryEnd base) else Some (invalidate relative))
                 else if c = 0 then Some (removeFragmentIdentifier base)
                 else if c = 0x23 then append (m_queryEnd base)
                 else if c = 0x3F then append (m_pathEnd base)
                 else if c = 0x2F then
                   do {
                     d \<leftarrow> readAt str 1;
                     if d = 0x2F then append (m_schemeEnd base + 1) else append (m_portEnd base)
                   }
                 else map_option (\<lambda>b. parseBytes b None) (relativePath base str)
               }
             }
           })"

end
