(* ===== verification/UrlReference.thy ===== *)
theory UrlReference
  imports UrlResolve
begin

section \<open>Resolution of references against the generic syntax\<close>

text \<open>
  The merge of a relative path is the removal of dot segments on a stack of segments,
  and the resolution of a reference against a canonical base is the one of the generic
  syntax of URLs: the parts of the base and of the reference decide the parts of the
  result.
\<close>

subsection \<open>Without the bounds of the buffers\<close>

text \<open>
  The same functions on texts in which a read behind the end gives 0. They agree with those of the model, because
  every buffer ends with a null.
\<close>

text \<open>The buffer, the bytes from \<open>str\<close> on, the length, and whether the text is still the original one.\<close>

definition plainRelativeBuffer :: "encodings \<Rightarrow> wtf_string \<Rightarrow> byte list \<times> nat \<times> bool" where
  "plainRelativeBuffer enc rel =
     (let ascii = charactersAreAllASCII rel;
          buffer = (if ascii then copyASCII rel @ [0] else encodeRelativeString enc rel);
          len = (if ascii then length rel else length (cstring buffer));
          leading = length (takeWhile (\<lambda>c. c = 0x20) buffer);
          str = drop leading buffer;
          len = len - leading;
          trailing = length (takeWhile (\<lambda>c. c = 0x20) (rev (take len str)))
      in (take (len - trailing) str @ replicate trailing 0 @ drop len str, len - trailing,
          ascii \<and> leading = 0 \<and> trailing = 0))"

text \<open>Where the scheme of the reference ends, if it has one.\<close>

definition plainSchemeOf :: "byte list \<Rightarrow> nat option" where
  "plainSchemeOf str =
     (if isSchemeFirstChar (byteAt str 0)
      then let p = scan isSchemeChar str 1 in if byteAt str p = 0x3A then Some p else None
      else None)"

definition plainSkipSlash :: "byte list \<Rightarrow> byte list" where
  "plainSkipSlash s = (if byteAt s 0 = 0x2F then drop 1 s else s)"

lemma length_plainSkipSlash: "length (plainSkipSlash s) \<le> length s"
  by (simp add: plainSkipSlash_def)

function plainMergePath :: "byte \<Rightarrow> byte list \<Rightarrow> byte list \<Rightarrow> byte list \<times> byte list" where
  "plainMergePath before dst s =
     (if byteAt s 0 = 0 \<or> byteAt s 0 = 0x3F \<or> byteAt s 0 = 0x23 then (dst, s)
      else if byteAt s 0 = 0x2E \<and> (case dst of [] \<Rightarrow> before | c # _ \<Rightarrow> c) = 0x2F \<and> isPathSegmentEndChar (byteAt s 1)
      then plainMergePath before dst (plainSkipSlash (drop 1 s))
      else if byteAt s 0 = 0x2E \<and> (case dst of [] \<Rightarrow> before | c # _ \<Rightarrow> c) = 0x2F \<and>
              byteAt s 1 = 0x2E \<and> isPathSegmentEndChar (byteAt s 2)
      then plainMergePath before (rewindOne (if 1 < length dst then tl dst else dst)) (plainSkipSlash (drop 2 s))
      else plainMergePath before (byteAt s 0 # dst) (drop 1 s))"
  by pat_completeness auto
termination
proof (relation "measure (\<lambda>(before, dst, s). length s)", goal_cases)
  case (2 before dst s)
  then show ?case using length_plainSkipSlash [of "drop 1 s"] by (cases s) (auto simp: byteAt_def)
next
  case (3 before dst s)
  then show ?case using length_plainSkipSlash [of "drop 2 s"] by (cases s) (auto simp: byteAt_def)
next
  case (4 before dst s)
  then show ?case by (cases s) (auto simp: byteAt_def)
qed simp

declare plainMergePath.simps [simp del]

definition plainRelativePath :: "KURL \<Rightarrow> byte list \<Rightarrow> byte list" where
  "plainRelativePath base str =
     (let b = copyASCII (m_string base);
          prefix = take (m_portEnd base) b;
          basePath = rev (dropWhile (\<lambda>c. c \<noteq> 0x2F) (rev (slice b (m_portEnd base) (m_pathEnd base))));
          start = (if basePath = []
                   then (if m_schemeEnd base + 1 \<noteq> m_pathEnd base \<and> byteAt str 0 \<noteq> 0 \<and> byteAt str 0 \<noteq> 0x3F \<and> byteAt str 0 \<noteq> 0x23
                         then [0x2F] else [])
                   else copyPathRemovingDots basePath);
          (dst, rest) = plainMergePath (last prefix) (rev start) str
      in prefix @ rev dst @ cstring rest)"

definition plainResolve :: "encodings \<Rightarrow> KURL \<Rightarrow> wtf_string \<Rightarrow> KURL option" where
  "plainResolve enc base relative =
     (if \<not> m_isValid base \<and> m_string base \<noteq> [] then Some (invalidate relative)
      else let rel = (if 0x5C \<in> set relative \<and> \<not> (protocolIsJavaScript relative \<or> protocolIs relative ''data'')
                      then substituteBackslashes relative else relative);
               (str, len, original) = plainRelativeBuffer enc rel;
               sameScheme = (case plainSchemeOf str of
                               None \<Rightarrow> False
                             | Some p \<Rightarrow> byteAt str (p + 1) \<noteq> 0x2F \<and>
                                 equalIgnoringCaseASCII (copyASCII (protocol base)) (take p str) \<and> isHierarchical base);
               absolute = (plainSchemeOf str \<noteq> None \<and> \<not> sameScheme);
               str = (if sameScheme then drop (the (plainSchemeOf str) + 1) str else str);
               append = (\<lambda>n. map_option (\<lambda>b. parseBytes (cstring b) None) (appendASCII (left (m_string base) n) str len))
           in if absolute then Some (parseBytes (cstring str) (if original then Some rel else None))
              else if \<not> isHierarchical base then
                (if byteAt str 0 = 0x23 then append (m_queryEnd base) else Some (invalidate relative))
              else if byteAt str 0 = 0 then Some (removeFragmentIdentifier base)
              else if byteAt str 0 = 0x23 then append (m_queryEnd base)
              else if byteAt str 0 = 0x3F then append (m_pathEnd base)
              else if byteAt str 0 = 0x2F then
                (if byteAt str 1 = 0x2F then append (m_schemeEnd base + 1) else append (m_portEnd base))
              else Some (parseBytes (plainRelativePath base str) None))"

definition endsNull :: "byte list \<Rightarrow> bool" where
  "endsNull s \<longleftrightarrow> s \<noteq> [] \<and> last s = 0"

lemma endsNull_simps [simp]: "endsNull (c # s) \<longleftrightarrow> (if s = [] then c = 0 else endsNull s)" "\<not> endsNull []" "s \<noteq> [] \<Longrightarrow> endsNull (t @ s) = endsNull s"
  by (auto simp: endsNull_def)

lemma endsNull_drop: "endsNull s \<Longrightarrow> n < length s \<Longrightarrow> endsNull (drop n s)"
  by (auto simp: endsNull_def)

lemma endsNull_next:
  assumes "endsNull s" "readAt s n = Some c" "c \<noteq> 0"
  shows "Suc n < length s"
proof (rule ccontr)
  assume "\<not> Suc n < length s"
  then have "length s = Suc n" "c = s ! n" using assms(2) by (auto simp: readAt_def split: if_splits)
  then have "c = last s" using assms(1) last_conv_nth [of s] by (simp add: endsNull_def)
  then show False using assms(1,3) by (simp add: endsNull_def)
qed

lemma readAt_byteAt: "n < length s \<Longrightarrow> readAt s n = Some (byteAt s n)"
  by (simp add: readAt_def byteAt_def)

lemma endsNull_read: "endsNull s \<Longrightarrow> readAt s 0 = Some (byteAt s 0)"
  by (rule readAt_byteAt) (simp add: endsNull_def)

lemma cstringIn_endsNull: "endsNull s \<Longrightarrow> cstringIn s = Some (cstring s)"
  unfolding endsNull_def cstringIn_def using last_in_set by metis

lemma takeWhile_shorter: "c \<in> set xs \<Longrightarrow> \<not> P c \<Longrightarrow> length (takeWhile P xs) < length xs"
  by (induction xs) auto

lemma scanIn_endsNull:
  assumes "endsNull s" "\<not> P 0" "i < length s"
  shows "scanIn P s i = Some (scan P s i)"
proof -
  have "last (drop i s) = 0" "drop i s \<noteq> []" using assms(1,3) by (simp_all add: endsNull_def)
  then have "0 \<in> set (drop i s)" using last_in_set by metis
  then have "length (takeWhile P (drop i s)) < length (drop i s)" using assms(2) by (rule takeWhile_shorter)
  then show ?thesis using assms(3) by (simp add: scanIn_def Let_def scan_takeWhile)
qed

lemma endsNull_skipSlash: "endsNull s \<Longrightarrow> skipSlash s = Some (plainSkipSlash s) \<and> endsNull (plainSkipSlash s)"
  using endsNull_next [of s 0 "0x2F"] endsNull_drop [of s 1] by (auto simp: skipSlash_def plainSkipSlash_def endsNull_read)

lemma mergePath_plain:
  "endsNull s \<Longrightarrow> mergePath (Some b) dst s = Some (plainMergePath b dst s) \<and> endsNull (snd (plainMergePath b dst s))"
proof (induction b dst s rule: plainMergePath.induct)
  case (1 b dst s)
  define a where "a = byteAt s 0"
  have a: "readAt s 0 = Some a" using endsNull_read [OF 1(4)] by (simp add: a_def)
  define prev where "prev = (case dst of [] \<Rightarrow> b | c # _ \<Rightarrow> c)"
  have prev: "(case dst of [] \<Rightarrow> Some b | c # _ \<Rightarrow> Some c) = Some prev" by (simp add: prev_def split: list.split)
  have step: "mergePath (Some b) dst s = Some (plainMergePath b dst s) \<and> endsNull (snd (plainMergePath b dst s))"
    if "mergePath (Some b) dst s = mergePath (Some b) (a # dst) (drop 1 s)" "plainMergePath b dst s = plainMergePath b (a # dst) (drop 1 s)"
      "a \<noteq> 0" "\<not> (a = 0 \<or> a = 0x3F \<or> a = 0x23)" "\<not> (a = 0x2E \<and> prev = 0x2F \<and> isPathSegmentEndChar (byteAt s 1))"
      "\<not> (a = 0x2E \<and> prev = 0x2F \<and> byteAt s 1 = 0x2E \<and> isPathSegmentEndChar (byteAt s 2))"
    unfolding that(1,2) using 1(3) that(4-6) endsNull_drop [OF 1(4) endsNull_next [OF 1(4) a that(3)]] by (simp add: a_def prev_def)
  show ?case
  proof (cases "a = 0 \<or> a = 0x3F \<or> a = 0x23")
    case True
    then show ?thesis using a 1(4) by (subst (1) mergePath.simps, subst (1 2) plainMergePath.simps) (auto simp: a_def)
  next
    case ne: False
    then have n1: "1 < length s" using endsNull_next [OF 1(4) a] by simp
    show ?thesis
    proof (cases "a = 0x2E \<and> prev = 0x2F")
      case False
      have "mergePath (Some b) dst s = mergePath (Some b) (a # dst) (drop 1 s)" using False ne a prev by (subst mergePath.simps) auto
      moreover have "plainMergePath b dst s = plainMergePath b (a # dst) (drop 1 s)"
        using False ne by (subst plainMergePath.simps) (auto simp: a_def prev_def)
      ultimately show ?thesis using step False ne by blast
    next
      case dot: True
      define c where "c = byteAt s 1"
      have c: "readAt s 1 = Some c" using n1 by (simp add: readAt_byteAt c_def)
      show ?thesis
      proof (cases "isPathSegmentEndChar c")
        case True
        note sk = endsNull_skipSlash [OF endsNull_drop [OF 1(4) n1]]
        have "mergePath (Some b) dst s = mergePath (Some b) dst (plainSkipSlash (drop 1 s))"
          using True dot a prev c sk by (subst mergePath.simps) simp
        moreover have "plainMergePath b dst s = plainMergePath b dst (plainSkipSlash (drop 1 s))"
          using True dot by (subst plainMergePath.simps) (simp add: a_def prev_def c_def)
        ultimately show ?thesis using 1(1) sk True dot ne by (simp add: a_def prev_def c_def)
      next
        case e1: False
        show ?thesis
        proof (cases "c = 0x2E")
          case False
          have "mergePath (Some b) dst s = mergePath (Some b) (a # dst) (drop 1 s)"
            using False e1 dot ne a prev c by (subst mergePath.simps) auto
          moreover have "plainMergePath b dst s = plainMergePath b (a # dst) (drop 1 s)"
            using False e1 dot by (subst plainMergePath.simps) (simp add: a_def prev_def c_def)
          ultimately show ?thesis using step False e1 ne by (simp add: c_def)
        next
          case two: True
          then have "Suc 1 < length s" using endsNull_next [OF 1(4) c] by simp
          then have n2: "2 < length s" by simp
          have d: "readAt s 2 = Some (byteAt s 2)" using n2 by (rule readAt_byteAt)
          show ?thesis
          proof (cases "isPathSegmentEndChar (byteAt s 2)")
            case True
            note sk = endsNull_skipSlash [OF endsNull_drop [OF 1(4) n2]]
            let ?dst = "rewindOne (if 1 < length dst then tl dst else dst)"
            have "mergePath (Some b) dst s = mergePath (Some b) ?dst (plainSkipSlash (drop 2 s))"
              using True two e1 dot a prev c d sk by (subst mergePath.simps) simp
            moreover have "plainMergePath b dst s = plainMergePath b ?dst (plainSkipSlash (drop 2 s))"
              using True two e1 dot by (subst plainMergePath.simps) (simp add: a_def prev_def c_def)
            ultimately show ?thesis using 1(2) sk True two e1 dot ne by (simp add: a_def prev_def c_def)
          next
            case False
            have "mergePath (Some b) dst s = mergePath (Some b) (a # dst) (drop 1 s)"
              using False two e1 dot ne a prev c d by (subst mergePath.simps) auto
            moreover have "plainMergePath b dst s = plainMergePath b (a # dst) (drop 1 s)"
              using False two e1 dot by (subst plainMergePath.simps) (simp add: a_def prev_def c_def)
            ultimately show ?thesis using step False e1 ne by (simp add: c_def)
          qed
        qed
      qed
    qed
  qed
qed

lemma schemeOf_plain:
  assumes "endsNull s"
  shows "schemeOf s = Some (plainSchemeOf s)" "plainSchemeOf s = Some p \<Longrightarrow> Suc p < length s"
proof -
  let ?p = "scan isSchemeChar s 1"
  have z: "\<not> isSchemeChar 0" "\<not> isSchemeFirstChar 0" by (simp_all add: class_ranges alpha_def digit_def)
  have p: "scanIn isSchemeChar s 1 = Some ?p \<and> readAt s ?p = Some (byteAt s ?p) \<and> ?p < length s" if "isSchemeFirstChar (byteAt s 0)"
  proof -
    have "byteAt s 0 \<noteq> 0" using that z(2) by metis
    then have "1 < length s" using endsNull_next [OF assms endsNull_read [OF assms]] by simp
    then have "scanIn isSchemeChar s 1 = Some ?p" using scanIn_endsNull [of s isSchemeChar 1, OF assms z(1)] by simp
    moreover from this have "?p < length s" by (auto simp: scanIn_def Let_def split: if_splits)
    ultimately show ?thesis using readAt_byteAt by simp
  qed
  show "schemeOf s = Some (plainSchemeOf s)" using p endsNull_read [OF assms] by (simp add: schemeOf_def plainSchemeOf_def Let_def)
  assume "plainSchemeOf s = Some p"
  then have "isSchemeFirstChar (byteAt s 0)" "p = ?p" "byteAt s p = 0x3A" by (auto simp: plainSchemeOf_def Let_def split: if_splits)
  then show "Suc p < length s" using p endsNull_next [OF assms, of p "0x3A"] by simp
qed

lemma relativeBuffer_plain_version:
  "relativeBuffer enc rel = Some (plainRelativeBuffer enc rel) \<and> endsNull (fst (plainRelativeBuffer enc rel))"
proof -
  let ?ascii = "charactersAreAllASCII rel"
  define buffer where "buffer = (if ?ascii then copyASCII rel @ [0] else encodeRelativeString enc rel)"
  define len where "len = (if ?ascii then length rel else length (cstring buffer))"
  define leading where "leading = length (takeWhile (\<lambda>c. c = 0x20) buffer)"
  have b: "endsNull buffer" by (simp add: buffer_def encodeRelativeString_def Let_def endsNull_def)
  then have "0 \<in> set buffer" unfolding endsNull_def using last_in_set by metis
  then have "length (cstring buffer) < length buffer" unfolding cstring_def by (rule takeWhile_shorter) simp
  then have l: "len < length buffer" by (cases ?ascii) (simp_all add: len_def buffer_def copyASCII_def)
  have s: "scanIn (\<lambda>c. c = 0x20) buffer 0 = Some leading"
    using scanIn_endsNull [OF b, of "\<lambda>c. c = 0x20" 0] b by (simp add: scan_takeWhile leading_def endsNull_def)
  then have ld: "leading < length buffer" using b by (auto simp: scanIn_def Let_def scan_takeWhile leading_def split: if_splits)
  have bound: "\<not> length (drop leading buffer) < len - leading" using l by simp
  have le: "(if ?ascii then Some (length rel) else map_option length (cstringIn buffer)) = Some len"
    using cstringIn_endsNull [OF b] by (simp add: len_def)
  have ne: "drop (len - leading) (drop leading buffer) \<noteq> []" using l ld by simp
  have "endsNull (drop (len - leading) (drop leading buffer))" using b ne by (simp add: endsNull_def)
  then show ?thesis
    unfolding relativeBuffer_def plainRelativeBuffer_def Let_def buffer_def [symmetric]
    using le s bound ne by (simp add: len_def [symmetric] leading_def [symmetric])
qed

lemma relativePath_plain:
  assumes "offsetsOrdered k" "endsNull str"
  shows "relativePath k str = Some (plainRelativePath k str)"
proof -
  let ?b = "copyASCII (m_string k)"
  have o: "\<not> length ?b < m_portEnd k" "\<not> length ?b < m_pathEnd k" "take (m_portEnd k) ?b \<noteq> []"
    using assms(1) by (auto simp: offsetsOrdered_def copyASCII_def)
  define basePath where "basePath = rev (dropWhile (\<lambda>c. c \<noteq> 0x2F) (rev (Kurl.slice ?b (m_portEnd k) (m_pathEnd k))))"
  define start where "start = (if basePath = []
     then (if m_schemeEnd k + 1 \<noteq> m_pathEnd k \<and> byteAt str 0 \<noteq> 0 \<and> byteAt str 0 \<noteq> 0x3F \<and> byteAt str 0 \<noteq> 0x23 then [0x2F] else [])
     else copyPathRemovingDots basePath)"
  have s: "(if basePath = []
      then (if m_schemeEnd k + 1 = m_pathEnd k then Some []
            else map_option (\<lambda>c. if c \<noteq> 0 \<and> c \<noteq> 0x3F \<and> c \<noteq> 0x23 then [0x2F] else []) (readAt str 0))
      else Some (copyPathRemovingDots basePath)) = Some start"
    by (simp add: start_def endsNull_read [OF assms(2)])
  obtain dst rest where m: "plainMergePath (last (take (m_portEnd k) ?b)) (rev start) str = (dst, rest)" by fastforce
  have c: "mergePath (Some (last (take (m_portEnd k) ?b))) (rev start) str = Some (dst, rest)" "endsNull rest"
    using mergePath_plain [OF assms(2), of "last (take (m_portEnd k) ?b)" "rev start"] m by auto
  show ?thesis
    unfolding relativePath_def plainRelativePath_def Let_def basePath_def [symmetric] start_def [symmetric]
    using o s m c by (simp add: cstringIn_endsNull)
qed

lemma resolve_plain:
  assumes "m_isValid base \<longrightarrow> offsetsOrdered base"
  shows "resolve enc base relative = plainResolve enc base relative"
proof (cases "\<not> m_isValid base \<and> m_string base \<noteq> []")
  case False
  define rel where "rel = (if 0x5C \<in> set relative \<and> \<not> (protocolIsJavaScript relative \<or> protocolIs relative ''data'')
    then substituteBackslashes relative else relative)"
  obtain str len original where r: "plainRelativeBuffer enc rel = (str, len, original)" by (metis prod_cases3)
  have str: "relativeBuffer enc rel = Some (str, len, original)" "endsNull str"
    using relativeBuffer_plain_version [of enc rel] r by auto
  define same where "same = (case plainSchemeOf str of
       None \<Rightarrow> False
     | Some p \<Rightarrow> byteAt str (p + 1) \<noteq> 0x2F \<and> equalIgnoringCaseASCII (copyASCII (protocol base)) (take p str) \<and> isHierarchical base)"
  have same: "(case plainSchemeOf str of
       None \<Rightarrow> Some False
     | Some p \<Rightarrow> map_option (\<lambda>c. c \<noteq> 0x2F \<and> equalIgnoringCaseASCII (copyASCII (protocol base)) (take p str) \<and> isHierarchical base)
         (readAt str (p + 1))) = Some same"
    using schemeOf_plain(2) [OF str(2)] by (auto simp: same_def readAt_byteAt split: option.split)
  define s where "s = (if same then drop (the (plainSchemeOf str) + 1) str else str)"
  have s: "endsNull s"
    using str(2) schemeOf_plain(2) [OF str(2)] endsNull_drop [OF str(2)] by (auto simp: s_def same_def split: option.splits)
  have s1: "readAt s 1 = Some (byteAt s 1)" if "byteAt s 0 = 0x2F"
    using endsNull_next [OF s endsNull_read [OF s]] that readAt_byteAt [of 1 s] by simp
  have path: "isHierarchical base \<Longrightarrow> relativePath base s = Some (plainRelativePath base s)"
    using relativePath_plain [OF _ s] assms by (auto simp: isHierarchical_def split: if_splits)
  show ?thesis
    unfolding resolve_def plainResolve_def Let_def rel_def [symmetric] r str(1) if_not_P [OF False]
    apply (simp only: schemeOf_plain(1) [OF str(2)] same same_def [symmetric] s_def [symmetric] cstringIn_endsNull [OF str(2)]
        endsNull_read [OF s] Option.bind.bind_lunit prod.case option.map)
    using s1 path by (cases "byteAt s 0 = 0x2F"; cases same) (simp_all add: s_def)
qed (simp add: resolve_def plainResolve_def)

subsection \<open>Paths as segments\<close>

definition endChar :: "byte \<Rightarrow> bool" where
  "endChar c \<longleftrightarrow> c = 0 \<or> c = 0x3F \<or> c = 0x23"

definition segment :: "byte list \<Rightarrow> bool" where
  "segment s \<longleftrightarrow> list_all (\<lambda>c. \<not> endChar c \<and> c \<noteq> 0x2F) s"

text \<open>The segments of the directory that was built, the innermost first.\<close>

definition directory :: "byte list list \<Rightarrow> byte list" where
  "directory st = 0x2F # concat (map (\<lambda>s. s @ [0x2F]) (rev st))"

text \<open>One segment with a slash behind it, and the last one.\<close>

definition enter :: "byte list \<Rightarrow> byte list list \<Rightarrow> byte list list" where
  "enter s st = (if s = [0x2E] then st else if s = [0x2E, 0x2E] then tl st else s # st)"

definition finish :: "byte list \<Rightarrow> byte list list \<Rightarrow> byte list" where
  "finish s st = (if s = [0x2E] then directory st else if s = [0x2E, 0x2E] then directory (tl st) else directory st @ s)"

text \<open>A relative path: the segments with a slash behind them, and the last.\<close>

definition relativeText :: "byte list list \<Rightarrow> byte list \<Rightarrow> byte list" where
  "relativeText segs s = concat (map (\<lambda>s. s @ [0x2F]) segs) @ s"

definition resolvePath :: "byte list list \<Rightarrow> byte list list \<Rightarrow> byte list \<Rightarrow> byte list" where
  "resolvePath st segs s = finish s (fold enter segs st)"

lemma directory_simps [simp]: "directory [] = [0x2F]" "directory (s # st) = directory st @ s @ [0x2F]"
  by (simp_all add: directory_def)

lemma directory_not_Nil [simp]: "directory st \<noteq> []"
  by (simp add: directory_def)

lemma rev_directory: "\<exists>r. rev (directory st) = 0x2F # r"
  by (cases st) simp_all

lemma pathEnd_iff: "isPathSegmentEndChar c \<longleftrightarrow> endChar c \<or> c = 0x2F"
proof -
  have "unat c \<in> {0, 35, 47, 63} \<longleftrightarrow> c = 0 \<or> c = 0x23 \<or> c = 0x2F \<or> c = 0x3F"
    by (auto intro: word_eqI_unat)
  then show ?thesis by (auto simp: class_ranges endChar_def)
qed

lemma byteAt_Cons [simp]: "byteAt (c # s) 0 = c" "byteAt [] i = 0" "byteAt (c # s) (Suc i) = byteAt s i"
  by (simp_all add: byteAt_def)

text \<open>What the loop does at each kind of segment.\<close>

lemma merge_end: "endChar (byteAt t 0) \<Longrightarrow> plainMergePath b dst t = (dst, t)"
  by (subst plainMergePath.simps) (auto simp: endChar_def)

lemma merge_push:
  assumes "\<not> endChar c" "c = 0x2E \<Longrightarrow> (case dst of [] \<Rightarrow> b | d # _ \<Rightarrow> d) = 0x2F \<Longrightarrow>
      \<not> isPathSegmentEndChar (byteAt t 0) \<and> \<not> (byteAt t 0 = 0x2E \<and> isPathSegmentEndChar (byteAt t 1))"
  shows "plainMergePath b dst (c # t) = plainMergePath b (c # dst) t"
proof -
  have "byteAt (c # t) 2 = byteAt t 1" by (simp add: byteAt_def)
  then show ?thesis using assms by (subst plainMergePath.simps) (auto simp: endChar_def)
qed

lemma merge_inside:
  assumes "segment s" "dst \<noteq> []" "hd dst \<noteq> 0x2F"
  shows "plainMergePath b dst (s @ t) = plainMergePath b (rev s @ dst) t"
  using assms
proof (induction s arbitrary: dst)
  case (Cons c s)
  have "plainMergePath b dst (c # (s @ t)) = plainMergePath b (c # dst) (s @ t)"
    by (rule merge_push) (use Cons.prems in \<open>auto simp: segment_def split: list.splits\<close>)
  moreover have "plainMergePath b (c # dst) (s @ t) = plainMergePath b (rev s @ c # dst) t"
    by (rule Cons.IH) (use Cons.prems in \<open>auto simp: segment_def\<close>)
  ultimately show ?case by simp
qed simp

lemma merge_segment:
  assumes "segment s" "s \<noteq> [0x2E]" "s \<noteq> [0x2E, 0x2E]"
  shows "plainMergePath b (rev (directory st)) (s @ t) = plainMergePath b (rev (directory st @ s)) t"
proof (cases s)
  case (Cons c s')
  obtain r where r: "rev (directory st) = 0x2F # r" using rev_directory by blast
  have n: "\<not> isPathSegmentEndChar d" if "d \<in> set s" for d
    using assms(1) that by (auto simp: segment_def list_all_iff pathEnd_iff)
  have "plainMergePath b (rev (directory st)) (c # (s' @ t)) = plainMergePath b (c # rev (directory st)) (s' @ t)"
  proof (rule merge_push)
    show "\<not> endChar c" using assms(1) Cons by (simp add: segment_def)
    assume c: "c = 0x2E"
    then obtain d s'' where d: "s' = d # s''" using assms(2) Cons by (cases s') auto
    moreover have "s'' \<noteq> []" if "d = 0x2E" using that c d assms(3) Cons by auto
    ultimately show "\<not> isPathSegmentEndChar (byteAt (s' @ t) 0) \<and>
        \<not> (byteAt (s' @ t) 0 = 0x2E \<and> isPathSegmentEndChar (byteAt (s' @ t) 1))"
      using n Cons by (cases s'') auto
  qed
  moreover have "plainMergePath b (c # rev (directory st)) (s' @ t) = plainMergePath b (rev s' @ c # rev (directory st)) t"
    by (rule merge_inside) (use assms(1) Cons in \<open>auto simp: segment_def\<close>)
  ultimately show ?thesis using Cons by simp
qed simp

lemma merge_dot:
  assumes "isPathSegmentEndChar (byteAt t 0)"
  shows "plainMergePath b (rev (directory st)) (0x2E # t) = plainMergePath b (rev (directory st)) (plainSkipSlash t)"
proof -
  obtain r where "rev (directory st) = 0x2F # r" using rev_directory by blast
  then show ?thesis using assms by (subst plainMergePath.simps) simp
qed

lemma rewindOne_segment: "segment s \<Longrightarrow> rewindOne (rev s @ rev (directory st)) = rev (directory st)"
proof (induction s rule: rev_induct)
  case Nil
  obtain r where "rev (directory st) = 0x2F # r" using rev_directory by blast
  then show ?case by (cases r) simp_all
next
  case (snoc c s)
  obtain d r where "rev s @ rev (directory st) = d # r" using rev_directory [of st] by (cases "rev s") auto
  then show ?case using snoc by (simp add: segment_def)
qed

lemma merge_dotdot:
  assumes "list_all segment st" "isPathSegmentEndChar (byteAt t 0)"
  shows "plainMergePath b (rev (directory st)) (0x2E # 0x2E # t) = plainMergePath b (rev (directory (tl st))) (plainSkipSlash t)"
proof -
  let ?D = "rev (directory st)"
  obtain r where r: "?D = 0x2F # r" using rev_directory by blast
  have "rewindOne (if 1 < length ?D then tl ?D else ?D) = rev (directory (tl st))"
  proof (cases st)
    case Nil
    then show ?thesis by simp
  next
    case (Cons s st')
    then show ?thesis using rewindOne_segment [of s st'] assms(1) by simp
  qed
  moreover have "byteAt (0x2E # 0x2E # t) 2 = byteAt t 0" by (simp add: byteAt_def)
  ultimately show ?thesis using assms(2) r by (subst plainMergePath.simps) (simp add: pathEnd_iff endChar_def)
qed

lemma merge_enter:
  assumes "list_all segment st" "segment s"
  shows "plainMergePath b (rev (directory st)) (s @ 0x2F # t) = plainMergePath b (rev (directory (enter s st))) t"
proof -
  have e: "isPathSegmentEndChar 0x2F" by (simp add: pathEnd_iff)
  consider "s = [0x2E]" | "s = [0x2E, 0x2E]" | "s \<noteq> [0x2E]" "s \<noteq> [0x2E, 0x2E]" by blast
  then show ?thesis
  proof cases
    case 1
    then show ?thesis using merge_dot [of "0x2F # t"] e by (simp add: enter_def plainSkipSlash_def)
  next
    case 2
    then show ?thesis using merge_dotdot [OF assms(1), of "0x2F # t"] e by (simp add: enter_def plainSkipSlash_def)
  next
    case 3
    have "plainMergePath b (rev (directory st @ s)) (0x2F # t) = plainMergePath b (0x2F # rev (directory st @ s)) t"
      by (rule merge_push) (simp_all add: endChar_def)
    then show ?thesis using merge_segment [OF assms(2) 3] 3 by (simp add: enter_def)
  qed
qed

lemma segments_enter: "list_all segment st \<Longrightarrow> segment s \<Longrightarrow> list_all segment (enter s st)"
  by (cases st) (simp_all add: enter_def)

lemma merge_segments:
  "list_all segment st \<Longrightarrow> list_all segment segs \<Longrightarrow>
   plainMergePath b (rev (directory st)) (concat (map (\<lambda>s. s @ [0x2F]) segs) @ t) = plainMergePath b (rev (directory (fold enter segs st))) t \<and>
   list_all segment (fold enter segs st)"
  by (induction segs arbitrary: st) (simp_all add: merge_enter segments_enter)

lemma merge_finish:
  assumes "list_all segment st" "segment s" "endChar (byteAt t 0)"
  shows "plainMergePath b (rev (directory st)) (s @ t) = (rev (finish s st), t)"
proof -
  have e: "isPathSegmentEndChar (byteAt t 0)" "plainSkipSlash t = t" using assms(3) by (auto simp: pathEnd_iff plainSkipSlash_def endChar_def)
  consider "s = [0x2E]" | "s = [0x2E, 0x2E]" | "s \<noteq> [0x2E]" "s \<noteq> [0x2E, 0x2E]" by blast
  then show ?thesis
  proof cases
    case 1
    then show ?thesis using merge_dot [OF e(1)] e merge_end [OF assms(3)] by (simp add: finish_def)
  next
    case 2
    then show ?thesis using merge_dotdot [OF assms(1) e(1)] e merge_end [OF assms(3)] by (simp add: finish_def)
  next
    case 3
    then show ?thesis using merge_segment [OF assms(2) 3] merge_end [OF assms(3)] by (simp add: finish_def)
  qed
qed

lemma mergePath_resolves:
  assumes "list_all segment st" "list_all segment segs" "segment s" "endChar (byteAt t 0)"
  shows "plainMergePath b (rev (directory st)) (relativeText segs s @ t) = (rev (resolvePath st segs s), t)"
  using merge_segments [OF assms(1,2), of b "s @ t"] merge_finish [OF _ assms(3,4), of "fold enter segs st"]
  by (simp add: relativeText_def resolvePath_def)

subsection \<open>References\<close>

record reference =
  ref_path :: "byte list"
  ref_query :: "byte list option"
  ref_fragment :: "byte list option"

definition refTail :: "reference \<Rightarrow> byte list" where
  "refTail r = (case ref_query r of None \<Rightarrow> [] | Some q \<Rightarrow> 0x3F # q) @ (case ref_fragment r of None \<Rightarrow> [] | Some f \<Rightarrow> 0x23 # f)"

definition refText :: "reference \<Rightarrow> byte list" where
  "refText r = ref_path r @ refTail r"

definition relativeReference :: "reference \<Rightarrow> bool" where
  "relativeReference r \<longleftrightarrow>
     list_all (\<lambda>c. pathChar c \<and> c \<noteq> 0x3A) (ref_path r) \<and> take 2 (ref_path r) \<noteq> [0x2F, 0x2F] \<and>
     (case ref_query r of None \<Rightarrow> True | Some q \<Rightarrow> list_all queryChar q) \<and>
     (case ref_fragment r of None \<Rightarrow> True | Some f \<Rightarrow> list_all queryChar f) \<and> 0x5C \<notin> set (refText r)"

fun segmentsOf :: "byte list \<Rightarrow> byte list list \<times> byte list" where
  "segmentsOf [] = ([], [])"
| "segmentsOf (c # s) =
     (case segmentsOf s of
        (segs, l) \<Rightarrow> if c = 0x2F then ([] # segs, l)
                     else case segs of [] \<Rightarrow> ([], c # l) | g # gs \<Rightarrow> ((c # g) # gs, l))"

lemma segmentsOf_text: "segmentsOf s = (segs, l) \<Longrightarrow> relativeText segs l = s \<and> 0x2F \<notin> set l"
  by (induction s arbitrary: segs l)
    (auto simp: relativeText_def split: prod.splits if_splits list.splits)

lemma segmentsOf_segments:
  "list_all (\<lambda>c. \<not> endChar c) s \<Longrightarrow> segmentsOf s = (segs, l) \<Longrightarrow> list_all segment segs \<and> segment l"
  by (induction s arbitrary: segs l) (auto simp: segment_def split: prod.splits if_splits list.splits)

text \<open>The directory of the base, and the parts of the result.\<close>

definition baseStack :: "url_parts \<Rightarrow> byte list list" where
  "baseStack u = (if path u = [] then [] else rev (fst (segmentsOf (tl (path u)))))"

definition targetPath :: "url_parts \<Rightarrow> byte list \<Rightarrow> byte list" where
  "targetPath u p =
     (if hd p = 0x2F then p else case segmentsOf p of (segs, l) \<Rightarrow> resolvePath (baseStack u) segs l)"

definition target :: "url_parts \<Rightarrow> reference \<Rightarrow> url_parts" where
  "target u r =
     (if ref_path r = [] then
        (if ref_query r = None then u\<lparr>fragment := ref_fragment r\<rparr>
         else u\<lparr>query := ref_query r, fragment := ref_fragment r\<rparr>)
      else u\<lparr>path := targetPath u (ref_path r), query := ref_query r, fragment := ref_fragment r\<rparr>)"

lemma refChar_code: "queryChar c \<Longrightarrow> c \<noteq> 0 \<and> c \<noteq> 0x20 \<and> unat c < 128"
  by (auto simp: queryChar_def pathChar_def bad_range badCode_def)

lemma refText_chars:
  assumes "relativeReference r" "c \<in> set (refText r)"
  shows "c \<noteq> 0 \<and> c \<noteq> 0x20 \<and> c \<noteq> 0x5C \<and> unat c < 128"
proof -
  have "queryChar c \<or> c = 0x3F \<or> c = 0x23"
    using assms pathChar_not_end unfolding relativeReference_def refText_def refTail_def list_all_iff
    by (auto split: option.splits)
  then have "c \<noteq> 0 \<and> c \<noteq> 0x20 \<and> unat c < 128" using refChar_code [of c] by auto
  moreover have "c \<noteq> 0x5C" using assms by (auto simp: relativeReference_def)
  ultimately show ?thesis by blast
qed

lemma ascii_and: "unat c < 128 \<Longrightarrow> (ucast (c :: byte) :: uchar) AND 0xFF80 = 0"
proof -
  assume "unat c < 128"
  then have "unat ((ucast c :: uchar) AND NOT (mask 7)) = 0" by (simp add: unat_and_not_mask unat_ucast_mod)
  moreover have "NOT (mask 7) = (0xFF80 :: uchar)" by (simp add: mask_eq_exp_minus_1)
  ultimately show ?thesis by (metis unat_eq_zero)
qed

lemma all_ascii:
  "list_all (\<lambda>c. unat c < 128) (bs :: byte list) \<Longrightarrow> x AND 0xFF80 = 0 \<Longrightarrow> fold (OR) (map ucast bs) x AND (0xFF80 :: uchar) = 0"
proof (induction bs arbitrary: x)
  case (Cons c bs)
  then have "(ucast c :: uchar) AND 0xFF80 = 0" by (intro ascii_and) simp
  then have "(ucast c OR x) AND (0xFF80 :: uchar) = 0" using Cons.prems(2) by (simp only: bit.conj_disj_distrib2 or.left_neutral)
  then show ?case using Cons by simp
qed simp

text \<open>A buffer of plain characters is the text with its terminating null.\<close>

lemma relativeBuffer_plain:
  assumes "\<And>c. c \<in> set bs \<Longrightarrow> c \<noteq> 0x20 \<and> unat c < 128"
  shows "plainRelativeBuffer enc (fromBytes bs) = (bs @ [0], length bs, True)"
proof -
  have a: "charactersAreAllASCII (fromBytes bs)"
    using assms by (auto simp: charactersAreAllASCII_def fromBytes_def list_all_iff intro!: all_ascii)
  have "takeWhile (\<lambda>c. c = 0x20) (bs @ [0]) = []" using assms by (cases bs) auto
  moreover have "takeWhile (\<lambda>c. c = 0x20) (rev bs) = []" using assms by (cases bs rule: rev_cases) auto
  ultimately show ?thesis by (simp add: plainRelativeBuffer_def a)
qed

lemma relativeBuffer_text:
  "relativeReference r \<Longrightarrow> plainRelativeBuffer enc (fromBytes (refText r)) = (refText r @ [0], length (refText r), True)"
  using refText_chars [of r] by (intro relativeBuffer_plain) blast

lemma refTail_end: "endChar (byteAt (refTail r @ [0]) 0)"
  by (auto simp: refTail_def endChar_def split: option.split)

lemma schemeOf_none:
  assumes "relativeReference r"
  shows "plainSchemeOf (refText r @ [0]) = None"
proof -
  let ?s = "refText r @ [0]" and ?n = "length (ref_path r)"
  have e: "endChar (?s ! ?n)" using refTail_end [of r] by (simp add: refText_def nth_append byteAt_def)
  have n: "?n < length ?s" by (simp add: refText_def)
  have f: "\<not> isSchemeChar (?s ! ?n)" "\<not> isSchemeFirstChar (?s ! ?n)" "?s ! ?n \<noteq> 0x3A"
    using e by (auto simp: endChar_def class_ranges alpha_def digit_def)
  show ?thesis
  proof (cases "isSchemeFirstChar (byteAt ?s 0)")
    case True
    then have n0: "?n \<noteq> 0" using f(2) n by (auto simp: byteAt_def)
    define p where "p = scan isSchemeChar ?s 1"
    have p: "p = 1 + length (takeWhile isSchemeChar (drop 1 ?s))" using n by (simp add: p_def scan_takeWhile)
    have "p \<le> ?n"
    proof (rule ccontr)
      assume "\<not> p \<le> ?n"
      then have l: "?n - 1 < length (takeWhile isSchemeChar (drop 1 ?s))" using p n0 by linarith
      then have "isSchemeChar (takeWhile isSchemeChar (drop 1 ?s) ! (?n - 1))"
        by (meson nth_mem set_takeWhileD)
      then have "isSchemeChar (drop 1 ?s ! (?n - 1))" using l by (simp add: takeWhile_nth)
      moreover have "drop 1 ?s ! (?n - 1) = ?s ! ?n" using n0 n by (subst nth_drop) simp_all
      ultimately show False using f(1) by simp
    qed
    then have "byteAt ?s p \<noteq> 0x3A"
    proof (cases "p = ?n")
      case False
      then have "byteAt ?s p \<in> set (ref_path r)" using \<open>p \<le> ?n\<close> n by (auto simp: byteAt_def refText_def nth_append)
      then show ?thesis using assms by (auto simp: relativeReference_def list_all_iff)
    qed (use f(3) n in \<open>simp add: byteAt_def\<close>)
    then show ?thesis by (simp add: plainSchemeOf_def p_def Let_def)
  qed (simp add: plainSchemeOf_def)
qed

subsection \<open>The result of a resolution\<close>

lemma plain_nonzero:
  assumes "plain u" "c \<in> set (printURL u)"
  shows "c \<noteq> 0"
proof -
  have z: "isSchemeChar c \<Longrightarrow> c \<noteq> 0" "isUserInfoChar c \<Longrightarrow> c \<noteq> 0" "isHostnameChar c \<Longrightarrow> c \<noteq> 0" "isByteDigit c \<Longrightarrow> c \<noteq> 0" for c
    by (auto simp: class_ranges digit_range alpha_def digit_def)
  note d = plainD [OF assms(1), unfolded list_all_iff]
  have "0 \<notin> set (scheme u)" using d(3) z(1) by fast
  moreover have "0 \<notin> set (user u)" using d(5) z(2) by fast
  moreover have "0 \<notin> set (password u)" using d(6) z(2) by fast
  moreover have "0 \<notin> set (host u)" using d(8) z(3) by fast
  moreover have "0 \<notin> set (path u)" using d(11) pathChar_not_end by fast
  moreover have "0 \<notin> set (portText u)" using d(9) z(4) by (auto simp: portText_def split: option.splits)
  moreover have "0 \<notin> set (queryText u)" using d(13) queryChar_not_end by (auto simp: queryText_def split: option.splits)
  moreover have "0 \<notin> set (fragmentText u)" using d(14) queryChar_not_end by (auto simp: fragmentText_def split: option.splits)
  moreover have "set (passwordText u) \<subseteq> insert 0x3A (set (password u))" "set (atText u) \<subseteq> {0x40}"
    by (auto simp: passwordText_def atText_def)
  ultimately show ?thesis using assms(2) unfolding printURL_user schemeText_def by auto
qed

lemma cstring_printed: "canonical u \<Longrightarrow> cstring (printURL u @ [0]) = printURL u"
  using plain_nonzero [OF canonical_plain] by (simp add: cstring_def takeWhile_append2)

text \<open>The last case of most branches: the text of the base up to some offset, and the reference behind it.\<close>

lemma append_reference:
  assumes "canonical v" "left (m_string k) n = fromBytes a" "printURL v = a @ r"
  shows "map_option (\<lambda>b. parseBytes (cstring b) None) (appendASCII (left (m_string k) n) (r @ [0]) (length r)) = Some (parsed v)"
proof -
  have "cstring (a @ r @ [0]) = printURL v" using cstring_printed [OF assms(1)] by (simp add: assms(3))
  then show ?thesis by (simp add: appendASCII_def assms(2) parseBytes_printed [OF assms(1)])
qed

lemma parsed_hierarchical: "isHierarchical (parsed u)"
proof -
  have "m_string (parsed u) = fromBytes (scheme u @ [0x3A] @ 0x2F # 0x2F # userInfoText u @ host u @ portText u @ path u @
      queryText u @ fragmentText u)"
    by (simp add: parsed_fields printURL_def)
  then have "charAt (m_string (parsed u)) (m_schemeEnd (parsed u) + 1) = 0x2F"
    by (simp add: parsed_fields(4) charAt_def nth_append fromBytes_def)
  then show ?thesis by (simp add: isHierarchical_def)
qed

lemma no_backslash: "0x5C \<notin> set bs \<Longrightarrow> 0x5C \<notin> set (fromBytes bs)"
  using uchar_of_byte_inject [of _ "0x5C"] by (auto simp: fromBytes_def)

lemma resolve_cases:
  assumes "relativeReference r"
  shows "plainResolve enc (parsed u) (fromBytes (refText r)) =
    (let str = refText r @ [0]; len = length (refText r); base = parsed u;
         append = (\<lambda>n. map_option (\<lambda>b. parseBytes (cstring b) None) (appendASCII (left (m_string base) n) str len))
     in if byteAt str 0 = 0 then Some (removeFragmentIdentifier base)
        else if byteAt str 0 = 0x23 then append (m_queryEnd base)
        else if byteAt str 0 = 0x3F then append (m_pathEnd base)
        else if byteAt str 0 = 0x2F then
          (if byteAt str 1 = 0x2F then append (m_schemeEnd base + 1) else append (m_portEnd base))
        else Some (parseBytes (plainRelativePath base str) None))"
proof -
  have "0x5C \<notin> set (fromBytes (refText r))" using refText_chars [OF assms] no_backslash by blast
  then show ?thesis
    by (simp add: plainResolve_def relativeBuffer_text [OF assms] schemeOf_none [OF assms] parsed_hierarchical Let_def)
qed

lemma target_tail: "ref_query r \<noteq> None \<or> ref_path r \<noteq> [] \<Longrightarrow> queryText (target u r) @ fragmentText (target u r) = refTail r"
  by (auto simp: target_def refTail_def queryText_def fragmentText_def split: option.split)

text \<open>The directory of the base.\<close>

lemma dropWhile_segment: "segment l \<Longrightarrow> dropWhile (\<lambda>c. c \<noteq> 0x2F) (rev (directory st @ l)) = rev (directory st)"
proof -
  assume "segment l"
  then have "dropWhile (\<lambda>c. c \<noteq> 0x2F) (rev l @ rev (directory st)) = dropWhile (\<lambda>c. c \<noteq> 0x2F) (rev (directory st))"
    by (intro dropWhile_append2) (auto simp: segment_def list_all_iff)
  moreover obtain x where "rev (directory st) = 0x2F # x" using rev_directory by blast
  ultimately show ?thesis by simp
qed

lemma base_directory:
  assumes "canonical u" "path u \<noteq> []"
  obtains l where "path u = directory (baseStack u) @ l" "segment l" "list_all segment (baseStack u)"
proof -
  obtain p where p: "path u = 0x2F # p" using canonicalD(10) [OF assms(1)] assms(2) by (cases "path u") auto
  obtain segs l where s: "segmentsOf p = (segs, l)" by (cases "segmentsOf p")
  have "list_all (\<lambda>c. \<not> endChar c) p"
    using canonicalD(11) [OF assms(1)] p pathChar_not_end by (auto simp: list_all_iff endChar_def)
  then have "list_all segment segs" "segment l" using segmentsOf_segments [OF _ s] by auto
  moreover have "path u = directory (baseStack u) @ l"
    using p s segmentsOf_text [OF s] by (simp add: baseStack_def directory_def relativeText_def)
  moreover have "baseStack u = rev segs" using p s by (simp add: baseStack_def)
  ultimately show ?thesis using that by simp
qed

lemma dotFree_directory: "dotFree (directory st @ l) \<Longrightarrow> dotFree (directory st)"
  unfolding dotFree_def
proof (intro allI impI)
  fix xs ys
  assume d: "\<forall>xs ys. directory st @ l = xs @ 0x2F # ys \<longrightarrow> \<not> isDots (firstSegment ys)" and e: "directory st = xs @ 0x2F # ys"
  show "\<not> isDots (firstSegment ys)"
  proof (cases "ys = []")
    case False
    obtain x where "rev (directory st) = 0x2F # x" using rev_directory by blast
    then have "directory st = rev x @ [0x2F]" by (simp add: rev_swap)
    then have "last ys = 0x2F" using e False by (metis last_ConsR last_appendR list.distinct(1) snoc_eq_iff_butlast)
    then have "0x2F \<in> set ys" using False by (metis last_in_set)
    then show ?thesis using d e firstSegment_append [of ys l] by (metis append.assoc append_Cons)
  qed (simp add: firstSegment_def isDots_def)
qed

lemma start_directory:
  assumes "canonical u"
  shows "(let basePath = rev (dropWhile (\<lambda>c. c \<noteq> 0x2F) (rev (path u)))
          in if basePath = [] then [0x2F] else copyPathRemovingDots basePath) = directory (baseStack u) \<and> list_all segment (baseStack u)"
proof (cases "path u = []")
  case True
  then show ?thesis by (simp add: baseStack_def)
next
  case False
  obtain l where l: "path u = directory (baseStack u) @ l" "segment l" "list_all segment (baseStack u)"
    using base_directory [OF assms False] .
  have "dotFree (path u)"
    using canonicalD(10,12) [OF assms] False copyPathRemovingDots_slash [of "tl (path u)"] by (cases "path u") auto
  then have "dotFree (directory (baseStack u))" using l(1) dotFree_directory by simp
  then have "copyPathRemovingDots (directory (baseStack u)) = directory (baseStack u)"
    using copyPathRemovingDots_id by (simp add: directory_def)
  then show ?thesis using l dropWhile_segment [OF l(2), of "baseStack u"] by (simp only: l(1)) simp
qed

lemma relativePath_parsed:
  assumes "canonical u" "relativeReference r" "ref_path r \<noteq> []" "hd (ref_path r) \<noteq> 0x2F"
  shows "plainRelativePath (parsed u) (refText r @ [0]) =
    schemeText u @ userInfoText u @ host u @ portText u @ targetPath u (ref_path r) @ refTail r"
proof -
  let ?pre = "schemeText u @ userInfoText u @ host u @ portText u"
  obtain segs l where s: "segmentsOf (ref_path r) = (segs, l)" by (cases "segmentsOf (ref_path r)")
  have "list_all (\<lambda>c. \<not> endChar c) (ref_path r)"
    using assms(2) pathChar_not_end by (auto simp: relativeReference_def list_all_iff endChar_def)
  then have sl: "list_all segment segs" "segment l" using segmentsOf_segments [OF _ s] by auto
  have b: "copyASCII (m_string (parsed u)) = ?pre @ path u @ queryText u @ fragmentText u"
    by (simp add: parsed_fields printURL_schemeText)
  have pre: "take (m_portEnd (parsed u)) (?pre @ path u @ queryText u @ fragmentText u) = ?pre"
    by (simp add: parsed_fields)
  have sl2: "Kurl.slice (?pre @ path u @ queryText u @ fragmentText u) (m_portEnd (parsed u)) (m_pathEnd (parsed u)) = path u"
    by (simp add: parsed_fields slice_def)
  obtain c p where c: "ref_path r = c # p" using assms(3) by (cases "ref_path r") auto
  have "\<not> endChar c" using assms(2) c pathChar_not_end by (auto simp: relativeReference_def endChar_def)
  then have z: "byteAt (refText r @ [0]) 0 \<noteq> 0" "byteAt (refText r @ [0]) 0 \<noteq> 0x3F" "byteAt (refText r @ [0]) 0 \<noteq> 0x23"
    by (auto simp: refText_def c endChar_def)
  have n: "m_schemeEnd (parsed u) + 1 \<noteq> m_pathEnd (parsed u)" by (simp add: parsed_fields)
  have t: "refText r @ [0] = relativeText segs l @ (refTail r @ [0])" using segmentsOf_text [OF s] by (simp add: refText_def)
  have m: "plainMergePath b (rev (directory (baseStack u))) (refText r @ [0]) = (rev (resolvePath (baseStack u) segs l), refTail r @ [0])" for b
    unfolding t by (rule mergePath_resolves [OF _ sl refTail_end]) (use start_directory [OF assms(1)] in simp)
  have "cstring (refTail r @ [0]) = refTail r"
    using refText_chars [OF assms(2)] by (simp add: cstring_def refText_def takeWhile_append2)
  moreover have "(if rev (dropWhile (\<lambda>c. c \<noteq> 0x2F) (rev (path u))) = []
      then if m_schemeEnd (parsed u) + 1 \<noteq> m_pathEnd (parsed u) \<and> byteAt (refText r @ [0]) 0 \<noteq> 0 \<and>
              byteAt (refText r @ [0]) 0 \<noteq> 0x3F \<and> byteAt (refText r @ [0]) 0 \<noteq> 0x23 then [0x2F] else []
      else copyPathRemovingDots (rev (dropWhile (\<lambda>c. c \<noteq> 0x2F) (rev (path u))))) = directory (baseStack u)"
    using start_directory [OF assms(1)] z n by (simp only: Let_def simp_thms if_True)
  ultimately show ?thesis
    unfolding plainRelativePath_def b pre sl2 Let_def
    by (simp only: m prod.case rev_rev_ident targetPath_def s assms(4) if_False append_assoc)
qed

lemma resolve_canonical: "canonical u \<Longrightarrow> resolve enc (parsed u) relative = plainResolve enc (parsed u) relative"
  by (rule resolve_plain) (simp add: parsed_offsets)

lemma resolve_path:
  assumes "canonical u" "relativeReference r" "canonical (target u r)" "ref_path r \<noteq> []"
  shows "plainResolve enc (parsed u) (fromBytes (refText r)) = Some (parsed (target u r))"
proof -
  obtain c p where c: "ref_path r = c # p" using assms(4) by (cases "ref_path r") auto
  have "\<not> endChar c" using assms(2) c pathChar_not_end by (auto simp: relativeReference_def endChar_def)
  then have z: "byteAt (refText r @ [0]) 0 = c" "c \<noteq> 0" "c \<noteq> 0x3F" "c \<noteq> 0x23" by (auto simp: refText_def c endChar_def)
  have p: "printURL (target u r) =
      (schemeText u @ userInfoText u @ host u @ portText u) @ targetPath u (ref_path r) @ refTail r"
    using target_tail [of r u] assms(4) by (simp add: printURL_schemeText target_def)
  show ?thesis
  proof (cases "c = 0x2F")
    case True
    have "byteAt (refText r @ [0]) 1 \<noteq> 0x2F"
    proof (cases p)
      case Nil
      then show ?thesis using refTail_end [of r] by (auto simp: refText_def c endChar_def)
    next
      case (Cons d q)
      then show ?thesis using assms(2) c True by (auto simp: relativeReference_def refText_def)
    qed
    moreover have "printURL (target u r) = (schemeText u @ userInfoText u @ host u @ portText u) @ refText r"
      unfolding p by (simp add: refText_def targetPath_def c True)
    ultimately show ?thesis
      unfolding resolve_cases [OF assms(2)] Let_def z(1)
      using True append_reference [OF assms(3) cut_host(5)] by simp
  next
    case False
    then have "plainRelativePath (parsed u) (refText r @ [0]) = printURL (target u r)"
      using relativePath_parsed [OF assms(1,2,4)] c unfolding p by simp
    then show ?thesis
      unfolding resolve_cases [OF assms(2)] Let_def z(1)
      using False z parseBytes_printed [OF assms(3)] by simp
  qed
qed

lemma plainResolve_target:
  assumes "canonical u" "relativeReference r" "canonical (target u r)"
  shows "plainResolve enc (parsed u) (fromBytes (refText r)) = Some (parsed (target u r))"
proof (cases "ref_path r = []")
  case False
  then show ?thesis using resolve_path assms by blast
next
  case path: True
  show ?thesis
  proof (cases "ref_query r")
    case (Some q)
    have z: "byteAt (refText r @ [0]) 0 = 0x3F" by (simp add: refText_def refTail_def path Some)
    have "printURL (target u r) = (schemeText u @ userInfoText u @ host u @ portText u @ path u) @ refText r"
      using target_tail [of r u] Some path by (simp add: printURL_schemeText target_def refText_def)
    then show ?thesis
      unfolding resolve_cases [OF assms(2)] Let_def z
      using append_reference [OF assms(3) cut_tail(1)] by simp
  next
    case query: None
    show ?thesis
    proof (cases "ref_fragment r")
      case None
      then have "refText r = []" "target u r = u\<lparr>fragment := None\<rparr>" by (simp_all add: refText_def refTail_def path query target_def)
      then show ?thesis
        unfolding resolve_cases [OF assms(2)] Let_def
        using assms(3) by (simp add: removeFragmentIdentifier_parsed)
    next
      case (Some f)
      have z: "byteAt (refText r @ [0]) 0 = 0x23" by (simp add: refText_def refTail_def path query Some)
      have "printURL (target u r) = (schemeText u @ userInfoText u @ host u @ portText u @ path u @ queryText u) @ refText r"
        by (simp add: printURL_schemeText target_def refText_def refTail_def path query Some fragmentText_def)
      then show ?thesis
        unfolding resolve_cases [OF assms(2)] Let_def z
        using append_reference [OF assms(3) cut_tail(3)] by simp
    qed
  qed
qed

text \<open>
  C22: Resolution follows the generic syntax of URLs: for a base with canonical parts and a
  reference without a scheme, whose text has no backslash, the result has the scheme and
  the authority of the base, the path of the reference or of the base, or the one merged
  segment by segment, and the query and fragment that belong to them, provided these
  parts are canonical.
\<close>

theorem resolve_generic_syntax:
  assumes "canonical u" "relativeReference r" "canonical (target u r)"
  shows "resolve enc (parsed u) (fromBytes (refText r)) = Some (parsed (target u r))"
  unfolding resolve_canonical [OF assms(1)] by (rule plainResolve_target [OF assms])

definition exampleEncodings :: encodings where
  "exampleEncodings = \<lparr>idnToASCII = (\<lambda>_. None), keepUnconverted = False, pathEncode = utf8, otherEncode = utf8, otherEncoding = False\<rparr>"

definition exampleReference :: reference where
  "exampleReference = \<lparr>ref_path = bstr ''../x/./y'', ref_query = None, ref_fragment = Some (bstr ''z'')\<rparr>"

lemma resolve_generic_syntax_witness:
  "resolve exampleEncodings (parsed exampleURL) (fromBytes (bstr ''../x/./y#z'')) =
     Some (parsed (exampleURL\<lparr>path := bstr ''/x/y'', query := None, fragment := Some (bstr ''z'')\<rparr>))"
proof -
  have t: "target exampleURL exampleReference = exampleURL\<lparr>path := bstr ''/x/y'', query := None, fragment := Some (bstr ''z'')\<rparr>"
    "refText exampleReference = bstr ''../x/./y#z''"
    by code_simp+
  have c: "relativeReference exampleReference" "canonical (target exampleURL exampleReference)" by code_simp+
  show ?thesis using resolve_generic_syntax [OF exampleURL_canonical c, of exampleEncodings] unfolding t .
qed

subsection \<open>Reads behind the buffer\<close>

lemma trim_length: "n \<le> length s \<Longrightarrow> n - k \<le> length (take (n - k) s @ replicate k z @ drop n s)"
  by simp

lemma length_cstring: "length (cstring b) \<le> length b"
  by (simp add: cstring_def length_takeWhile_le)

lemma relativeBuffer_length:
  assumes "plainRelativeBuffer enc rel = (str, len, original)"
  shows "len \<le> length str"
proof -
  have "fst (snd (plainRelativeBuffer enc rel)) \<le> length (fst (plainRelativeBuffer enc rel))"
    unfolding plainRelativeBuffer_def Let_def fst_conv snd_conv
    by (rule trim_length) (simp add: copyASCII_def length_cstring diff_le_mono)
  then show ?thesis by (simp add: assms)
qed

lemma plainResolve_outside:
  assumes "canonical u" "list_all (\<lambda>c. queryChar c \<and> c \<noteq> 0x5C) f" "c = 0x23 \<or> c = 0x3F"
  shows "plainResolve enc (parsed u) (fromBytes (scheme u @ 0x3A # c # f)) = None"
proof -
  define bs where "bs = scheme u @ 0x3A # c # f"
  have s: "d \<noteq> 0x5C \<and> d \<noteq> 0x20 \<and> unat d < 128" if "d \<in> set (scheme u)" for d
    using canonicalD(3) [OF assms(1)] that by (auto simp: list_all_iff class_ranges alpha_def digit_def)
  have q: "d \<noteq> 0x5C \<and> d \<noteq> 0x20 \<and> unat d < 128" if "d \<in> set bs" for d
    using s refChar_code assms(2,3) that by (auto simp: bs_def list_all_iff)
  have buffer: "plainRelativeBuffer enc (fromBytes bs) = (bs @ [0], length bs, True)" by (rule relativeBuffer_plain) (use q in blast)
  have b: "0x5C \<notin> set (fromBytes bs)" using q by (intro no_backslash) blast
  obtain a sch where sch: "scheme u = a # sch" "isSchemeFirstChar a" "list_all isSchemeChar sch"
    using canonicalD(1-3) [OF assms(1)] by (cases "scheme u") auto
  have "\<not> isSchemeChar 0x3A" by (simp add: class_ranges alpha_def digit_def)
  then have "takeWhile isSchemeChar (sch @ 0x3A # c # f @ [0]) = sch"
    using sch(3) by (auto simp: takeWhile_append2 list_all_iff)
  then have "scan isSchemeChar (bs @ [0]) 1 = length (scheme u)" by (simp add: scan_takeWhile bs_def sch(1))
  then have p: "plainSchemeOf (bs @ [0]) = Some (length (scheme u))"
    using sch(2) by (simp add: plainSchemeOf_def bs_def sch(1) byteAt_def nth_append)
  have n: "byteAt (bs @ [0]) (length (scheme u) + 1) = c" "drop (length (scheme u) + 1) (bs @ [0]) = c # f @ [0]"
    "take (length (scheme u)) (bs @ [0]) = scheme u"
    by (simp_all add: bs_def byteAt_def nth_append)
  have c: "c \<noteq> 0x2F" using assms(3) by auto
  have e: "equalIgnoringCaseASCII (copyASCII (protocol (parsed u))) (scheme u)"
    by (simp add: protocol_def cut_scheme equalIgnoringCaseASCII_def)
  have o: "appendASCII x (c # f @ [0]) (length bs) = None" for x using sch(1) by (simp add: appendASCII_def bs_def)
  show ?thesis
    unfolding plainResolve_def bs_def [symmetric] Let_def
    by (simp only: b buffer prod.case p option.case n e parsed_hierarchical parsed_valid simp_thms if_False if_True option.sel
        option.distinct o option.map byteAt_Cons) (use assms(3) c o in auto)
qed

text \<open>
  C23: A reference that repeats the scheme of a hierarchical base in front of a query or
  a fragment makes the resolution copy behind the end of its buffer: the length it
  copies still counts the scheme and the colon.
\<close>

theorem resolve_reads_outside:
  assumes "canonical u" "list_all (\<lambda>c. queryChar c \<and> c \<noteq> 0x5C) f" "c = 0x23 \<or> c = 0x3F"
  shows "resolve enc (parsed u) (fromBytes (scheme u @ 0x3A # c # f)) = None"
  unfolding resolve_canonical [OF assms(1)] by (rule plainResolve_outside [OF assms])

lemma resolve_reads_outside_witness:
  "resolve exampleEncodings (parsed exampleURL) (fromBytes (scheme exampleURL @ 0x3A # 0x23 # bstr ''x'')) = None"
  by (rule resolve_reads_outside [OF exampleURL_canonical]) code_simp+

text \<open>
  C24: A reference that does not begin with a scheme is resolved without a read outside its
  buffers, whatever it holds, against any base that the parser made: the scans for spaces and for
  the scheme, the copies, the merge of the path (with the look at the character before the path) and
  the parse of the result end inside, because every buffer ends with a null.
\<close>

theorem resolve_reads_inside:
  assumes "m_isValid base \<longrightarrow> offsetsOrdered base"
    "\<And>str len original p. relativeBuffer enc
      (if 0x5C \<in> set rel \<and> \<not> (protocolIsJavaScript rel \<or> protocolIs rel ''data'') then substituteBackslashes rel else rel) =
        Some (str, len, original) \<Longrightarrow> schemeOf str \<noteq> Some (Some p)"
  shows "\<exists>k. resolve enc base rel = Some k"
proof -
  obtain str len original where r: "plainRelativeBuffer enc
      (if 0x5C \<in> set rel \<and> \<not> (protocolIsJavaScript rel \<or> protocolIs rel ''data'') then substituteBackslashes rel else rel) =
    (str, len, original)"
    by (metis prod_cases3)
  have b: "relativeBuffer enc
      (if 0x5C \<in> set rel \<and> \<not> (protocolIsJavaScript rel \<or> protocolIs rel ''data'') then substituteBackslashes rel else rel) =
    Some (str, len, original)" "endsNull str"
    using relativeBuffer_plain_version r by (metis, metis fst_conv)
  have e: "plainSchemeOf str = None" using assms(2) [OF b(1)] schemeOf_plain(1) [OF b(2)] by (cases "plainSchemeOf str") auto
  have "\<exists>k. map_option (\<lambda>b. parseBytes (cstring b) None) (appendASCII (left (m_string base) n) str len) = Some k" for n
    using relativeBuffer_length [OF r] by (simp add: appendASCII_def)
  then obtain f where f: "\<And>n. map_option (\<lambda>b. parseBytes (cstring b) None) (appendASCII (left (m_string base) n) str len) = Some (f n)"
    by metis
  show ?thesis
    unfolding resolve_plain [OF assms(1)] plainResolve_def Let_def r prod.case e option.case simp_thms if_False f by simp
qed

lemma resolve_reads_inside_witness:
  "\<exists>k. resolve exampleEncodings (parsed exampleURL) (fromBytes (bstr ''./x'')) = Some k"
proof (rule resolve_reads_inside)
  show "m_isValid (parsed exampleURL) \<longrightarrow> offsetsOrdered (parsed exampleURL)" using parsed_offsets [OF exampleURL_canonical] by simp
  fix str len original p
  assume "relativeBuffer exampleEncodings
      (if 0x5C \<in> set (fromBytes (bstr ''./x'')) \<and> \<not> (protocolIsJavaScript (fromBytes (bstr ''./x'')) \<or> protocolIs (fromBytes (bstr ''./x'')) ''data'')
       then substituteBackslashes (fromBytes (bstr ''./x'')) else fromBytes (bstr ''./x'')) = Some (str, len, original)"
  moreover have "map_option (\<lambda>(str, _). schemeOf str) (relativeBuffer exampleEncodings
      (if 0x5C \<in> set (fromBytes (bstr ''./x'')) \<and> \<not> (protocolIsJavaScript (fromBytes (bstr ''./x'')) \<or> protocolIs (fromBytes (bstr ''./x'')) ''data'')
       then substituteBackslashes (fromBytes (bstr ''./x'')) else fromBytes (bstr ''./x''))) = Some (Some None)"
    by code_simp
  ultimately show "schemeOf str \<noteq> Some (Some p)" by simp
qed

end
