(* ===== verification/Security.thy ===== *)
theory Security
  imports UrlReference
begin

section \<open>Security origins (WebCore/page/SecurityOrigin.cpp, OriginAccessEntry.cpp)\<close>

text \<open>
  The origin of a URL, the access checks, the tables of schemes and the white lists. The
  static variables of the file are one record. What the platform decides is the record
  \<open>environment\<close>: the three ports that the code asks for, the case folding \<open>same\<close> of
  CaseFoldingHash and equalIgnoringCase, lower case, white space, and the decoders.
\<close>

record environment =
  apollo :: bool
  mac :: bool
  qt :: bool
  same :: "wtf_string \<Rightarrow> wtf_string \<Rightarrow> bool"
  toLower :: "wtf_string \<Rightarrow> wtf_string option"
  spaceU :: "uchar \<Rightarrow> bool"
  decodeBytes :: "byte list \<Rightarrow> wtf_string"
  encs :: encodings

subsection \<open>Sets of strings under case folding\<close>

definition containsScheme :: "environment \<Rightarrow> wtf_string list \<Rightarrow> wtf_string \<Rightarrow> bool" where
  "containsScheme env schemes s = list_ex (\<lambda>t. same env t s) schemes"

definition addScheme :: "environment \<Rightarrow> wtf_string \<Rightarrow> wtf_string list \<Rightarrow> wtf_string list" where
  "addScheme env s schemes = (if containsScheme env schemes s then schemes else s # schemes)"

definition removeScheme :: "environment \<Rightarrow> wtf_string \<Rightarrow> wtf_string list \<Rightarrow> wtf_string list" where
  "removeScheme env s schemes = filter (\<lambda>t. \<not> same env t s) schemes"

subsection \<open>Entries of the white lists\<close>

datatype subdomainSetting = AllowSubdomains | DisallowSubdomains

record OriginAccessEntry =
  e_protocol :: wtf_string
  e_host :: wtf_string
  e_subdomainSettings :: subdomainSetting
  e_hostIsIPAddress :: bool

definition newOriginAccessEntry :: "environment \<Rightarrow> wtf_string \<Rightarrow> wtf_string \<Rightarrow> subdomainSetting \<Rightarrow> OriginAccessEntry" where
  "newOriginAccessEntry env protocolName hostName setting =
     (let h = lower (toLower env) hostName
      in \<lparr>e_protocol = lower (toLower env) protocolName, e_host = h, e_subdomainSettings = setting,
          e_hostIsIPAddress = (h \<noteq> [] \<and> isASCIIDigit (charAt h (length h - 1)))\<rparr>)"

definition sameEntry :: "environment \<Rightarrow> OriginAccessEntry \<Rightarrow> OriginAccessEntry \<Rightarrow> bool" where
  "sameEntry env a b =
     (same env (e_protocol a) (e_protocol b) \<and> same env (e_host a) (e_host b) \<and> e_subdomainSettings a = e_subdomainSettings b)"

subsection \<open>The state of the file\<close>

datatype localLoadPolicy = AllowLocalLoadsForAll | AllowLocalLoadsForLocalAndSubstituteData | AllowLocalLoadsForLocalOnly

record securityState =
  localSchemes :: "wtf_string list"
  secureSchemes :: "wtf_string list"
  schemesWithUniqueOrigins :: "wtf_string list"
  schemesForbiddenFromDomainRelaxation :: "wtf_string set"
  originAccessMap :: "wtf_string \<rightharpoonup> OriginAccessEntry list"
  loadPolicy :: localLoadPolicy

definition initialLocalSchemes :: "environment \<Rightarrow> wtf_string list" where
  "initialLocalSchemes env =
     [ustr ''file''] @ (if mac env then [ustr ''applewebdata''] else []) @
     (if apollo env then [ustr ''app-storage''] else []) @ (if qt env then [ustr ''qrc''] else [])"

definition initialSecureSchemes :: "wtf_string list" where
  "initialSecureSchemes = [ustr ''https'', ustr ''about'', ustr ''data'']"

definition initialUniqueSchemes :: "wtf_string list" where
  "initialUniqueSchemes = [ustr ''data'']"

definition initialState :: "environment \<Rightarrow> securityState" where
  "initialState env =
     \<lparr>localSchemes = initialLocalSchemes env, secureSchemes = initialSecureSchemes,
      schemesWithUniqueOrigins = initialUniqueSchemes, schemesForbiddenFromDomainRelaxation = {},
      originAccessMap = Map.empty, loadPolicy = AllowLocalLoadsForLocalOnly\<rparr>"

definition schemeRequiresAuthority :: "environment \<Rightarrow> wtf_string \<Rightarrow> bool" where
  "schemeRequiresAuthority env s = containsScheme env [ustr ''http'', ustr ''https'', ustr ''ftp''] s"

definition registerURLSchemeAsLocal :: "environment \<Rightarrow> wtf_string \<Rightarrow> securityState \<Rightarrow> securityState" where
  "registerURLSchemeAsLocal env s st = st\<lparr>localSchemes := addScheme env s (localSchemes st)\<rparr>"

text \<open>An empty table fills itself again at its next use.\<close>

definition removeURLSchemeRegisteredAsLocal :: "environment \<Rightarrow> wtf_string \<Rightarrow> securityState \<Rightarrow> securityState" where
  "removeURLSchemeRegisteredAsLocal env s st =
     (if s = ustr ''file'' then st
      else if mac env \<and> s = ustr ''applewebdata'' then st
      else let l = removeScheme env s (localSchemes st)
           in st\<lparr>localSchemes := (if l = [] then initialLocalSchemes env else l)\<rparr>)"

definition registerURLSchemeAsNoAccess :: "environment \<Rightarrow> wtf_string \<Rightarrow> securityState \<Rightarrow> securityState" where
  "registerURLSchemeAsNoAccess env s st = st\<lparr>schemesWithUniqueOrigins := addScheme env s (schemesWithUniqueOrigins st)\<rparr>"

definition shouldTreatURLSchemeAsNoAccess :: "environment \<Rightarrow> securityState \<Rightarrow> wtf_string \<Rightarrow> bool" where
  "shouldTreatURLSchemeAsNoAccess env st s = containsScheme env (schemesWithUniqueOrigins st) s"

definition registerURLSchemeAsSecure :: "environment \<Rightarrow> wtf_string \<Rightarrow> securityState \<Rightarrow> securityState" where
  "registerURLSchemeAsSecure env s st = st\<lparr>secureSchemes := addScheme env s (secureSchemes st)\<rparr>"

definition shouldTreatURLSchemeAsSecure :: "environment \<Rightarrow> securityState \<Rightarrow> wtf_string \<Rightarrow> bool" where
  "shouldTreatURLSchemeAsSecure env st s = containsScheme env (secureSchemes st) s"

definition shouldTreatURLAsLocal :: "environment \<Rightarrow> securityState \<Rightarrow> wtf_string \<Rightarrow> bool" where
  "shouldTreatURLAsLocal env st url =
     (if 5 \<le> length url \<and> take 5 url = ustr ''http:'' then False
      else if 5 \<le> length url \<and> take 5 url = ustr ''file:'' then True
      else let loc = findChar url 0x3A 0
           in if loc = -1 then False else containsScheme env (localSchemes st) (left url (nat loc)))"

definition shouldTreatURLSchemeAsLocal :: "environment \<Rightarrow> securityState \<Rightarrow> wtf_string \<Rightarrow> bool" where
  "shouldTreatURLSchemeAsLocal env st s =
     (if length s = 4 \<and> s = ustr ''http'' then False
      else if length s = 4 \<and> s = ustr ''file'' then True
      else if s = [] then False
      else containsScheme env (localSchemes st) s)"

definition setDomainRelaxationForbiddenForURLScheme :: "bool \<Rightarrow> wtf_string \<Rightarrow> securityState \<Rightarrow> securityState" where
  "setDomainRelaxationForbiddenForURLScheme forbidden s st =
     (if s = [] then st
      else if forbidden
      then st\<lparr>schemesForbiddenFromDomainRelaxation := insert s (schemesForbiddenFromDomainRelaxation st)\<rparr>
      else st\<lparr>schemesForbiddenFromDomainRelaxation := schemesForbiddenFromDomainRelaxation st - {s}\<rparr>)"

definition isDomainRelaxationForbiddenForURLScheme :: "securityState \<Rightarrow> wtf_string \<Rightarrow> bool" where
  "isDomainRelaxationForbiddenForURLScheme st s =
     (if s = [] then False else s \<in> schemesForbiddenFromDomainRelaxation st)"

definition setLocalLoadPolicy :: "localLoadPolicy \<Rightarrow> securityState \<Rightarrow> securityState" where
  "setLocalLoadPolicy p st = st\<lparr>loadPolicy := p\<rparr>"

definition restrictAccessToLocal :: "securityState \<Rightarrow> bool" where
  "restrictAccessToLocal st = (loadPolicy st \<noteq> AllowLocalLoadsForAll)"

definition allowSubstituteDataAccessToLocal :: "securityState \<Rightarrow> bool" where
  "allowSubstituteDataAccessToLocal st = (loadPolicy st \<noteq> AllowLocalLoadsForLocalOnly)"

subsection \<open>Origins\<close>

record SecurityOrigin =
  m_sandboxFlags :: "32 word"
  m_protocol :: wtf_string
  m_host :: wtf_string
  m_encodedHost :: wtf_string
  m_domain :: wtf_string
  m_filePath :: wtf_string
  m_port :: "16 word"
  m_isUnique :: bool
  m_universalAccess :: bool
  m_domainWasSetInDOM :: bool
  m_canLoadLocalResources :: bool
  m_enforceFilePathSeparation :: bool

definition SandboxOrigin :: "32 word" where "SandboxOrigin = push_bit 2 1"

definition isLocal :: "environment \<Rightarrow> securityState \<Rightarrow> SecurityOrigin \<Rightarrow> bool" where
  "isLocal env st a = shouldTreatURLSchemeAsLocal env st (m_protocol a)"

definition isEmptyOrigin :: "SecurityOrigin \<Rightarrow> bool" where
  "isEmptyOrigin a = (m_protocol a = [])"

text \<open>The last character of the text, for \<open>endsWith("/")\<close>.\<close>

definition newSecurityOrigin :: "environment \<Rightarrow> securityState \<Rightarrow> KURL \<Rightarrow> 32 word \<Rightarrow> SecurityOrigin" where
  "newSecurityOrigin env st url sandboxFlags =
     (let p = lower (toLower env) (protocol url);
          h = lower (toLower env) (urlHost (decodeBytes env) url);
          unique = (sandboxFlags AND SandboxOrigin \<noteq> 0 \<or> shouldTreatURLSchemeAsNoAccess env st p);
          p = (if p = ustr ''about'' \<or> p = ustr ''javascript'' then [] else p);
          unique = (if schemeRequiresAuthority env p \<and> h = [] then True else unique);
          isLocal = shouldTreatURLSchemeAsLocal env st p;
          thePath = urlPath (decodeBytes env) url;
          unique = (if isLocal \<and> (\<not> hasPath url \<or> endsWith thePath (ustr ''/'')) then True else unique);
          n = urlPort (spaceU env) url
      in \<lparr>m_sandboxFlags = sandboxFlags, m_protocol = p, m_host = h, m_encodedHost = [], m_domain = h,
          m_filePath = (if isLocal then thePath else []),
          m_port = (if isDefaultPortForProtocol (same env) n p then 0 else n),
          m_isUnique = unique, m_universalAccess = False, m_domainWasSetInDOM = False,
          m_canLoadLocalResources = isLocal, m_enforceFilePathSeparation = False\<rparr>)"

definition nullURL :: KURL where "nullURL = invalidate []"

definition createOrigin :: "environment \<Rightarrow> securityState \<Rightarrow> KURL \<Rightarrow> 32 word \<Rightarrow> SecurityOrigin" where
  "createOrigin env st url sandboxFlags =
     (if \<not> m_isValid url then newSecurityOrigin env st nullURL sandboxFlags
      else newSecurityOrigin env st url sandboxFlags)"

definition setDomainFromDOM :: "environment \<Rightarrow> wtf_string \<Rightarrow> SecurityOrigin \<Rightarrow> SecurityOrigin" where
  "setDomainFromDOM env newDomain a = a\<lparr>m_domainWasSetInDOM := True, m_domain := lower (toLower env) newDomain\<rparr>"

definition grantLoadLocalResources :: "SecurityOrigin \<Rightarrow> SecurityOrigin" where
  "grantLoadLocalResources a = a\<lparr>m_canLoadLocalResources := True\<rparr>"

definition grantUniversalAccess :: "SecurityOrigin \<Rightarrow> SecurityOrigin" where
  "grantUniversalAccess a = a\<lparr>m_universalAccess := True\<rparr>"

definition enforceFilePathSeparation :: "SecurityOrigin \<Rightarrow> SecurityOrigin" where
  "enforceFilePathSeparation a = a\<lparr>m_enforceFilePathSeparation := True\<rparr>"

definition passesFileCheck :: "SecurityOrigin \<Rightarrow> SecurityOrigin \<Rightarrow> bool" where
  "passesFileCheck a other =
     (if \<not> m_enforceFilePathSeparation a \<and> \<not> m_enforceFilePathSeparation other then True
      else m_filePath a = m_filePath other)"

definition canAccess :: "environment \<Rightarrow> securityState \<Rightarrow> SecurityOrigin \<Rightarrow> SecurityOrigin \<Rightarrow> bool" where
  "canAccess env st a other =
     (let isAppURL = (m_protocol a = ustr ''app'')
      in if apollo env \<and> m_protocol other = ustr ''app'' \<and> \<not> isAppURL then False
         else if apollo env \<and> isAppURL \<and> (isEmptyOrigin other \<or> m_protocol other = ustr ''about'') then True
         else if m_universalAccess a then True
         else if m_isUnique a \<or> m_isUnique other then False
         else let access =
                    (if m_protocol a = m_protocol other then
                       (if \<not> m_domainWasSetInDOM a \<and> \<not> m_domainWasSetInDOM other
                        then m_host a = m_host other \<and> m_port a = m_port other
                        else if m_domainWasSetInDOM a \<and> m_domainWasSetInDOM other then m_domain a = m_domain other
                        else False)
                     else False)
              in if access \<and> isLocal env st a then passesFileCheck a other else access)"

definition isSameSchemeHostPort :: "environment \<Rightarrow> securityState \<Rightarrow> SecurityOrigin \<Rightarrow> SecurityOrigin \<Rightarrow> bool" where
  "isSameSchemeHostPort env st a other =
     (if m_host a \<noteq> m_host other then False
      else if m_protocol a \<noteq> m_protocol other then False
      else if m_port a \<noteq> m_port other then False
      else if isLocal env st a \<and> \<not> passesFileCheck a other then False else True)"

definition equalOrigin :: "environment \<Rightarrow> securityState \<Rightarrow> SecurityOrigin \<Rightarrow> SecurityOrigin \<Rightarrow> bool" where
  "equalOrigin env st a other =
     (if \<not> isSameSchemeHostPort env st a other then False
      else if m_domainWasSetInDOM a \<noteq> m_domainWasSetInDOM other then False
      else if m_domainWasSetInDOM a \<and> m_domain a \<noteq> m_domain other then False else True)"

definition toString :: "SecurityOrigin \<Rightarrow> wtf_string" where
  "toString a =
     (if isEmptyOrigin a then ustr ''null''
      else if m_isUnique a then ustr ''null''
      else if m_protocol a = ustr ''file'' then (if m_enforceFilePathSeparation a then ustr ''null'' else ustr ''file://'')
      else m_protocol a @ ustr ''://'' @ m_host a @ (if m_port a \<noteq> 0 then 0x3A # from_unsigned (ucast (m_port a)) else []))"

subsection \<open>Access to URLs\<close>

definition matchesOrigin :: "OriginAccessEntry \<Rightarrow> SecurityOrigin \<Rightarrow> bool" where
  "matchesOrigin e origin =
     (if e_protocol e \<noteq> m_protocol origin then False
      else if e_subdomainSettings e = AllowSubdomains \<and> e_host e = [] then True
      else if e_host e = m_host origin then True
      else if e_subdomainSettings e = DisallowSubdomains then False
      else if e_hostIsIPAddress e then False
      else length (e_host e) < length (m_host origin) \<and>
           charAt (m_host origin) (length (m_host origin) - length (e_host e) - 1) = 0x2E \<and>
           endsWith (m_host origin) (e_host e))"

definition isAccessWhiteListed :: "securityState \<Rightarrow> SecurityOrigin \<Rightarrow> SecurityOrigin \<Rightarrow> bool" where
  "isAccessWhiteListed st a targetOrigin =
     (case originAccessMap st (toString a) of
        Some entries \<Rightarrow> list_ex (\<lambda>e. matchesOrigin e targetOrigin) entries
      | None \<Rightarrow> False)"

definition canRequest :: "environment \<Rightarrow> securityState \<Rightarrow> SecurityOrigin \<Rightarrow> KURL \<Rightarrow> bool" where
  "canRequest env st a url =
     (if m_universalAccess a then True
      else if m_isUnique a then False
      else let targetOrigin = createOrigin env st url 0
           in if m_isUnique targetOrigin then False
              else if isSameSchemeHostPort env st a targetOrigin then True
              else isAccessWhiteListed st a targetOrigin)"

definition taintsCanvas :: "environment \<Rightarrow> securityState \<Rightarrow> SecurityOrigin \<Rightarrow> KURL \<Rightarrow> bool" where
  "taintsCanvas env st a url =
     (if canRequest env st a url then False else if kurlProtocolIs url ''data'' then False else True)"

definition canReceiveDragData :: "environment \<Rightarrow> securityState \<Rightarrow> bool \<Rightarrow> SecurityOrigin \<Rightarrow> SecurityOrigin \<Rightarrow> bool" where
  "canReceiveDragData env st identical a dragInitiator =
     (if identical then True else if m_protocol a = ustr ''data'' then True else canAccess env st a dragInitiator)"

text \<open>The document is represented by its origin.\<close>

definition canLoad :: "environment \<Rightarrow> securityState \<Rightarrow> KURL \<Rightarrow> wtf_string \<Rightarrow> SecurityOrigin option \<Rightarrow> bool" where
  "canLoad env st url referrer document =
     (if \<not> shouldTreatURLAsLocal env st (m_string url) then True
      else case document of
             Some documentOrigin \<Rightarrow>
               (if isAccessWhiteListed st documentOrigin (createOrigin env st url 0) then True
                else m_canLoadLocalResources documentOrigin)
           | None \<Rightarrow> if referrer \<noteq> [] then shouldTreatURLAsLocal env st referrer else False)"

definition isSecureTransitionTo :: "environment \<Rightarrow> securityState \<Rightarrow> SecurityOrigin \<Rightarrow> KURL \<Rightarrow> bool" where
  "isSecureTransitionTo env st a url =
     (if isEmptyOrigin a then True else canAccess env st a (createOrigin env st url 0))"

definition shouldHideReferrer :: "KURL \<Rightarrow> wtf_string \<Rightarrow> bool" where
  "shouldHideReferrer url referrer =
     (let referrerIsSecureURL = protocolIs referrer ''https'';
          referrerIsWebURL = (referrerIsSecureURL \<or> protocolIs referrer ''http'')
      in if \<not> referrerIsWebURL then True
         else if \<not> referrerIsSecureURL then False
         else \<not> kurlProtocolIs url ''https'')"

subsection \<open>Origins as text\<close>

text \<open>\<open>KURL(KURL(), s)\<close>, which never reads outside (lemma \<open>fromNull_reads\<close>).\<close>

definition fromNull :: "environment \<Rightarrow> wtf_string \<Rightarrow> KURL" where
  "fromNull env s = (case resolve (encs env) nullURL s of Some k \<Rightarrow> k | None \<Rightarrow> nullURL)"

lemma fromNull_reads: "\<exists>k. resolve enc nullURL s = Some k"
proof -
  have n: "m_isValid nullURL = False" "m_string nullURL = []" "isHierarchical nullURL = False"
    by (simp_all add: nullURL_def invalidate_def isHierarchical_def)
  define rel where "rel = (if 0x5C \<in> set s \<and> \<not> (protocolIsJavaScript s \<or> protocolIs s ''data'') then substituteBackslashes s else s)"
  obtain str len original where r: "plainRelativeBuffer enc rel = (str, len, original)" by (metis prod_cases3)
  have "len \<le> length str" by (rule relativeBuffer_length [OF r])
  then have "\<exists>k. map_option (\<lambda>b. parseBytes (cstring b) None) (appendASCII (left (m_string nullURL) (m_queryEnd nullURL)) str len) = Some k"
    by (simp add: appendASCII_def)
  moreover have "resolve enc nullURL s = plainResolve enc nullURL s" by (rule resolve_plain) (simp add: n)
  ultimately show ?thesis
    unfolding plainResolve_def Let_def rel_def [symmetric] r prod.case by (auto simp: n split: option.splits)
qed

definition createFromString :: "environment \<Rightarrow> securityState \<Rightarrow> wtf_string \<Rightarrow> SecurityOrigin" where
  "createFromString env st s = createOrigin env st (fromNull env s) 0"

definition createFromDatabaseIdentifier :: "environment \<Rightarrow> securityState \<Rightarrow> wtf_string \<Rightarrow> SecurityOrigin" where
  "createFromDatabaseIdentifier env st s =
     (let none = createOrigin env st nullURL 0;
          separator1 = findChar s 0x5F 0;
          separator2 = (case reverseFindChar s 0x5F (-1) of Some i \<Rightarrow> i | None \<Rightarrow> -1)
      in if separator1 = -1 then none
         else if separator2 = -1 then none
         else if separator1 = separator2 then none
         else let n = charactersToInt (spaceU env) (substring s (length s - (length s - nat separator2 - 1)) (Some (length s - nat separator2 - 1)));
                  number = (case n of Some i \<Rightarrow> i | None \<Rightarrow> 0);
                  portAbsent = (separator2 = int (length s) - 1)
              in if \<not> (n \<noteq> None \<or> portAbsent) then none
                 else if number < 0 \<or> 65535 < number then none
                 else let protocolName = substring s 0 (Some (nat separator1));
                          hostName = substring s (nat separator1 + 1) (Some (nat (separator2 - separator1 - 1)));
                          hostName = decodeURLEscapeSequences (decodeBytes env) hostName
                      in createOrigin env st (fromNull env (protocolName @ ustr ''://'' @ hostName @ ustr '':'' @ from_int (word_of_int number))) 0)"

definition needsEscaping :: "bool list" where
  "needsEscaping =
     replicate 32 True @
     [True, False, True, False, False, True, False, False, False, False, True, False, False, False, False, True] @
     replicate 8 False @ [False, False, True, False, True, False, True, True] @
     replicate 16 False @ replicate 8 False @ [False, False, False, False, True, False, False, False] @
     replicate 16 False @ replicate 8 False @ [False, False, False, False, True, False, False, True]"

definition shouldEscapeUChar :: "uchar \<Rightarrow> bool" where
  "shouldEscapeUChar c = (if 127 < c then False else needsEscaping ! unat c)"

definition escapeHostUnit :: "uchar \<Rightarrow> wtf_string" where
  "escapeHostUnit c =
     (if shouldEscapeUChar c
      then [0x25, ustr ''0123456789ABCDEF'' ! unat (drop_bit 4 c AND 0xF), ustr ''0123456789ABCDEF'' ! unat (c AND 0xF)]
      else [c])"

definition encodedHost :: "wtf_string \<Rightarrow> wtf_string" where
  "encodedHost h = concat (map escapeHostUnit h)"

definition databaseIdentifier :: "SecurityOrigin \<Rightarrow> wtf_string \<times> SecurityOrigin" where
  "databaseIdentifier a =
     (let a = (if m_encodedHost a = [] then a\<lparr>m_encodedHost := encodedHost (m_host a)\<rparr> else a)
      in (m_protocol a @ [0x5F] @ m_encodedHost a @ [0x5F] @ from_unsigned (ucast (m_port a)), a))"

subsection \<open>White lists\<close>

definition settingOf :: "bool \<Rightarrow> subdomainSetting" where
  "settingOf allow = (if allow then AllowSubdomains else DisallowSubdomains)"

definition addOriginAccessWhitelistEntry ::
    "environment \<Rightarrow> SecurityOrigin \<Rightarrow> wtf_string \<Rightarrow> wtf_string \<Rightarrow> bool \<Rightarrow> securityState \<Rightarrow> securityState" where
  "addOriginAccessWhitelistEntry env sourceOrigin destinationProtocol destinationDomains allow st =
     (if isEmptyOrigin sourceOrigin then st
      else let sourceString = toString sourceOrigin;
               entries = (case originAccessMap st sourceString of Some l \<Rightarrow> l | None \<Rightarrow> [])
           in st\<lparr>originAccessMap := (originAccessMap st)(sourceString \<mapsto>
                  entries @ [newOriginAccessEntry env destinationProtocol destinationDomains (settingOf allow)])\<rparr>)"

fun removeFirst :: "('a \<Rightarrow> bool) \<Rightarrow> 'a list \<Rightarrow> 'a list option" where
  "removeFirst P [] = None"
| "removeFirst P (x # xs) = (if P x then Some xs else map_option ((#) x) (removeFirst P xs))"

definition removeOriginAccessWhitelistEntry ::
    "environment \<Rightarrow> SecurityOrigin \<Rightarrow> wtf_string \<Rightarrow> wtf_string \<Rightarrow> bool \<Rightarrow> securityState \<Rightarrow> securityState" where
  "removeOriginAccessWhitelistEntry env sourceOrigin destinationProtocol destinationDomains allow st =
     (if isEmptyOrigin sourceOrigin then st
      else case originAccessMap st (toString sourceOrigin) of
             None \<Rightarrow> st
           | Some entries \<Rightarrow>
               (case removeFirst (\<lambda>e. sameEntry env e (newOriginAccessEntry env destinationProtocol destinationDomains (settingOf allow))) entries of
                  None \<Rightarrow> st
                | Some [] \<Rightarrow> st\<lparr>originAccessMap := (originAccessMap st)(toString sourceOrigin := None)\<rparr>
                | Some rest \<Rightarrow> st\<lparr>originAccessMap := (originAccessMap st)(toString sourceOrigin \<mapsto> rest)\<rparr>))"

definition resetOriginAccessWhitelists :: "securityState \<Rightarrow> securityState" where
  "resetOriginAccessWhitelists st = st\<lparr>originAccessMap := Map.empty\<rparr>"

end
