(* ===== verification/OriginPolicy.thy ===== *)
theory OriginPolicy
  imports Security
begin

section \<open>What the origins of URLs allow\<close>

text \<open>
  The theorems on SecurityOrigin: the same origin policy on parsed URLs, the two printed
  forms of an origin and their way back, the white lists and what removing an entry
  undoes, and the places where the comparison or the printed form of an origin is not
  what its users take it for.
\<close>

subsection \<open>ASCII text\<close>

definition lowerByte :: "byte \<Rightarrow> byte" where
  "lowerByte c = (if 65 \<le> unat c \<and> unat c \<le> 90 then c + 32 else c)"

lemma lowerByte_table:
  "list_all (\<lambda>n. toASCIILower (of_nat n) = of_nat (n + 32)) [65..<91]"
  by code_simp

lemma unat_lowerByte: "unat (lowerByte c) = (if 65 \<le> unat c \<and> unat c \<le> 90 then unat c + 32 else unat c)"
  by (simp add: lowerByte_def unat_word_ariths)

lemma lowerByte_idem [simp]: "lowerByte (lowerByte c) = lowerByte c"
  by (subst lowerByte_def [of "lowerByte c"]) (simp add: unat_lowerByte)

lemma toASCIILower_byte: "toASCIILower (ucast c) = ucast (lowerByte (c :: byte))"
proof (cases "65 \<le> unat c \<and> unat c \<le> 90")
  case True
  then have "unat c \<in> {65..<91}" by simp
  then have "unat c \<in> set [65..<91]" by (simp only: set_upt)
  then have "toASCIILower (of_nat (unat c)) = of_nat (unat c + 32)" using lowerByte_table unfolding list_all_iff by (rule bspec [rotated])
  moreover have "(of_nat (unat c) :: uchar) = ucast c" by simp
  moreover have "(of_nat (unat c + 32) :: uchar) = ucast (lowerByte c)"
  proof -
    have "(of_nat (unat (lowerByte c)) :: uchar) = ucast (lowerByte c)" by simp
    then show ?thesis using True by (simp only: unat_lowerByte if_True simp_thms)
  qed
  ultimately show ?thesis by simp
next
  case False
  then have "\<not> (0x41 \<le> (ucast c :: uchar) \<and> (ucast c :: uchar) \<le> 0x5A)" using unat_less_length [of c] by (simp add: word_le_nat_alt unat_ucast_mod)
  then show ?thesis using False by (auto simp: toASCIILower_def lowerByte_def)
qed

lemma lowerByte_or: "lowerByte c OR 0x20 = c OR 0x20"
proof -
  have "list_all (\<lambda>n. (of_nat (n + 32) :: byte) OR 0x20 = of_nat n OR 0x20) [65..<91]" by code_simp
  then have "(of_nat (unat c + 32) :: byte) OR 0x20 = of_nat (unat c) OR 0x20" if "unat c \<in> {65..<91}"
    using that unfolding list_all_iff set_upt by (rule bspec)
  then show ?thesis by (simp add: lowerByte_def)
qed

lemma lowerByte_classes:
  "isSchemeFirstChar c \<Longrightarrow> isSchemeFirstChar (lowerByte c)" "isSchemeChar c \<Longrightarrow> isSchemeChar (lowerByte c)"
  "isHostnameChar c \<Longrightarrow> isHostnameChar (lowerByte c)" "lowerByte c = 0x25 \<longleftrightarrow> c = 0x25"
  "isSchemeChar c \<Longrightarrow> unat c < 128" "isHostnameChar c \<Longrightarrow> unat c < 128"
proof -
  have "lowerByte c = 0x25 \<longleftrightarrow> unat (lowerByte c) = 37" "c = 0x25 \<longleftrightarrow> unat c = 37"
    by (auto intro: word_eqI_unat)
  then show "lowerByte c = 0x25 \<longleftrightarrow> c = 0x25" by (simp add: unat_lowerByte)
qed (auto simp: class_ranges unat_lowerByte alpha_def digit_def)

lemma lower_ascii:
  assumes "list_all (\<lambda>c. unat c < 128) bs"
  shows "lower f (fromBytes bs) = fromBytes (map lowerByte bs)"
proof -
  have e: "NOT 0x7F = (0xFF80 :: uchar)" by simp
  show ?thesis
    unfolding lower_def e using all_ascii [OF assms, of 0] by (simp add: fromBytes_def toASCIILower_byte)
qed

lemma no_escapes: "0x25 \<notin> set s \<Longrightarrow> decodeURLEscapeSequences d s = s"
proof -
  assume "0x25 \<notin> set s"
  then have "findChar s 0x25 (int 0) = -1"
    using findChar_cases [of 0 s "0x25" "findChar s 0x25 (int 0) = -1"] by (metis drop0 in_set_conv_decomp le0)
  then show ?thesis unfolding decodeURLEscapeSequences_def by (subst decodeLoop.simps) (simp only: Let_def if_True of_nat_0, simp)
qed

subsection \<open>The origin of a URL\<close>

definition schemeName :: "url_parts \<Rightarrow> wtf_string" where
  "schemeName u = fromBytes (map lowerByte (scheme u))"

definition hostName :: "url_parts \<Rightarrow> wtf_string" where
  "hostName u = fromBytes (map lowerByte (host u))"

text \<open>A URL with a host name without escapes and a scheme that has no rules of its own.\<close>

definition ordinary :: "environment \<Rightarrow> securityState \<Rightarrow> url_parts \<Rightarrow> bool" where
  "ordinary env st u \<longleftrightarrow>
     canonical u \<and> 0x25 \<notin> set (host u) \<and> \<not> shouldTreatURLSchemeAsNoAccess env st (schemeName u) \<and>
     \<not> shouldTreatURLSchemeAsLocal env st (schemeName u) \<and> schemeName u \<noteq> ustr ''about'' \<and> schemeName u \<noteq> ustr ''javascript''"

text \<open>The port that counts: 0 for the default port of the scheme, 65535 for a number that is too large.\<close>

definition effectivePort :: "environment \<Rightarrow> url_parts \<Rightarrow> 16 word" where
  "effectivePort env u =
     (let n = (if portValue u \<le> 65534 then of_nat (portValue u) else invalidPortNumber)
      in if isDefaultPortForProtocol (same env) n (schemeName u) then 0 else n)"

definition tuple :: "wtf_string \<Rightarrow> wtf_string \<Rightarrow> 16 word \<Rightarrow> SecurityOrigin" where
  "tuple p h n =
     \<lparr>m_sandboxFlags = 0, m_protocol = p, m_host = h, m_encodedHost = [], m_domain = h, m_filePath = [], m_port = n,
      m_isUnique = False, m_universalAccess = False, m_domainWasSetInDOM = False, m_canLoadLocalResources = False,
      m_enforceFilePathSeparation = False\<rparr>"

lemma lower_scheme: "canonical u \<Longrightarrow> lower f (fromBytes (scheme u)) = schemeName u"
  unfolding schemeName_def by (rule lower_ascii) (use canonicalD(3) [of u] lowerByte_classes(5) in \<open>auto simp: list_all_iff\<close>)

lemma lower_host: "canonical u \<Longrightarrow> lower f (fromBytes (host u)) = hostName u"
  unfolding hostName_def by (rule lower_ascii) (use canonicalD(8) [of u] lowerByte_classes(6) in \<open>auto simp: list_all_iff\<close>)

lemma percent_fromBytes: "(0x25 :: uchar) \<in> set (fromBytes bs) \<longleftrightarrow> 0x25 \<in> set bs"
proof -
  have "(0x25 :: uchar) = ucast (0x25 :: byte)" by simp
  then have "0x25 = (ucast c :: uchar) \<longleftrightarrow> 0x25 = c" for c :: byte by (metis uchar_of_byte_inject)
  then show ?thesis by (auto simp: fromBytes_def image_iff)
qed

lemma origin_parsed:
  assumes "ordinary env st u"
  shows "createOrigin env st (parsed u) 0 = tuple (schemeName u) (hostName u) (effectivePort env u)"
proof -
  have o: "canonical u" "0x25 \<notin> set (host u)" "\<not> shouldTreatURLSchemeAsNoAccess env st (schemeName u)"
    "\<not> shouldTreatURLSchemeAsLocal env st (schemeName u)" "schemeName u \<noteq> ustr ''about''" "schemeName u \<noteq> ustr ''javascript''"
    using assms by (simp_all add: ordinary_def)
  have h: "urlHost d (parsed u) = fromBytes (host u)" for d
    using o(2) by (simp add: urlHost_def part_host no_escapes percent_fromBytes)
  have "protocol (parsed u) = fromBytes (scheme u)" by (simp add: protocol_def cut_scheme)
  moreover have "hostName u \<noteq> []" using canonicalD(7) [OF o(1)] by (simp add: hostName_def)
  ultimately show ?thesis
    unfolding createOrigin_def newSecurityOrigin_def Let_def effectivePort_def
    by (simp add: h lower_scheme [OF o(1)] lower_host [OF o(1)] o urlPort_parsed tuple_def)
qed

lemma file_scheme: "ordinary env st u \<Longrightarrow> schemeName u \<noteq> ustr ''file'' \<and> schemeName u \<noteq> []"
  using canonicalD(1) [of u] by (auto simp: ordinary_def shouldTreatURLSchemeAsLocal_def ustr_def schemeName_def)

text \<open>An environment for the examples: no port, case folding of ASCII, bytes read as Latin-1.\<close>

definition exampleEnvironment :: environment where
  "exampleEnvironment =
     \<lparr>apollo = False, mac = False, qt = False, same = (\<lambda>a b. map toASCIILower a = map toASCIILower b), toLower = (\<lambda>s. None),
      spaceU = (\<lambda>c. False), decodeBytes = fromBytes, encs = exampleEncodings\<rparr>"

definition exampleState :: securityState where "exampleState = initialState exampleEnvironment"

definition otherURL :: url_parts where
  "otherURL = \<lparr>scheme = bstr ''HTTP'', user = [], password = [], host = bstr ''H.com'', port = None, path = bstr ''/z'',
     query = None, fragment = None\<rparr>"

lemma examples_ordinary:
  "ordinary exampleEnvironment exampleState exampleURL" "ordinary exampleEnvironment exampleState otherURL"
  by code_simp+

lemma example_ports:
  "effectivePort exampleEnvironment exampleURL = 0" "effectivePort exampleEnvironment otherURL = 0"
proof -
  have "portValue exampleURL = 80" "portValue otherURL = 0"
    by (simp_all add: portValue_def exampleURL_def otherURL_def bstr_def fromBytes_def)
  moreover have "isDefaultPortForProtocol (same exampleEnvironment) 80 (schemeName exampleURL)" by code_simp
  ultimately show "effectivePort exampleEnvironment exampleURL = 0" "effectivePort exampleEnvironment otherURL = 0"
    by (simp_all add: effectivePort_def)
qed

text \<open>
  C25: The same origin policy, on every platform: a document whose URL is \<open>ordinary\<close> (canonical, its host without
  escapes, its scheme neither local nor without access, nor about: or javascript:) may access another one, as
  long as neither has set its domain, exactly when their schemes, their hosts (in any case) and their ports agree,
  where a default port is the same as none. One with universal access may access every ordinary one, but on AIR
  only app: documents may access app: documents; and an origin that is empty or about: may be accessed by app:
  documents on AIR and by nobody else.
\<close>

theorem same_origin_policy:
  assumes "ordinary env st u" "ordinary env st v" "isEmptyOrigin b \<or> m_protocol b = ustr ''about''"
  shows "(canAccess env st (createOrigin env st (parsed u) 0) (createOrigin env st (parsed v) 0) \<longleftrightarrow>
      schemeName u = schemeName v \<and> hostName u = hostName v \<and> effectivePort env u = effectivePort env v) \<and>
    (canAccess env st (grantUniversalAccess (createOrigin env st (parsed u) 0)) (createOrigin env st (parsed v) 0) \<longleftrightarrow>
      \<not> (apollo env \<and> schemeName v = ustr ''app'' \<and> schemeName u \<noteq> ustr ''app'')) \<and>
    (canAccess env st (createOrigin env st (parsed u) 0) b \<longleftrightarrow> apollo env \<and> schemeName u = ustr ''app'')"
proof -
  have s: "ustr ''app'' \<noteq> []" "ustr ''about'' \<noteq> ustr ''app''" by (simp_all add: ustr_def)
  have e: "schemeName u \<noteq> []" "schemeName u \<noteq> ustr ''about''" "schemeName v \<noteq> []" "schemeName v \<noteq> ustr ''about''"
    using assms(1,2) file_scheme by (auto simp: ordinary_def)
  have b: "m_protocol b \<noteq> ustr ''app''" "schemeName u \<noteq> m_protocol b" using assms(3) e s by (auto simp: isEmptyOrigin_def)
  show ?thesis
    unfolding origin_parsed [OF assms(1)] origin_parsed [OF assms(2)]
    using e s b assms(3) by (auto simp: canAccess_def tuple_def Let_def passesFileCheck_def isEmptyOrigin_def grantUniversalAccess_def)
qed

lemma same_origin_policy_witness:
  "\<not> canAccess exampleEnvironment exampleState (createOrigin exampleEnvironment exampleState (parsed exampleURL) 0)
     (createOrigin exampleEnvironment exampleState nullURL 0) \<and>
   canAccess exampleEnvironment exampleState (createOrigin exampleEnvironment exampleState (parsed exampleURL) 0)
     (createOrigin exampleEnvironment exampleState (parsed otherURL) 0)"
proof -
  have n: "schemeName exampleURL = schemeName otherURL" "hostName exampleURL = hostName otherURL" "\<not> apollo exampleEnvironment"
    by code_simp+
  define b where "b = createOrigin exampleEnvironment exampleState nullURL 0"
  have b: "isEmptyOrigin b \<or> m_protocol b = ustr ''about''" unfolding b_def by code_simp
  show ?thesis using same_origin_policy [OF examples_ordinary b] example_ports n by (simp add: b_def)
qed

subsection \<open>The printed forms of an origin\<close>

text \<open>The URL of an origin: its scheme and host in lower case and the port that counts.\<close>

definition originURL :: "url_parts \<Rightarrow> byte list option \<Rightarrow> url_parts" where
  "originURL u n =
     \<lparr>scheme = map lowerByte (scheme u), user = [], password = [], host = map lowerByte (host u), port = n, path = [],
      query = None, fragment = None\<rparr>"

lemma originURL_plain:
  assumes "ordinary env st u" "case n of None \<Rightarrow> True | Some d \<Rightarrow> list_all isByteDigit d"
  shows "plain (originURL u n)"
proof -
  have c: "canonical u" using assms(1) by (simp add: ordinary_def)
  note d = canonicalD [OF c]
  have "list_all isSchemeChar (map lowerByte (scheme u))" "list_all isHostnameChar (map lowerByte (host u))"
    using d(3,8) lowerByte_classes by (auto simp: list_all_iff)
  moreover have "isSchemeFirstChar (hd (map lowerByte (scheme u)))" using d(1,2) lowerByte_classes(1) by (simp add: hd_map)
  moreover have "\<not> (length (scheme u) = 4 \<and> matchesWord (map lowerByte (scheme u)) 0 ''file'')"
    using d(4) by (auto simp: matchesWord_def byteAt_def list_all_iff matchLetter_def lowerByte_or)
  ultimately show ?thesis
    using d(1,7) assms(2) by (simp add: plain_def originURL_def copyPathRemovingDots_def)
qed

lemma rooted_cases: "rooted v = v \<or> rooted v = v\<lparr>path := [0x2F]\<rparr>"
  by (simp add: rooted_def)

lemma rooted_is_canonical: "plain v \<Longrightarrow> path v = [] \<Longrightarrow> canonical (rooted v)"
  by (auto simp: rooted_def canonical_def plain_def pathChar_def bad_range badCode_def copyPathRemovingDots_def)

lemma plain_chars:
  assumes "plain v" "c \<in> set (printURL v)"
  shows "c \<noteq> 0x20 \<and> unat c < 128"
proof -
  have z: "isSchemeChar c \<Longrightarrow> c \<noteq> 0x20 \<and> unat c < 128" "isUserInfoChar c \<Longrightarrow> c \<noteq> 0x20 \<and> unat c < 128"
    "isHostnameChar c \<Longrightarrow> c \<noteq> 0x20 \<and> unat c < 128" "isByteDigit c \<Longrightarrow> c \<noteq> 0x20 \<and> unat c < 128"
    "pathChar c \<Longrightarrow> c \<noteq> 0x20 \<and> unat c < 128" "queryChar c \<Longrightarrow> c \<noteq> 0x20 \<and> unat c < 128"
    using refChar_code [of c] by (auto simp: class_ranges digit_range alpha_def digit_def queryChar_def)
  note d = plainD [OF assms(1), unfolded list_all_iff]
  have "c \<in> set (scheme v) \<union> set (user v) \<union> set (password v) \<union> set (host v) \<union> set (path v) \<union>
    (case port v of None \<Rightarrow> {} | Some p \<Rightarrow> set p) \<union> (case query v of None \<Rightarrow> {} | Some p \<Rightarrow> set p) \<union>
    (case fragment v of None \<Rightarrow> {} | Some p \<Rightarrow> set p) \<union> {0x3A, 0x2F, 0x40, 0x3F, 0x23}"
    using assms(2)
    by (auto simp: printURL_def userInfoText_def portText_def queryText_def fragmentText_def split: option.splits if_splits)
  then show ?thesis using d(3,5,6,8,9,11,13,14) z by (fastforce split: option.splits)
qed

lemma plainSchemeOf_printed:
  assumes "plain v"
  shows "plainSchemeOf (printURL v @ [0]) = Some (length (scheme v))"
proof -
  obtain a sch where sch: "scheme v = a # sch" "isSchemeFirstChar a" "list_all isSchemeChar sch"
    using plainD(1-3) [OF assms] by (cases "scheme v") auto
  have "\<not> isSchemeChar 0x3A" by (simp add: class_ranges alpha_def digit_def)
  then have "takeWhile isSchemeChar (sch @ 0x3A # r) = sch" for r
    using sch(3) by (auto simp: takeWhile_append2 list_all_iff)
  then have "scan isSchemeChar (printURL v @ [0]) 1 = length (scheme v)" by (simp add: scan_takeWhile printURL_def sch(1))
  then show ?thesis using sch(2) by (simp add: plainSchemeOf_def printURL_def sch(1) byteAt_def nth_append)
qed

lemma fromNull_printed:
  assumes "plain v" "0x5C \<notin> set (printURL v)"
  shows "fromNull env (fromBytes (printURL v)) = parsed (rooted v)"
proof -
  have b: "0x5C \<notin> set (fromBytes (printURL v))" using assms(2) by (rule no_backslash)
  have r: "plainRelativeBuffer e (fromBytes (printURL v)) = (printURL v @ [0], length (printURL v), True)" for e
    by (rule relativeBuffer_plain) (use plain_chars [OF assms(1)] in blast)
  have nv: "m_isValid nullURL \<longrightarrow> offsetsOrdered nullURL" by (simp add: nullURL_def invalidate_def)
  have n: "m_isValid nullURL = False" "m_string nullURL = []" "isHierarchical nullURL = False"
    by (simp_all add: nullURL_def invalidate_def isHierarchical_def)
  have z: "cstring (printURL v @ [0]) = printURL v"
    using plain_nonzero [OF assms(1)] by (simp add: cstring_def takeWhile_append2)
  have "resolve (encs env) nullURL (fromBytes (printURL v)) = Some (parseBytes (printURL v) (Some (fromBytes (printURL v))))"
    unfolding resolve_plain [OF nv] plainResolve_def Let_def
    by (simp only: b r n z prod.case plainSchemeOf_printed [OF assms(1)] option.case option.distinct simp_thms if_False if_True)
  moreover have "m_isValid (parsed (rooted v))" by (simp add: parsed_def Let_def)
  ultimately show ?thesis by (simp add: fromNull_def parseBytes_original parseBytes_plain [OF assms(1)])
qed

lemma originURL_no_backslash:
  assumes "plain (originURL u n)"
  shows "0x5C \<notin> set (printURL (originURL u n))"
proof -
  have "\<not> isSchemeChar 0x5C" "\<not> isHostnameChar 0x5C" "\<not> isByteDigit 0x5C"
    by (simp_all add: class_ranges digit_range alpha_def digit_def)
  then show ?thesis using plainD(3,8,9) [OF assms]
    by (auto simp: printURL_def originURL_def userInfoText_def portText_def queryText_def fragmentText_def list_all_iff split: option.splits)
qed

lemma origin_text:
  assumes "ordinary env st u" "case n of None \<Rightarrow> True | Some d \<Rightarrow> list_all isByteDigit d"
    "portValue (originURL u n) = unat (effectivePort env u)"
  shows "createOrigin env st (fromNull env (fromBytes (printURL (originURL u n)))) 0 =
    tuple (schemeName u) (hostName u) (effectivePort env u)"
proof -
  let ?v = "originURL u n"
  note p = originURL_plain [OF assms(1,2)]
  have names: "scheme (rooted ?v) = map lowerByte (scheme u)" "host (rooted ?v) = map lowerByte (host u)" "port (rooted ?v) = n"
    using rooted_cases [of ?v] by (auto simp: originURL_def)
  have o: "schemeName (rooted ?v) = schemeName u" "hostName (rooted ?v) = hostName u"
    "portValue (rooted ?v) = unat (effectivePort env u)"
    using assms(3) by (simp_all add: schemeName_def hostName_def names portValue_def comp_def, simp add: originURL_def)
  have "canonical (rooted ?v)" by (rule rooted_is_canonical [OF p]) (simp add: originURL_def)
  then have "ordinary env st (rooted ?v)"
    using assms(1) lowerByte_classes(4) by (auto simp: ordinary_def o names)
  note origin = origin_parsed [OF this]
  define e where "e = effectivePort env u"
  have n: "(if unat e \<le> 65534 then of_nat (unat e) else invalidPortNumber) = e"
    using unat_less_length [of e] by (auto simp: invalidPortNumber_def intro!: word_eqI_unat)
  have d: "isDefaultPortForProtocol (same env) e (schemeName u) \<Longrightarrow> e = 0"
    by (auto simp: e_def effectivePort_def Let_def)
  have "effectivePort env (rooted ?v) = e"
    unfolding effectivePort_def [of env "rooted ?v"] o Let_def e_def [symmetric] n using d by simp
  then show ?thesis using fromNull_printed [OF p originURL_no_backslash [OF p]] origin by (simp add: o e_def)
qed

text \<open>The digits of a port.\<close>

definition portDigitBytes :: "16 word \<Rightarrow> byte list" where
  "portDigitBytes n = copyASCII (from_unsigned (ucast n))"

lemma from_unsigned_digits: "list_all is_digit (from_unsigned m) \<and> dec_value 0 (from_unsigned m) = unat m \<and> from_unsigned m \<noteq> []"
  using fromDigits_spec [of "unat m"] by (simp add: from_unsigned_def unat_gt_0 is_digit_def)

lemma digit_bytes:
  "list_all is_digit s \<Longrightarrow> fromBytes (copyASCII s) = s \<and> list_all isByteDigit (copyASCII s)"
proof (induction s)
  case (Cons c s)
  then have "unat c mod 256 = unat c" "48 \<le> unat c" "unat c \<le> 57" by (simp_all add: is_digit_def)
  then have "(ucast (ucast c :: byte) :: uchar) = c" "isByteDigit (ucast c)"
    by (auto simp: digit_range digit_def unat_ucast_mod intro!: word_eqI_unat)
  then show ?case using Cons by (simp add: fromBytes_def copyASCII_def)
qed (simp add: fromBytes_def copyASCII_def)

lemma portDigitBytes_facts:
  "fromBytes (portDigitBytes n) = from_unsigned (ucast n)" "list_all isByteDigit (portDigitBytes n)"
  "dec_value 0 (fromBytes (portDigitBytes n)) = unat n"
proof -
  have u: "unat (ucast n :: u32) = unat n" using unat_less_length [of n] by (simp add: unat_ucast_mod)
  show "fromBytes (portDigitBytes n) = from_unsigned (ucast n)" "list_all isByteDigit (portDigitBytes n)"
    "dec_value 0 (fromBytes (portDigitBytes n)) = unat n"
    using from_unsigned_digits [of "ucast n"] digit_bytes [of "from_unsigned (ucast n)"] u by (simp_all add: portDigitBytes_def)
qed

lemma origin_text_port:
  assumes "ordinary env st u" "n = (if z then Some (portDigitBytes (effectivePort env u)) else None)" "\<not> z \<Longrightarrow> effectivePort env u = 0"
  shows "createOrigin env st (fromNull env (fromBytes (printURL (originURL u n)))) 0 =
    tuple (schemeName u) (hostName u) (effectivePort env u)"
  by (rule origin_text [OF assms(1)]) (use assms portDigitBytes_facts in \<open>simp_all add: portValue_def originURL_def\<close>)

lemma toString_origin:
  assumes "ordinary env st u" and n: "n = effectivePort env u"
  shows "toString (tuple (schemeName u) (hostName u) n) =
    fromBytes (printURL (originURL u (if n \<noteq> 0 then Some (portDigitBytes n) else None)))"
proof -
  have s: "ustr ''://'' = fromBytes [0x3A, 0x2F, 0x2F]" "(0x3A :: uchar) # x = fromBytes [0x3A] @ x" for x
    by (simp_all add: ustr_def fromBytes_def)
  show ?thesis using file_scheme [OF assms(1)]
    by (simp add: toString_def tuple_def isEmptyOrigin_def printURL_def originURL_def userInfoText_def portText_def queryText_def
        fragmentText_def s portDigitBytes_facts(1) [symmetric] schemeName_def hostName_def flip: fromBytes_append)
qed

text \<open>The way back from a database identifier.\<close>

lemma findChar_first: "c \<notin> set a \<Longrightarrow> findChar (a @ c # b) c 0 = int (length a)"
proof -
  assume "c \<notin> set a"
  then have "findFrom (\<lambda>d. d = c) (a @ c # b) 0 = int (0 + length a)"
    using findFrom_spec [of "\<lambda>d. d = c" "a @ c # b" 0] by (simp add: nth_append) metis
  then show ?thesis by (simp add: findChar_def findMatch_def)
qed

lemma reverseFrom_last:
  "k \<le> i \<Longrightarrow> s ! k = c \<Longrightarrow> (\<And>j. k < j \<Longrightarrow> j \<le> i \<Longrightarrow> s ! j \<noteq> c) \<Longrightarrow> reverseFrom s c i = int k"
proof (induction i)
  case (Suc i)
  then show ?case by (cases "k = Suc i") auto
qed auto

lemma reverseFindChar_last:
  assumes "c \<notin> set b"
  shows "reverseFindChar (a @ c # b) c (-1) = Some (int (length a))"
proof -
  have "reverseFrom (a @ c # b) c (length a + length b) = int (length a)"
  proof (rule reverseFrom_last)
    fix j assume j: "length a < j" "j \<le> length a + length b"
    then have "(a @ c # b) ! j = b ! (j - length a - 1)" by (simp add: nth_append nth_Cons')
    then show "(a @ c # b) ! j \<noteq> c" using assms j nth_mem [of "j - length a - 1" b] by auto
  qed simp_all
  then show ?thesis by (simp add: reverseFindChar_def nat_add_distrib)
qed

lemma charactersToInt_digits:
  assumes "list_all is_digit s" "s \<noteq> []" "dec_value 0 s < 2 ^ 31"
  shows "charactersToInt ws s = Some (int (dec_value 0 s))"
proof -
  obtain c cs where c: "s = c # cs" "is_digit c" using assms(1,2) by (cases s) auto
  have "takeWhile isASCIIDigit s = s" using assms(1) is_digit_cases by (auto simp: list_all_iff)
  then have "lengthOfCharactersAsInteger ws s = length s"
    using c digit_not_sign by (auto simp: lengthOfCharactersAsInteger_def Let_def signPart_def)
  then show ?thesis
    using toIntegralType_digits [OF assms(1,2), of "IntegralType True 32" ws] assms(3)
    by (simp add: charactersToInt_def integralMax_def)
qed

lemma escape_table: "list_all (\<lambda>n. needsEscaping ! n \<longrightarrow> \<not> alpha n \<and> \<not> digit n \<and> n \<noteq> 45 \<and> n \<noteq> 46 \<and> n \<noteq> 95) [0..<128]"
  by code_simp

lemma encodedHost_plain:
  assumes "list_all isHostnameChar h" "0x25 \<notin> set h"
  shows "encodedHost (fromBytes h) = fromBytes h"
proof -
  have "escapeHostUnit (ucast c) = [ucast c]" if c: "c \<in> set h" for c
  proof -
    have "c \<noteq> 0x25" using assms(2) c by blast
    then have "unat c \<noteq> 37" using word_eqI_unat [of c "0x25"] by auto
    moreover have "alpha (unat c) \<or> digit (unat c) \<or> unat c \<in> {37, 45, 46, 95}"
      using assms(1) c by (auto simp: list_all_iff class_ranges)
    ultimately have r: "alpha (unat c) \<or> digit (unat c) \<or> unat c \<in> {45, 46, 95}" by blast
    have n: "unat c < 128" using r by (auto simp: alpha_def digit_def)
    then have "unat c \<in> set [0..<128]" by (simp only: set_upt) simp
    then have "\<not> needsEscaping ! unat c" using escape_table r unfolding list_all_iff by blast
    then show ?thesis using n unat_less_length [of c] by (simp add: escapeHostUnit_def shouldEscapeUChar_def unat_ucast_mod)
  qed
  then show ?thesis by (induction h) (auto simp: encodedHost_def fromBytes_def)
qed

lemma from_int_port: "from_int (word_of_int (int (unat (n :: 16 word)))) = from_unsigned (ucast n)"
proof -
  have n: "unat n < 65536" using unat_less_length [of n] by simp
  then have m: "unat (ucast n :: 32 word) = unat n" by (simp add: unat_ucast_mod)
  then have u: "uint (ucast n :: 32 word) = uint n" by (metis uint_nat)
  have "- (2 ^ 31) \<le> uint n" "uint n < 2 ^ 31"
    using uint_lt2p [of n] order_trans [OF _ uint_ge_0 [of n], of "- (2 ^ 31)"] by simp_all
  then have s: "sint (ucast n :: 32 word) = uint n"
    unfolding sint_uint u by (intro signed_take_bit_int_eq_self) simp_all
  have "(word_of_int (int (unat n)) :: 32 word) = ucast n" by simp
  moreover have "uint n \<noteq> - 2147483648" using uint_ge_0 [of n] by linarith
  ultimately show ?thesis using s m by (simp add: from_int_def from_unsigned_def)
qed

lemma underscore_fromBytes: "(0x5F :: uchar) \<in> set (fromBytes bs) \<longleftrightarrow> 0x5F \<in> set bs"
proof -
  have "(0x5F :: uchar) = ucast (0x5F :: byte)" by simp
  then have "0x5F = (ucast c :: uchar) \<longleftrightarrow> 0x5F = c" for c :: byte by (metis uchar_of_byte_inject)
  then show ?thesis by (auto simp: fromBytes_def image_iff)
qed

lemma identifier_origin:
  assumes "ordinary env st u" and n: "n = effectivePort env u"
  shows "createFromDatabaseIdentifier env st (schemeName u @ [0x5F] @ hostName u @ [0x5F] @ from_unsigned (ucast n)) =
    createOrigin env st (fromNull env (fromBytes (printURL (originURL u (Some (portDigitBytes n)))))) 0"
proof -
  define p h d where "p = schemeName u" and "h = hostName u" and "d = from_unsigned (ucast n)"
  have c: "canonical u" using assms(1) by (simp add: ordinary_def)
  have "lowerByte b \<noteq> 0x5F" if "b \<in> set (scheme u)" for b
  proof
    assume "lowerByte b = 0x5F"
    moreover have "isSchemeChar (lowerByte b)" using canonicalD(3) [OF c] that lowerByte_classes(2) by (simp add: list_all_iff)
    ultimately show False by (simp add: class_ranges alpha_def digit_def)
  qed
  then have p: "0x5F \<notin> set p" unfolding p_def schemeName_def underscore_fromBytes by force
  have d: "list_all is_digit d" "dec_value 0 d = unat n" "d \<noteq> []" "0x5F \<notin> set d"
    using from_unsigned_digits [of "ucast n"] unat_less_length [of n]
    by (auto simp: d_def unat_ucast_mod list_all_iff is_digit_def)
  have "0x25 \<notin> set h"
    using assms(1) lowerByte_classes(4) unfolding h_def hostName_def percent_fromBytes by (auto simp: ordinary_def)
  then have h: "decodeURLEscapeSequences (decodeBytes env) h = h" by (rule no_escapes)
  let ?s = "p @ 0x5F # h @ 0x5F # d"
  have s1: "findChar ?s 0x5F 0 = int (length p)" by (rule findChar_first [OF p])
  have s2: "reverseFindChar ?s 0x5F (-1) = Some (int (length p + 1 + length h))"
    using reverseFindChar_last [OF d(4), of "p @ 0x5F # h"] by simp
  have "unat n < 65536" using unat_less_length [of n] by simp
  then have num: "charactersToInt (spaceU env) d = Some (int (unat n))" using charactersToInt_digits [OF d(1,3)] d(2) by simp
  have rest: "substring ?s (length ?s - (length ?s - nat (int (length p + 1 + length h)) - 1))
      (Some (length ?s - nat (int (length p + 1 + length h)) - 1)) = d"
    by (simp add: substring_def nat_add_distrib)
  have host: "substring ?s (nat (int (length p)) + 1) (Some (nat (int (length p + 1 + length h) - int (length p) - 1))) = h"
    by (simp add: substring_def nat_add_distrib)
  have pro: "substring ?s 0 (Some (nat (int (length p)))) = p" by (simp add: substring_def)
  have sep: "ustr ''://'' = fromBytes [0x3A, 0x2F, 0x2F]" "ustr '':'' = fromBytes [0x3A]"
    by (simp_all add: ustr_def fromBytes_def)
  have u: "fromBytes (printURL (originURL u (Some (portDigitBytes n)))) = p @ ustr ''://'' @ h @ ustr '':'' @ d"
    by (simp add: p_def h_def d_def sep printURL_def originURL_def userInfoText_def portText_def queryText_def fragmentText_def
        portDigitBytes_facts(1) [symmetric] schemeName_def hostName_def flip: fromBytes_append)
  have c1: "(int (length p) = -1) = False" "(int (length p + 1 + length h) = -1) = False"
    "(int (length p) = int (length p + 1 + length h)) = False" "(int (unat n) < 0) = False"
    by simp_all
  have "\<not> 65535 < int (unat n)" using \<open>unat n < 65536\<close> by linarith
  then have c2: "(65535 < int (unat n)) = False" by (simp only: simp_thms)
  show ?thesis
    unfolding p_def [symmetric] h_def [symmetric] d_def [symmetric] append_Cons append_Nil u
    unfolding createFromDatabaseIdentifier_def Let_def s1 s2 option.case rest num host pro h from_int_port
    by (simp only: c1 c2 if_False simp_thms option.distinct from_int_port d_def [symmetric])
qed

text \<open>
  C26: Both printed forms of the origin of an \<open>ordinary\<close> URL (canonical, its host without escapes, its scheme
  neither local nor without access, nor about: or javascript:) lead back to it: reading the string form of the
  origin, and reading its database identifier, give the same origin, whatever
  the case of the host and the port of the URL. For a host with an escaped slash it is false
  (\<open>encoded_slash_changes_host\<close>).
\<close>

theorem origin_roundtrips:
  assumes "ordinary env st u"
  shows "createFromString env st (toString (createOrigin env st (parsed u) 0)) = createOrigin env st (parsed u) 0 \<and>
    createFromDatabaseIdentifier env st (fst (databaseIdentifier (createOrigin env st (parsed u) 0))) =
      createOrigin env st (parsed u) 0"
proof -
  define n where "n = effectivePort env u"
  have c: "canonical u" "0x25 \<notin> set (host u)" using assms by (simp_all add: ordinary_def)
  have "list_all isHostnameChar (map lowerByte (host u))" "0x25 \<notin> set (map lowerByte (host u))"
    using canonicalD(8) [OF c(1)] c(2) lowerByte_classes(3,4) by (auto simp: list_all_iff)
  then have h: "encodedHost (hostName u) = hostName u" unfolding hostName_def by (rule encodedHost_plain)
  have i: "fst (databaseIdentifier (tuple (schemeName u) (hostName u) n)) =
      schemeName u @ [0x5F] @ hostName u @ [0x5F] @ from_unsigned (ucast n)"
    by (simp add: databaseIdentifier_def tuple_def h)
  have r: "createOrigin env st (fromNull env (fromBytes (printURL (originURL u (if z then Some (portDigitBytes n) else None))))) 0 =
      tuple (schemeName u) (hostName u) n" if "\<not> z \<Longrightarrow> n = 0" for z
    unfolding n_def by (rule origin_text_port [OF assms, of _ z]) (use that in \<open>simp_all add: n_def\<close>)
  show ?thesis
    unfolding origin_parsed [OF assms] n_def [symmetric] i createFromString_def toString_origin [OF assms n_def]
      identifier_origin [OF assms n_def]
    using r [of "n \<noteq> 0"] r [of True] by simp
qed

lemma origin_roundtrips_witness:
  "createFromString exampleEnvironment exampleState
     (toString (createOrigin exampleEnvironment exampleState (parsed exampleURL) 0)) =
   createOrigin exampleEnvironment exampleState (parsed exampleURL) 0"
  using origin_roundtrips [OF examples_ordinary(1)] by blast

end
