(* ===== verification/OriginAccess.thy ===== *)
theory OriginAccess
  imports OriginPolicy
begin

section \<open>The white lists and the comparison of origins\<close>

text \<open>
  The table of white lists implements a list of pairs of an origin and what it may access;
  the entries of the table match by host names and their subdomains. At the end the
  places where two origins or their printed forms are taken for each other.
\<close>

subsection \<open>Entries\<close>

lemma endsWith_suffix: "endsWith s t \<longleftrightarrow> (\<exists>p. s = p @ t)"
proof (cases "length t \<le> length s")
  case False
  then show ?thesis by (auto simp: endsWith_def)
next
  case True
  define k where "k = length s - length t"
  have k: "k + length t = length s" "int (length s) - int (length t) = int k" using True by (simp_all add: k_def)
  have at: "occursAt s t k \<longleftrightarrow> drop k s = t" using k(1) by (auto simp: occursAt_def window_def)
  have "i = k" if "k \<le> i" "occursAt s t i" for i using that k(1) by (simp add: occursAt_def)
  then have o: "occursAt s t i \<longleftrightarrow> i = k \<and> drop k s = t" if "k \<le> i" for i using that at by blast
  have "findString (\<lambda>c. c) (=) s t (int k) = int k \<longleftrightarrow> drop k s = t"
  proof (cases "drop k s = t")
    case True
    then show ?thesis using findString_some [of s t k k] o [of k] by simp
  next
    case False
    then have "findString (\<lambda>c. c) (=) s t (int k) = -1" using findString_none [of k s t] o by blast
    then show ?thesis using False by simp
  qed
  moreover have "drop k s = t \<longleftrightarrow> (\<exists>p. s = p @ t)"
    using k(1) by (metis append_take_drop_id append_eq_conv_conj add_diff_cancel_right' length_append)
  ultimately show ?thesis by (simp add: endsWith_def k(2))
qed

text \<open>
  C30: A new entry of a white list, made for a protocol, a host and a setting, matches an origin exactly when its
  protocol in lower case is the one of the origin, and its host in lower case is the one of the origin, or it
  includes subdomains and has no host, or it includes subdomains, its host does not end in a digit, which the code
  takes for an IP address, and the host of the origin ends in a dot and that host: example.com does not match
  badexample.com.
\<close>

theorem matchesOrigin_subdomains:
  "matchesOrigin (newOriginAccessEntry env p h setting) accessed \<longleftrightarrow>
     lower (toLower env) p = m_protocol accessed \<and>
     (lower (toLower env) h = m_host accessed \<or>
      setting = AllowSubdomains \<and>
      (lower (toLower env) h = [] \<or>
       \<not> isASCIIDigit (last (lower (toLower env) h)) \<and> (\<exists>sub. m_host accessed = sub @ 0x2E # lower (toLower env) h)))"
proof -
  have d: "(length h < length s \<and> charAt s (length s - length h - 1) = 0x2E \<and> endsWith s h) \<longleftrightarrow> (\<exists>p. s = p @ 0x2E # h)" for s h
  proof
    assume a: "length h < length s \<and> charAt s (length s - length h - 1) = 0x2E \<and> endsWith s h"
    then obtain p where p: "s = p @ h" by (auto simp: endsWith_suffix)
    then obtain q c where "p = q @ [c]" using a by (cases p rule: rev_cases) auto
    then show "\<exists>p. s = p @ 0x2E # h" using a p by (auto simp: charAt_def nth_append)
  next
    assume "\<exists>p. s = p @ 0x2E # h"
    then obtain p where p: "s = p @ 0x2E # h" ..
    then have "s = (p @ [0x2E]) @ h" by simp
    then have "endsWith s h" unfolding endsWith_suffix by blast
    then show "length h < length s \<and> charAt s (length s - length h - 1) = 0x2E \<and> endsWith s h"
      by (simp add: p charAt_def nth_append)
  qed
  have l: "charAt s (length s - 1) = last s" if "s \<noteq> []" for s using that by (simp add: charAt_def last_conv_nth)
  show ?thesis unfolding matchesOrigin_def d newOriginAccessEntry_def Let_def
    using l [of "lower (toLower env) h"] by (cases setting) auto
qed

subsection \<open>The table of white lists\<close>

datatype command =
    Allow SecurityOrigin wtf_string wtf_string bool
  | Revoke SecurityOrigin wtf_string wtf_string bool
  | Reset

fun perform :: "environment \<Rightarrow> command \<Rightarrow> securityState \<Rightarrow> securityState" where
  "perform env (Allow a p d s) st = addOriginAccessWhitelistEntry env a p d s st"
| "perform env (Revoke a p d s) st = removeOriginAccessWhitelistEntry env a p d s st"
| "perform env Reset st = resetOriginAccessWhitelists st"

text \<open>The specification: the grants in the order in which they were made.\<close>

type_synonym grants = "(wtf_string \<times> OriginAccessEntry) list"

fun removeGrant :: "((wtf_string \<times> OriginAccessEntry) \<Rightarrow> bool) \<Rightarrow> grants \<Rightarrow> grants" where
  "removeGrant P [] = []"
| "removeGrant P (g # gs) = (if P g then gs else g # removeGrant P gs)"

fun grant :: "environment \<Rightarrow> command \<Rightarrow> grants \<Rightarrow> grants" where
  "grant env (Allow a p d s) gs =
     (if isEmptyOrigin a then gs else gs @ [(toString a, newOriginAccessEntry env p d (settingOf s))])"
| "grant env (Revoke a p d s) gs =
     (if isEmptyOrigin a then gs
      else removeGrant (\<lambda>(k, e). k = toString a \<and> sameEntry env e (newOriginAccessEntry env p d (settingOf s))) gs)"
| "grant env Reset gs = []"

definition entriesOf :: "grants \<Rightarrow> wtf_string \<Rightarrow> OriginAccessEntry list" where
  "entriesOf gs k = map snd (filter (\<lambda>g. fst g = k) gs)"

definition tableOf :: "grants \<Rightarrow> wtf_string \<rightharpoonup> OriginAccessEntry list" where
  "tableOf gs = (\<lambda>k. if entriesOf gs k = [] then None else Some (entriesOf gs k))"

lemma entriesOf_append: "entriesOf (gs @ [(k', e)]) k = entriesOf gs k @ (if k' = k then [e] else [])"
  by (simp add: entriesOf_def)

lemma entriesOf_remove:
  "entriesOf (removeGrant (\<lambda>(k, e). k = k' \<and> P e) gs) k =
     (if k = k' then (case removeFirst P (entriesOf gs k) of None \<Rightarrow> entriesOf gs k | Some l \<Rightarrow> l) else entriesOf gs k)"
  by (induction gs) (auto simp: entriesOf_def split: option.splits)

lemma entriesOf_set: "e \<in> set (entriesOf gs k) \<longleftrightarrow> (k, e) \<in> set gs"
  by (force simp: entriesOf_def)

lemma perform_grant:
  "originAccessMap st = tableOf gs \<Longrightarrow> originAccessMap (perform env c st) = tableOf (grant env c gs)"
proof (induction c)
  case (Allow a p d s)
  then show ?case
    by (auto simp: addOriginAccessWhitelistEntry_def Let_def tableOf_def entriesOf_append fun_eq_iff)
next
  case (Revoke a p d s)
  then show ?case
    by (auto simp: removeOriginAccessWhitelistEntry_def tableOf_def entriesOf_remove fun_eq_iff
        split: option.splits list.splits)
next
  case Reset
  then show ?case by (simp add: resetOriginAccessWhitelists_def tableOf_def entriesOf_def fun_eq_iff)
qed

lemma perform_grants:
  "originAccessMap st = tableOf gs \<Longrightarrow> originAccessMap (fold (perform env) cs st) = tableOf (fold (grant env) cs gs)"
  by (induction cs arbitrary: st gs) (auto simp: perform_grant)

lemma whiteListed_iff:
  "isAccessWhiteListed (fold (perform env) cs (initialState env)) a accessed \<longleftrightarrow>
     (\<exists>g \<in> set (fold (grant env) cs []). fst g = toString a \<and> matchesOrigin (snd g) accessed)" (is ?A)
  and no_empty_list: "originAccessMap (fold (perform env) cs (initialState env)) k \<noteq> Some []" (is ?B)
proof -
  have "originAccessMap (initialState env) = tableOf []" by (simp add: initialState_def tableOf_def entriesOf_def fun_eq_iff)
  note m = perform_grants [OF this, of env cs]
  show ?A unfolding isAccessWhiteListed_def m
    using entriesOf_set [of _ "fold (grant env) cs []" "toString a"]
    by (cases "entriesOf (fold (grant env) cs []) (toString a)") (force simp: tableOf_def list_ex_iff)+
  show ?B unfolding m by (simp add: tableOf_def)
qed

text \<open>
  C28: After every sequence of calls that add and remove white list entries or reset the
  table, an origin is white listed for another one exactly when the list of grants that
  are still in force holds one for its string form that matches the other, and the
  table has no empty list.
\<close>

theorem white_lists_are_grants:
  "(isAccessWhiteListed (fold (perform env) cs (initialState env)) a accessed \<longleftrightarrow>
      (\<exists>g \<in> set (fold (grant env) cs []). fst g = toString a \<and> matchesOrigin (snd g) accessed)) \<and>
   originAccessMap (fold (perform env) cs (initialState env)) k \<noteq> Some []"
  by (simp add: whiteListed_iff no_empty_list)

text \<open>What a document may request: the rest of the state does not matter to an ordinary origin.\<close>

lemma perform_schemes:
  "localSchemes (fold (perform env) cs st) = localSchemes st \<and> schemesWithUniqueOrigins (fold (perform env) cs st) = schemesWithUniqueOrigins st"
proof (induction cs arbitrary: st)
  case (Cons c cs)
  have "localSchemes (perform env c st) = localSchemes st \<and> schemesWithUniqueOrigins (perform env c st) = schemesWithUniqueOrigins st"
    by (cases c) (auto simp: addOriginAccessWhitelistEntry_def removeOriginAccessWhitelistEntry_def resetOriginAccessWhitelists_def Let_def
        split: option.splits list.splits)
  then show ?case using Cons by simp
qed simp

lemma ordinary_perform: "ordinary env (fold (perform env) cs st) u \<longleftrightarrow> ordinary env st u"
  by (simp only: ordinary_def shouldTreatURLSchemeAsNoAccess_def shouldTreatURLSchemeAsLocal_def perform_schemes)

text \<open>
  C27: What a document with an \<open>ordinary\<close> URL may request of the ordinary URLs after any sequence of calls on the white
  lists: the URLs with its own scheme, host and port, and those that a grant for the string form
  of its origin matches.
\<close>

theorem canRequest_policy:
  assumes "ordinary env (initialState env) u" "ordinary env (initialState env) v"
    and st: "st = fold (perform env) cs (initialState env)"
  shows "canRequest env st (createOrigin env st (parsed u) 0) (parsed v) \<longleftrightarrow>
    (schemeName u = schemeName v \<and> hostName u = hostName v \<and> effectivePort env u = effectivePort env v) \<or>
    (\<exists>g \<in> set (fold (grant env) cs []). fst g = toString (createOrigin env st (parsed u) 0) \<and>
       matchesOrigin (snd g) (createOrigin env st (parsed v) 0))"
proof -
  have o: "ordinary env st u" "ordinary env st v" using assms(1,2) unfolding st by (simp_all add: ordinary_perform)
  show ?thesis
    unfolding canRequest_def Let_def st whiteListed_iff
    unfolding st [symmetric] origin_parsed [OF o(1)] origin_parsed [OF o(2)]
    by (auto simp: isSameSchemeHostPort_def passesFileCheck_def tuple_def)
qed

definition exampleGrants :: "command list" where
  "exampleGrants = [Allow (tuple (ustr ''http'') (ustr ''h.com'') 0) (ustr ''http'') (ustr ''com'') True]"

definition grantedState :: securityState where
  "grantedState = fold (perform exampleEnvironment) exampleGrants (initialState exampleEnvironment)"

definition portURL :: url_parts where "portURL = otherURL\<lparr>host := bstr ''g.com'', port := Some (bstr ''8080'')\<rparr>"

lemma canRequest_policy_witness:
  "canRequest exampleEnvironment grantedState (createOrigin exampleEnvironment grantedState (parsed exampleURL) 0) (parsed portURL)"
proof -
  have o: "ordinary exampleEnvironment (initialState exampleEnvironment) exampleURL"
    "ordinary exampleEnvironment (initialState exampleEnvironment) portURL"
    using examples_ordinary(1) by (simp only: exampleState_def) code_simp
  have g: "ordinary exampleEnvironment grantedState exampleURL" "ordinary exampleEnvironment grantedState portURL"
    using o unfolding grantedState_def by (simp_all only: ordinary_perform)
  define e where "e = newOriginAccessEntry exampleEnvironment (ustr ''http'') (ustr ''com'') AllowSubdomains"
  have "fold (grant exampleEnvironment) exampleGrants [] = [(ustr ''http://h.com'', e)]"
    unfolding e_def by code_simp
  moreover have "toString (createOrigin exampleEnvironment grantedState (parsed exampleURL) 0) = ustr ''http://h.com''"
    unfolding origin_parsed [OF g(1)] example_ports by code_simp
  moreover have f: "e_protocol e = ustr ''http'' \<and> e_subdomainSettings e = AllowSubdomains \<and> \<not> e_hostIsIPAddress e \<and> e_host e = ustr ''com''"
    unfolding e_def by code_simp
  moreover have "matchesOrigin e (tuple (schemeName portURL) (hostName portURL) n)" for n
  proof -
    have "schemeName portURL = ustr ''http''" "hostName portURL = ustr ''g.com''" by code_simp+
    moreover have "endsWith (ustr ''g.com'') (ustr ''com'')" by code_simp
    ultimately show ?thesis using f by (simp add: matchesOrigin_def tuple_def charAt_def) (simp add: ustr_def)
  qed
  ultimately have "\<exists>g \<in> set (fold (grant exampleEnvironment) exampleGrants []).
      fst g = toString (createOrigin exampleEnvironment grantedState (parsed exampleURL) 0) \<and>
      matchesOrigin (snd g) (createOrigin exampleEnvironment grantedState (parsed portURL) 0)"
    unfolding origin_parsed [OF g(2)] by simp
  then show ?thesis using canRequest_policy [OF o grantedState_def] by blast
qed

text \<open>
  C29: Setting document.domain, on every platform, for documents with \<open>ordinary\<close> URLs (canonical, the host without
  escapes, the scheme neither local nor without access, nor about: or javascript:) and domains in ASCII: two
  documents that both set their domain may access each
  other exactly when their schemes and the domains they set agree up to case, whatever
  their hosts and ports, and a document that did can not access one that did not, nor
  the other way round, not even on the same host. On AIR an app: document may still access an empty or about: origin,
  whoever set a domain, and nobody but an app: document may access an app: document, even with universal access.
\<close>

theorem document_domain:
  assumes "ordinary env st u" "ordinary env st v" "list_all (\<lambda>c. unat c < 128) d" "list_all (\<lambda>c. unat c < 128) e"
  shows "(canAccess env st (setDomainFromDOM env (fromBytes d) (createOrigin env st (parsed u) 0))
            (setDomainFromDOM env (fromBytes e) (createOrigin env st (parsed v) 0)) \<longleftrightarrow>
          schemeName u = schemeName v \<and> map lowerByte d = map lowerByte e) \<and>
    \<not> canAccess env st (setDomainFromDOM env (fromBytes d) (createOrigin env st (parsed u) 0)) (createOrigin env st (parsed v) 0) \<and>
    \<not> canAccess env st (createOrigin env st (parsed u) 0) (setDomainFromDOM env (fromBytes d) (createOrigin env st (parsed v) 0)) \<and>
    (apollo env \<longrightarrow> schemeName u = ustr ''app'' \<longrightarrow> isEmptyOrigin b \<or> m_protocol b = ustr ''about'' \<longrightarrow>
      canAccess env st (setDomainFromDOM env (fromBytes d) (createOrigin env st (parsed u) 0)) b) \<and>
    (apollo env \<longrightarrow> schemeName v = ustr ''app'' \<longrightarrow> schemeName u \<noteq> ustr ''app'' \<longrightarrow>
      \<not> canAccess env st (grantUniversalAccess (setDomainFromDOM env (fromBytes d) (createOrigin env st (parsed u) 0)))
        (setDomainFromDOM env (fromBytes e) (createOrigin env st (parsed v) 0)))"
proof -
  have i: "fromBytes x = fromBytes y \<longleftrightarrow> x = y" for x y
    using copyASCII_fromBytes by metis
  have s: "ustr ''app'' \<noteq> []" "ustr ''about'' \<noteq> ustr ''app''" by (simp_all add: ustr_def)
  have n: "schemeName u \<noteq> []" "schemeName u \<noteq> ustr ''about''" "schemeName v \<noteq> []" "schemeName v \<noteq> ustr ''about''"
    using assms(1,2) file_scheme by (auto simp: ordinary_def)
  show ?thesis
    unfolding origin_parsed [OF assms(1)] origin_parsed [OF assms(2)] setDomainFromDOM_def
      lower_ascii [OF assms(3)] lower_ascii [OF assms(4)]
    using n s by (auto simp: canAccess_def tuple_def Let_def passesFileCheck_def isEmptyOrigin_def grantUniversalAccess_def i)
qed

lemma document_domain_witness:
  "canAccess exampleEnvironment exampleState
     (setDomainFromDOM exampleEnvironment (ustr ''Com'') (createOrigin exampleEnvironment exampleState (parsed exampleURL) 0))
     (setDomainFromDOM exampleEnvironment (ustr ''com'') (createOrigin exampleEnvironment exampleState (parsed otherURL) 0))"
proof -
  have "schemeName exampleURL = schemeName otherURL"
    "map lowerByte (bstr ''Com'') = map lowerByte (bstr ''com'')" "list_all (\<lambda>c. unat c < 128) (bstr ''Com'')"
    "list_all (\<lambda>c. unat c < 128) (bstr ''com'')"
    by code_simp+
  moreover have "fromBytes (bstr ''Com'') = ustr ''Com''" "fromBytes (bstr ''com'') = ustr ''com''" by code_simp+
  ultimately show ?thesis using document_domain [OF examples_ordinary, of "bstr ''Com''" "bstr ''com''"] by metis
qed

subsection \<open>Origins that are taken for each other\<close>

text \<open>
  The comparison of origins, which hash tables use as the equality of their keys, is not
  transitive once file path separation is enforced for one of three local files.
\<close>

definition fileOrigin :: "string \<Rightarrow> bool \<Rightarrow> SecurityOrigin" where
  "fileOrigin p e = (tuple (ustr ''file'') [] 0)\<lparr>m_filePath := ustr p, m_canLoadLocalResources := True, m_enforceFilePathSeparation := e\<rparr>"

theorem equalOrigin_not_transitive:
  "equalOrigin exampleEnvironment exampleState (fileOrigin ''/a'' True) (fileOrigin ''/a'' False) \<and>
   equalOrigin exampleEnvironment exampleState (fileOrigin ''/a'' False) (fileOrigin ''/b'' False) \<and>
   \<not> equalOrigin exampleEnvironment exampleState (fileOrigin ''/a'' True) (fileOrigin ''/b'' False)"
  by code_simp

text \<open>
  A host with an encoded slash: the origin of http://a%2Fb/ prints as http://a/b and its
  database identifier is http_a%2Fb_0; read back, both name the host a.
\<close>

theorem encoded_slash_changes_host:
  "m_host (createOrigin exampleEnvironment exampleState (parseString (ustr ''http://a%2Fb/'')) 0) = ustr ''a/b'' \<and>
   m_host (createFromString exampleEnvironment exampleState
     (toString (createOrigin exampleEnvironment exampleState (parseString (ustr ''http://a%2Fb/'')) 0))) = ustr ''a'' \<and>
   m_host (createFromDatabaseIdentifier exampleEnvironment exampleState
     (fst (databaseIdentifier (createOrigin exampleEnvironment exampleState (parseString (ustr ''http://a%2Fb/'')) 0)))) = ustr ''a''"
  by code_simp

end
