(* ===== verification/HashTable.thy ===== *)
theory HashTable
  imports Prelude
begin

section \<open>The hash table of WTF (JavaScriptCore/wtf/HashTable.h)\<close>

text \<open>
  Open addressing with double hashing. A bucket is empty, deleted or holds a value; the
  test of a bucket against a key is false on empty and deleted buckets, which is what the
  code asserts in checkKey, so its two orders of the tests agree. Sizes and counters are
  integers, as long as the table has fewer than \<open>2 ^ 30\<close> buckets; hash values and probe
  positions are 32-bit words. A loop that may not end is a partial function, so that
  \<open>None\<close> means that the code does not return.
\<close>

datatype 'v bucket = EmptyBucket | DeletedBucket | Bucket 'v

text \<open>The template arguments: HashFunctions and Extractor.\<close>

record ('k, 'v) hashFunctions =
  hashOf :: "'k \<Rightarrow> u32"
  sameKey :: "'k \<Rightarrow> 'k \<Rightarrow> bool"
  keyOf :: "'v \<Rightarrow> 'k"

record 'v hashTable =
  m_table :: "'v bucket list option"
  m_tableSize :: int
  m_tableSizeMask :: int
  m_keyCount :: int
  m_deletedCount :: int

definition newHashTable :: "'v hashTable" where
  "newHashTable = \<lparr>m_table = None, m_tableSize = 0, m_tableSizeMask = 0, m_keyCount = 0, m_deletedCount = 0\<rparr>"

definition isEmptyBucket :: "'v bucket \<Rightarrow> bool" where
  "isEmptyBucket b = (case b of EmptyBucket \<Rightarrow> True | _ \<Rightarrow> False)"

definition isDeletedBucket :: "'v bucket \<Rightarrow> bool" where
  "isDeletedBucket b = (case b of DeletedBucket \<Rightarrow> True | _ \<Rightarrow> False)"

definition bucketHas :: "('k, 'v) hashFunctions \<Rightarrow> 'k \<Rightarrow> 'v bucket \<Rightarrow> bool" where
  "bucketHas hf key b = (case b of Bucket v \<Rightarrow> sameKey hf (keyOf hf v) key | _ \<Rightarrow> False)"

definition minTableSize :: int where "minTableSize = 64"
definition maxLoad :: int where "maxLoad = 2"
definition minLoad :: int where "minLoad = 6"

definition shouldExpand :: "'v hashTable \<Rightarrow> bool" where
  "shouldExpand t = (m_tableSize t \<le> (m_keyCount t + m_deletedCount t) * maxLoad)"

definition mustRehashInPlace :: "'v hashTable \<Rightarrow> bool" where
  "mustRehashInPlace t = (m_keyCount t * minLoad < m_tableSize t * 2)"

definition shouldShrink :: "'v hashTable \<Rightarrow> bool" where
  "shouldShrink t = (m_keyCount t * minLoad < m_tableSize t \<and> minTableSize < m_tableSize t)"

definition doubleHash :: "u32 \<Rightarrow> u32" where
  "doubleHash key =
     (let key = NOT key + drop_bit 23 key;
          key = key XOR push_bit 12 key;
          key = key XOR drop_bit 7 key;
          key = key XOR push_bit 2 key
      in key XOR drop_bit 20 key)"

subsection \<open>Probing\<close>

definition nextStep :: "u32 \<Rightarrow> u32 \<Rightarrow> u32" where
  "nextStep h k = (if k = 0 then 1 OR doubleHash h else k)"

partial_function (option) lookupLoop ::
    "('k, 'v) hashFunctions \<Rightarrow> 'v bucket list \<Rightarrow> u32 \<Rightarrow> 'k \<Rightarrow> u32 \<Rightarrow> u32 \<Rightarrow> u32 \<Rightarrow> nat option option" where
  "lookupLoop hf table sizeMask key h k i =
     (if bucketHas hf key (table ! unat i) then Some (Some (unat i))
      else if isEmptyBucket (table ! unat i) then Some None
      else lookupLoop hf table sizeMask key h (nextStep h k) ((i + nextStep h k) AND sizeMask))"

definition lookupEntry :: "('k, 'v) hashFunctions \<Rightarrow> 'v hashTable \<Rightarrow> 'k \<Rightarrow> nat option option" where
  "lookupEntry hf t key =
     (case m_table t of
        None \<Rightarrow> Some None
      | Some table \<Rightarrow>
          lookupLoop hf table (word_of_int (m_tableSizeMask t)) key (hashOf hf key) 0
            (hashOf hf key AND word_of_int (m_tableSizeMask t)))"

text \<open>
  The loop of add, lookupForWriting and fullLookupForWriting: the bucket that has the key,
  or the empty bucket that ends the search and the deleted bucket seen last.
\<close>

partial_function (option) writeLoop ::
    "('k, 'v) hashFunctions \<Rightarrow> 'v bucket list \<Rightarrow> u32 \<Rightarrow> 'k \<Rightarrow> u32 \<Rightarrow> u32 \<Rightarrow> u32 \<Rightarrow> nat option \<Rightarrow>
     (nat + nat \<times> nat option) option" where
  "writeLoop hf table sizeMask key h k i deletedEntry =
     (if isEmptyBucket (table ! unat i) then Some (Inr (unat i, deletedEntry))
      else if bucketHas hf key (table ! unat i) then Some (Inl (unat i))
      else writeLoop hf table sizeMask key h (nextStep h k) ((i + nextStep h k) AND sizeMask)
             (if isDeletedBucket (table ! unat i) then Some (unat i) else deletedEntry))"

definition searchForWriting ::
    "('k, 'v) hashFunctions \<Rightarrow> 'v bucket list \<Rightarrow> int \<Rightarrow> 'k \<Rightarrow> (nat + nat \<times> nat option) option" where
  "searchForWriting hf table sizeMask key =
     writeLoop hf table (word_of_int sizeMask) key (hashOf hf key) 0 (hashOf hf key AND word_of_int sizeMask) None"

definition lookupForWriting :: "('k, 'v) hashFunctions \<Rightarrow> 'v bucket list \<Rightarrow> int \<Rightarrow> 'k \<Rightarrow> (nat \<times> bool) option" where
  "lookupForWriting hf table sizeMask key =
     map_option (\<lambda>r. case r of Inl i \<Rightarrow> (i, True) | Inr (i, d) \<Rightarrow> (case d of Some j \<Rightarrow> j | None \<Rightarrow> i, False))
       (searchForWriting hf table sizeMask key)"

subsection \<open>Rehashing\<close>

definition allocateTable :: "int \<Rightarrow> 'v bucket list" where
  "allocateTable n = replicate (nat n) EmptyBucket"

definition reinsert :: "('k, 'v) hashFunctions \<Rightarrow> int \<Rightarrow> 'v \<Rightarrow> 'v bucket list \<Rightarrow> 'v bucket list option" where
  "reinsert hf sizeMask v table =
     map_option (\<lambda>(i, _). table[i := Bucket v]) (lookupForWriting hf table sizeMask (keyOf hf v))"

fun reinsertAll :: "('k, 'v) hashFunctions \<Rightarrow> int \<Rightarrow> 'v bucket list \<Rightarrow> 'v bucket list \<Rightarrow> 'v bucket list option" where
  "reinsertAll hf sizeMask [] table = Some table"
| "reinsertAll hf sizeMask (b # bs) table =
     (case b of
        Bucket v \<Rightarrow> Option.bind (reinsert hf sizeMask v table) (reinsertAll hf sizeMask bs)
      | _ \<Rightarrow> reinsertAll hf sizeMask bs table)"

definition rehash :: "('k, 'v) hashFunctions \<Rightarrow> int \<Rightarrow> 'v hashTable \<Rightarrow> 'v hashTable option" where
  "rehash hf newTableSize t =
     map_option (\<lambda>table. t\<lparr>m_table := Some table, m_tableSize := newTableSize, m_tableSizeMask := newTableSize - 1,
                          m_deletedCount := 0\<rparr>)
       (reinsertAll hf (newTableSize - 1) (case m_table t of None \<Rightarrow> [] | Some old \<Rightarrow> old) (allocateTable newTableSize))"

definition expand :: "('k, 'v) hashFunctions \<Rightarrow> 'v hashTable \<Rightarrow> 'v hashTable option" where
  "expand hf t =
     rehash hf (if m_tableSize t = 0 then minTableSize
                else if mustRehashInPlace t then m_tableSize t else m_tableSize t * 2) t"

definition shrink :: "('k, 'v) hashFunctions \<Rightarrow> 'v hashTable \<Rightarrow> 'v hashTable option" where
  "shrink hf t = rehash hf (m_tableSize t div 2) t"

subsection \<open>Operations\<close>

text \<open>The iterator that find returns: \<open>None\<close> is the end of the table.\<close>

definition findPosition :: "('k, 'v) hashFunctions \<Rightarrow> 'v hashTable \<Rightarrow> 'k \<Rightarrow> nat option option" where
  "findPosition hf t key = (case m_table t of None \<Rightarrow> Some None | Some _ \<Rightarrow> lookupEntry hf t key)"

definition containsKey :: "('k, 'v) hashFunctions \<Rightarrow> 'v hashTable \<Rightarrow> 'k \<Rightarrow> bool option" where
  "containsKey hf t key =
     (case m_table t of None \<Rightarrow> Some False | Some _ \<Rightarrow> map_option (\<lambda>r. r \<noteq> None) (lookupEntry hf t key))"

definition addInTable ::
    "('k, 'v) hashFunctions \<Rightarrow> 'v \<Rightarrow> 'v bucket list \<Rightarrow> 'v hashTable \<Rightarrow> ('v hashTable \<times> nat option \<times> bool) option" where
  "addInTable hf v table t =
     Option.bind (searchForWriting hf table (m_tableSizeMask t) (keyOf hf v)) (\<lambda>r.
       case r of
         Inl i \<Rightarrow> Some (t, Some i, False)
       | Inr (i, d) \<Rightarrow>
           let entry = (case d of Some j \<Rightarrow> j | None \<Rightarrow> i);
               t = t\<lparr>m_deletedCount := m_deletedCount t - (if d = None then 0 else 1),
                     m_table := Some (table[entry := Bucket v]), m_keyCount := m_keyCount t + 1\<rparr>
           in if shouldExpand t
              then Option.bind (expand hf t) (\<lambda>t. map_option (\<lambda>p. (t, p, True)) (findPosition hf t (keyOf hf v)))
              else Some (t, Some entry, True))"

definition addValue :: "('k, 'v) hashFunctions \<Rightarrow> 'v \<Rightarrow> 'v hashTable \<Rightarrow> ('v hashTable \<times> nat option \<times> bool) option" where
  "addValue hf v t =
     Option.bind (if m_table t = None then expand hf t else Some t)
       (\<lambda>t. case m_table t of None \<Rightarrow> None | Some table \<Rightarrow> addInTable hf v table t)"

text \<open>The other version of add, for callers that have the hash value; it looks the bucket up before it writes.\<close>

definition passInTable ::
    "('k, 'v) hashFunctions \<Rightarrow> 'v \<Rightarrow> 'v bucket list \<Rightarrow> 'v hashTable \<Rightarrow> ('v hashTable \<times> nat option \<times> bool) option" where
  "passInTable hf v table t =
     Option.bind (lookupForWriting hf table (m_tableSizeMask t) (keyOf hf v)) (\<lambda>(entry, found).
       if found then Some (t, Some entry, False)
       else let t = t\<lparr>m_deletedCount := m_deletedCount t - (if isDeletedBucket (table ! entry) then 1 else 0),
                      m_table := Some (table[entry := Bucket v]), m_keyCount := m_keyCount t + 1\<rparr>
            in if shouldExpand t
               then Option.bind (expand hf t) (\<lambda>t. map_option (\<lambda>p. (t, p, True)) (findPosition hf t (keyOf hf v)))
               else Some (t, Some entry, True))"

definition addPassingHashCode :: "('k, 'v) hashFunctions \<Rightarrow> 'v \<Rightarrow> 'v hashTable \<Rightarrow> ('v hashTable \<times> nat option \<times> bool) option" where
  "addPassingHashCode hf v t =
     Option.bind (if m_table t = None then expand hf t else Some t)
       (\<lambda>t. case m_table t of None \<Rightarrow> None | Some table \<Rightarrow> passInTable hf v table t)"

definition removeAt :: "('k, 'v) hashFunctions \<Rightarrow> nat \<Rightarrow> 'v hashTable \<Rightarrow> 'v hashTable option" where
  "removeAt hf pos t =
     (let t = t\<lparr>m_table := map_option (\<lambda>table. table[pos := DeletedBucket]) (m_table t),
                m_deletedCount := m_deletedCount t + 1, m_keyCount := m_keyCount t - 1\<rparr>
      in if shouldShrink t then shrink hf t else Some t)"

definition removeKey :: "('k, 'v) hashFunctions \<Rightarrow> 'k \<Rightarrow> 'v hashTable \<Rightarrow> 'v hashTable option" where
  "removeKey hf key t =
     Option.bind (findPosition hf t key) (\<lambda>p. case p of None \<Rightarrow> Some t | Some i \<Rightarrow> removeAt hf i t)"

definition clearTable :: "'v hashTable \<Rightarrow> 'v hashTable" where
  "clearTable t = t\<lparr>m_table := None, m_tableSize := 0, m_tableSizeMask := 0, m_keyCount := 0\<rparr>"

fun addAll :: "('k, 'v) hashFunctions \<Rightarrow> 'v bucket list \<Rightarrow> 'v hashTable \<Rightarrow> 'v hashTable option" where
  "addAll hf [] t = Some t"
| "addAll hf (b # bs) t =
     (case b of
        Bucket v \<Rightarrow> Option.bind (addValue hf v t) (\<lambda>(t, _). addAll hf bs t)
      | _ \<Rightarrow> addAll hf bs t)"

definition copyTable :: "('k, 'v) hashFunctions \<Rightarrow> 'v hashTable \<Rightarrow> 'v hashTable option" where
  "copyTable hf other = addAll hf (case m_table other of None \<Rightarrow> [] | Some table \<Rightarrow> table) newHashTable"

end
