(* ===== verification/HashTableLaws.thy ===== *)
theory HashTableLaws
  imports HashTable
begin

section \<open>The laws of the hash table\<close>

text \<open>
  Why a search returns (the odd step of the second hash reaches every bucket and one is
  empty), the consistency that the code asserts, and what each operation does to the
  set of values. The locale \<open>hash_functions\<close> states what the table needs of the hash
  and the equality of its keys.
\<close>

subsection \<open>The probe sequence\<close>

text \<open>Positions as numbers: the j-th probe for a hash value in a table of \<open>2 ^ n\<close> buckets.\<close>

definition step :: "u32 \<Rightarrow> nat" where
  "step h = unat (1 OR doubleHash h)"

definition probe :: "nat \<Rightarrow> u32 \<Rightarrow> nat \<Rightarrow> nat" where
  "probe n h j = (unat h + j * step h) mod 2 ^ n"

lemma step_odd: "odd (step h)"
proof -
  have "bit (unat (1 OR doubleHash h)) 0" by (simp add: bit_unsigned_iff bit_or_iff)
  then show ?thesis unfolding step_def bit_0 .
qed

lemma step_pos: "0 < step h" "1 OR doubleHash h \<noteq> 0"
  using step_odd [of h] by (auto simp: step_def odd_pos)

lemma probe_less: "probe n h j < 2 ^ n"
  by (simp add: probe_def)

lemma probe_inj: "inj_on (probe n h) {..<2 ^ n}"
proof (rule inj_onI)
  have c: "coprime (2 ^ n) (step h)" using step_odd [of h] by simp
  have *: "i = j" if "probe n h i = probe n h j" "i \<le> j" "j < 2 ^ n" for i j
  proof -
    have "2 ^ n dvd (unat h + j * step h) - (unat h + i * step h)"
      using that(1,2) unfolding probe_def by (metis mod_eq_dvd_iff_nat add_le_mono1 mult_le_mono1 nat_add_left_cancel_le)
    then have "2 ^ n dvd (j - i) * step h" by (simp add: diff_mult_distrib)
    then have "2 ^ n dvd j - i" using c by (simp add: coprime_dvd_mult_left_iff)
    then show ?thesis using that(2,3) by (metis diff_is_0_eq dvd_imp_le le_antisym less_imp_diff_less not_gr_zero not_le)
  qed
  fix i j assume "i \<in> {..<2 ^ n}" "j \<in> {..<2 ^ n}" "probe n h i = probe n h j"
  then show "i = j" using * [of i j] * [of j i] by (cases "i \<le> j") auto
qed

text \<open>The odd step reaches every bucket of a table whose size is a power of two.\<close>

lemma probe_covers: "p < 2 ^ n \<Longrightarrow> \<exists>j < 2 ^ n. probe n h j = p"
proof -
  assume p: "p < 2 ^ n"
  have "probe n h ` {..<2 ^ n} = {..<2 ^ n}"
    by (rule card_subset_eq) (use probe_less in \<open>auto simp: card_image [OF probe_inj]\<close>)
  then show ?thesis using p by (metis imageE lessThan_iff)
qed

lemma unat_masked:
  assumes "n < 32"
  shows "unat ((w :: u32) AND word_of_int (2 ^ n - 1)) = unat w mod 2 ^ n"
proof -
  have e: "word_of_int (2 ^ n - 1) = (mask n :: u32)" by (simp add: mask_eq_exp_minus_1)
  have "unat (w AND mask n) = take_bit n (unat w)"
    unfolding take_bit_eq_mask [symmetric] by (rule unsigned_take_bit_eq)
  then show ?thesis unfolding e by (simp only: take_bit_eq_mod)
qed

lemma probe_next:
  assumes "n < 32" "unat i = probe n h j" "unat k = step h"
  shows "unat (((i :: u32) + k) AND word_of_int (2 ^ n - 1)) = probe n h (Suc j)"
proof -
  have d: "(2 :: nat) ^ n dvd 2 ^ 32" using assms(1) by (intro le_imp_power_dvd) simp
  have "unat (i + k) mod 2 ^ n = (unat i + unat k) mod 2 ^ n"
    using d by (simp add: unat_word_ariths mod_mod_cancel)
  also have "\<dots> = (unat h + j * step h + step h) mod 2 ^ n" unfolding assms(2,3) probe_def by (simp add: mod_add_left_eq)
  also have "\<dots> = probe n h (Suc j)" by (simp add: probe_def algebra_simps)
  finally show ?thesis unfolding unat_masked [OF assms(1)] .
qed

lemma probe_first: "n < 32 \<Longrightarrow> unat (h AND word_of_int (2 ^ n - 1)) = probe n h 0"
  unfolding unat_masked by (simp add: probe_def)

subsection \<open>The loops along the probe sequence\<close>

definition loopStep :: "u32 \<Rightarrow> nat \<Rightarrow> u32" where
  "loopStep h j = (if j = 0 then 0 else 1 OR doubleHash h)"

lemma nextStep_loopStep: "nextStep h (loopStep h j) = 1 OR doubleHash h" "loopStep h (Suc j) = 1 OR doubleHash h"
  using step_pos(2) [of h] by (simp_all add: nextStep_def loopStep_def)

lemma lookupLoop_walk:
  assumes n: "n < 32" and m: "j \<le> m" and i: "unat i = probe n h j"
    and pass: "\<And>l. j \<le> l \<Longrightarrow> l < m \<Longrightarrow> \<not> bucketHas hf key (table ! probe n h l) \<and> \<not> isEmptyBucket (table ! probe n h l)"
    and stop: "bucketHas hf key (table ! probe n h m) \<or> isEmptyBucket (table ! probe n h m)"
  shows "lookupLoop hf table (word_of_int (2 ^ n - 1)) key h (loopStep h j) i =
    Some (if bucketHas hf key (table ! probe n h m) then Some (probe n h m) else None)"
  using m i pass
proof (induction "m - j" arbitrary: i j)
  case 0
  then have "m = j" by simp
  then show ?case using stop 0(3) by (subst lookupLoop.simps) auto
next
  case (Suc x)
  have lt: "j < m" using Suc(2) by simp
  have nx: "unat ((i + nextStep h (loopStep h j)) AND word_of_int (2 ^ n - 1)) = probe n h (Suc j)"
    by (rule probe_next [OF n Suc(4)]) (simp add: nextStep_loopStep step_def)
  have "lookupLoop hf table (word_of_int (2 ^ n - 1)) key h (loopStep h (Suc j))
      ((i + nextStep h (loopStep h j)) AND word_of_int (2 ^ n - 1)) =
    Some (if bucketHas hf key (table ! probe n h m) then Some (probe n h m) else None)"
    by (rule Suc(1) [OF _ _ nx]) (use Suc lt in auto)
  then show ?case using Suc(5) [of j] lt Suc(4)
    by (subst lookupLoop.simps) (simp add: nextStep_loopStep)
qed

definition lastDeleted :: "nat \<Rightarrow> u32 \<Rightarrow> 'v bucket list \<Rightarrow> nat \<Rightarrow> nat \<Rightarrow> nat option \<Rightarrow> nat option \<Rightarrow> bool" where
  "lastDeleted n h table j m d d' \<longleftrightarrow>
     d' = d \<or> (\<exists>l. j \<le> l \<and> l < m \<and> d' = Some (probe n h l) \<and> isDeletedBucket (table ! probe n h l))"

lemma writeLoop_walk:
  assumes n: "n < 32" and m: "j \<le> m" and i: "unat i = probe n h j"
    and pass: "\<And>l. j \<le> l \<Longrightarrow> l < m \<Longrightarrow> \<not> bucketHas hf key (table ! probe n h l) \<and> \<not> isEmptyBucket (table ! probe n h l)"
    and stop: "bucketHas hf key (table ! probe n h m) \<or> isEmptyBucket (table ! probe n h m)"
  shows "\<exists>d'. lastDeleted n h table j m d d' \<and>
    writeLoop hf table (word_of_int (2 ^ n - 1)) key h (loopStep h j) i d =
      Some (if isEmptyBucket (table ! probe n h m) then Inr (probe n h m, d') else Inl (probe n h m))"
  using m i pass
proof (induction "m - j" arbitrary: i j d)
  case 0
  then have "m = j" by simp
  then show ?case using stop 0(3) by (subst writeLoop.simps) (auto simp: lastDeleted_def)
next
  case (Suc x)
  have lt: "j < m" using Suc(2) by simp
  have nx: "unat ((i + nextStep h (loopStep h j)) AND word_of_int (2 ^ n - 1)) = probe n h (Suc j)"
    by (rule probe_next [OF n Suc(4)]) (simp add: nextStep_loopStep step_def)
  let ?d = "if isDeletedBucket (table ! unat i) then Some (unat i) else d"
  have "\<exists>d'. lastDeleted n h table (Suc j) m ?d d' \<and>
    writeLoop hf table (word_of_int (2 ^ n - 1)) key h (loopStep h (Suc j))
      ((i + nextStep h (loopStep h j)) AND word_of_int (2 ^ n - 1)) ?d =
      Some (if isEmptyBucket (table ! probe n h m) then Inr (probe n h m, d') else Inl (probe n h m))"
    by (rule Suc(1) [OF _ _ nx]) (use Suc lt in auto)
  then obtain d' where d: "lastDeleted n h table (Suc j) m ?d d'"
    "writeLoop hf table (word_of_int (2 ^ n - 1)) key h (loopStep h (Suc j))
      ((i + nextStep h (loopStep h j)) AND word_of_int (2 ^ n - 1)) ?d =
      Some (if isEmptyBucket (table ! probe n h m) then Inr (probe n h m, d') else Inl (probe n h m))"
    by blast
  have "lastDeleted n h table j m d d'"
    using d(1) lt Suc(4) unfolding lastDeleted_def by (metis Suc_leD le_refl)
  moreover have "writeLoop hf table (word_of_int (2 ^ n - 1)) key h (loopStep h j) i d =
      Some (if isEmptyBucket (table ! probe n h m) then Inr (probe n h m, d') else Inl (probe n h m))"
    using d(2) Suc(5) [of j] lt Suc(4) by (subst writeLoop.simps) (simp add: nextStep_loopStep)
  ultimately show ?case by blast
qed

subsection \<open>Well-formed tables\<close>

definition holdsAt :: "'v bucket list \<Rightarrow> nat \<Rightarrow> 'v \<Rightarrow> bool" where
  "holdsAt table p v \<longleftrightarrow> p < length table \<and> table ! p = Bucket v"

text \<open>Every value is found along the probe sequence of its key before an empty bucket, and its key is there once.\<close>

definition probed :: "('k, 'v) hashFunctions \<Rightarrow> nat \<Rightarrow> 'v bucket list \<Rightarrow> bool" where
  "probed hf n table \<longleftrightarrow>
     length table = 2 ^ n \<and>
     (\<forall>p v. holdsAt table p v \<longrightarrow>
        (\<exists>j. p = probe n (hashOf hf (keyOf hf v)) j \<and> (\<forall>l < j. \<not> isEmptyBucket (table ! probe n (hashOf hf (keyOf hf v)) l)))) \<and>
     (\<forall>p q v w. holdsAt table p v \<and> holdsAt table q w \<and> sameKey hf (keyOf hf v) (keyOf hf w) \<longrightarrow> p = q)"

definition hasEmpty :: "'v bucket list \<Rightarrow> bool" where
  "hasEmpty table \<longleftrightarrow> (\<exists>p < length table. isEmptyBucket (table ! p))"

text \<open>Counting buckets.\<close>


definition isFull :: "'v bucket \<Rightarrow> bool" where
  "isFull b = (case b of Bucket v \<Rightarrow> True | _ \<Rightarrow> False)"

lemma bucket_tests [simp]:
  "isFull (Bucket v)" "\<not> isFull EmptyBucket" "\<not> isFull DeletedBucket"
  "isDeletedBucket DeletedBucket" "\<not> isDeletedBucket EmptyBucket" "\<not> isDeletedBucket (Bucket v)"
  "isEmptyBucket EmptyBucket" "\<not> isEmptyBucket DeletedBucket" "\<not> isEmptyBucket (Bucket v)"
  by (simp_all add: isFull_def isDeletedBucket_def isEmptyBucket_def)

definition countOf :: "('v bucket \<Rightarrow> bool) \<Rightarrow> 'v bucket list \<Rightarrow> nat" where
  "countOf P table = length (filter P table)"

lemma countOf_update:
  "p < length table \<Longrightarrow> countOf P (table[p := b]) + of_bool (P (table ! p)) = countOf P table + of_bool (P b)"
proof (induction table arbitrary: p)
  case (Cons c table)
  then show ?case by (cases p) (auto simp: countOf_def)
qed simp

lemma countOf_length: "length table = countOf isFull table + countOf isDeletedBucket table + countOf isEmptyBucket table"
proof (induction table)
  case (Cons b table)
  then show ?case by (cases b) (auto simp: countOf_def isFull_def isDeletedBucket_def isEmptyBucket_def)
qed (simp add: countOf_def)

lemma hasEmpty_room: "countOf isFull table + countOf isDeletedBucket table < length table \<Longrightarrow> hasEmpty table"
proof -
  assume "countOf isFull table + countOf isDeletedBucket table < length table"
  then have "filter isEmptyBucket table \<noteq> []" using countOf_length [of table] by (auto simp: countOf_def)
  then obtain b where "b \<in> set table" "isEmptyBucket b" by (auto simp: filter_empty_conv)
  then show ?thesis by (auto simp: hasEmpty_def in_set_conv_nth)
qed

definition valuesIn :: "'v bucket list \<Rightarrow> 'v set" where
  "valuesIn table = {v. Bucket v \<in> set table}"

lemma valuesIn_holds: "v \<in> valuesIn table \<longleftrightarrow> (\<exists>p. holdsAt table p v)"
  by (auto simp: valuesIn_def holdsAt_def in_set_conv_nth)

lemma holdsAt_fill: "p < length table \<Longrightarrow> holdsAt (table[p := Bucket v]) q w \<longleftrightarrow> (if q = p then w = v else holdsAt table q w)"
  by (auto simp: holdsAt_def)

lemma valuesIn_fill:
  "p < length table \<Longrightarrow> \<not> isFull (table ! p) \<Longrightarrow> valuesIn (table[p := Bucket v]) = insert v (valuesIn table)"
proof -
  assume p: "p < length table" "\<not> isFull (table ! p)"
  have "\<not> holdsAt table p w" for w using p(2) by (auto simp: holdsAt_def isFull_def)
  then show ?thesis unfolding set_eq_iff valuesIn_holds insert_iff holdsAt_fill [OF p(1)] by metis
qed

lemma allocated:
  "countOf isFull (allocateTable m) = 0" "countOf isDeletedBucket (allocateTable m) = 0" "valuesIn (allocateTable m) = {}"
  "length (allocateTable m) = nat m"
  by (auto simp: countOf_def allocateTable_def isFull_def isDeletedBucket_def valuesIn_def filter_empty_conv)

definition clash :: "('k, 'v) hashFunctions \<Rightarrow> 'v bucket \<Rightarrow> 'v bucket \<Rightarrow> bool" where
  "clash hf b c \<longleftrightarrow> (\<exists>v w. b = Bucket v \<and> c = Bucket w \<and> sameKey hf (keyOf hf v) (keyOf hf w))"

lemma probed_no_clash: "probed hf n table \<Longrightarrow> sorted_wrt (\<lambda>b c. \<not> clash hf b c) table"
  unfolding sorted_wrt_iff_nth_less
proof (intro allI impI notI)
  fix i j assume p: "probed hf n table" and ij: "i < j" "j < length table" and c: "clash hf (table ! i) (table ! j)"
  obtain v w where "holdsAt table i v" "holdsAt table j w" "sameKey hf (keyOf hf v) (keyOf hf w)"
    using c ij by (auto simp: clash_def holdsAt_def)
  then have "i = j" using p unfolding probed_def by blast
  then show False using ij by simp
qed

text \<open>The consistency that checkTableConsistency asserts.\<close>

definition shaped :: "('k, 'v) hashFunctions \<Rightarrow> nat \<Rightarrow> 'v bucket list \<Rightarrow> 'v hashTable \<Rightarrow> bool" where
  "shaped hf n table t \<longleftrightarrow>
     m_table t = Some table \<and> 6 \<le> n \<and> m_tableSize t = 2 ^ n \<and> m_tableSizeMask t = 2 ^ n - 1 \<and> probed hf n table \<and>
     m_keyCount t = int (countOf isFull table) \<and> m_deletedCount t = int (countOf isDeletedBucket table)"

definition consistent :: "('k, 'v) hashFunctions \<Rightarrow> 'v hashTable \<Rightarrow> bool" where
  "consistent hf t \<longleftrightarrow>
     (case m_table t of
        None \<Rightarrow> m_tableSize t = 0 \<and> m_tableSizeMask t = 0 \<and> m_keyCount t = 0
      | Some table \<Rightarrow> (\<exists>n. shaped hf n table t) \<and> \<not> shouldExpand t \<and> \<not> shouldShrink t)"

definition contents :: "'v hashTable \<Rightarrow> 'v set" where
  "contents t = (case m_table t of None \<Rightarrow> {} | Some table \<Rightarrow> valuesIn table)"

lemma size_bound:
  assumes "shaped hf n table t" "\<not> shouldShrink t" "m_keyCount t \<le> 2 ^ 27"
  shows "n < 30"
proof (rule ccontr)
  assume "\<not> n < 30"
  then have "(2 :: int) ^ 30 \<le> 2 ^ n" by (intro power_increasing) simp_all
  then show False using assms by (simp add: shouldShrink_def shaped_def minLoad_def minTableSize_def)
qed

lemma shaped_room: "shaped hf n table t \<Longrightarrow> \<not> shouldExpand t \<Longrightarrow> hasEmpty table"
proof -
  assume a: "shaped hf n table t" "\<not> shouldExpand t"
  have "int (length table) = 2 ^ n" using a(1) by (simp add: shaped_def probed_def)
  then have "int (countOf isFull table + countOf isDeletedBucket table) < int (length table)"
    using a by (simp add: shaped_def shouldExpand_def maxLoad_def)
  then show ?thesis by (intro hasEmpty_room) simp
qed

text \<open>What the template needs of the hash functions.\<close>

locale hash_functions =
  fixes hf :: "('k, 'v) hashFunctions"
  assumes same_refl: "sameKey hf k k"
    and same_sym: "sameKey hf k l \<Longrightarrow> sameKey hf l k"
    and same_trans: "sameKey hf k l \<Longrightarrow> sameKey hf l m \<Longrightarrow> sameKey hf k m"
    and same_hash: "sameKey hf k l \<Longrightarrow> hashOf hf k = hashOf hf l"
begin

lemma bucketHas_holds: "p < length table \<Longrightarrow> bucketHas hf key (table ! p) \<longleftrightarrow> (\<exists>v. holdsAt table p v \<and> sameKey hf (keyOf hf v) key)"
  by (auto simp: bucketHas_def holdsAt_def split: bucket.split)

lemma present_walk:
  assumes "probed hf n table" "holdsAt table p v" "sameKey hf (keyOf hf v) key"
  obtains m where "probe n (hashOf hf key) m = p"
    "\<And>l. l < m \<Longrightarrow> \<not> bucketHas hf key (table ! probe n (hashOf hf key) l) \<and> \<not> isEmptyBucket (table ! probe n (hashOf hf key) l)"
proof -
  let ?h = "hashOf hf key"
  have h: "hashOf hf (keyOf hf v) = ?h" using same_hash [OF assms(3)] .
  obtain j where j: "p = probe n ?h j" "\<forall>l < j. \<not> isEmptyBucket (table ! probe n ?h l)"
    using assms(1,2) unfolding probed_def h [symmetric] by blast
  define m where "m = (LEAST m. probe n ?h m = p)"
  have m: "probe n ?h m = p" "m \<le> j" unfolding m_def using j(1) by (auto intro: LeastI Least_le)
  have "\<not> bucketHas hf key (table ! probe n ?h l)" if "l < m" for l
  proof
    assume "bucketHas hf key (table ! probe n ?h l)"
    moreover have "probe n ?h l < length table" using assms(1) probe_less by (simp add: probed_def)
    ultimately obtain w where "holdsAt table (probe n ?h l) w" "sameKey hf (keyOf hf w) key" using bucketHas_holds by blast
    then have "probe n ?h l = p"
      using assms same_trans [OF _ same_sym [OF assms(3)]] unfolding probed_def by blast
    then show False using that not_less_Least [of l "\<lambda>m. probe n ?h m = p"] by (simp add: m_def)
  qed
  then show ?thesis using that m j(2) by (metis order_less_le_trans)
qed

lemma absent_walk:
  assumes "probed hf n table" "hasEmpty table"
  obtains m where "isEmptyBucket (table ! probe n h m)" "\<And>l. l < m \<Longrightarrow> \<not> isEmptyBucket (table ! probe n h l)"
proof -
  obtain p where p: "p < 2 ^ n" "isEmptyBucket (table ! p)" using assms by (auto simp: hasEmpty_def probed_def)
  then have "\<exists>m. isEmptyBucket (table ! probe n h m)" using probe_covers [OF p(1), of h] by metis
  then show ?thesis using that exists_least_iff [of "\<lambda>m. isEmptyBucket (table ! probe n h m)"] by blast
qed

text \<open>What a search gives, for a key that is there and for one that is not.\<close>

lemma search_present:
  assumes "probed hf n table" "n < 32" "holdsAt table p v" "sameKey hf (keyOf hf v) key"
  shows "lookupLoop hf table (word_of_int (2 ^ n - 1)) key (hashOf hf key) 0 (hashOf hf key AND word_of_int (2 ^ n - 1)) = Some (Some p)"
    "searchForWriting hf table (2 ^ n - 1) key = Some (Inl p)"
proof -
  let ?h = "hashOf hf key"
  obtain m where m: "probe n ?h m = p"
    "\<And>l. l < m \<Longrightarrow> \<not> bucketHas hf key (table ! probe n ?h l) \<and> \<not> isEmptyBucket (table ! probe n ?h l)"
    using present_walk [OF assms(1,3,4)] by blast
  have b: "bucketHas hf key (table ! probe n ?h m)" using assms(3,4) by (simp add: m(1) holdsAt_def bucketHas_def)
  then have e: "\<not> isEmptyBucket (table ! probe n ?h m)" by (auto simp: bucketHas_def isEmptyBucket_def split: bucket.splits)
  note s = le0 probe_first [OF assms(2), of ?h]
  show "lookupLoop hf table (word_of_int (2 ^ n - 1)) key ?h 0 (?h AND word_of_int (2 ^ n - 1)) = Some (Some p)"
    using lookupLoop_walk [OF assms(2) s, of m hf key table] m b by (simp add: loopStep_def)
  show "searchForWriting hf table (2 ^ n - 1) key = Some (Inl p)"
    using writeLoop_walk [OF assms(2) s, of m hf key table None] m b e by (simp add: loopStep_def searchForWriting_def)
qed

definition slotFor :: "nat \<Rightarrow> 'v bucket list \<Rightarrow> 'k \<Rightarrow> nat \<Rightarrow> bool" where
  "slotFor n table key p \<longleftrightarrow>
     p < length table \<and> (isEmptyBucket (table ! p) \<or> isDeletedBucket (table ! p)) \<and>
     (\<exists>j. p = probe n (hashOf hf key) j \<and> (\<forall>l < j. \<not> isEmptyBucket (table ! probe n (hashOf hf key) l)))"

lemma search_absent:
  assumes "probed hf n table" "n < 32" "hasEmpty table" "\<And>p v. holdsAt table p v \<Longrightarrow> \<not> sameKey hf (keyOf hf v) key"
  shows "lookupLoop hf table (word_of_int (2 ^ n - 1)) key (hashOf hf key) 0 (hashOf hf key AND word_of_int (2 ^ n - 1)) = Some None"
    "\<exists>e d. searchForWriting hf table (2 ^ n - 1) key = Some (Inr (e, d)) \<and>
       slotFor n table key (case d of Some q \<Rightarrow> q | None \<Rightarrow> e) \<and> isEmptyBucket (table ! e) \<and>
       (case d of None \<Rightarrow> True | Some q \<Rightarrow> isDeletedBucket (table ! q))"
proof -
  let ?h = "hashOf hf key"
  have len: "length table = 2 ^ n" using assms(1) by (simp add: probed_def)
  obtain m where m: "isEmptyBucket (table ! probe n ?h m)" "\<And>l. l < m \<Longrightarrow> \<not> isEmptyBucket (table ! probe n ?h l)"
    using absent_walk [OF assms(1,3)] by blast
  have b: "\<not> bucketHas hf key (table ! probe n ?h l)" for l
    using bucketHas_holds [of "probe n ?h l" table key] probe_less [of n ?h l] assms(4) by (auto simp: len)
  note s = le0 probe_first [OF assms(2), of ?h]
  show "lookupLoop hf table (word_of_int (2 ^ n - 1)) key ?h 0 (?h AND word_of_int (2 ^ n - 1)) = Some None"
    using lookupLoop_walk [OF assms(2) s, of m hf key table] m b by (simp add: loopStep_def)
  obtain d where d: "lastDeleted n ?h table 0 m None d"
    "searchForWriting hf table (2 ^ n - 1) key = Some (Inr (probe n ?h m, d))"
    using writeLoop_walk [OF assms(2) s, of m hf key table None] m b by (auto simp: loopStep_def searchForWriting_def)
  have "slotFor n table key (case d of Some q \<Rightarrow> q | None \<Rightarrow> probe n ?h m) \<and>
      (case d of None \<Rightarrow> True | Some q \<Rightarrow> isDeletedBucket (table ! q))"
  proof (cases d)
    case None
    then show ?thesis using m probe_less [of n ?h m] len by (auto simp: slotFor_def)
  next
    case (Some q)
    then obtain l where "l < m" "q = probe n ?h l" "isDeletedBucket (table ! q)" using d(1) by (auto simp: lastDeleted_def)
    then show ?thesis using Some m(2) probe_less [of n ?h l] len by (auto simp: slotFor_def)
  qed
  then show "\<exists>e d. searchForWriting hf table (2 ^ n - 1) key = Some (Inr (e, d)) \<and>
       slotFor n table key (case d of Some q \<Rightarrow> q | None \<Rightarrow> e) \<and> isEmptyBucket (table ! e) \<and>
       (case d of None \<Rightarrow> True | Some q \<Rightarrow> isDeletedBucket (table ! q))"
    using d(2) m(1) by blast
qed

text \<open>Filling such a slot and deleting a bucket keep the table well-formed.\<close>

lemma fill_probed:
  assumes "probed hf n table" "slotFor n table (keyOf hf v) p"
    "\<And>q w. holdsAt table q w \<Longrightarrow> \<not> sameKey hf (keyOf hf w) (keyOf hf v)"
  shows "probed hf n (table[p := Bucket v])"
proof -
  let ?t = "table[p := Bucket v]"
  have p: "p < length table" using assms(2) by (simp add: slotFor_def)
  have h: "holdsAt ?t q w \<longleftrightarrow> (if q = p then w = v else holdsAt table q w)" for q w
    using p by (auto simp: holdsAt_def)
  have e: "isEmptyBucket (?t ! q) \<Longrightarrow> isEmptyBucket (table ! q)" for q
    by (cases "q = p") (use p in \<open>auto simp: isEmptyBucket_def\<close>)
  obtain j where j: "p = probe n (hashOf hf (keyOf hf v)) j" "\<forall>l < j. \<not> isEmptyBucket (table ! probe n (hashOf hf (keyOf hf v)) l)"
    using assms(2) by (auto simp: slotFor_def)
  show ?thesis
    unfolding probed_def
  proof (intro conjI allI impI)
    show "length ?t = 2 ^ n" using assms(1) by (simp add: probed_def)
  next
    fix q w assume "holdsAt ?t q w"
    then show "\<exists>j. q = probe n (hashOf hf (keyOf hf w)) j \<and> (\<forall>l < j. \<not> isEmptyBucket (?t ! probe n (hashOf hf (keyOf hf w)) l))"
      using assms(1) j e unfolding h probed_def by (metis (no_types, lifting))
  next
    fix q r w x assume a: "holdsAt ?t q w \<and> holdsAt ?t r x \<and> sameKey hf (keyOf hf w) (keyOf hf x)"
    then show "q = r"
      using assms(1,3) same_sym unfolding h probed_def by (metis (no_types, lifting))
  qed
qed

lemma delete_probed:
  assumes "probed hf n table"
  shows "probed hf n (table[p := DeletedBucket])"
proof -
  let ?t = "table[p := DeletedBucket]"
  have h: "holdsAt ?t q w \<Longrightarrow> holdsAt table q w \<and> q \<noteq> p" for q w
    by (cases "q = p") (auto simp: holdsAt_def)
  have e: "isEmptyBucket (?t ! q) \<Longrightarrow> isEmptyBucket (table ! q)" for q
    by (cases "q = p \<and> p < length table") (auto simp: isEmptyBucket_def nth_list_update list_update_beyond split: if_splits)
  show ?thesis using assms h e unfolding probed_def by (metis (no_types, lifting) length_list_update)
qed

subsection \<open>Rehashing keeps the values\<close>

lemma reinsert_fills:
  assumes "probed hf n table" "n < 32" "hasEmpty table" "countOf isDeletedBucket table = 0"
    "\<And>p w. holdsAt table p w \<Longrightarrow> \<not> sameKey hf (keyOf hf w) (keyOf hf v)"
  shows "\<exists>p. reinsert hf (2 ^ n - 1) v table = Some (table[p := Bucket v]) \<and>
    slotFor n table (keyOf hf v) p \<and> isEmptyBucket (table ! p)"
proof -
  obtain e d where d: "searchForWriting hf table (2 ^ n - 1) (keyOf hf v) = Some (Inr (e, d))"
    "slotFor n table (keyOf hf v) (case d of Some q \<Rightarrow> q | None \<Rightarrow> e)" "isEmptyBucket (table ! e)"
    using search_absent(2) [OF assms(1-3), of "keyOf hf v"] assms(5) by blast
  have "\<not> isDeletedBucket b" if "b \<in> set table" for b using assms(4) that by (auto simp: countOf_def filter_empty_conv)
  then have "isEmptyBucket (table ! (case d of Some q \<Rightarrow> q | None \<Rightarrow> e))" using d(2) by (auto simp: slotFor_def)
  then show ?thesis using d by (auto simp: reinsert_def lookupForWriting_def)
qed

lemma reinsertAll_keeps:
  assumes "n < 32"
  shows "probed hf n table \<Longrightarrow> countOf isDeletedBucket table = 0 \<Longrightarrow>
    countOf isFull table + countOf isFull bs < 2 ^ n \<Longrightarrow> sorted_wrt (\<lambda>b c. \<not> clash hf b c) bs \<Longrightarrow>
    (\<forall>b \<in> set bs. \<forall>c \<in> set table. \<not> clash hf c b) \<Longrightarrow>
    \<exists>table'. reinsertAll hf (2 ^ n - 1) bs table = Some table' \<and> probed hf n table' \<and> countOf isDeletedBucket table' = 0 \<and>
      countOf isFull table' = countOf isFull table + countOf isFull bs \<and> valuesIn table' = valuesIn table \<union> valuesIn bs"
proof (induction bs arbitrary: table)
  case Nil
  then show ?case by (simp add: countOf_def valuesIn_def)
next
  case (Cons b bs)
  show ?case
  proof (cases b)
    case (Bucket v)
    have len: "length table = 2 ^ n" using Cons.prems(1) by (simp add: probed_def)
    have e: "hasEmpty table" using Cons.prems(2,3) len by (intro hasEmpty_room) simp
    have new: "\<not> sameKey hf (keyOf hf w) (keyOf hf v)" if "holdsAt table p w" for p w
    proof -
      have "Bucket w \<in> set table" using that by (metis holdsAt_def nth_mem)
      then show ?thesis using Cons.prems(5) Bucket by (auto simp: clash_def)
    qed
    obtain p where p: "reinsert hf (2 ^ n - 1) v table = Some (table[p := Bucket v])" "slotFor n table (keyOf hf v) p"
      "isEmptyBucket (table ! p)"
      using reinsert_fills [OF Cons.prems(1) assms e Cons.prems(2), of v] new by blast
    let ?t = "table[p := Bucket v]"
    have pt: "probed hf n ?t" by (rule fill_probed [OF Cons.prems(1) p(2)]) (rule new)
    have lt: "p < length table" "\<not> isFull (table ! p)" "\<not> isDeletedBucket (table ! p)"
      using p(2,3) by (auto simp: slotFor_def isEmptyBucket_def isFull_def isDeletedBucket_def split: bucket.splits)
    have c: "countOf isFull ?t = countOf isFull table + 1" "countOf isDeletedBucket ?t = 0"
      using countOf_update [OF lt(1), of isFull "Bucket v"] countOf_update [OF lt(1), of isDeletedBucket "Bucket v"] lt Cons.prems(2)
      by (simp_all add: isFull_def isDeletedBucket_def)
    have "\<forall>b' \<in> set bs. \<forall>c \<in> set ?t. \<not> clash hf c b'"
    proof (intro ballI)
      fix b' c assume "b' \<in> set bs" "c \<in> set ?t"
      then have "c = b \<or> c \<in> set table" using set_update_subset_insert [of table p "Bucket v"] Bucket by auto
      then show "\<not> clash hf c b'" using Cons.prems(4,5) \<open>b' \<in> set bs\<close> by auto
    qed
    moreover have "countOf isFull ?t + countOf isFull bs < 2 ^ n" "countOf isFull (b # bs) = 1 + countOf isFull bs"
      using Cons.prems(3) c(1) Bucket by (simp_all add: countOf_def)
    ultimately obtain table' where "reinsertAll hf (2 ^ n - 1) bs ?t = Some table'" "probed hf n table'"
      "countOf isDeletedBucket table' = 0" "countOf isFull table' = countOf isFull ?t + countOf isFull bs"
      "valuesIn table' = valuesIn ?t \<union> valuesIn bs"
      using Cons.IH [OF pt c(2)] Cons.prems(4) by auto
    moreover have "valuesIn (b # bs) = insert v (valuesIn bs)" using Bucket by (auto simp: valuesIn_def)
    ultimately show ?thesis
      using p(1) c(1) Bucket valuesIn_fill [OF lt(1,2)] \<open>countOf isFull (b # bs) = 1 + countOf isFull bs\<close> by auto
  qed (use Cons in \<open>auto simp: countOf_def isFull_def valuesIn_def\<close>)
qed

lemma rehash_keeps:
  assumes "6 \<le> n" "n < 32" "m_keyCount t < 2 ^ n"
    "case m_table t of None \<Rightarrow> m_keyCount t = 0 | Some table \<Rightarrow> (\<exists>k. shaped hf k table t)"
  shows "\<exists>t' table. rehash hf (2 ^ n) t = Some t' \<and> shaped hf n table t' \<and> m_keyCount t' = m_keyCount t \<and>
    m_deletedCount t' = 0 \<and> contents t' = contents t"
proof -
  define old where "old = (case m_table t of None \<Rightarrow> [] | Some old \<Rightarrow> old)"
  have o: "m_keyCount t = int (countOf isFull old)" "contents t = valuesIn old" "sorted_wrt (\<lambda>b c. \<not> clash hf b c) old"
    using assms(4) probed_no_clash
    by (auto simp: old_def shaped_def contents_def countOf_def valuesIn_def split: option.splits)
  let ?new = "allocateTable (2 ^ n) :: 'v bucket list"
  have new: "probed hf n ?new"
  proof -
    have "\<not> holdsAt ?new p v" for p v using allocated(3) valuesIn_holds by (metis empty_iff)
    then show ?thesis by (simp add: probed_def allocated(4) nat_power_eq)
  qed
  have "countOf isFull old < 2 ^ n" using assms(3) o(1) by (metis of_nat_less_iff of_nat_numeral of_nat_power)
  then have room: "countOf isFull ?new + countOf isFull old < 2 ^ n" by (simp add: allocated)
  have "\<forall>b \<in> set old. \<forall>c \<in> set ?new. \<not> clash hf c b" by (auto simp: allocateTable_def clash_def)
  then obtain table where r: "reinsertAll hf (2 ^ n - 1) old ?new = Some table" "probed hf n table" "countOf isDeletedBucket table = 0"
    "countOf isFull table = countOf isFull old" "valuesIn table = valuesIn old"
    using reinsertAll_keeps [OF assms(2) new allocated(2) room o(3)] by (auto simp: allocated)
  then show ?thesis
    using o assms(1) unfolding rehash_def old_def [symmetric] by (simp add: shaped_def contents_def)
qed

subsection \<open>The operations\<close>

lemma find_consistent:
  assumes "consistent hf t" "m_keyCount t \<le> 2 ^ 27"
  shows "(\<exists>p v table. findPosition hf t key = Some (Some p) \<and> m_table t = Some table \<and> holdsAt table p v \<and> sameKey hf (keyOf hf v) key) \<or>
    (findPosition hf t key = Some None \<and> (\<forall>v \<in> contents t. \<not> sameKey hf (keyOf hf v) key))"
proof (cases "m_table t")
  case None
  then show ?thesis by (simp add: findPosition_def contents_def)
next
  case (Some table)
  then obtain n where n: "shaped hf n table t" "\<not> shouldExpand t" "\<not> shouldShrink t" using assms(1) by (auto simp: consistent_def)
  have p: "probed hf n table" "m_tableSizeMask t = 2 ^ n - 1" using n(1) by (simp_all add: shaped_def)
  have b: "n < 32" using size_bound [OF n(1,3) assms(2)] by simp
  show ?thesis
  proof (cases "\<exists>q v. holdsAt table q v \<and> sameKey hf (keyOf hf v) key")
    case True
    then obtain q v where "holdsAt table q v" "sameKey hf (keyOf hf v) key" by blast
    then show ?thesis using search_present(1) [OF p(1) b] Some by (auto simp: findPosition_def lookupEntry_def p(2))
  next
    case False
    then show ?thesis using search_absent(1) [OF p(1) b shaped_room [OF n(1,2)], of key] Some
      by (auto simp: findPosition_def lookupEntry_def p(2) contents_def valuesIn_holds)
  qed
qed

lemma remove_consistent:
  assumes "consistent hf t" "m_keyCount t \<le> 2 ^ 27" "m_table t = Some table" "holdsAt table p v"
  shows "\<exists>t'. removeAt hf p t = Some t' \<and> consistent hf t' \<and> m_keyCount t' = m_keyCount t - 1 \<and>
    contents t' = contents t - {v}"
proof -
  obtain n where n: "shaped hf n table t" "\<not> shouldExpand t" "\<not> shouldShrink t"
    using assms(1,3) by (auto simp: consistent_def)
  have b: "n < 30" by (rule size_bound [OF n(1,3) assms(2)])
  let ?tab = "table[p := DeletedBucket]"
  define s where "s = t\<lparr>m_table := Some ?tab, m_deletedCount := m_deletedCount t + 1, m_keyCount := m_keyCount t - 1\<rparr>"
  have p: "p < length table" "table ! p = Bucket v" using assms(4) by (simp_all add: holdsAt_def)
  have c: "countOf isFull ?tab + 1 = countOf isFull table" "countOf isDeletedBucket ?tab = countOf isDeletedBucket table + 1"
    using countOf_update [OF p(1), of isFull DeletedBucket] countOf_update [OF p(1), of isDeletedBucket DeletedBucket] p(2) by simp_all
  have sh: "shaped hf n ?tab s"
    using n(1) c delete_probed [of n table p] by (auto simp: shaped_def s_def)
  have u: "holdsAt table q w \<Longrightarrow> holdsAt table r w \<Longrightarrow> q = r" for q r w
    using n(1) same_refl unfolding shaped_def probed_def by blast
  have co: "contents s = contents t - {v}"
  proof -
    have "holdsAt ?tab q w \<longleftrightarrow> holdsAt table q w \<and> q \<noteq> p" for q w by (cases "q = p") (auto simp: holdsAt_def)
    moreover have "holdsAt table q w \<Longrightarrow> holdsAt table q x \<Longrightarrow> w = x" for q w x by (simp add: holdsAt_def)
    ultimately have "x \<in> valuesIn ?tab \<longleftrightarrow> x \<in> valuesIn table - {v}" for x
      unfolding valuesIn_holds Diff_iff singleton_iff using u assms(4) by metis
    then show ?thesis using assms(3) by (auto simp: contents_def s_def)
  qed
  have k: "m_keyCount s = m_keyCount t - 1" "m_tableSize s = m_tableSize t" "m_keyCount s + m_deletedCount s = m_keyCount t + m_deletedCount t"
    by (simp_all add: s_def)
  have ne: "\<not> shouldExpand s" using n(2) unfolding shouldExpand_def k(2,3) .
  have r: "removeAt hf p t = (if shouldShrink s then shrink hf s else Some s)" by (simp add: removeAt_def s_def assms(3))
  show ?thesis
  proof (cases "shouldShrink s")
    case False
    then show ?thesis using r sh ne co k by (auto simp: consistent_def s_def)
  next
    case True
    then have big: "(64 :: int) < 2 ^ n" "m_keyCount s * 6 < 2 ^ n"
      using sh by (simp_all add: shouldShrink_def shaped_def minLoad_def minTableSize_def)
    have "6 < n"
    proof (rule ccontr)
      assume "\<not> 6 < n"
      then have "(2 :: int) ^ n \<le> 2 ^ 6" by (intro power_increasing) simp_all
      then show False using big by simp
    qed
    then obtain l where l: "n = Suc l" "6 \<le> l" by (cases n) auto
    have half: "m_tableSize s div 2 = 2 ^ l" using sh l by (simp add: shaped_def)
    have low: "2 ^ n \<le> m_keyCount t * 6"
      using n(1,3) big(1) by (simp add: shouldShrink_def shaped_def minLoad_def minTableSize_def)
    have pos: "0 \<le> m_keyCount s" using sh by (simp add: shaped_def)
    then have "m_keyCount s < 2 ^ l" using big(2) l by simp
    then obtain t' table' where t': "rehash hf (2 ^ l) s = Some t'" "shaped hf l table' t'" "m_keyCount t' = m_keyCount s"
      "m_deletedCount t' = 0" "contents t' = contents s"
      using rehash_keeps [OF l(2), of s] b l sh by (auto simp: s_def)
    have sz: "m_tableSize t' = 2 ^ l" "m_table t' = Some table'" using t'(2) by (simp_all add: shaped_def)
    have "\<not> shouldExpand t'" using t'(3,4) big(2) l sz pos by (simp add: shouldExpand_def maxLoad_def)
    moreover have "\<not> shouldShrink t'"
    proof -
      have "(64 :: int) \<le> 2 ^ l" using power_increasing [OF l(2), of "2 :: int"] by simp
      then show ?thesis using t'(3) low k(1) l sz by (simp add: shouldShrink_def minLoad_def)
    qed
    ultimately show ?thesis using r True t' half co k(1) sz by (auto simp: shrink_def consistent_def)
  qed
qed

text \<open>Adding a value: the table before the insertion, after it, and after the growth.\<close>

lemma expand_empty:
  assumes "m_table t = None" "consistent hf t"
  shows "\<exists>t' table. expand hf t = Some t' \<and> shaped hf 6 table t' \<and> m_keyCount t' = 0 \<and> contents t' = contents t \<and> m_deletedCount t' = 0"
proof -
  have "expand hf t = rehash hf (2 ^ 6) t" using assms by (simp add: expand_def consistent_def minTableSize_def)
  then show ?thesis using rehash_keeps [of 6 t] assms by (auto simp: consistent_def)
qed

lemma expand_full:
  assumes "shaped hf n table t" "n < 30" "shouldExpand t" "(m_keyCount t + m_deletedCount t - 1) * 2 < 2 ^ n" "2 ^ n = (64 :: int) \<or> 2 ^ n \<le> (m_keyCount t - 1) * 6"
  shows "\<exists>t'. expand hf t = Some t' \<and> consistent hf t' \<and> m_keyCount t' = m_keyCount t \<and> contents t' = contents t \<and> m_table t' \<noteq> None"
proof -
  have s: "m_tableSize t = 2 ^ n" "6 \<le> n" "m_table t = Some table" using assms(1) by (simp_all add: shaped_def)
  have d: "0 \<le> m_deletedCount t" "0 \<le> m_keyCount t" using assms(1) by (simp_all add: shaped_def)
  define m where "m = (if mustRehashInPlace t then n else Suc n)"
  have m: "6 \<le> m" "m < 32" using s(2) assms(2) by (simp_all add: m_def)
  have "(64 :: int) \<le> 2 ^ n" using power_increasing [OF s(2), of "2 :: int"] by simp
  then have "m_keyCount t < 2 ^ n" using assms(4) d by simp
  moreover have "(2 :: int) ^ n \<le> 2 ^ m" by (simp add: m_def)
  ultimately have "m_keyCount t < 2 ^ m" by linarith
  then obtain t' table' where t': "rehash hf (2 ^ m) t = Some t'" "shaped hf m table' t'" "m_keyCount t' = m_keyCount t"
    "m_deletedCount t' = 0" "contents t' = contents t"
    using rehash_keeps [OF m, of t] assms(1) s(3) by auto
  have sz: "m_tableSize t' = 2 ^ m" "m_table t' = Some table'" using t'(2) by (simp_all add: shaped_def)
  have "expand hf t = rehash hf (2 ^ m) t" using s(1) by (simp add: expand_def m_def mult.commute)
  moreover have "\<not> shouldExpand t'"
  proof (cases "mustRehashInPlace t")
    case True
    then have "m_keyCount t * 6 < 2 ^ n * 2" by (simp add: mustRehashInPlace_def s(1) minLoad_def)
    then have "m_keyCount t * 2 < 2 ^ n" using d(2) by linarith
    then show ?thesis using True t'(3,4) sz by (simp add: shouldExpand_def maxLoad_def m_def)
  next
    case False
    have "m_keyCount t * 2 < 2 ^ Suc n" using \<open>m_keyCount t < 2 ^ n\<close> by simp
    then show ?thesis using False t'(3,4) sz by (simp add: shouldExpand_def maxLoad_def m_def)
  qed
  moreover have "\<not> shouldShrink t'"
  proof (cases "mustRehashInPlace t")
    case True
    then show ?thesis using assms(5) t'(3) sz by (auto simp: shouldShrink_def minLoad_def minTableSize_def m_def)
  next
    case False
    then have "2 ^ n * 2 \<le> m_keyCount t * 6" by (simp add: mustRehashInPlace_def s(1) minLoad_def)
    then show ?thesis using False t'(3) sz by (simp add: shouldShrink_def minLoad_def m_def)
  qed
  ultimately show ?thesis using t' sz by (auto simp: consistent_def)
qed

definition isNewKey :: "'v hashTable \<Rightarrow> 'k \<Rightarrow> bool" where
  "isNewKey t key \<longleftrightarrow> \<not> (\<exists>w \<in> contents t. sameKey hf (keyOf hf w) key)"

definition addResult :: "'v \<Rightarrow> 'v hashTable \<Rightarrow> ('v hashTable \<times> nat option \<times> bool) option \<Rightarrow> bool" where
  "addResult v t r \<longleftrightarrow>
     (\<exists>t' p table' w. r = Some (t', Some p, isNewKey t (keyOf hf v)) \<and> consistent hf t' \<and>
       m_keyCount t' = m_keyCount t + of_bool (isNewKey t (keyOf hf v)) \<and>
       contents t' = (if isNewKey t (keyOf hf v) then insert v (contents t) else contents t) \<and>
       m_table t' = Some table' \<and> holdsAt table' p w \<and> sameKey hf (keyOf hf w) (keyOf hf v))"

lemma add_new:
  assumes "shaped hf n table t" "n < 30" "\<not> shouldExpand t" "\<not> shouldShrink t" "m_keyCount t < 2 ^ 27"
    "slotFor n table (keyOf hf v) entry" "c = of_bool (isDeletedBucket (table ! entry))" "isNewKey t (keyOf hf v)"
    and s: "s = t\<lparr>m_deletedCount := m_deletedCount t - c, m_table := Some (table[entry := Bucket v]), m_keyCount := m_keyCount t + 1\<rparr>"
  shows "addResult v t (if shouldExpand s
    then Option.bind (expand hf s) (\<lambda>t. map_option (\<lambda>p. (t, p, True)) (findPosition hf t (keyOf hf v)))
    else Some (s, Some entry, True))"
proof -
  have p: "probed hf n table" "m_table t = Some table" "m_tableSize t = 2 ^ n"
    using assms(1) by (simp_all add: shaped_def)
  have absent: "\<not> sameKey hf (keyOf hf w) (keyOf hf v)" if "holdsAt table q w" for q w
    using assms(8) that by (auto simp: isNewKey_def contents_def p(2) valuesIn_holds)
  have lt: "entry < length table" "\<not> isFull (table ! entry)"
    using assms(6) by (auto simp: slotFor_def isEmptyBucket_def isDeletedBucket_def isFull_def split: bucket.splits)
  have n1: "int (countOf isFull (table[entry := Bucket v])) = int (countOf isFull table) + 1"
    "int (countOf isDeletedBucket (table[entry := Bucket v])) = int (countOf isDeletedBucket table) - c"
    using countOf_update [OF lt(1), of isFull "Bucket v"] countOf_update [OF lt(1), of isDeletedBucket "Bucket v"] lt(2) assms(7)
    by auto
  have sh: "shaped hf n (table[entry := Bucket v]) s"
    using assms(1) fill_probed [OF p(1) assms(6)] absent n1 by (simp add: shaped_def s)
  have co: "contents s = insert v (contents t)" using valuesIn_fill [OF lt] p(2) by (simp add: contents_def s)
  have k: "m_keyCount s = m_keyCount t + 1" "m_deletedCount s \<le> m_deletedCount t" "m_tableSize s = m_tableSize t"
    using assms(7) by (simp_all add: s)
  have "holdsAt (table[entry := Bucket v]) entry v" using lt(1) by (simp add: holdsAt_def)
  moreover have "\<not> shouldShrink s" using assms(4) k by (auto simp: shouldShrink_def minLoad_def)
  ultimately have stay: "addResult v t (Some (s, Some entry, True))" if "\<not> shouldExpand s"
    using that sh co k(1) assms(8) same_refl by (auto simp: addResult_def consistent_def s)
  show ?thesis
  proof (cases "shouldExpand s")
    case False
    then show ?thesis using stay by simp
  next
    case True
    have "(m_keyCount s + m_deletedCount s - 1) * 2 < 2 ^ n" using assms(3) k p(3) by (simp add: shouldExpand_def maxLoad_def)
    moreover have "2 ^ n = (64 :: int) \<or> 2 ^ n \<le> (m_keyCount s - 1) * 6"
    proof -
      have "6 \<le> n" using assms(1) by (simp add: shaped_def)
      then have "(2 :: int) ^ 6 \<le> 2 ^ n" by (intro power_increasing) simp_all
      then show ?thesis using assms(4) k p(3) by (auto simp: shouldShrink_def minLoad_def minTableSize_def)
    qed
    ultimately obtain t' where t': "expand hf s = Some t'" "consistent hf t'" "m_keyCount t' = m_keyCount s" "contents t' = contents s"
      "m_table t' \<noteq> None"
      using expand_full [OF sh assms(2) True] by blast
    have "m_keyCount t' \<le> 2 ^ 27" using t'(3) k(1) assms(5) by simp
    then obtain q w table' where "findPosition hf t' (keyOf hf v) = Some (Some q)" "m_table t' = Some table'" "holdsAt table' q w"
      "sameKey hf (keyOf hf w) (keyOf hf v)"
      using find_consistent [OF t'(2), of "keyOf hf v"] t'(4) co same_refl by auto
    then show ?thesis using True t' co k(1) assms(8) by (auto simp: addResult_def)
  qed
qed

lemma add_shaped:
  assumes "shaped hf n table t" "\<not> shouldExpand t" "\<not> shouldShrink t" "m_keyCount t < 2 ^ 27"
  shows "addResult v t (addInTable hf v table t)"
proof -
  have p: "probed hf n table" "m_tableSizeMask t = 2 ^ n - 1" "m_table t = Some table"
    using assms(1) by (simp_all add: shaped_def)
  have n: "n < 30" using size_bound [OF assms(1,3)] assms(4) by simp
  have n32: "n < 32" using n by simp
  have e: "hasEmpty table" by (rule shaped_room [OF assms(1,2)])
  show ?thesis
  proof (cases "isNewKey t (keyOf hf v)")
    case False
    then obtain w where w: "w \<in> contents t" "sameKey hf (keyOf hf w) (keyOf hf v)" by (auto simp: isNewKey_def)
    then obtain q where q: "holdsAt table q w" by (auto simp: contents_def p(3) valuesIn_holds)
    have "consistent hf t" using assms p(3) by (auto simp: consistent_def)
    then show ?thesis using False search_present(2) [OF p(1) n32 q w(2)] w(2) q p(3)
      unfolding addInTable_def p(2) addResult_def by auto
  next
    case True
    have "\<not> sameKey hf (keyOf hf w) (keyOf hf v)" if "holdsAt table q w" for q w
      using True that by (auto simp: isNewKey_def contents_def p(3) valuesIn_holds)
    then obtain i d where r: "searchForWriting hf table (2 ^ n - 1) (keyOf hf v) = Some (Inr (i, d))"
      "slotFor n table (keyOf hf v) (case d of Some q \<Rightarrow> q | None \<Rightarrow> i)" "isEmptyBucket (table ! i)"
      "case d of None \<Rightarrow> True | Some q \<Rightarrow> isDeletedBucket (table ! q)"
      using search_absent(2) [OF p(1) n32 e, of "keyOf hf v"] by blast
    have "(if d = None then 0 else 1) = (of_bool (isDeletedBucket (table ! (case d of Some q \<Rightarrow> q | None \<Rightarrow> i))) :: int)"
      using r(3,4) by (cases d) (auto simp: isEmptyBucket_def isDeletedBucket_def split: bucket.splits)
    then show ?thesis
      unfolding addInTable_def p(2) r(1) bind.simps sum.case prod.case Let_def
      by (rule add_new [OF assms(1) n assms(2,3,4) r(2) _ True refl])
  qed
qed

lemma add_consistent:
  assumes "consistent hf t" "m_keyCount t < 2 ^ 27"
  shows "addResult v t (addValue hf v t)"
proof (cases "m_table t")
  case None
  obtain t' table where t': "expand hf t = Some t'" "shaped hf 6 table t'" "m_keyCount t' = 0" "contents t' = contents t" "m_deletedCount t' = 0"
    using expand_empty [OF None assms(1)] by blast
  have sz: "m_tableSize t' = 64" "m_table t' = Some table" using t'(2) by (simp_all add: shaped_def)
  then have "\<not> shouldExpand t'" "\<not> shouldShrink t'" using t'(3,5) by (simp_all add: shouldExpand_def shouldShrink_def minTableSize_def)
  then have "addResult v t' (addInTable hf v table t')" using add_shaped [OF t'(2)] t'(3) by simp
  moreover have "m_keyCount t = 0" using assms(1) None by (simp add: consistent_def)
  moreover have "isNewKey t' (keyOf hf v) = isNewKey t (keyOf hf v)" by (simp add: isNewKey_def t'(4))
  ultimately show ?thesis using None t'(1,3,4) sz
    by (cases "isNewKey t (keyOf hf v)") (simp_all add: addValue_def addResult_def)
next
  case (Some table)
  then show ?thesis using add_shaped [of _ table t v] assms by (auto simp: addValue_def consistent_def)
qed

text \<open>Both versions of add do the same.\<close>

lemma pass_shaped:
  assumes "shaped hf n table t" "\<not> shouldExpand t" "\<not> shouldShrink t" "m_keyCount t < 2 ^ 27"
  shows "passInTable hf v table t = addInTable hf v table t"
proof -
  have p: "probed hf n table" "m_tableSizeMask t = 2 ^ n - 1" using assms(1) by (simp_all add: shaped_def)
  have n: "n < 32" using size_bound [OF assms(1,3)] assms(4) by simp
  show ?thesis
  proof (cases "\<exists>q w. holdsAt table q w \<and> sameKey hf (keyOf hf w) (keyOf hf v)")
    case True
    then obtain q w where "holdsAt table q w" "sameKey hf (keyOf hf w) (keyOf hf v)" by blast
    then show ?thesis using search_present(2) [OF p(1) n] by (simp add: passInTable_def addInTable_def lookupForWriting_def p(2))
  next
    case False
    then obtain i d where r: "searchForWriting hf table (2 ^ n - 1) (keyOf hf v) = Some (Inr (i, d))" "isEmptyBucket (table ! i)"
      "case d of None \<Rightarrow> True | Some q \<Rightarrow> isDeletedBucket (table ! q)"
      using search_absent(2) [OF p(1) n shaped_room [OF assms(1,2)], of "keyOf hf v"] by blast
    have "\<not> isDeletedBucket (table ! i)" using r(2) by (auto simp: isEmptyBucket_def isDeletedBucket_def split: bucket.splits)
    then show ?thesis using r(1,3)
      by (cases d) (simp_all add: passInTable_def addInTable_def lookupForWriting_def p(2))
  qed
qed

lemma pass_consistent:
  assumes "consistent hf t" "m_keyCount t < 2 ^ 27"
  shows "addPassingHashCode hf v t = addValue hf v t"
proof (cases "m_table t")
  case None
  obtain t' table where t': "expand hf t = Some t'" "shaped hf 6 table t'" "m_keyCount t' = 0" "m_deletedCount t' = 0"
    using expand_empty [OF None assms(1)] by blast
  have sz: "m_tableSize t' = 64" "m_table t' = Some table" using t'(2) by (simp_all add: shaped_def)
  then have "\<not> shouldExpand t'" "\<not> shouldShrink t'" using t'(3,4) by (simp_all add: shouldExpand_def shouldShrink_def minTableSize_def)
  then show ?thesis using pass_shaped [OF t'(2)] None t'(1,3) sz by (simp add: addPassingHashCode_def addValue_def)
next
  case (Some table)
  then show ?thesis using pass_shaped [of _ table t v] assms by (auto simp: addPassingHashCode_def addValue_def consistent_def)
qed

text \<open>Writing another value with the same key, as \<open>result.first->second = mapped\<close> does.\<close>

lemma overwrite_consistent:
  assumes "consistent hf t" "m_table t = Some table" "holdsAt table p v" "keyOf hf w = keyOf hf v"
  shows "consistent hf (t\<lparr>m_table := Some (table[p := Bucket w])\<rparr>) \<and>
    contents (t\<lparr>m_table := Some (table[p := Bucket w])\<rparr>) = insert w (contents t - {v})"
proof -
  let ?tab = "table[p := Bucket w]"
  obtain n where n: "shaped hf n table t" "\<not> shouldExpand t" "\<not> shouldShrink t" using assms(1,2) by (auto simp: consistent_def)
  have p: "p < length table" "table ! p = Bucket v" using assms(3) by (simp_all add: holdsAt_def)
  have h: "holdsAt ?tab q x \<longleftrightarrow> (if q = p then x = w else holdsAt table q x)" for q x by (rule holdsAt_fill [OF p(1)])
  have k: "holdsAt ?tab q x \<Longrightarrow> \<exists>y. holdsAt table q y \<and> keyOf hf y = keyOf hf x" for q x
    using assms(3,4) unfolding h by (metis (full_types))
  have e: "isEmptyBucket (?tab ! q) = isEmptyBucket (table ! q)" for q
    by (cases "q = p") (use p in simp_all)
  have pr: "probed hf n table" using n(1) by (simp add: shaped_def)
  have "probed hf n ?tab"
    unfolding probed_def e
  proof (intro conjI allI impI)
    show "length ?tab = 2 ^ n" using pr by (simp add: probed_def)
    show "\<exists>j. q = probe n (hashOf hf (keyOf hf x)) j \<and> (\<forall>l < j. \<not> isEmptyBucket (table ! probe n (hashOf hf (keyOf hf x)) l))"
      if "holdsAt ?tab q x" for q x
      using k [OF that] pr unfolding probed_def by metis
    show "q = r" if "holdsAt ?tab q x \<and> holdsAt ?tab r y \<and> sameKey hf (keyOf hf x) (keyOf hf y)" for q r x y
      using that k [of q x] k [of r y] pr unfolding probed_def by metis
  qed
  moreover have "countOf isFull ?tab = countOf isFull table" "countOf isDeletedBucket ?tab = countOf isDeletedBucket table"
    using countOf_update [OF p(1), of isFull "Bucket w"] countOf_update [OF p(1), of isDeletedBucket "Bucket w"] p(2) by simp_all
  ultimately have "shaped hf n ?tab (t\<lparr>m_table := Some ?tab\<rparr>)" using n(1) by (simp add: shaped_def)
  then have "consistent hf (t\<lparr>m_table := Some ?tab\<rparr>)"
    using n(2,3) by (auto simp: consistent_def shouldExpand_def shouldShrink_def)
  moreover have "x \<in> valuesIn ?tab \<longleftrightarrow> x = w \<or> (x \<in> valuesIn table \<and> x \<noteq> v)" for x
  proof -
    have "q = r" if "holdsAt table q y" "holdsAt table r y" for q r y
      using that pr same_refl unfolding probed_def by blast
    moreover have "y = v" if "holdsAt table p y" for y using that p(2) by (simp add: holdsAt_def)
    ultimately show ?thesis using assms(3) unfolding valuesIn_holds h by metis
  qed
  ultimately show ?thesis using assms(2) by (auto simp: contents_def)
qed

lemma clear_consistent: "consistent hf (clearTable t) \<and> contents (clearTable t) = {} \<and> m_keyCount (clearTable t) = 0"
  by (simp add: consistent_def clearTable_def contents_def)

lemma new_consistent: "consistent hf newHashTable \<and> contents (newHashTable :: 'v hashTable) = {} \<and> m_keyCount (newHashTable :: 'v hashTable) = 0"
  by (simp add: consistent_def newHashTable_def contents_def)

text \<open>Copying a table adds its values one by one.\<close>

lemma addAll_keeps:
  "consistent hf t \<Longrightarrow> m_keyCount t + int (countOf isFull bs) \<le> 2 ^ 27 \<Longrightarrow> sorted_wrt (\<lambda>b c. \<not> clash hf b c) bs \<Longrightarrow>
   (\<forall>v \<in> valuesIn bs. isNewKey t (keyOf hf v)) \<Longrightarrow>
   \<exists>t'. addAll hf bs t = Some t' \<and> consistent hf t' \<and> contents t' = contents t \<union> valuesIn bs"
proof (induction bs arbitrary: t)
  case Nil
  then show ?case by (simp add: valuesIn_def)
next
  case (Cons b bs)
  show ?case
  proof (cases b)
    case (Bucket v)
    have n: "countOf isFull (b # bs) = Suc (countOf isFull bs)" "valuesIn (b # bs) = insert v (valuesIn bs)"
      using Bucket by (auto simp: countOf_def valuesIn_def)
    have "isNewKey t (keyOf hf v)" using Cons.prems(4) n(2) by simp
    then obtain t' r where t': "addValue hf v t = Some (t', r)" "consistent hf t'" "m_keyCount t' = m_keyCount t + 1"
      "contents t' = insert v (contents t)"
      using add_consistent [OF Cons.prems(1), of v] Cons.prems(2) n(1) by (auto simp: addResult_def)
    have "\<not> sameKey hf (keyOf hf v) (keyOf hf w)" if "w \<in> valuesIn bs" for w
      using Cons.prems(3) Bucket that by (auto simp: valuesIn_def clash_def)
    then have "\<forall>w \<in> valuesIn bs. isNewKey t' (keyOf hf w)"
      using Cons.prems(4) n(2) t'(4) by (auto simp: isNewKey_def)
    then obtain u where "addAll hf bs t' = Some u" "consistent hf u" "contents u = contents t' \<union> valuesIn bs"
      using Cons.IH [OF t'(2)] Cons.prems(2,3) n(1) t'(3) by auto
    then show ?thesis using t'(1,4) Bucket n(2) by auto
  qed (use Cons in \<open>auto simp: countOf_def valuesIn_def\<close>)
qed

lemma copy_consistent:
  assumes "consistent hf t" "m_keyCount t \<le> 2 ^ 27"
  shows "\<exists>t'. copyTable hf t = Some t' \<and> consistent hf t' \<and> contents t' = contents t"
proof (cases "m_table t")
  case None
  then show ?thesis using new_consistent by (simp add: copyTable_def contents_def)
next
  case (Some table)
  then obtain n where "shaped hf n table t" using assms(1) by (auto simp: consistent_def)
  then have s: "sorted_wrt (\<lambda>b c. \<not> clash hf b c) table" "m_keyCount t = int (countOf isFull table)"
    using probed_no_clash by (auto simp: shaped_def)
  show ?thesis
    using addAll_keeps [of newHashTable table] s assms(2) Some new_consistent
    by (auto simp: copyTable_def contents_def isNewKey_def newHashTable_def consistent_def)
qed

text \<open>The counters are the numbers of buckets that hold a value or the mark of a deleted one.\<close>

lemma consistent_counters:
  assumes "consistent hf t"
  shows "case m_table t of
      None \<Rightarrow> m_tableSize t = 0 \<and> m_tableSizeMask t = 0 \<and> m_keyCount t = 0
    | Some table \<Rightarrow> m_tableSize t = int (length table) \<and> m_tableSizeMask t = m_tableSize t - 1 \<and>
        m_keyCount t = int (countOf isFull table) \<and> m_deletedCount t = int (countOf isDeletedBucket table)"
  using assms by (auto simp: consistent_def shaped_def probed_def split: option.splits)

text \<open>The numbers stay small: no sum or product of the code overflows.\<close>

lemma consistent_load:
  assumes "consistent hf t" "m_keyCount t \<le> 2 ^ 27"
  shows "0 \<le> m_keyCount t \<and> m_tableSize t \<le> max 64 (6 * m_keyCount t) \<and> m_tableSize t < 2 ^ 30 \<and>
    (m_table t = None \<or> 2 * (m_keyCount t + m_deletedCount t) < m_tableSize t \<and> (\<exists>n. m_tableSize t = 2 ^ n \<and> 6 \<le> n))"
proof (cases "m_table t")
  case None
  then show ?thesis using assms(1) by (simp add: consistent_def)
next
  case (Some table)
  then obtain n where n: "shaped hf n table t" "\<not> shouldExpand t" "\<not> shouldShrink t" using assms(1) by (auto simp: consistent_def)
  have "n < 30" by (rule size_bound [OF n(1,3) assms(2)])
  then have "(2 :: int) ^ n < 2 ^ 30" by (intro power_strict_increasing) simp_all
  then show ?thesis using n
    by (auto simp: shaped_def shouldExpand_def shouldShrink_def maxLoad_def minLoad_def minTableSize_def)
qed

end

end
