(* ===== verification/StringMaps.thy ===== *)
theory StringMaps
  imports HashTableLaws
begin

section \<open>Maps with strings as keys (wtf/StringHashFunctions.h, text/StringHash.h, HashMap.h)\<close>

text \<open>
  The three overloads of stringHash, the comparison of StringHash, which reads two
  characters at a time, and HashMap on top of the hash table: its values are pairs of a
  key and what it maps to. \<open>None\<close> stands for the empty value that get and take return.
\<close>

subsection \<open>Hash values of strings\<close>

definition stringHashingStartValue :: u32 where "stringHashingStartValue = 0x9E3779B9"

definition mixPair :: "u32 \<Rightarrow> u32 \<Rightarrow> u32 \<Rightarrow> u32" where
  "mixPair h d0 d1 =
     (let h = h + d0; tmp = push_bit 11 d1 XOR h; h = push_bit 16 h XOR tmp in h + drop_bit 11 h)"

definition mixLast :: "u32 \<Rightarrow> u32 \<Rightarrow> u32" where
  "mixLast h d0 = (let h = h + d0; h = h XOR push_bit 11 h in h + drop_bit 17 h)"

definition avalanche :: "u32 \<Rightarrow> u32" where
  "avalanche h =
     (let h = h XOR push_bit 3 h;
          h = h + drop_bit 5 h;
          h = h XOR push_bit 2 h;
          h = h + drop_bit 15 h;
          h = h XOR push_bit 10 h;
          h = h AND 0x7FFFFFFF
      in if h = 0 then 0x40000000 else h)"

fun hashUnits :: "u32 \<Rightarrow> uchar list \<Rightarrow> u32" where
  "hashUnits h (a # b # s) = hashUnits (mixPair h (ucast a) (ucast b)) s"
| "hashUnits h [a] = mixLast h (ucast a)"
| "hashUnits h [] = h"

definition stringHash :: "uchar list \<Rightarrow> u32" where
  "stringHash s = avalanche (hashUnits stringHashingStartValue s)"

fun hashBytes :: "u32 \<Rightarrow> byte list \<Rightarrow> u32" where
  "hashBytes h (a # b # s) = hashBytes (mixPair h (ucast a) (ucast b)) s"
| "hashBytes h [a] = mixLast h (ucast a)"
| "hashBytes h [] = h"

definition stringHashBytes :: "byte list \<Rightarrow> u32" where
  "stringHashBytes s = avalanche (hashBytes stringHashingStartValue s)"

text \<open>The overload for null-terminated text; \<open>None\<close> is a read behind the end of the memory.\<close>

fun hashCString :: "u32 \<Rightarrow> byte list \<Rightarrow> u32 option" where
  "hashCString h [] = None"
| "hashCString h [b0] = (if b0 = 0 then Some h else None)"
| "hashCString h (b0 # b1 # s) =
     (if b0 = 0 then Some h
      else if b1 = 0 then Some (mixLast h (ucast b0))
      else hashCString (mixPair h (ucast b0) (ucast b1)) s)"

definition stringHashCString :: "byte list \<Rightarrow> u32 option" where
  "stringHashCString s = map_option avalanche (hashCString stringHashingStartValue s)"

text \<open>Two characters as one 32-bit word, the first one in the low half.\<close>

definition wordOf :: "uchar \<Rightarrow> uchar \<Rightarrow> u32" where
  "wordOf a b = ucast a OR push_bit 16 (ucast b)"

fun equalPairs :: "uchar list \<Rightarrow> uchar list \<Rightarrow> bool" where
  "equalPairs (a # b # s) (c # d # t) = (if wordOf a b \<noteq> wordOf c d then False else equalPairs s t)"
| "equalPairs [a] [c] = (a = c)"
| "equalPairs s t = True"

definition stringEqual :: "uchar list \<Rightarrow> uchar list \<Rightarrow> bool" where
  "stringEqual a b = (if length a \<noteq> length b then False else equalPairs a b)"

subsection \<open>HashMap\<close>

definition stringMap :: "(uchar list, uchar list \<times> 'm) hashFunctions" where
  "stringMap = \<lparr>hashOf = stringHash, sameKey = stringEqual, keyOf = fst\<rparr>"

type_synonym 'm stringTable = "(uchar list \<times> 'm) hashTable"

definition mapAdd :: "uchar list \<Rightarrow> 'm \<Rightarrow> 'm stringTable \<Rightarrow> ('m stringTable \<times> nat option \<times> bool) option" where
  "mapAdd key mapped t = addValue stringMap (key, mapped) t"

text \<open>The add with a hash translator, where the caller has a hash value already.\<close>

definition mapAddPassing :: "uchar list \<Rightarrow> 'm \<Rightarrow> 'm stringTable \<Rightarrow> ('m stringTable \<times> nat option \<times> bool) option" where
  "mapAddPassing key mapped t = addPassingHashCode stringMap (key, mapped) t"

definition setMapped :: "'m \<Rightarrow> nat \<Rightarrow> 'm stringTable \<Rightarrow> 'm stringTable" where
  "setMapped mapped p t =
     t\<lparr>m_table := map_option (\<lambda>table. table[p := (case table ! p of Bucket (k, _) \<Rightarrow> Bucket (k, mapped) | b \<Rightarrow> b)]) (m_table t)\<rparr>"

definition mapSet :: "uchar list \<Rightarrow> 'm \<Rightarrow> 'm stringTable \<Rightarrow> ('m stringTable \<times> nat option \<times> bool) option" where
  "mapSet key mapped t =
     map_option (\<lambda>(t, p, isNew). (if isNew then t else case p of Some i \<Rightarrow> setMapped mapped i t | None \<Rightarrow> t, p, isNew))
       (mapAdd key mapped t)"

text \<open>What an entry maps to; the outer option is the one of the search.\<close>

definition mappedAt :: "'m stringTable \<Rightarrow> nat \<Rightarrow> 'm option" where
  "mappedAt t p =
     (case m_table t of None \<Rightarrow> None | Some table \<Rightarrow> (case table ! p of Bucket (_, x) \<Rightarrow> Some x | _ \<Rightarrow> None))"

definition mapGet :: "uchar list \<Rightarrow> 'm stringTable \<Rightarrow> 'm option option" where
  "mapGet key t =
     map_option (\<lambda>e. case e of None \<Rightarrow> None | Some p \<Rightarrow> mappedAt t p) (lookupEntry stringMap t key)"

definition mapRemove :: "uchar list \<Rightarrow> 'm stringTable \<Rightarrow> 'm stringTable option" where
  "mapRemove key t = removeKey stringMap key t"

definition mapTake :: "uchar list \<Rightarrow> 'm stringTable \<Rightarrow> ('m stringTable \<times> 'm option) option" where
  "mapTake key t =
     Option.bind (findPosition stringMap t key) (\<lambda>p.
       case p of
         None \<Rightarrow> Some (t, None)
       | Some i \<Rightarrow> map_option (\<lambda>t'. (t', mappedAt t i)) (removeAt stringMap i t))"

definition mapClear :: "'m stringTable \<Rightarrow> 'm stringTable" where
  "mapClear t = clearTable t"

subsection \<open>The hash values agree\<close>

lemma hashCString_bytes: "0 \<notin> set s \<Longrightarrow> hashCString h (s @ 0 # rest) = Some (hashBytes h s)"
proof (induction h s rule: hashBytes.induct)
  case (3 h)
  then show ?case by (cases rest) simp_all
qed simp_all

lemma widen: "(ucast (ucast (a :: byte) :: uchar) :: u32) = ucast a"
  by (rule word_eqI_unat) (use unat_less_length [of a] in \<open>simp add: unat_ucast_mod\<close>)

lemma hashBytes_units: "hashBytes h s = hashUnits h (map ucast s)"
  by (induction h s rule: hashBytes.induct) (simp_all only: hashBytes.simps hashUnits.simps list.map widen)

lemma avalanche_range: "0 < avalanche h \<and> avalanche h < 0x80000000"
proof -
  have "x AND 0x7FFFFFFF < (0x80000000 :: u32)" for x
    by (rule order_le_less_trans [OF word_and_le1]) simp
  then show ?thesis by (auto simp: avalanche_def Let_def word_gt_0)
qed

text \<open>
  The three overloads of stringHash agree: the hash of a null-terminated text, of the
  same bytes with their length and of the string of these characters are one value,
  between 1 and 2 ^ 31 - 1, and nothing behind the terminator is read.
\<close>

theorem stringHash_agree:
  assumes "0 \<notin> set s"
  shows "stringHashCString (s @ 0 # rest) = Some (stringHashBytes s) \<and> stringHashBytes s = stringHash (map ucast s) \<and>
    0 < stringHash (map ucast s) \<and> stringHash (map ucast s) < 0x80000000"
  by (simp add: stringHashCString_def stringHashBytes_def stringHash_def hashCString_bytes [OF assms] hashBytes_units avalanche_range)

lemma stringHash_agree_witness: "stringHashCString [0x61, 0x62, 0x63, 0] = Some (stringHash [0x61, 0x62, 0x63])"
  using stringHash_agree [of "[0x61, 0x62, 0x63]" "[]"] by simp

subsection \<open>The comparison is equality\<close>

lemma wordOf_inject: "wordOf a b = wordOf c d \<longleftrightarrow> a = c \<and> b = d"
proof
  assume e: "wordOf a b = wordOf c d"
  have "ucast (wordOf a b) = a \<and> ucast (drop_bit 16 (wordOf a b)) = b" for a b
    by (intro conjI; rule bit_word_eqI)
      (auto simp: wordOf_def bit_unsigned_iff bit_or_iff bit_push_bit_iff bit_drop_bit_eq unsigned_or_eq bit_ucast_iff not_le dest: bit_imp_le_length)
  then show "a = c \<and> b = d" using e by metis
qed simp

lemma stringEqual_eq: "stringEqual a b \<longleftrightarrow> a = b"
  by (induction a b rule: equalPairs.induct) (auto simp: stringEqual_def wordOf_inject)

interpretation strings: hash_functions stringMap
  by unfold_locales (simp_all add: stringMap_def stringEqual_eq)

subsection \<open>The map that a table implements\<close>

datatype 'm mapCommand =
    MapAdd "uchar list" 'm
  | MapAddPassing "uchar list" 'm
  | MapSet "uchar list" 'm
  | MapGet "uchar list"
  | MapRemove "uchar list"
  | MapTake "uchar list"
  | MapClear

datatype 'm answer = Flag bool | Mapped "'m option" | Done

fun performMap :: "'m mapCommand \<Rightarrow> 'm stringTable \<Rightarrow> ('m stringTable \<times> 'm answer) option" where
  "performMap (MapAdd k x) t = map_option (\<lambda>(t, _, isNew). (t, Flag isNew)) (mapAdd k x t)"
| "performMap (MapAddPassing k x) t = map_option (\<lambda>(t, _, isNew). (t, Flag isNew)) (mapAddPassing k x t)"
| "performMap (MapSet k x) t = map_option (\<lambda>(t, _, isNew). (t, Flag isNew)) (mapSet k x t)"
| "performMap (MapGet k) t = map_option (\<lambda>x. (t, Mapped x)) (mapGet k t)"
| "performMap (MapRemove k) t = map_option (\<lambda>t. (t, Done)) (mapRemove k t)"
| "performMap (MapTake k) t = map_option (\<lambda>(t, x). (t, Mapped x)) (mapTake k t)"
| "performMap MapClear t = Some (mapClear t, Done)"

fun specMap :: "'m mapCommand \<Rightarrow> (uchar list \<rightharpoonup> 'm) \<Rightarrow> (uchar list \<rightharpoonup> 'm) \<times> 'm answer" where
  "specMap (MapAdd k x) m = (if m k = None then m(k \<mapsto> x) else m, Flag (m k = None))"
| "specMap (MapAddPassing k x) m = (if m k = None then m(k \<mapsto> x) else m, Flag (m k = None))"
| "specMap (MapSet k x) m = (m(k \<mapsto> x), Flag (m k = None))"
| "specMap (MapGet k) m = (m, Mapped (m k))"
| "specMap (MapRemove k) m = (m(k := None), Done)"
| "specMap (MapTake k) m = (m(k := None), Mapped (m k))"
| "specMap MapClear m = (Map.empty, Done)"

definition implements :: "'m stringTable \<Rightarrow> (uchar list \<rightharpoonup> 'm) \<Rightarrow> bool" where
  "implements t m \<longleftrightarrow> consistent stringMap t \<and> (\<forall>k x. m k = Some x \<longleftrightarrow> (k, x) \<in> contents t)"

lemma stringMap_simps [simp]: "keyOf stringMap = fst" "sameKey stringMap = (=)"
  by (auto simp: stringMap_def fun_eq_iff stringEqual_eq)

lemma newKey_none: "implements t m \<Longrightarrow> strings.isNewKey t k \<longleftrightarrow> m k = None"
proof -
  assume i: "implements t m"
  have "strings.isNewKey t k \<longleftrightarrow> (\<forall>x. (k, x) \<notin> contents t)" by (auto simp: strings.isNewKey_def)
  also have "\<dots> \<longleftrightarrow> (\<forall>x. m k \<noteq> Some x)" using i by (simp add: implements_def)
  finally show ?thesis by simp
qed

lemma implements_find:
  assumes "implements t m" "m_keyCount t \<le> 2 ^ 27"
  shows "case m k of
      None \<Rightarrow> findPosition stringMap t k = Some None
    | Some x \<Rightarrow> \<exists>p table. findPosition stringMap t k = Some (Some p) \<and> m_table t = Some table \<and> holdsAt table p (k, x)"
proof -
  have c: "consistent stringMap t" "\<And>x. m k = Some x \<longleftrightarrow> (k, x) \<in> contents t" using assms(1) by (simp_all add: implements_def)
  consider p v table where "findPosition stringMap t k = Some (Some p)" "m_table t = Some table" "holdsAt table p v" "fst v = k"
    | "findPosition stringMap t k = Some None" "\<forall>v \<in> contents t. fst v \<noteq> k"
    using strings.find_consistent [OF c(1) assms(2), of k] unfolding stringMap_simps by blast
  then show ?thesis
  proof cases
    case 1
    then have "(k, snd v) \<in> contents t" using valuesIn_holds [of v table] by (auto simp: contents_def)
    then have "m k = Some (snd v)" using c(2) by simp
    then show ?thesis using 1 by auto
  next
    case 2
    then have "m k = None" using c(2) by (metis fst_conv not_None_eq)
    then show ?thesis using 2 by simp
  qed
qed

lemma mapped_holds: "m_table t = Some table \<Longrightarrow> holdsAt table p (k, x) \<Longrightarrow> mappedAt t p = Some x"
  by (simp add: mappedAt_def holdsAt_def)

lemma find_lookup: "findPosition stringMap t k = lookupEntry stringMap t k"
  by (simp add: findPosition_def lookupEntry_def split: option.split)

lemma implements_add:
  assumes "implements t m" "m_keyCount t < 2 ^ 27"
  shows "\<exists>t' p table x'. mapAdd k x t = Some (t', Some p, m k = None) \<and> implements t' (if m k = None then m(k \<mapsto> x) else m) \<and>
    m_keyCount t' = m_keyCount t + of_bool (m k = None) \<and> m_table t' = Some table \<and> holdsAt table p (k, x')"
proof -
  have c: "consistent stringMap t" "\<And>k x. m k = Some x \<longleftrightarrow> (k, x) \<in> contents t" using assms(1) by (simp_all add: implements_def)
  obtain t' p table w where r: "addValue stringMap (k, x) t = Some (t', Some p, m k = None)" "consistent stringMap t'"
    "m_keyCount t' = m_keyCount t + of_bool (m k = None)"
    "contents t' = (if m k = None then insert (k, x) (contents t) else contents t)"
    "m_table t' = Some table" "holdsAt table p w" "fst w = k"
    using strings.add_consistent [OF c(1) assms(2), of "(k, x)"] newKey_none [OF assms(1), of k]
    unfolding strings.addResult_def by auto
  have "implements t' (if m k = None then m(k \<mapsto> x) else m)"
    using r(2,4) c(2) by (auto simp: implements_def) (metis option.distinct(1))+
  moreover have "holdsAt table p (k, snd w)" using r(6,7) by auto
  ultimately show ?thesis using r by (auto simp: mapAdd_def)
qed

lemma implements_set:
  assumes "implements t m" "m_keyCount t < 2 ^ 27"
  shows "\<exists>t' p. mapSet k x t = Some (t', p, m k = None) \<and> implements t' (m(k \<mapsto> x)) \<and> m_keyCount t' = m_keyCount t + of_bool (m k = None)"
proof -
  obtain s p table y where s: "mapAdd k x t = Some (s, Some p, m k = None)" "implements s (if m k = None then m(k \<mapsto> x) else m)"
    "m_keyCount s = m_keyCount t + of_bool (m k = None)" "m_table s = Some table" "holdsAt table p (k, y)"
    using implements_add [OF assms] by blast
  show ?thesis
  proof (cases "m k = None")
    case True
    then show ?thesis using s by (auto simp: mapSet_def)
  next
    case False
    let ?t = "s\<lparr>m_table := Some (table[p := Bucket (k, x)])\<rparr>"
    have c: "consistent stringMap s" "\<And>k x. m k = Some x \<longleftrightarrow> (k, x) \<in> contents s" using s(2) False by (simp_all add: implements_def)
    have o: "consistent stringMap ?t" "contents ?t = insert (k, x) (contents s - {(k, y)})"
      using strings.overwrite_consistent [OF c(1) s(4,5), of "(k, x)"] by simp_all
    have "m k = Some y" using s(4,5) c(2) valuesIn_holds [of "(k, y)" table] by (auto simp: contents_def)
    then have "implements ?t (m(k \<mapsto> x))" using o c(2) by (auto simp: implements_def) (metis option.inject)+
    moreover have "setMapped x p s = ?t" using s(4,5) by (simp add: setMapped_def holdsAt_def)
    ultimately show ?thesis using s(1,3) False by (simp add: mapSet_def)
  qed
qed

lemma implements_remove:
  assumes "implements t m" "m_keyCount t \<le> 2 ^ 27"
  shows "\<exists>t'. mapRemove k t = Some t' \<and> mapTake k t = Some (t', m k) \<and> implements t' (m(k := None)) \<and> m_keyCount t' \<le> m_keyCount t"
proof (cases "m k")
  case None
  then have "m(k := None) = m" by (simp add: fun_upd_idem)
  then show ?thesis using implements_find [OF assms, of k] None assms(1) by (simp add: mapRemove_def mapTake_def removeKey_def)
next
  case (Some x)
  have c: "consistent stringMap t" "\<And>k x. m k = Some x \<longleftrightarrow> (k, x) \<in> contents t" using assms(1) by (simp_all add: implements_def)
  obtain p table where p: "findPosition stringMap t k = Some (Some p)" "m_table t = Some table" "holdsAt table p (k, x)"
    using implements_find [OF assms, of k] Some by auto
  obtain t' where t': "removeAt stringMap p t = Some t'" "consistent stringMap t'" "m_keyCount t' = m_keyCount t - 1"
    "contents t' = contents t - {(k, x)}"
    using strings.remove_consistent [OF c(1) assms(2) p(2,3)] by blast
  have "implements t' (m(k := None))" using t'(2,4) c(2) Some by (auto simp: implements_def) (metis option.inject)+
  then show ?thesis using t'(1,3) p(1) mapped_holds [OF p(2,3)] Some by (simp add: mapRemove_def mapTake_def removeKey_def)
qed

lemma implements_get:
  assumes "implements t m" "m_keyCount t \<le> 2 ^ 27"
  shows "mapGet k t = Some (m k)"
proof (cases "m k")
  case None
  then show ?thesis using implements_find [OF assms, of k] by (simp add: mapGet_def find_lookup [symmetric])
next
  case (Some x)
  then obtain p table where "findPosition stringMap t k = Some (Some p)" "m_table t = Some table" "holdsAt table p (k, x)"
    using implements_find [OF assms, of k] by auto
  then show ?thesis using mapped_holds Some by (simp add: mapGet_def find_lookup [symmetric])
qed

lemma implements_step:
  assumes "implements t m" "m_keyCount t < 2 ^ 27"
  shows "\<exists>t'. performMap c t = Some (t', snd (specMap c m)) \<and> implements t' (fst (specMap c m)) \<and> m_keyCount t' \<le> m_keyCount t + 1"
proof -
  have le: "m_keyCount t \<le> 2 ^ 27" and k0: "0 \<le> m_keyCount t"
    using assms by (auto simp: implements_def consistent_def shaped_def split: option.splits)
  show ?thesis
  proof (cases c)
    case (MapAdd k x)
    then show ?thesis using implements_add [OF assms, of k x] by (fastforce simp: of_bool_def)
  next
    case (MapAddPassing k x)
    have "mapAddPassing k x t = mapAdd k x t"
      using strings.pass_consistent [of t "(k, x)"] assms by (simp add: mapAddPassing_def mapAdd_def implements_def)
    then show ?thesis using implements_add [OF assms, of k x] MapAddPassing by (fastforce simp: of_bool_def)
  next
    case (MapSet k x)
    then show ?thesis using implements_set [OF assms, of k x] by (fastforce simp: of_bool_def)
  next
    case (MapGet k)
    then show ?thesis using implements_get [OF assms(1) le] assms(1) by simp
  next
    case (MapRemove k)
    then show ?thesis using implements_remove [OF assms(1) le, of k] by fastforce
  next
    case (MapTake k)
    then show ?thesis using implements_remove [OF assms(1) le, of k] by fastforce
  next
    case MapClear
    then show ?thesis using strings.clear_consistent [of t] k0 by (simp add: implements_def mapClear_def)
  qed
qed

fun runMap :: "'m mapCommand list \<Rightarrow> 'm stringTable \<Rightarrow> ('m stringTable \<times> 'm answer list) option" where
  "runMap [] t = Some (t, [])"
| "runMap (c # cs) t =
     Option.bind (performMap c t) (\<lambda>(t, a). map_option (\<lambda>(t, as). (t, a # as)) (runMap cs t))"

fun runSpec :: "'m mapCommand list \<Rightarrow> (uchar list \<rightharpoonup> 'm) \<Rightarrow> (uchar list \<rightharpoonup> 'm) \<times> 'm answer list" where
  "runSpec [] m = (m, [])"
| "runSpec (c # cs) m = (let (m, a) = specMap c m; (m, as) = runSpec cs m in (m, a # as))"

lemma run_implements:
  "implements t m \<Longrightarrow> m_keyCount t + int (length cs) \<le> 2 ^ 27 \<Longrightarrow>
   \<exists>t'. runMap cs t = Some (t', snd (runSpec cs m)) \<and> implements t' (fst (runSpec cs m)) \<and>
     m_keyCount t' \<le> m_keyCount t + int (length cs)"
proof (induction cs arbitrary: t m)
  case (Cons c cs)
  have "m_keyCount t < 2 ^ 27" using Cons.prems(2) by simp
  then obtain t' where t': "performMap c t = Some (t', snd (specMap c m))" "implements t' (fst (specMap c m))" "m_keyCount t' \<le> m_keyCount t + 1"
    using implements_step [OF Cons.prems(1), of c] by blast
  then obtain u where "runMap cs t' = Some (u, snd (runSpec cs (fst (specMap c m))))" "implements u (fst (runSpec cs (fst (specMap c m))))"
    "m_keyCount u \<le> m_keyCount t' + int (length cs)"
    using Cons.IH [OF t'(2)] Cons.prems(2) by auto
  then show ?case using t'(1,3) by (simp add: case_prod_beta Let_def)
qed simp

text \<open>
  C5: A map from strings implements a partial function: every sequence of fewer than
  2 ^ 27 calls of add, set, get, remove, take and clear on a new map returns, although
  the probing loops have no bound of their own, answers each call as the partial
  function does, and leaves a table that passes the consistency check of the code.
\<close>

theorem hash_map_refines:
  assumes "length cs < 2 ^ 27"
  shows "\<exists>t. runMap cs newHashTable = Some (t, snd (runSpec cs Map.empty)) \<and> consistent stringMap t \<and>
    (\<forall>k. mapGet k t = Some (fst (runSpec cs Map.empty) k))"
proof -
  have i: "implements newHashTable Map.empty" by (simp add: implements_def consistent_def contents_def newHashTable_def)
  have n: "m_keyCount newHashTable = 0" by (simp add: newHashTable_def)
  have l: "int (length cs) < 2 ^ 27" using assms by (metis of_nat_less_iff of_nat_numeral of_nat_power)
  then obtain t where t: "runMap cs newHashTable = Some (t, snd (runSpec cs Map.empty))" "implements t (fst (runSpec cs Map.empty))"
    "m_keyCount t \<le> int (length cs)"
    using run_implements [OF i, of cs] by (auto simp: n)
  then show ?thesis using implements_get [OF t(2)] l by (auto simp: implements_def)
qed

lemma hash_map_refines_witness:
  "\<exists>t. runMap [MapSet [0x61] (1 :: nat), MapAdd [0x61] 2, MapTake [0x61]] newHashTable =
     Some (t, [Flag True, Flag False, Mapped (Some 1)]) \<and> mapGet [0x61] t = Some None"
proof -
  have "length [MapSet [0x61] (1 :: nat), MapAdd [0x61] 2, MapTake [0x61]] < 2 ^ 27" by simp
  from hash_map_refines [OF this] show ?thesis by auto
qed

text \<open>
  C6: The counters and the load of the table after every sequence of calls: as long as there is
  no table, size and key count are zero; once there is one, its length is m_tableSize,
  m_keyCount is the number of buckets that hold a value, m_deletedCount the number of
  those with the mark of a deleted one, the size is a power of two between 64 and the
  larger of 64 and six times the number of keys, and more than half of the buckets are free.
  Neither the doubled size nor the products of the load tests leave the range of a
  32-bit integer. A copy of the table has the same keys and values.
\<close>

theorem hash_table_load:
  assumes "length cs < 2 ^ 27" "runMap cs newHashTable = Some (t, as)"
  shows "m_tableSize t \<le> max 64 (6 * m_keyCount t) \<and> 2 * m_tableSize t < 2 ^ 31 \<and> 6 * m_keyCount t < 2 ^ 31 \<and>
    (case m_table t of
       None \<Rightarrow> m_tableSize t = 0 \<and> m_tableSizeMask t = 0 \<and> m_keyCount t = 0
     | Some table \<Rightarrow> m_tableSize t = int (length table) \<and> m_tableSizeMask t = m_tableSize t - 1 \<and>
         m_keyCount t = int (countOf isFull table) \<and> m_deletedCount t = int (countOf isDeletedBucket table)) \<and>
    (m_table t = None \<or> 2 * (m_keyCount t + m_deletedCount t) < m_tableSize t \<and> (\<exists>n. m_tableSize t = 2 ^ n \<and> 6 \<le> n)) \<and>
    (\<exists>t'. copyTable stringMap t = Some t' \<and> consistent stringMap t' \<and> contents t' = contents t)"
proof -
  have i: "implements newHashTable Map.empty" by (simp add: implements_def consistent_def contents_def newHashTable_def)
  have n: "m_keyCount newHashTable = 0" by (simp add: newHashTable_def)
  have l: "int (length cs) < 2 ^ 27" using assms(1) by (metis of_nat_less_iff of_nat_numeral of_nat_power)
  then have t: "consistent stringMap t" "m_keyCount t \<le> 2 ^ 27"
    using run_implements [OF i, of cs] assms(2) by (auto simp: n implements_def)
  show ?thesis using strings.consistent_load [OF t] strings.consistent_counters [OF t(1)] strings.copy_consistent [OF t] t(2) by auto
qed

lemma hash_table_load_witness:
  "\<exists>t. runMap [MapSet [0x61] (1 :: nat)] newHashTable = Some (t, [Flag True]) \<and> 2 * m_tableSize t < 2 ^ 31"
proof -
  have l: "length [MapSet [0x61] (1 :: nat)] < 2 ^ 27" by simp
  have "implements newHashTable Map.empty" by (simp add: implements_def consistent_def contents_def newHashTable_def)
  then obtain t where "runMap [MapSet [0x61] (1 :: nat)] newHashTable = Some (t, [Flag True])"
    using run_implements [of newHashTable Map.empty "[MapSet [0x61] (1 :: nat)]"] by (auto simp: newHashTable_def)
  then show ?thesis using hash_table_load [OF l] by blast
qed

end
