(* ===== verification/ApolloClient.thy ===== *)
theory ApolloClient
  imports Security "HOL-Library.Monad_Syntax"
begin

section \<open>What frames of AIR may load (WebCore/loader/apollo/FrameLoaderClientApollo.cpp)\<close>

text \<open>
  The table of local schemes of AIR, the comparison of a URL with a prefix and the mapping
  of URLs between a sandbox root and a document root. C strings are byte lists without the
  terminator; \<open>char\<close> is signed. A read at the terminator gives 0 and a read behind it is
  \<open>None\<close>. A frame is a number in a store of frames, so the walk to owners and openers may
  run forever and is a partial function.
\<close>

subsection \<open>Local schemes\<close>

definition schemeLoadInfos :: "(wtf_string \<times> wtf_string list) list" where
  "schemeLoadInfos =
     [(ustr ''app'', [ustr ''app'']),
      (ustr ''app-storage'', [ustr ''app'', ustr ''app-storage'']),
      (ustr ''file'', [ustr ''app'', ustr ''file''])]"

definition canLoadImpl :: "environment \<Rightarrow> KURL \<Rightarrow> KURL \<Rightarrow> bool" where
  "canLoadImpl env url referrer =
     (let urlScheme = lower (toLower env) (protocol url)
      in if m_string url = [] then True
         else if m_string referrer = [] then False
         else if urlScheme = [] then False
         else case find (\<lambda>(s, _). same env s urlScheme) schemeLoadInfos of
                None \<Rightarrow> True
              | Some (_, allowed) \<Rightarrow> containsScheme env allowed (lower (toLower env) (protocol referrer)))"

text \<open>The overload for a document: what its frame's client says of restrictions, and its URL.\<close>

definition apolloCanLoad :: "environment \<Rightarrow> bool \<Rightarrow> KURL \<Rightarrow> KURL \<Rightarrow> bool" where
  "apolloCanLoad env hasApplicationRestrictions documentURL url =
     (if hasApplicationRestrictions then True else canLoadImpl env url documentURL)"

subsection \<open>Prefixes of URLs\<close>

definition byteAt :: "byte list \<Rightarrow> nat \<Rightarrow> byte option" where
  "byteAt s i = (if i < length s then Some (s ! i) else if i = length s then Some 0 else None)"

text \<open>A \<open>char\<close> that was stored in a \<open>UChar\<close> against a \<open>char\<close>, both promoted to \<open>int\<close>.\<close>

definition sameChar :: "uchar \<Rightarrow> byte \<Rightarrow> bool" where
  "sameChar c b \<longleftrightarrow> uint c = sint b"

definition lowerChar :: "byte \<Rightarrow> byte" where
  "lowerChar b = b OR push_bit 5 (of_bool (0x41 \<le> b \<and> b \<le> 0x5A))"

definition widenChar :: "byte \<Rightarrow> uchar" where
  "widenChar b = scast b"

text \<open>
  The two loops that compare without case up to a stop character of the prefix: \<open>Inl ()\<close> is
  the early return of false, \<open>Inr\<close> the positions behind the loop.
\<close>

function foldedLoop :: "byte \<Rightarrow> byte list \<Rightarrow> byte list \<Rightarrow> nat \<Rightarrow> nat \<Rightarrow> (unit + nat \<times> nat) option" where
  "foldedLoop stop prefix other pos otherpos =
     (case byteAt prefix pos of
        None \<Rightarrow> None
      | Some b \<Rightarrow>
          let ch = widenChar b
          in if b \<noteq> 0 \<and> ch \<noteq> widenChar stop
             then (case byteAt other otherpos of
                     None \<Rightarrow> None
                   | Some c \<Rightarrow>
                       if \<not> sameChar (toASCIILower ch) (lowerChar c) then Some (Inl ())
                       else foldedLoop stop prefix other (pos + 1) (otherpos + 1))
             else Some (Inr (pos, otherpos)))"
  by pat_completeness auto
termination by (relation "measure (\<lambda>(_, prefix, _, pos, _). length prefix - pos)") (auto simp: byteAt_def split: if_splits)

function exactLoop :: "byte list \<Rightarrow> byte list \<Rightarrow> nat \<Rightarrow> nat \<Rightarrow> (nat \<times> nat) option" where
  "exactLoop prefix other pos otherpos =
     (case byteAt prefix pos of
        None \<Rightarrow> None
      | Some b \<Rightarrow>
          if b = 0 then Some (pos, otherpos)
          else case byteAt other otherpos of
                 None \<Rightarrow> None
               | Some c \<Rightarrow> if sameChar (widenChar b) c then exactLoop prefix other (pos + 1) (otherpos + 1) else Some (pos, otherpos))"
  by pat_completeness auto
termination by (relation "measure (\<lambda>(prefix, _, pos, _). length prefix - pos)") (auto simp: byteAt_def split: if_splits)

text \<open>The look ahead for the at sign behind user name and password.\<close>

function skipUserInfo :: "byte list \<Rightarrow> nat \<Rightarrow> nat \<Rightarrow> nat option" where
  "skipUserInfo other otherpos otherpos2 =
     (case byteAt other otherpos2 of
        None \<Rightarrow> None
      | Some c \<Rightarrow>
          if c \<noteq> 0 \<and> c \<noteq> 0x2F
          then if c = 0x40 then Some (otherpos2 + 1) else skipUserInfo other otherpos (otherpos2 + 1)
          else Some otherpos)"
  by pat_completeness auto
termination by (relation "measure (\<lambda>(other, _, p). length other - p)") (auto simp: byteAt_def split: if_splits)

declare foldedLoop.simps [simp del] exactLoop.simps [simp del] skipUserInfo.simps [simp del]

text \<open>What follows the colon: the positions from which the rest is compared.\<close>

definition behindColon :: "byte list \<Rightarrow> byte list \<Rightarrow> nat \<Rightarrow> nat \<Rightarrow> (unit + nat \<times> nat) option" where
  "behindColon prefix other pos otherpos =
     do {
       c1 \<leftarrow> byteAt prefix (pos + 1);
       if c1 \<noteq> 0x2F then Some (Inr (pos + 1, otherpos + 1))
       else do {
         c2 \<leftarrow> byteAt prefix (pos + 2);
         if c2 = 0x2F
         then do {
           d1 \<leftarrow> byteAt other (otherpos + 1);
           if d1 \<noteq> 0x2F then Some (Inl ())
           else do {
             d2 \<leftarrow> byteAt other (otherpos + 2);
             if d2 \<noteq> 0x2F then Some (Inl ())
             else do {
               q \<leftarrow> skipUserInfo other (otherpos + 3) (otherpos + 3);
               foldedLoop 0x2F prefix other (pos + 3) q
             }
           }
         }
         else Some (Inr (pos, otherpos))
       }
     }"

text \<open>The end of the match: the rest when the prefix ends a component of the path.\<close>

definition endOfPrefix :: "byte list \<Rightarrow> byte list \<Rightarrow> nat \<Rightarrow> nat \<Rightarrow> nat option option" where
  "endOfPrefix prefix other pos otherpos =
     do {
       ch \<leftarrow> byteAt prefix pos;
       if ch \<noteq> 0 then Some None
       else do {
         lastCh \<leftarrow> (if pos = 0 then None else byteAt prefix (pos - 1));
         if lastCh = 0x2F then Some (Some otherpos)
         else do {
           c \<leftarrow> byteAt other otherpos;
           Some (if c = 0 \<or> c = 0x2F \<or> c = 0x23 \<or> c = 0x3F then Some otherpos else None)
         }
       }
     }"

definition isUrlPrefixOfUrl :: "byte list \<Rightarrow> byte list \<Rightarrow> nat option option" where
  "isUrlPrefixOfUrl prefix other =
     do {
       r \<leftarrow> foldedLoop 0x3A prefix other 0 0;
       case r of
         Inl _ \<Rightarrow> Some None
       | Inr (pos, otherpos) \<Rightarrow>
           do {
             ch \<leftarrow> byteAt prefix pos;
             if ch \<noteq> 0x3A then Some None
             else do {
               c \<leftarrow> byteAt other otherpos;
               if c \<noteq> 0x3A then Some None
               else do {
                 r \<leftarrow> behindColon prefix other pos otherpos;
                 case r of
                   Inl _ \<Rightarrow> Some None
                 | Inr (pos, otherpos) \<Rightarrow>
                     do {
                       (pos, otherpos) \<leftarrow> exactLoop prefix other pos otherpos;
                       endOfPrefix prefix other pos otherpos
                     }
               }
             }
           }
     }"

subsection \<open>Mapping between the sandbox and the application\<close>

definition startsWithAny :: "string list \<Rightarrow> wtf_string \<Rightarrow> bool" where
  "startsWithAny ps s = list_ex (\<lambda>p. findString (\<lambda>c. c) (=) s (ustr p) 0 = 0) ps"

text \<open>The new URL: the target with the rest of the text, with one slash between them.\<close>

definition joinRest :: "wtf_string \<Rightarrow> wtf_string \<Rightarrow> nat \<Rightarrow> wtf_string" where
  "joinRest toURL urlString rest =
     (let c = charAt urlString rest
      in if charAt toURL (length toURL - 1) = 0x2F
         then toURL @ substring urlString (if c = 0x2F then rest + 1 else rest) None
         else if c \<noteq> 0x2F \<and> c \<noteq> 0x23 \<and> c \<noteq> 0x3F \<and> c \<noteq> 0 then toURL @ [0x2F] @ substring urlString rest None
         else toURL @ substring urlString rest None)"

text \<open>
  One level of the hierarchy: the attributes of the owner element and the text of its
  document's URL. \<open>matched\<close> and \<open>replacement\<close> are the attributes in the roles of
  mapFrameUrl, or exchanged for unmapFrameUrl. The result is the URL that the parser makes of the new text.
\<close>

definition mapAtOwner :: "wtf_string \<Rightarrow> wtf_string \<Rightarrow> bool \<Rightarrow> wtf_string \<Rightarrow> wtf_string \<Rightarrow> KURL option option" where
  "mapAtOwner fromURL toURL unmap ownerDocumentURL urlString =
     (if fromURL = [] \<or> toURL = [] then Some None
      else if \<not> startsWith ownerDocumentURL (ustr ''app:/'') then Some None
      else let (matched, replacement) = (if unmap then (toURL, fromURL) else (fromURL, toURL))
           in do {
             r \<leftarrow> isUrlPrefixOfUrl (cstring (utf8 matched)) (cstring (utf8 urlString));
             Some (case r of
               None \<Rightarrow> None
             | Some rest \<Rightarrow>
                 if startsWithAny [''http:/'', ''https:/'', ''file:/''] fromURL \<and>
                    startsWithAny [''app:'', ''app-storage:'', ''file:''] toURL
                 then Some (parseString (joinRest replacement urlString rest)) else None)
           })"

text \<open>
  A frame: its owner element (the attributes sandboxroot and documentroot, the URL of the
  document of the element and the frame of that document) or none, and its opener.
\<close>

record ownerElement =
  w_sandboxroot :: wtf_string
  w_documentroot :: wtf_string
  w_documentURL :: wtf_string
  w_frame :: "nat option"
  w_allowcrossdomainxhr :: "wtf_string option"

record frameNode =
  n_owner :: "ownerElement option"
  n_opener :: "nat option"

type_synonym frameStore = "nat \<rightharpoonup> frameNode"

text \<open>The inner loop: the first frame with an owner along the openers.\<close>

partial_function (option) findOwner :: "frameStore \<Rightarrow> nat \<Rightarrow> ownerElement option option" where
  "findOwner store f =
     (case store f of
        None \<Rightarrow> None
      | Some n \<Rightarrow>
          (case n_owner n of
             Some e \<Rightarrow> Some (Some e)
           | None \<Rightarrow>
               (case n_opener n of
                  None \<Rightarrow> Some None
                | Some g \<Rightarrow> if g = f then Some None else findOwner store g)))"

definition mapLevel :: "bool \<Rightarrow> wtf_string \<Rightarrow> ownerElement \<Rightarrow> KURL option option" where
  "mapLevel unmap urlString e = mapAtOwner (w_sandboxroot e) (w_documentroot e) unmap (w_documentURL e) urlString"

text \<open>The outer loop; the inner result \<open>None\<close> is the URL as it was.\<close>

partial_function (option) mapLoop ::
    "frameStore \<Rightarrow> (ownerElement \<Rightarrow> KURL option option) \<Rightarrow> nat option \<Rightarrow> KURL option option" where
  "mapLoop store level frame =
     (if frame = None then Some None
      else Option.bind (findOwner store (the frame)) (\<lambda>owner.
             if owner = None then Some None
             else Option.bind (level (the owner)) (\<lambda>r.
                    if r \<noteq> None then Some r else mapLoop store level (w_frame (the owner)))))"

text \<open>The result and the URL that the caller goes on with.\<close>

definition mapWith :: "bool \<Rightarrow> frameStore \<Rightarrow> nat option \<Rightarrow> KURL \<Rightarrow> (bool \<times> KURL) option" where
  "mapWith unmap store frame url =
     map_option (\<lambda>r. case r of Some newURL \<Rightarrow> (True, newURL) | None \<Rightarrow> (False, url)) (mapLoop store (mapLevel unmap (m_string url)) frame)"

definition mapFrameUrl :: "frameStore \<Rightarrow> nat option \<Rightarrow> KURL \<Rightarrow> (bool \<times> KURL) option" where
  "mapFrameUrl store frame url = mapWith False store frame url"

definition unmapFrameUrl :: "frameStore \<Rightarrow> nat option \<Rightarrow> KURL \<Rightarrow> (bool \<times> KURL) option" where
  "unmapFrameUrl store frame url = mapWith True store frame url"

definition frameHasAllowCrossDomainXHRAttr :: "(wtf_string \<Rightarrow> wtf_string \<Rightarrow> bool) \<Rightarrow> ownerElement option \<Rightarrow> bool" where
  "frameHasAllowCrossDomainXHRAttr sm owner =
     (case owner of
        None \<Rightarrow> False
      | Some e \<Rightarrow>
          (case w_allowcrossdomainxhr e of
             None \<Rightarrow> False
           | Some allowAttr \<Rightarrow>
               if allowAttr = ustr ''0'' then False
               else if reverseFindString toASCIILower sm allowAttr (ustr ''f'') 0 = 0 then False
               else if reverseFindString toASCIILower sm allowAttr (ustr ''n'') 0 = 0 then False
               else True))"

end
