(* ===== verification/ApolloPrefix.thy ===== *)
theory ApolloPrefix
  imports ApolloClient OriginPolicy
begin

section \<open>Prefixes of URLs in AIR\<close>

text \<open>
  The comparison isUrlPrefixOfUrl reads nothing outside its two strings and decides, for
  printed URLs, whether one is under the other as scheme, host, port and path. The second
  loop compares with the first character behind an at sign in front of the first slash, which
  is a user name only where the path is not empty.
\<close>

subsection \<open>The loops on ASCII text\<close>

definition foldedChar :: "byte \<Rightarrow> byte \<Rightarrow> bool" where
  "foldedChar b c \<longleftrightarrow> sameChar (toASCIILower (widenChar b)) (lowerChar c)"

definition plainText :: "byte list \<Rightarrow> bool" where
  "plainText s \<longleftrightarrow> list_all (\<lambda>c. 0 < unat c \<and> unat c < 128) s"

lemma ascii_table:
  "list_all (\<lambda>n. (scast (of_nat n :: byte) :: uchar) = ucast (of_nat n :: byte) \<and> sint (of_nat n :: byte) = int n \<and>
      uint (ucast (of_nat n :: byte) :: uchar) = int n \<and> lowerChar (of_nat n) = lowerByte (of_nat n)) [0..<128]"
  by code_simp

lemma ascii_char:
  assumes "unat b < 128"
  shows "scast b = (ucast b :: uchar) \<and> sint b = int (unat b) \<and> uint (ucast b :: uchar) = int (unat b) \<and> lowerChar b = lowerByte b"
proof -
  have "unat b \<in> set [0..<128]" using assms by simp
  from bspec [OF ascii_table [unfolded list_all_iff] this] show ?thesis by simp
qed

lemma ascii_chars:
  assumes "unat b < 128" "unat c < 128"
  shows "widenChar b = ucast b" "sameChar (ucast b) c \<longleftrightarrow> b = c" "lowerChar c = lowerByte c"
  using ascii_char [OF assms(1)] ascii_char [OF assms(2)] by (auto simp: widenChar_def sameChar_def word_uint_eq_iff)

lemma foldedChar_ascii:
  assumes "unat b < 128" "unat c < 128"
  shows "foldedChar b c \<longleftrightarrow> lowerByte b = lowerByte c"
proof -
  have "unat (lowerByte b) < 128" "unat (lowerByte c) < 128" using assms by (auto simp: unat_lowerByte)
  then show ?thesis using assms by (simp add: foldedChar_def ascii_chars toASCIILower_byte)
qed

lemma foldedLoop_run:
  assumes "plainText prefix" "plainText other" "pos \<le> length prefix" "otherpos \<le> length other"
    "stop < 128" "takeWhile (\<lambda>c. c \<noteq> stop) (drop pos prefix) = a"
  shows "foldedLoop stop prefix other pos otherpos =
    Some (if map lowerByte (take (length a) (drop otherpos other)) = map lowerByte a
          then Inr (pos + length a, otherpos + length a) else Inl ())"
  using assms
proof (induction a arbitrary: pos otherpos)
  case Nil
  have "\<not> (b \<noteq> 0 \<and> widenChar b \<noteq> widenChar stop)" if "byteAt prefix pos = Some b" for b
  proof (cases "pos < length prefix")
    case True
    then have "drop pos prefix = prefix ! pos # drop (Suc pos) prefix" by (simp add: Cons_nth_drop_Suc)
    then have "prefix ! pos = stop" using Nil.prems(6) by (auto split: if_splits)
    then show ?thesis using that True by (simp add: byteAt_def)
  qed (use that in \<open>auto simp: byteAt_def split: if_splits\<close>)
  moreover have "byteAt prefix pos \<noteq> None" using Nil.prems(3) by (simp add: byteAt_def)
  ultimately show ?case by (subst foldedLoop.simps) (auto split: option.splits)
next
  case (Cons b a)
  have p: "pos < length prefix" using Cons.prems(6) by (cases "pos < length prefix") auto
  then have d: "drop pos prefix = prefix ! pos # drop (Suc pos) prefix" by (simp add: Cons_nth_drop_Suc)
  have b: "prefix ! pos = b" "b \<noteq> stop" "takeWhile (\<lambda>c. c \<noteq> stop) (drop (Suc pos) prefix) = a"
    using Cons.prems(6) unfolding d by (auto split: if_splits)
  have bb: "0 < unat b" "unat b < 128" using Cons.prems(1) p b(1) by (auto simp: plainText_def list_all_length)
  have s: "unat stop < 128" using Cons.prems(5) by (simp add: word_less_nat_alt)
  have w: "widenChar b \<noteq> widenChar stop" using b(2) bb s by (simp add: ascii_chars) (metis ascii_chars(2))
  have b0: "b \<noteq> 0" using bb(1) by auto
  have at: "byteAt prefix pos = Some b" using p b(1) by (simp add: byteAt_def)
  show ?case
  proof (cases "otherpos < length other")
    case False
    then have o: "byteAt other otherpos = Some 0" "drop otherpos other = []" using Cons.prems(4) by (auto simp: byteAt_def)
    have "\<not> foldedChar b 0"
    proof
      assume "foldedChar b 0"
      then have "lowerByte b = lowerByte 0" using foldedChar_ascii [of b 0] bb by simp
      then have "unat (lowerByte b) = 0" by (simp add: lowerByte_def)
      then show False using bb by (auto simp: unat_lowerByte split: if_splits)
    qed
    then show ?thesis
      using b0 w at o by (subst foldedLoop.simps) (simp add: Let_def foldedChar_def)
  next
    case True
    define c where "c = other ! otherpos"
    have c: "0 < unat c" "unat c < 128" using Cons.prems(2) True by (auto simp: plainText_def list_all_length c_def)
    have dc: "drop otherpos other = c # drop (Suc otherpos) other" using True by (simp add: Cons_nth_drop_Suc c_def)
    have o: "byteAt other otherpos = Some c" using True by (simp add: byteAt_def c_def)
    have ih: "foldedLoop stop prefix other (Suc pos) (Suc otherpos) =
        Some (if map lowerByte (take (length a) (drop (Suc otherpos) other)) = map lowerByte a
          then Inr (Suc pos + length a, Suc otherpos + length a) else Inl ())"
      using Cons.IH [OF Cons.prems(1,2) _ _ Cons.prems(5) b(3), of "Suc otherpos"] p True by simp
    have "foldedLoop stop prefix other pos otherpos =
        (if \<not> foldedChar b c then Some (Inl ()) else foldedLoop stop prefix other (Suc pos) (Suc otherpos))"
      using b0 w at o by (subst foldedLoop.simps) (simp add: Let_def foldedChar_def)
    then show ?thesis using ih foldedChar_ascii [of b c] bb c unfolding dc by auto
  qed
qed

lemma exactLoop_run:
  assumes "plainText prefix" "plainText other" "pos \<le> length prefix" "otherpos \<le> length other"
  obtains n where "exactLoop prefix other pos otherpos = Some (pos + n, otherpos + n)" "pos + n \<le> length prefix"
    "otherpos + n \<le> length other" "take n (drop pos prefix) = take n (drop otherpos other)"
    "pos + n = length prefix \<or> otherpos + n = length other \<or> prefix ! (pos + n) \<noteq> other ! (otherpos + n)"
  using assms
proof (induction "length prefix - pos" arbitrary: pos otherpos thesis)
  case 0
  then have "byteAt prefix pos = Some 0" by (simp add: byteAt_def)
  then have "exactLoop prefix other pos otherpos = Some (pos + 0, otherpos + 0)" by (subst exactLoop.simps) simp
  then show ?case using 0 by (intro "0.prems"(1)) auto
next
  case (Suc k)
  then have p: "pos < length prefix" by simp
  define b where "b = prefix ! pos"
  have b: "byteAt prefix pos = Some b" "0 < unat b" "unat b < 128"
    using p Suc.prems(2) by (auto simp: byteAt_def b_def plainText_def list_all_length)
  have b0: "b \<noteq> 0" using b by auto
  show ?case
  proof (cases "otherpos < length other \<and> other ! otherpos = b")
    case True
    then have o: "byteAt other otherpos = Some b" by (simp add: byteAt_def)
    have "sameChar (widenChar b) b" using b by (simp add: ascii_chars)
    then have e: "exactLoop prefix other pos otherpos = exactLoop prefix other (Suc pos) (Suc otherpos)"
      using b b0 o by (subst exactLoop.simps) simp
    have "k = length prefix - Suc pos" using Suc by simp
    show ?thesis
    proof (rule Suc.hyps(1) [OF \<open>k = length prefix - Suc pos\<close> _ Suc.prems(2,3), of "Suc otherpos"])
      fix n
      assume n: "exactLoop prefix other (Suc pos) (Suc otherpos) = Some (Suc pos + n, Suc otherpos + n)"
        "Suc pos + n \<le> length prefix" "Suc otherpos + n \<le> length other"
        "take n (drop (Suc pos) prefix) = take n (drop (Suc otherpos) other)"
        "Suc pos + n = length prefix \<or> Suc otherpos + n = length other \<or> prefix ! (Suc pos + n) \<noteq> other ! (Suc otherpos + n)"
      show ?thesis
      proof (rule Suc.prems(1) [of "Suc n"])
        show "take (Suc n) (drop pos prefix) = take (Suc n) (drop otherpos other)"
          using n(4) p True by (simp add: b_def flip: Cons_nth_drop_Suc)
      qed (use n e in auto)
    qed (use p True in auto)
  next
    case False
    obtain c where c: "byteAt other otherpos = Some c" "c = 0 \<or> otherpos < length other \<and> c = other ! otherpos \<and> c \<noteq> b"
      using False Suc.prems(5) by (cases "otherpos < length other") (auto simp: byteAt_def)
    have c2: "unat c < 128" "c \<noteq> b" using c(2) Suc.prems(3) b0 by (auto simp: plainText_def list_all_length)
    have "\<not> sameChar (widenChar b) c" using b c2 by (simp add: ascii_chars)
    then have "exactLoop prefix other pos otherpos = Some (pos + 0, otherpos + 0)"
      using b b0 c(1) by (subst exactLoop.simps) simp
    then show ?thesis using False p Suc.prems by (intro Suc.prems(1) [of 0]) (auto simp: b_def)
  qed
qed


subsection \<open>Texts that are known piece by piece\<close>

lemma byteAt_append [simp]: "byteAt (x @ y) (length x + i) = byteAt y i"
  by (auto simp: byteAt_def nth_append)

lemma cbyteAt_Cons [simp]: "byteAt (c # s) 0 = Some c" "byteAt (c # s) (Suc i) = byteAt s i" "byteAt [] 0 = Some 0"
  by (auto simp: byteAt_def)

lemma plainText_simps [simp]:
  "plainText (a @ b) \<longleftrightarrow> plainText a \<and> plainText b" "plainText (c # s) \<longleftrightarrow> 0 < unat c \<and> unat c < 128 \<and> plainText s" "plainText []"
  by (auto simp: plainText_def)

lemma plainText_nonzero: "plainText s \<Longrightarrow> c \<in> set s \<Longrightarrow> c \<noteq> 0"
  unfolding plainText_def list_all_iff by (metis unat_0 less_irrefl)

lemma takeWhile_stop: "stop \<notin> set a \<Longrightarrow> takeWhile (\<lambda>c. c \<noteq> stop) (a @ stop # r) = a" "stop \<notin> set a \<Longrightarrow> takeWhile (\<lambda>c. c \<noteq> stop) a = a"
  by (induction a) auto

text \<open>The comparison of a piece of the prefix with what ends at the same stop character.\<close>

definition startsFolded :: "byte list \<Rightarrow> byte list \<Rightarrow> bool" where
  "startsFolded a o' \<longleftrightarrow> map lowerByte (take (length a) o') = map lowerByte a"

lemma startsFolded_cases:
  assumes "stop \<notin> set a" "stop \<notin> set b" "\<And>c. lowerByte c = stop \<longleftrightarrow> c = stop"
  shows "startsFolded a (b @ stop # r) \<longleftrightarrow> length a \<le> length b \<and> map lowerByte a = map lowerByte (take (length a) b)"
proof (cases "length a \<le> length b")
  case False
  have "stop \<notin> set (map lowerByte a)" using assms(1) assms(3) by (metis imageE list.set_map)
  moreover have "stop \<in> set (map lowerByte (take (length a) (b @ stop # r)))"
    using False assms(3) [of stop] by (cases "length a - length b") auto
  ultimately show ?thesis using False unfolding startsFolded_def by metis
qed (auto simp: startsFolded_def)

lemma skipUserInfo_none:
  "0x40 \<notin> set h \<Longrightarrow> 0x2F \<notin> set h \<Longrightarrow> 0 \<notin> set h \<Longrightarrow> skipUserInfo (x @ h @ 0x2F # t) p (length x) = Some p"
proof (induction h arbitrary: x)
  case Nil
  have "byteAt (x @ [] @ 0x2F # t) (length x) = Some 0x2F" using byteAt_append [of x "0x2F # t" 0] by simp
  then show ?case by (subst skipUserInfo.simps) simp
next
  case (Cons c h)
  have "byteAt (x @ (c # h) @ 0x2F # t) (length x) = Some c" using byteAt_append [of x "c # h @ 0x2F # t" 0] by simp
  then show ?case using Cons.prems Cons.IH [of "x @ [c]"] by (subst skipUserInfo.simps) auto
qed

lemma skipUserInfo_at:
  "0x40 \<notin> set w \<Longrightarrow> 0x2F \<notin> set w \<Longrightarrow> 0 \<notin> set w \<Longrightarrow> skipUserInfo (x @ w @ 0x40 # t) p (length x) = Some (length x + length w + 1)"
proof (induction w arbitrary: x)
  case Nil
  have "byteAt (x @ [] @ 0x40 # t) (length x) = Some 0x40" using byteAt_append [of x "0x40 # t" 0] by simp
  then show ?case by (subst skipUserInfo.simps) simp
next
  case (Cons c w)
  have "byteAt (x @ (c # w) @ 0x40 # t) (length x) = Some c" using byteAt_append [of x "c # w @ 0x40 # t" 0] by simp
  then show ?case using Cons.prems Cons.IH [of "x @ [c]"] by (subst skipUserInfo.simps) auto
qed


lemma plain_text: "plain v \<Longrightarrow> plainText (printURL v)"
proof -
  assume v: "plain v"
  note d = plainD [OF v, unfolded list_all_iff]
  have z: "isSchemeChar c \<Longrightarrow> c \<noteq> 0" "isUserInfoChar c \<Longrightarrow> c \<noteq> 0" "isHostnameChar c \<Longrightarrow> c \<noteq> 0" "isByteDigit c \<Longrightarrow> c \<noteq> 0"
    "pathChar c \<Longrightarrow> c \<noteq> 0" "queryChar c \<Longrightarrow> c \<noteq> 0" for c
    using refChar_code [of c] by (auto simp: class_ranges digit_range alpha_def digit_def pathChar_def)
  have "c \<noteq> 0" if "c \<in> set (printURL v)" for c
  proof -
    have "c \<in> set (scheme v) \<union> set (user v) \<union> set (password v) \<union> set (host v) \<union> set (path v) \<union>
      (case port v of None \<Rightarrow> {} | Some p \<Rightarrow> set p) \<union> (case query v of None \<Rightarrow> {} | Some p \<Rightarrow> set p) \<union>
      (case fragment v of None \<Rightarrow> {} | Some p \<Rightarrow> set p) \<union> {0x3A, 0x2F, 0x40, 0x3F, 0x23}"
      using that
      by (auto simp: printURL_def userInfoText_def portText_def queryText_def fragmentText_def split: option.splits if_splits)
    then show ?thesis using d(3,5,6,8,9,11,13,14) z by (fastforce split: option.splits)
  qed
  then show ?thesis using plain_chars [OF v] by (fastforce simp: plainText_def list_all_iff word_unat_eq_iff)
qed

text \<open>A URL of a prefix: no user, query or fragment. The part of a URL behind its authority.\<close>

definition isPrefixURL :: "url_parts \<Rightarrow> bool" where
  "isPrefixURL v \<longleftrightarrow> plain v \<and> user v = [] \<and> password v = [] \<and> query v = None \<and> fragment v = None"

definition authorityText :: "url_parts \<Rightarrow> byte list" where
  "authorityText u = host u @ portText u"

definition underPath :: "byte list \<Rightarrow> byte list \<Rightarrow> bool" where
  "underPath p rest \<longleftrightarrow>
     take (length p) rest = p \<and>
     (p = [] \<or> last p = 0x2F \<or> drop (length p) rest = [] \<or> hd (drop (length p) rest) \<in> {0x2F, 0x23, 0x3F})"

lemma lowerByte_stops: "lowerByte c = 0x2F \<longleftrightarrow> c = 0x2F" "lowerByte c = 0x3A \<longleftrightarrow> c = 0x3A"
proof -
  have "unat (lowerByte c) = 47 \<longleftrightarrow> unat c = 47" "unat (lowerByte c) = 58 \<longleftrightarrow> unat c = 58" by (auto simp: unat_lowerByte)
  then show "lowerByte c = 0x2F \<longleftrightarrow> c = 0x2F" "lowerByte c = 0x3A \<longleftrightarrow> c = 0x3A" by (simp_all add: word_unat_eq_iff)
qed

lemma authority_chars:
  assumes "plain u" "c \<in> set (authorityText u)"
  shows "isUserInfoChar c \<and> c \<noteq> 0x40"
proof -
  have "isHostnameChar c \<or> c = 0x3A \<or> isByteDigit c"
    using plainD(8,9) [OF assms(1)] assms(2) by (auto simp: authorityText_def portText_def list_all_iff split: option.splits)
  then show ?thesis using host_chars [of c] digit_chars [of c] classes_at_ends(4) by auto
qed

lemma not_user_info: "\<not> isUserInfoChar 0x40" "\<not> isUserInfoChar 0x2F" "\<not> isUserInfoChar 0" "\<not> isUserInfoChar 0x23" "\<not> isUserInfoChar 0x3F"
  by (auto simp: class_ranges alpha_def digit_def)

lemma skipUserInfo_printed:
  assumes "plain u" "tailText u = 0x2F # t"
  shows "skipUserInfo (x @ userInfoText u @ authorityText u @ tailText u) (length x) (length x) = Some (length (x @ userInfoText u))"
proof (cases "userInfoText u = []")
  case True
  have "0x40 \<notin> set (authorityText u)" "0x2F \<notin> set (authorityText u)" "0 \<notin> set (authorityText u)"
    using authority_chars [OF assms(1)] not_user_info by blast+
  then show ?thesis using skipUserInfo_none [of "authorityText u" x t "length x"] True assms(2) by simp
next
  case False
  define w where "w = user u @ (if password u = [] then [] else 0x3A # password u)"
  have w: "userInfoText u = w @ [0x40]" using False by (auto simp: userInfoText_def w_def)
  have "isUserInfoChar c" if "c \<in> set w" for c
    using plainD(5,6) [OF assms(1)] that classes_at_ends(4) by (auto simp: w_def list_all_iff split: if_splits)
  then have "0x40 \<notin> set w" "0x2F \<notin> set w" "0 \<notin> set w" using not_user_info by blast+
  then show ?thesis using skipUserInfo_at [of w x _ "length x"] w by simp
qed


lemma skipped_authority:
  assumes "isPrefixURL v" "plainText (x @ authorityText v @ path v)" "plainText (y @ authorityText u @ tailText u)"
  shows "foldedLoop 0x2F (x @ authorityText v @ path v) (y @ authorityText u @ tailText u) (length x) (length y) =
    Some (if startsFolded (authorityText v) (authorityText u @ tailText u)
          then Inr (length x + length (authorityText v), length y + length (authorityText v)) else Inl ())"
proof -
  have v: "plain v" using assms(1) by (simp add: isPrefixURL_def)
  have "0x2F \<notin> set (authorityText v)" using authority_chars [OF v] not_user_info by blast
  moreover have "path v = [] \<or> (\<exists>r. path v = 0x2F # r)" using plainD(10) [OF v] by (cases "path v") auto
  ultimately have "takeWhile (\<lambda>c. c \<noteq> 0x2F) (authorityText v @ path v) = authorityText v"
    using takeWhile_stop [of "0x2F" "authorityText v"] by auto
  then show ?thesis
    using foldedLoop_run [OF assms(2,3), of "length x" "length y" "0x2F" "authorityText v"] by (simp add: startsFolded_def)
qed

lemma underPath_append: "underPath p (p @ d) \<longleftrightarrow> p = [] \<or> last p = 0x2F \<or> d = [] \<or> hd d \<in> {0x2F, 0x23, 0x3F}"
  by (simp add: underPath_def)

lemma endOfPrefix_at_end:
  "byteAt prefix m = Some 0 \<Longrightarrow> m \<noteq> 0 \<Longrightarrow> byteAt prefix (m - 1) = Some l \<Longrightarrow> byteAt other k = Some c \<Longrightarrow>
   endOfPrefix prefix other m k = Some (if l = 0x2F \<or> c = 0 \<or> c = 0x2F \<or> c = 0x23 \<or> c = 0x3F then Some k else None)"
  by (simp add: endOfPrefix_def)

lemma prefix_end:
  assumes "plainText (x @ p)" "plainText (y @ r)" "x @ p \<noteq> []" "last (x @ p) = 0x2F \<longrightarrow> p \<noteq> []"
  shows "(do { (pos, otherpos) \<leftarrow> exactLoop (x @ p) (y @ r) (length x) (length y); endOfPrefix (x @ p) (y @ r) pos otherpos }) =
    Some (if underPath p r \<and> (p = [] \<longrightarrow> r = [] \<or> hd r \<in> {0x2F, 0x23, 0x3F}) then Some (length y + length p) else None)"
proof -
  have k: "length x \<le> length (x @ p)" "length y \<le> length (y @ r)" by simp_all
  obtain n where n: "exactLoop (x @ p) (y @ r) (length x) (length y) = Some (length x + n, length y + n)" "length x + n \<le> length (x @ p)"
    "length y + n \<le> length (y @ r)" "take n (drop (length x) (x @ p)) = take n (drop (length y) (y @ r))"
    "length x + n = length (x @ p) \<or> length y + n = length (y @ r) \<or> (x @ p) ! (length x + n) \<noteq> (y @ r) ! (length y + n)"
    using exactLoop_run [OF assms(1,2) k] by blast
  show ?thesis
  proof (cases "n = length p")
    case False
    then have "n < length p" using n(2) by simp
    moreover have "p ! n \<noteq> 0" using assms(1) nth_mem [OF \<open>n < length p\<close>] plainText_nonzero [of p] by simp
    moreover have "byteAt (x @ p) (length x + n) = Some (p ! n)" using \<open>n < length p\<close> by (simp add: byteAt_def)
    ultimately have e: "endOfPrefix (x @ p) (y @ r) (length x + n) (length y + n) = Some None"
      by (simp add: endOfPrefix_def)
    have "\<not> underPath p r"
    proof
      assume "underPath p r"
      then obtain d where d: "r = p @ d" by (metis underPath_def append_take_drop_id)
      have "(y @ r) ! (length y + n) = p ! n" "(x @ p) ! (length x + n) = p ! n" "n < length r" unfolding d using \<open>n < length p\<close> by (simp_all add: nth_append)
      then show False using n(5) \<open>n < length p\<close> by simp
    qed
    then show ?thesis using n(1) e by simp
  next
    case True
    have p: "take (length p) r = p" using n(4) True by simp
    then obtain d where d: "r = p @ d" by (metis append_take_drop_id)
    have c: "byteAt (y @ r) (length y + n) = Some (case d of [] \<Rightarrow> 0 | c # _ \<Rightarrow> c)"
      using True byteAt_append [of "y @ p" d 0] by (cases d) (auto simp: d)
    have l: "byteAt (x @ p) (length x + n - 1) = Some (last (x @ p))" "length x + n \<noteq> 0"
      using assms(3) True by (auto simp: byteAt_def last_conv_nth)
    have z: "byteAt (x @ p) (length x + n) = Some 0" using True by (simp add: byteAt_def)
    have nz: "d = c # ds \<Longrightarrow> c \<noteq> 0" for c ds using assms(2) plainText_nonzero [of d] by (auto simp: d)
    have e: "endOfPrefix (x @ p) (y @ r) (length x + n) (length y + n) =
        Some (if last (x @ p) = 0x2F \<or> (case d of [] \<Rightarrow> True | c # _ \<Rightarrow> c = 0x2F \<or> c = 0x23 \<or> c = 0x3F) then Some (length y + n) else None)"
      using endOfPrefix_at_end [OF z l(2,1) c] nz by (cases d) simp_all
    have s: "(case d of [] \<Rightarrow> True | c # _ \<Rightarrow> c = 0x2F \<or> c = 0x23 \<or> c = 0x3F) \<longleftrightarrow> d = [] \<or> hd d \<in> {0x2F, 0x23, 0x3F}"
      by (cases d) simp_all
    have "p = [] \<Longrightarrow> last (x @ p) \<noteq> 0x2F" using assms(4) by blast
    moreover have "p = [] \<Longrightarrow> r = d" unfolding d by (simp only: append_Nil)
    moreover have "p \<noteq> [] \<Longrightarrow> last (x @ p) = last p" by (rule last_appendR)
    ultimately have "(last (x @ p) = 0x2F \<or> (case d of [] \<Rightarrow> True | c # _ \<Rightarrow> c = 0x2F \<or> c = 0x23 \<or> c = 0x3F)) \<longleftrightarrow>
        underPath p r \<and> (p = [] \<longrightarrow> r = [] \<or> hd r \<in> {0x2F, 0x23, 0x3F})"
      unfolding s using underPath_append [of p d, folded d] by metis
    then show ?thesis using n(1) e True by simp
  qed
qed

lemma prefix_other_scheme:
  assumes "plainText P" "plainText Q" "P = sv @ 0x3A # p" "Q = su @ 0x3A # q" "0x3A \<notin> set sv" "0x3A \<notin> set su"
    "map lowerByte sv \<noteq> map lowerByte su"
  shows "isUrlPrefixOfUrl P Q = Some None"
proof -
  have l1: "foldedLoop 0x3A P Q 0 0 = Some (if startsFolded sv Q then Inr (length sv, length sv) else Inl ())"
    using foldedLoop_run [OF assms(1,2), of 0 0 "0x3A" sv] takeWhile_stop(1) [OF assms(5)] by (simp add: startsFolded_def assms(3))
  show ?thesis
  proof (cases "startsFolded sv Q")
    case True
    then have s: "length sv \<le> length su" "map lowerByte sv = map lowerByte (take (length sv) su)"
      unfolding assms(4) using startsFolded_cases [OF assms(5,6) lowerByte_stops(2)] by blast+
    with assms(7) have k: "length sv < length su" by (cases "length sv = length su") auto
    then have "byteAt Q (length sv) = Some (su ! length sv)" by (simp add: assms(4) byteAt_def nth_append)
    moreover have "su ! length sv \<noteq> 0x3A" using assms(6) nth_mem [OF k] by auto
    moreover have "byteAt P (length sv) = Some 0x3A" unfolding assms(3) using byteAt_append [of sv _ 0] by simp
    ultimately show ?thesis unfolding isUrlPrefixOfUrl_def l1 using True by simp
  qed (simp add: isUrlPrefixOfUrl_def l1)
qed

lemma isUrlPrefixOfUrl_printed:
  assumes "isPrefixURL v" "plain u" "path u \<noteq> []"
  shows "isUrlPrefixOfUrl (printURL v) (printURL u) =
    Some (if map lowerByte (scheme v) = map lowerByte (scheme u) \<and> map lowerByte (authorityText v) = map lowerByte (authorityText u) \<and>
             underPath (path v) (tailText u)
          then Some (length (scheme u @ [0x3A, 0x2F, 0x2F] @ userInfoText u @ authorityText u @ path v)) else None)"
proof -
  have v: "plain v" and e: "user v = []" "password v = []" "query v = None" "fragment v = None"
    using assms(1) by (simp_all add: isPrefixURL_def)
  define P where "P = scheme v @ [0x3A, 0x2F, 0x2F] @ authorityText v @ path v"
  define O' where "O' = scheme u @ [0x3A, 0x2F, 0x2F] @ userInfoText u @ authorityText u @ tailText u"
  have P: "printURL v = P" using e by (simp add: printURL_def P_def userInfoText_def authorityText_def queryText_def fragmentText_def)
  have O': "printURL u = O'" by (simp add: printURL_def O'_def authorityText_def tailText_def)
  have pt: "plainText P" "plainText O'" using plain_text [OF v] plain_text [OF assms(2)] by (simp_all add: P O')
  obtain t where t: "tailText u = 0x2F # t" using plainD(10) [OF assms(2)] assms(3) by (cases "path u") (auto simp: tailText_def)
  have sc: "0x3A \<notin> set (scheme v)" "0x3A \<notin> set (scheme u)"
    using plainD(3) [OF v] plainD(3) [OF assms(2)] classes_at_ends(1) by (auto simp: list_all_iff)
  have tw: "takeWhile (\<lambda>c. c \<noteq> 0x3A) (drop 0 P) = scheme v" unfolding P_def using takeWhile_stop(1) [OF sc(1)] by simp
  have l1: "foldedLoop 0x3A P O' 0 0 =
      Some (if startsFolded (scheme v) O' then Inr (length (scheme v), length (scheme v)) else Inl ())"
    using foldedLoop_run [OF pt, of 0 0 "0x3A" "scheme v"] tw by (simp add: startsFolded_def)
  show ?thesis
  proof (cases "map lowerByte (scheme v) = map lowerByte (scheme u)")
    case False
    then show ?thesis using prefix_other_scheme [OF pt _ _ sc False] by (simp add: P O' P_def O'_def)
  next
    case True
    define n where "n = length (scheme u)"
    define x where "x = scheme v @ [0x3A, 0x2F, 0x2F]"
    define y where "y = scheme u @ [0x3A, 0x2F, 0x2F]"
    have nv: "length (scheme v) = n" using True by (metis length_map n_def)
    have s: "startsFolded (scheme v) O'" using True nv by (simp add: startsFolded_def O'_def n_def)
    have px: "P = x @ authorityText v @ path v" "O' = y @ userInfoText u @ authorityText u @ tailText u" "length x = n + 3" "length y = n + 3"
      using nv by (simp_all add: P_def O'_def x_def y_def n_def)
    have at: "byteAt P (n + i) = byteAt ([0x3A, 0x2F, 0x2F] @ authorityText v @ path v) i"
      "byteAt O' (n + i) = byteAt ([0x3A, 0x2F, 0x2F] @ userInfoText u @ authorityText u @ tailText u) i" for i
      unfolding P_def O'_def nv [symmetric] using byteAt_append [of "scheme v"] byteAt_append [of "scheme u"] nv n_def by simp_all
    have a3: "byteAt P n = Some 0x3A" "byteAt O' n = Some 0x3A" "byteAt P (Suc n) = Some 0x2F" "byteAt P (n + 2) = Some 0x2F"
      "byteAt O' (Suc n) = Some 0x2F" "byteAt O' (n + 2) = Some 0x2F"
      using at [of 0] at [of 1] at [of 2] by (simp_all add: numeral_2_eq_2)
    have sk: "skipUserInfo O' (n + 3) (n + 3) = Some (length (y @ userInfoText u))"
      using skipUserInfo_printed [OF assms(2) t, of y] px by simp
    have l2: "foldedLoop 0x2F P O' (n + 3) (length (y @ userInfoText u)) =
        Some (if startsFolded (authorityText v) (authorityText u @ tailText u)
          then Inr (length (x @ authorityText v), length (y @ userInfoText u) + length (authorityText v)) else Inl ())"
      using skipped_authority [OF assms(1), of x "y @ userInfoText u" u] pt px by simp
    have bc: "behindColon P O' n n = foldedLoop 0x2F P O' (n + 3) (length (y @ userInfoText u))"
      unfolding behindColon_def using a3 sk by simp
    let ?rest = "\<lambda>r. case r of Inl _ \<Rightarrow> Some None | Inr (pos, otherpos) \<Rightarrow>
        do { (pos, otherpos) \<leftarrow> exactLoop P O' pos otherpos; endOfPrefix P O' pos otherpos }"
    have main: "isUrlPrefixOfUrl P O' = Option.bind (behindColon P O' n n) ?rest"
      unfolding isUrlPrefixOfUrl_def l1 using s nv a3 by simp
    have nos: "0x2F \<notin> set (authorityText v)" "0x2F \<notin> set (authorityText u)" "0x23 \<notin> set (authorityText u)" "0x3F \<notin> set (authorityText u)"
      using authority_chars [OF v] authority_chars [OF assms(2)] not_user_info by blast+
    show ?thesis
    proof (cases "startsFolded (authorityText v) (authorityText u @ tailText u)")
      case False
      moreover have "startsFolded (authorityText v) (authorityText u @ tailText u)"
        if "map lowerByte (authorityText v) = map lowerByte (authorityText u)"
        using that map_eq_imp_length_eq [OF that] by (simp add: startsFolded_def)
      ultimately have "map lowerByte (authorityText v) \<noteq> map lowerByte (authorityText u)" by blast
      then show ?thesis using False unfolding P O' main bc l2 by simp
    next
      case sf: True
      then have k: "length (authorityText v) \<le> length (authorityText u)"
        "map lowerByte (authorityText v) = map lowerByte (take (length (authorityText v)) (authorityText u))"
        unfolding t using startsFolded_cases [OF nos(1,2) lowerByte_stops(1)] by blast+
      define a where "a = take (length (authorityText v)) (authorityText u)"
      define r where "r = drop (length (authorityText v)) (authorityText u) @ tailText u"
      have la: "length a = length (authorityText v)" using k by (simp add: a_def)
      have o: "O' = (y @ userInfoText u @ a) @ r" "P = (x @ authorityText v) @ path v" using px by (simp_all add: a_def r_def)
      have ne: "last P = 0x2F \<longrightarrow> path v \<noteq> []"
      proof
        assume l: "last P = 0x2F"
        show "path v \<noteq> []"
        proof
          assume "path v = []"
          then have "last (authorityText v) = 0x2F" "authorityText v \<noteq> []" using l plainD(7) [OF v] by (simp_all add: px(1) authorityText_def)
          then show False using nos(1) last_in_set by metis
        qed
      qed
      have pe: "Option.bind (exactLoop P O' (length (x @ authorityText v)) (length (y @ userInfoText u @ a)))
            (\<lambda>(pos, otherpos). endOfPrefix P O' pos otherpos) =
          Some (if underPath (path v) r \<and> (path v = [] \<longrightarrow> r = [] \<or> hd r \<in> {0x2F, 0x23, 0x3F})
            then Some (length (y @ userInfoText u @ a) + length (path v)) else None)"
        using pt ne t unfolding o by (intro prefix_end) (simp_all add: x_def)
      have main': "isUrlPrefixOfUrl P O' =
          Some (if underPath (path v) r \<and> (path v = [] \<longrightarrow> r = [] \<or> hd r \<in> {0x2F, 0x23, 0x3F})
            then Some (length (y @ userInfoText u @ a) + length (path v)) else None)"
        using pe unfolding main bc l2 using sf la by (simp add: add.assoc)
      show ?thesis
      proof (cases "length (authorityText v) = length (authorityText u)")
        case eq: True
        then have "a = authorityText u" "r = tailText u" by (simp_all add: a_def r_def)
        then show ?thesis using main' k(2) t eq True by (simp add: P O' y_def a_def add.assoc)
      next
        case False
        then obtain d ds where d: "drop (length (authorityText v)) (authorityText u) = d # ds"
          using k(1) by (cases "drop (length (authorityText v)) (authorityText u)") auto
        then have "d \<in> set (authorityText u)" by (metis in_set_dropD list.set_intros(1))
        then have dn: "d \<noteq> 0x2F" "d \<noteq> 0x23" "d \<noteq> 0x3F" using nos by auto
        have "path v = [] \<or> (\<exists>q. path v = 0x2F # q)" using plainD(10) [OF v] by (cases "path v") auto
        then have "\<not> (underPath (path v) r \<and> (path v = [] \<longrightarrow> r = [] \<or> hd r \<in> {0x2F, 0x23, 0x3F}))"
          using d dn by (auto simp: r_def underPath_def)
        moreover have "map lowerByte (authorityText v) \<noteq> map lowerByte (authorityText u)" using False by (metis length_map)
        ultimately show ?thesis using main' by (simp add: P O')
      qed
    qed
  qed
qed


subsection \<open>Reads\<close>

lemma no_match_at_end: "b \<noteq> 0 \<Longrightarrow> \<not> sameChar (toASCIILower (widenChar b)) (lowerChar 0) \<and> \<not> sameChar (widenChar b) 0"
proof -
  have t: "list_all (\<lambda>n. n = 0 \<or> \<not> sameChar (toASCIILower (widenChar (of_nat n))) (lowerChar 0) \<and> \<not> sameChar (widenChar (of_nat n)) 0) [0..<256]"
    by code_simp
  assume "b \<noteq> 0"
  then have "unat b \<noteq> 0" by (simp add: word_unat_eq_iff)
  moreover have "unat b \<in> set [0..<256]" using unat_less_length [of b] by simp
  ultimately show ?thesis using bspec [OF t [unfolded list_all_iff], of "unat b"] by simp
qed

lemma byteAt_inside: "i \<le> length s \<Longrightarrow> 0 \<notin> set s \<Longrightarrow> \<exists>b. byteAt s i = Some b \<and> (b \<noteq> 0 \<longleftrightarrow> i < length s)"
  by (auto simp: byteAt_def) (metis nth_mem)

lemma foldedLoop_inside:
  assumes "0 \<notin> set prefix" "0 \<notin> set other"
  shows "pos \<le> length prefix \<Longrightarrow> otherpos \<le> length other \<Longrightarrow>
    \<exists>r. foldedLoop stop prefix other pos otherpos = Some r \<and>
      (case r of Inl _ \<Rightarrow> True | Inr (p, q) \<Rightarrow> p \<le> length prefix \<and> q \<le> length other)"
  using assms
proof (induction stop prefix other pos otherpos rule: foldedLoop.induct)
  case (1 stop prefix other pos otherpos)
  obtain b where b: "byteAt prefix pos = Some b" "b \<noteq> 0 \<longleftrightarrow> pos < length prefix" using byteAt_inside 1 by blast
  obtain c where c: "byteAt other otherpos = Some c" "c \<noteq> 0 \<longleftrightarrow> otherpos < length other" using byteAt_inside 1 by blast
  show ?case
  proof (cases "b \<noteq> 0 \<and> widenChar b \<noteq> widenChar stop \<and> sameChar (toASCIILower (widenChar b)) (lowerChar c)")
    case True
    then have "c \<noteq> 0" using no_match_at_end by blast
    then show ?thesis using True 1 b c by (subst foldedLoop.simps) (fastforce split: sum.splits)
  next
    case False
    then show ?thesis using 1 b c by (subst foldedLoop.simps) (auto simp: Let_def)
  qed
qed

lemma exactLoop_inside:
  assumes "0 \<notin> set prefix" "0 \<notin> set other"
  shows "pos \<le> length prefix \<Longrightarrow> otherpos \<le> length other \<Longrightarrow>
    \<exists>p q. exactLoop prefix other pos otherpos = Some (p, q) \<and> p \<le> length prefix \<and> q \<le> length other"
  using assms
proof (induction prefix other pos otherpos rule: exactLoop.induct)
  case (1 prefix other pos otherpos)
  obtain b where b: "byteAt prefix pos = Some b" "b \<noteq> 0 \<longleftrightarrow> pos < length prefix" using byteAt_inside 1 by blast
  obtain c where c: "byteAt other otherpos = Some c" "c \<noteq> 0 \<longleftrightarrow> otherpos < length other" using byteAt_inside 1 by blast
  show ?case
  proof (cases "b \<noteq> 0 \<and> sameChar (widenChar b) c")
    case True
    then have "c \<noteq> 0" using no_match_at_end by blast
    then show ?thesis using True 1 b c by (subst exactLoop.simps) auto
  next
    case False
    then show ?thesis using 1 b c by (subst exactLoop.simps) auto
  qed
qed

lemma skipUserInfo_inside:
  "0 \<notin> set other \<Longrightarrow> p \<le> length other \<Longrightarrow> q \<le> length other \<Longrightarrow> \<exists>n. skipUserInfo other p q = Some n \<and> n \<le> length other"
proof (induction other p q rule: skipUserInfo.induct)
  case (1 other p q)
  obtain c where c: "byteAt other q = Some c" "c \<noteq> 0 \<longleftrightarrow> q < length other" using byteAt_inside 1 by blast
  then show ?case using 1 by (subst skipUserInfo.simps) (auto split: if_splits)
qed

lemma behindColon_inside:
  assumes "0 \<notin> set prefix" "0 \<notin> set other" "byteAt prefix pos = Some 0x3A" "byteAt other otherpos = Some 0x3A"
  shows "\<exists>r. behindColon prefix other pos otherpos = Some r \<and>
    (case r of Inl _ \<Rightarrow> True | Inr (p, q) \<Rightarrow> p \<le> length prefix \<and> q \<le> length other)"
proof -
  have l: "pos < length prefix" "otherpos < length other" using assms(3,4) by (auto simp: byteAt_def split: if_splits)
  obtain c1 where c1: "byteAt prefix (pos + 1) = Some c1" "c1 \<noteq> 0 \<longleftrightarrow> pos + 1 < length prefix"
    using byteAt_inside [of "pos + 1" prefix] l assms(1) by auto
  obtain d1 where d1: "byteAt other (otherpos + 1) = Some d1" "d1 \<noteq> 0 \<longleftrightarrow> otherpos + 1 < length other"
    using byteAt_inside [of "otherpos + 1" other] l assms(2) by auto
  show ?thesis
  proof (cases "c1 = 0x2F")
    case True
    then obtain c2 where c2: "byteAt prefix (pos + 2) = Some c2" "c2 \<noteq> 0 \<longleftrightarrow> pos + 2 < length prefix"
      using byteAt_inside [of "pos + 2" prefix] c1(2) assms(1) by auto
    show ?thesis
    proof (cases "c2 = 0x2F \<and> d1 = 0x2F")
      case both: True
      then obtain d2 where d2: "byteAt other (otherpos + 2) = Some d2" "d2 \<noteq> 0 \<longleftrightarrow> otherpos + 2 < length other"
        using byteAt_inside [of "otherpos + 2" other] d1(2) assms(2) by auto
      show ?thesis
      proof (cases "d2 = 0x2F")
        case three: True
        then have r: "pos + 3 \<le> length prefix" "otherpos + 3 \<le> length other" using both c2(2) d2(2) by auto
        obtain n where n: "skipUserInfo other (otherpos + 3) (otherpos + 3) = Some n" "n \<le> length other"
          using skipUserInfo_inside [OF assms(2) r(2) r(2)] by blast
        show ?thesis
          using foldedLoop_inside [OF assms(1,2) r(1) n(2), of "0x2F"] c1 c2 d1 d2 n True both three
          by (auto simp: behindColon_def split: sum.splits)
      qed (use c1 c2 d1 d2 True both in \<open>simp add: behindColon_def\<close>)
    qed (use c1 c2 d1 l True in \<open>auto simp: behindColon_def\<close>)
  qed (use c1 l in \<open>simp add: behindColon_def\<close>)
qed

lemma isUrlPrefixOfUrl_inside:
  assumes "0 \<notin> set prefix" "0 \<notin> set other"
  shows "isUrlPrefixOfUrl prefix other \<noteq> None"
proof -
  obtain r where r: "foldedLoop 0x3A prefix other 0 0 = Some r"
    "case r of Inl _ \<Rightarrow> True | Inr (p, q) \<Rightarrow> p \<le> length prefix \<and> q \<le> length other"
    using foldedLoop_inside [OF assms, of 0 0 "0x3A"] by auto
  show ?thesis
  proof (cases r)
    case (Inl a)
    then show ?thesis using r by (simp add: isUrlPrefixOfUrl_def)
  next
    case (Inr pq)
    then obtain p q where i: "r = Inr (p, q)" "p \<le> length prefix" "q \<le> length other" using r(2) by (cases pq) auto
    obtain b c where bc: "byteAt prefix p = Some b" "byteAt other q = Some c"
      using byteAt_inside [OF i(2) assms(1)] byteAt_inside [OF i(3) assms(2)] by blast
    show ?thesis
    proof (cases "b = 0x3A \<and> c = 0x3A")
      case True
      obtain s where s: "behindColon prefix other p q = Some s"
        "case s of Inl _ \<Rightarrow> True | Inr (p, q) \<Rightarrow> p \<le> length prefix \<and> q \<le> length other"
        using behindColon_inside [OF assms, of p q] bc True by blast
      have ne: "length prefix \<noteq> 0" using bc(1) True by (auto simp: byteAt_def split: if_splits)
      show ?thesis
      proof (cases s)
        case (Inr pq')
        then obtain p' q' where "s = Inr (p', q')" "p' \<le> length prefix" "q' \<le> length other" using s(2) by (cases pq') auto
        moreover from this obtain p2 q2 where e: "exactLoop prefix other p' q' = Some (p2, q2)" "p2 \<le> length prefix" "q2 \<le> length other"
          using exactLoop_inside [OF assms] by blast
        moreover have "endOfPrefix prefix other p2 q2 \<noteq> None"
          using byteAt_inside [OF e(2) assms(1)] byteAt_inside [OF e(3) assms(2)] byteAt_inside [of "p2 - 1" prefix] e(2) assms(1) ne
          by (auto simp: endOfPrefix_def)
        ultimately show ?thesis using r(1) i bc True s(1) by (simp add: isUrlPrefixOfUrl_def)
      qed (use r(1) i bc True s(1) in \<open>simp add: isUrlPrefixOfUrl_def\<close>)
    qed (use r(1) i bc in \<open>auto simp: isUrlPrefixOfUrl_def\<close>)
  qed
qed

lemma cstring_no_null: "0 \<notin> set (cstring s)"
proof
  assume "0 \<in> set (cstring s)"
  from set_takeWhileD [OF this [unfolded cstring_def]] show False by simp
qed

text \<open>
  C9: A URL is under a prefix exactly when the schemes agree, host and port agree in any
  case of letters whatever user name and password the URL has, and the path of the prefix
  ends at the end of a component of the path of the URL. The comparison never reads behind the
  terminator of either string, whatever the strings are.
\<close>

theorem isUrlPrefixOfUrl_correct:
  "(isPrefixURL v \<longrightarrow> plain u \<longrightarrow> path u \<noteq> [] \<longrightarrow>
     ((\<exists>rest. isUrlPrefixOfUrl (printURL v) (printURL u) = Some (Some rest)) \<longleftrightarrow>
        map lowerByte (scheme v) = map lowerByte (scheme u) \<and> map lowerByte (authorityText v) = map lowerByte (authorityText u) \<and>
        underPath (path v) (tailText u))) \<and>
   isUrlPrefixOfUrl (cstring prefix) (cstring other) \<noteq> None"
proof -
  show ?thesis using isUrlPrefixOfUrl_printed [of v u] isUrlPrefixOfUrl_inside [OF cstring_no_null cstring_no_null] by simp
qed


lemma isUrlPrefixOfUrl_correct_witness:
  "\<exists>rest. isUrlPrefixOfUrl (bstr ''http://H.com/d'') (bstr ''http://me@h.com/d/f'') = Some (Some rest)"
proof -
  let ?v = "\<lparr>scheme = bstr ''http'', user = [], password = [], host = bstr ''H.com'', port = None, path = bstr ''/d'', query = None, fragment = None\<rparr>"
  let ?u = "\<lparr>scheme = bstr ''http'', user = bstr ''me'', password = [], host = bstr ''h.com'', port = None, path = bstr ''/d/f'', query = None, fragment = None\<rparr>"
  have "isPrefixURL ?v \<and> plain ?u \<and> path ?u \<noteq> [] \<and> map lowerByte (scheme ?v) = map lowerByte (scheme ?u) \<and>
      map lowerByte (authorityText ?v) = map lowerByte (authorityText ?u) \<and> underPath (path ?v) (tailText ?u) \<and>
      printURL ?v = bstr ''http://H.com/d'' \<and> printURL ?u = bstr ''http://me@h.com/d/f''"
    by code_simp
  then show ?thesis using isUrlPrefixOfUrl_correct [of ?v ?u] by metis
qed

end
