(* ===== verification/ApolloMapping.thy ===== *)
theory ApolloMapping
  imports ApolloPrefix
begin

section \<open>Mapping URLs between the sandbox and the application\<close>

text \<open>
  mapFrameUrl and unmapFrameUrl invert each other below the two roots. A URL is changed only
  on behalf of an element in a document of the application. The walk through owners and
  openers returns when they have a rank, and does not when two windows are each
  other's openers.
\<close>

subsection \<open>URLs with a path and no authority\<close>

lemma dotFree_append:
  assumes "dotFree xs" "dotFree (0x2F # ys)"
  shows "dotFree (xs @ 0x2F # ys)"
  unfolding dotFree_def
proof (intro allI impI)
  fix as bs assume "xs @ 0x2F # ys = as @ 0x2F # bs"
  then consider cs where "xs = as @ 0x2F # cs" "bs = cs @ 0x2F # ys" | cs where "0x2F # ys = cs @ 0x2F # bs"
    by (auto simp: append_eq_append_conv2 append_eq_Cons_conv Cons_eq_append_conv)
  then show "\<not> isDots (firstSegment bs)"
  proof cases
    case 1
    have "firstSegment (cs @ 0x2F # ys) = firstSegment cs" by (induction cs) (simp_all add: firstSegment_def)
    then show ?thesis using assms(1) 1 unfolding dotFree_def by metis
  next
    case 2
    then show ?thesis using assms(2) unfolding dotFree_def by metis
  qed
qed

lemma dotFree_suffix: "dotFree (xs @ 0x2F # ys) \<Longrightarrow> dotFree (0x2F # ys)"
  unfolding dotFree_def by (metis append_assoc)

lemma canonical_dotFree: "canonical u \<Longrightarrow> path u \<noteq> [] \<Longrightarrow> dotFree (path u)"
  using canonicalD(10,12) [of u] copyPathRemovingDots_slash [of "tl (path u)"] by (cases "path u") auto

text \<open>The parser keeps the text of such a URL, when its scheme is not file and its path has no dot segments.\<close>

lemma parseBytes_rootless:
  assumes "s \<noteq> []" "isSchemeFirstChar (hd s)" "list_all isSchemeChar s" "\<not> (length s = 4 \<and> matchesWord s 0 ''file'')"
    "w = 0x2F # r" "r \<noteq> []" "hd r \<noteq> 0x2F" "list_all pathChar w" "dotFree w" "plain u"
  shows "m_string (parseBytes (s @ 0x3A # w @ queryText u @ fragmentText u) None) = fromBytes (s @ 0x3A # w @ queryText u @ fragmentText u) \<and>
    m_isValid (parseBytes (s @ 0x3A # w @ queryText u @ fragmentText u) None)"
proof -
  let ?n = "length s"
  define url where "url = s @ 0x3A # w @ queryText u @ fragmentText u"
  note d = plainD [OF assms(10)]
  obtain c cs where s: "s = c # cs" using assms(1) by (cases s) auto
  have "isSchemeFirstChar c" using assms(2) s by simp
  moreover from this have "c \<noteq> 0" by (auto simp: class_ranges alpha_def)
  ultimately have at0: "(Kurl.byteAt url 0 = 0) = False" "isSchemeFirstChar (Kurl.byteAt url 0) = True"
    by (simp_all add: Kurl.byteAt_def url_def s)
  have se: "scan isSchemeChar url 0 = ?n"
    using scanI [of url "[]" s "0x3A # w @ queryText u @ fragmentText u" 0 isSchemeChar] assms(3) classes_at_ends(1) by (simp add: url_def)
  have at: "Kurl.byteAt url ?n = 0x3A" "Kurl.byteAt url (?n + 1) = 0x2F" "(Kurl.byteAt url (?n + 2) = 0x2F) = False"
    using assms(6,7) by (simp_all add: url_def assms(5) Kurl.byteAt_def nth_append hd_conv_nth)
  have nf: "(?n = 4 \<and> matchesWord url 0 ''file'') = False"
    using assms(4) matchesWord_prefix [of 0 "''file''" s] by (auto simp: url_def)
  have stopP: "queryText u @ fragmentText u = [] \<or>
      \<not> (hd (queryText u @ fragmentText u) \<noteq> 0 \<and> hd (queryText u @ fragmentText u) \<noteq> 0x3F \<and> hd (queryText u @ fragmentText u) \<noteq> 0x23)"
    by (auto simp: queryText_def fragmentText_def split: option.splits)
  let ?pre = "s @ [0x3A]" and ?ps = "?n + 1"
  have pe: "scan (\<lambda>c. c \<noteq> 0 \<and> c \<noteq> 0x3F \<and> c \<noteq> 0x23) url ?ps = ?ps + length w"
    by (rule scanI [of _ ?pre _ "queryText u @ fragmentText u"])
      (use assms(8) pathChar_not_end stopP in \<open>auto simp: list_all_iff url_def\<close>)
  let ?q = "?ps + length w"
  have qat: "Kurl.byteAt url ?q = (case queryText u @ fragmentText u of [] \<Rightarrow> 0 | b # _ \<Rightarrow> b)"
    by (rule byteAtI [of _ "?pre @ w"]) (simp_all add: url_def)
  have qe: "(if Kurl.byteAt url ?q = 0x3F then scan (\<lambda>c. c \<noteq> 0 \<and> c \<noteq> 0x23) url ?q else ?q) = ?q + length (queryText u)"
  proof (cases "query u")
    case None
    then show ?thesis unfolding qat by (auto simp: queryText_def fragmentText_def split: option.splits)
  next
    case (Some q)
    have "scan (\<lambda>c. c \<noteq> 0 \<and> c \<noteq> 0x23) url ?q = ?q + length (queryText u)"
      by (rule scanI [of _ "?pre @ w" _ "fragmentText u"])
        (use d(13) Some queryChar_not_end in \<open>auto simp: list_all_iff url_def queryText_def fragmentText_def split: option.splits\<close>)
    then show ?thesis unfolding qat using Some by (simp add: queryText_def)
  qed
  let ?r = "?q + length (queryText u)"
  have rat: "Kurl.byteAt url ?r = (case fragmentText u of [] \<Rightarrow> 0 | b # _ \<Rightarrow> b)"
    by (rule byteAtI [of _ "?pre @ w @ queryText u"]) (simp_all add: url_def)
  have fr: "Kurl.byteAt url ?r = 0x23 \<longleftrightarrow> fragment u \<noteq> None"
    unfolding rat by (auto simp: fragmentText_def split: option.splits)
  have fe: "scan (\<lambda>c. c \<noteq> 0) url (?r + 1) = ?r + 1 + length f" if f: "fragment u = Some f" for f
    by (rule scanI [of _ "?pre @ w @ queryText u @ [0x23]" _ "[]"])
      (use d(14) f queryChar_not_end in \<open>auto simp: list_all_iff url_def fragmentText_def\<close>)
  have sp: "Kurl.slice url ?ps ?q = w"
    by (rule sliceI [of _ ?pre _ "queryText u @ fragmentText u"]) (simp_all add: url_def)
  have sq: "Kurl.slice url ?q ?r = queryText u"
    by (rule sliceI [of _ "?pre @ w" _ "fragmentText u"]) (simp_all add: url_def)
  have sf: "Kurl.slice url (?r + 1) (?r + 1 + length f) = f" if f: "fragment u = Some f" for f
    by (rule sliceI [of _ "?pre @ w @ queryText u @ [0x23]" _ "[]"]) (use f in \<open>simp_all add: url_def fragmentText_def\<close>)
  have ss: "Kurl.slice url 0 ?n = s" by (rule sliceI [of _ "[]"]) (simp_all add: url_def)
  have ep: "appendEscapingBadChars w = w"
    by (rule escape_pathChars) (use assms(8) pathChar_not_end in \<open>auto simp: list_all_iff\<close>)
  have eq: "appendEscapingBadChars (queryText u) = queryText u"
    by (rule escape_pathChars) (use d(13) in \<open>auto simp: queryText_def queryChar_def split: option.splits\<close>)
  have ef: "appendEscapingBadChars f = f" if "fragment u = Some f" for f
    by (rule escape_pathChars) (use d(14) that in simp)
  have fs: "(if Kurl.byteAt url ?r = 0x23 then ?r + 1 else ?r) = ?r + (if fragment u = None then 0 else 1)" using fr by simp
  have fe': "(if Kurl.byteAt url ?r = 0x23 then scan (\<lambda>c. c \<noteq> 0) url (?r + (if fragment u = None then 0 else 1)) else ?r) =
      ?r + length (fragmentText u)"
    using fr fe by (cases "fragment u") (simp_all add: fragmentText_def)
  have tail: "(if ?r + length (fragmentText u) \<noteq> ?r
      then p @ 0x23 # appendEscapingBadChars (Kurl.slice url (?r + (if fragment u = None then 0 else 1)) (?r + length (fragmentText u)))
      else p) = p @ fragmentText u" for p
    using sf ef by (cases "fragment u") (simp_all add: fragmentText_def)
  have pa: "(if \<not> hasSlashDotOrDotDot url then appendEscapingBadChars w else appendEscapingBadChars (copyPathRemovingDots w)) = w"
    using ep assms(9) copyPathRemovingDots_id by (simp add: assms(5))
  have tr: "(a = a) = True" for a :: byte by simp
  have http: "(isHTTPFamily url \<and> ?q = ?ps) = False" using assms(5) by simp
  have au: "userStart (noAuthority i) = i" "userEnd (noAuthority i) = i" "passwordStart (noAuthority i) = i" "passwordEnd (noAuthority i) = i"
    "hostStart (noAuthority i) = i" "hostEnd (noAuthority i) = i" "portStart (noAuthority i) = i" "portEnd (noAuthority i) = i" for i
    by (simp_all add: noAuthority_def)
  have as: "a_text (assembleAuthority url a h False p) = p" for a h p by (simp add: assembleAuthority_def)
  have "m_string (parseBytes url None) = fromBytes url \<and> m_isValid (parseBytes url None)"
    unfolding parseBytes_def assembleURL_def Let_def
    apply (simp only: at0 se at tr nf option.case if_False if_True simp_thms au pe qe fs fe' ss sp sq eq pa tail as http KURL.simps)
    by (simp add: url_def)
  then show ?thesis by (simp add: url_def)
qed

subsection \<open>One level of the hierarchy\<close>

lemma utf8_ascii: "plainText bs \<Longrightarrow> utf8 (fromBytes bs) = bs"
proof -
  assume p: "plainText bs"
  have s: "list_all scalar (map unat bs)" using p by (auto simp: plainText_def list_all_iff scalar_def)
  have u: "concat (map utf16_units (map unat bs)) = fromBytes bs"
    using p by (induction bs) (auto simp: utf16_units_def utf16_of_def fromBytes_def)
  have b: "concat (map utf8_bytes (map unat bs)) = bs"
    using p by (induction bs) (auto simp: utf8_bytes_def utf8_of_def)
  show ?thesis using utf8_encoded [OF s] unfolding u b .
qed

lemma cstring_plain: "plainText bs \<Longrightarrow> cstring (utf8 (fromBytes bs)) = bs"
  using plainText_nonzero [of bs] by (simp add: utf8_ascii cstring_def takeWhile_eq_all_conv)

lemma startsFolded_self: "startsFolded a (a @ r)"
  by (simp add: startsFolded_def)

lemma prefix_exact:
  assumes "P = s @ 0x3A # 0x2F # a" "0x3A \<notin> set s" "a = [] \<or> hd a \<noteq> 0x2F" "plainText P" "plainText b"
    "last P = 0x2F \<or> b = [] \<or> hd b \<in> {0x2F, 0x23, 0x3F}"
  shows "isUrlPrefixOfUrl P (P @ b) = Some (Some (length P))"
proof -
  let ?p = "0x3A # 0x2F # a"
  have pt: "plainText P" "plainText (P @ b)" using assms(4,5) by simp_all
  have l: "foldedLoop 0x3A P (P @ b) 0 0 = Some (Inr (length s, length s))"
    using foldedLoop_run [OF pt, of 0 0 "0x3A" s] takeWhile_stop(1) [OF assms(2)] by (simp add: assms(1))
  have "byteAt P (length s + i) = byteAt ?p i" for i unfolding assms(1) by (rule byteAt_append)
  from this [of 0] this [of 1] this [of 2]
  have b: "byteAt P (length s) = Some 0x3A" "byteAt P (length s + 1) = Some 0x2F" "byteAt P (length s + 2) = Some (case a of [] \<Rightarrow> 0 | c # _ \<Rightarrow> c)"
    by (simp_all add: numeral_2_eq_2 split: list.splits)
  have q: "byteAt (P @ b) (length s) = Some 0x3A"
    using byteAt_append [of s "?p @ b" 0] by (simp add: assms(1))
  have c: "behindColon P (P @ b) (length s) (length s) = Some (Inr (length s, length s))"
    unfolding behindColon_def using b assms(3) by (cases a) simp_all
  have e: "Option.bind (exactLoop P (P @ b) (length s) (length s)) (\<lambda>(pos, otherpos). endOfPrefix P (P @ b) pos otherpos) =
      Some (Some (length P))"
  proof -
    have "underPath ?p (?p @ b)" unfolding underPath_append using assms(6) by (auto simp: assms(1) split: if_splits)
    then show ?thesis using prefix_end [of s ?p s "?p @ b"] pt by (simp add: assms(1))
  qed
  show ?thesis unfolding isUrlPrefixOfUrl_def l using b(1) q c e by simp
qed

lemma joinRest_directory:
  assumes "a \<noteq> []" "last a \<noteq> 0x2F" "r \<noteq> []" "hd r \<notin> {0, 0x2F, 0x23, 0x3F}" "A = a \<or> A = a @ [0x2F]" "B = b \<or> B = b @ [0x2F]"
  shows "joinRest (fromBytes A) (fromBytes (b @ 0x2F # r)) (length B) = fromBytes (a @ 0x2F # r)"
proof -
  have u: "(ucast (c :: byte) :: uchar) = 0x2F \<longleftrightarrow> c = 0x2F" "(ucast c :: uchar) = 0x23 \<longleftrightarrow> c = 0x23" "(ucast c :: uchar) = 0x3F \<longleftrightarrow> c = 0x3F"
    "(ucast c :: uchar) = 0 \<longleftrightarrow> c = 0" for c
    using unat_less_length [of c] by (simp_all add: word_unat_eq_iff unat_ucast_mod)
  obtain d r' where r: "r = d # r'" using assms(3) by (cases r) auto
  have ca: "charAt (fromBytes A) (length (fromBytes A) - 1) = ucast (last A)"
    using assms(1,5) by (auto simp: charAt_def fromBytes_def last_conv_nth)
  have cb: "charAt (fromBytes (b @ 0x2F # r)) (length B) = (if B = b then 0x2F else ucast d)"
    using assms(6) r by (auto simp: charAt_def fromBytes_def nth_append)
  have sb: "substring (fromBytes (b @ 0x2F # r)) (length B) None = fromBytes (if B = b then 0x2F # r else r)"
    "B = b \<Longrightarrow> substring (fromBytes (b @ 0x2F # r)) (length B + 1) None = fromBytes r"
    using assms(6) r by (auto simp: substring_def fromBytes_def)
  have l: "last A = 0x2F \<longleftrightarrow> A = a @ [0x2F]" using assms(2,5) by auto
  show ?thesis
    unfolding joinRest_def Let_def ca cb using assms(4,5,6) sb l u r by (auto simp: fromBytes_def)
qed


text \<open>
  A directory of the sandbox, a directory of the application (both with or without a slash
  at the end; the one of the application has a path of ordinary characters without dot segments behind a scheme
  other than file, as in app:/dir or app-storage:/dir), and a file under them with a canonical URL.
\<close>

definition sandboxDirectory :: "url_parts \<Rightarrow> byte list \<Rightarrow> bool" where
  "sandboxDirectory f d \<longleftrightarrow> isPrefixURL f \<and> (d = [] \<or> last d \<noteq> 0x2F) \<and> (path f = d \<or> path f = d @ [0x2F])"

definition applicationDirectory :: "byte list \<Rightarrow> byte list \<Rightarrow> bool" where
  "applicationDirectory t d \<longleftrightarrow>
     plainText t \<and> last d \<noteq> 0x2F \<and> (t = d \<or> t = d @ [0x2F]) \<and>
     (\<exists>s a. d = s @ 0x3A # 0x2F # a \<and> a \<noteq> [] \<and> hd a \<noteq> 0x2F \<and> list_all pathChar a \<and> dotFree (0x2F # a) \<and>
        s \<noteq> [] \<and> isSchemeFirstChar (hd s) \<and> list_all isSchemeChar s \<and> \<not> (length s = 4 \<and> matchesWord s 0 ''file''))"

definition fileUnder :: "url_parts \<Rightarrow> byte list \<Rightarrow> byte list \<Rightarrow> url_parts \<Rightarrow> bool" where
  "fileUnder f d p u \<longleftrightarrow>
     canonical u \<and> user u = [] \<and> password u = [] \<and> scheme u = scheme f \<and> host u = host f \<and> port u = port f \<and>
     path u = d @ 0x2F # p \<and> p \<noteq> [] \<and> hd p \<noteq> 0x2F"

definition mappingAllowed :: "url_parts \<Rightarrow> byte list \<Rightarrow> wtf_string \<Rightarrow> bool" where
  "mappingAllowed f t doc \<longleftrightarrow>
     startsWith doc (ustr ''app:/'') \<and> startsWithAny [''http:/'', ''https:/'', ''file:/''] (fromBytes (printURL f)) \<and>
     startsWithAny [''app:'', ''app-storage:'', ''file:''] (fromBytes t)"

lemma sandbox_texts:
  assumes "sandboxDirectory f d" "fileUnder f d p u"
  defines "g \<equiv> scheme f @ [0x3A, 0x2F, 0x2F] @ authorityText f @ d" and "rest \<equiv> p @ queryText u @ fragmentText u"
  shows "printURL f = g \<or> printURL f = g @ [0x2F]" "printURL u = g @ 0x2F # rest" "g \<noteq> []" "last g \<noteq> 0x2F"
    "rest \<noteq> []" "hd rest \<notin> {0, 0x2F, 0x23, 0x3F}" "plainText (printURL f)" "plainText (printURL u)"
    "isUrlPrefixOfUrl (printURL f) (printURL u) = Some (Some (length (printURL f)))"
proof -
  have f: "isPrefixURL f" "plain f" "d = [] \<or> last d \<noteq> 0x2F" "path f = d \<or> path f = d @ [0x2F]"
    using assms(1) by (auto simp: sandboxDirectory_def isPrefixURL_def)
  have fe: "user f = []" "password f = []" "query f = None" "fragment f = None" using f(1) by (auto simp: isPrefixURL_def)
  have u: "plain u" "userInfoText u = []" "scheme u = scheme f" "authorityText u = authorityText f" "path u = d @ 0x2F # p" "p \<noteq> []" "hd p \<noteq> 0x2F"
    using assms(2) canonical_plain by (auto simp: fileUnder_def userInfoText_def authorityText_def portText_def)
  have pf: "printURL f = scheme f @ [0x3A, 0x2F, 0x2F] @ authorityText f @ path f"
    using fe by (simp add: printURL_def userInfoText_def authorityText_def queryText_def fragmentText_def)
  then show gf: "printURL f = g \<or> printURL f = g @ [0x2F]" using f(4) by (auto simp: g_def)
  have "printURL u = scheme u @ [0x3A, 0x2F, 0x2F] @ userInfoText u @ authorityText u @ path u @ queryText u @ fragmentText u"
    by (simp add: printURL_def authorityText_def)
  then show pu: "printURL u = g @ 0x2F # rest" by (simp add: u g_def rest_def)
  show "g \<noteq> []" by (simp add: g_def)
  have a: "authorityText f \<noteq> []" "0x2F \<notin> set (authorityText f)"
    using plainD(7) [OF f(2)] authority_chars [OF f(2)] not_user_info by (auto simp: authorityText_def)
  then have "last (authorityText f) \<noteq> 0x2F" using last_in_set by metis
  then show "last g \<noteq> 0x2F" using a(1) f(3) by (cases "d = []") (simp_all add: g_def)
  show "rest \<noteq> []" using u(6) by (simp add: rest_def)
  have "pathChar (hd p)" using plainD(11) [OF u(1)] u(5,6) by (cases p) auto
  then have "hd p \<notin> {0, 0x23, 0x3F}" by (auto simp: pathChar_def bad_range badCode_def)
  then show "hd rest \<notin> {0, 0x2F, 0x23, 0x3F}" using u(6,7) by (simp add: rest_def)
  show "plainText (printURL f)" "plainText (printURL u)" using plain_text f(2) u(1) by blast+
  have tl: "tailText u = d @ 0x2F # rest" by (simp add: tailText_def u(5) rest_def)
  have "underPath (path f) (tailText u)"
    using f(4) underPath_append [of d "0x2F # rest"] underPath_append [of "d @ [0x2F]" rest] by (auto simp: tl)
  then show "isUrlPrefixOfUrl (printURL f) (printURL u) = Some (Some (length (printURL f)))"
    using isUrlPrefixOfUrl_printed [OF f(1) u(1)] u by (simp add: pf)
qed

lemma application_prefix:
  assumes "applicationDirectory t e" "rest \<noteq> []" "plainText rest"
  shows "isUrlPrefixOfUrl t (e @ 0x2F # rest) = Some (Some (length t))" "plainText (e @ 0x2F # rest)" "e \<noteq> []" "last e \<noteq> 0x2F" "t = e \<or> t = e @ [0x2F]"
    "plainText t"
proof -
  show t: "plainText t" "last e \<noteq> 0x2F" "t = e \<or> t = e @ [0x2F]" using assms(1) by (auto simp: applicationDirectory_def)
  obtain s a where e: "e = s @ 0x3A # 0x2F # a" "list_all isSchemeChar s" "a \<noteq> []" "hd a \<noteq> 0x2F"
    using assms(1) by (auto simp: applicationDirectory_def)
  then have "0x3A \<notin> set s" using classes_at_ends(1) by (auto simp: list_all_iff)
  note e = e(1) this e(3,4)
  show "e \<noteq> []" by (simp add: e(1))
  show "plainText (e @ 0x2F # rest)" using t assms(3) by auto
  show "isUrlPrefixOfUrl t (e @ 0x2F # rest) = Some (Some (length t))"
    using t(3)
  proof
    assume "t = e"
    then show ?thesis using prefix_exact [of t s a "0x2F # rest"] e t(1) assms(3) by simp
  next
    assume te: "t = e @ [0x2F]"
    then show ?thesis using prefix_exact [of t s "a @ [0x2F]" rest] e t(1) assms(3) by simp
  qed
qed

lemma mapAtOwner_inverse:
  assumes "sandboxDirectory f d" "applicationDirectory t e" "fileUnder f d p u" "mappingAllowed f t doc"
  shows "mapAtOwner (fromBytes (printURL f)) (fromBytes t) False doc (fromBytes (printURL u)) =
      Some (Some (parseString (fromBytes (e @ 0x2F # p @ queryText u @ fragmentText u)))) \<and>
    mapAtOwner (fromBytes (printURL f)) (fromBytes t) True doc (fromBytes (e @ 0x2F # p @ queryText u @ fragmentText u)) =
      Some (Some (parseString (fromBytes (printURL u))))"
proof -
  define g where "g = scheme f @ [0x3A, 0x2F, 0x2F] @ authorityText f @ d"
  define rest where "rest = p @ queryText u @ fragmentText u"
  note s = sandbox_texts [OF assms(1,3), folded g_def rest_def]
  have r: "plainText rest" using s(2,8) by simp
  note a = application_prefix [OF assms(2) s(5) r]
  have ne: "fromBytes (printURL f) \<noteq> []" "fromBytes t \<noteq> []" using s(1,3) a(3,5) by (auto simp: fromBytes_def)
  have j1: "joinRest (fromBytes t) (fromBytes (printURL u)) (length (printURL f)) = fromBytes (e @ 0x2F # rest)"
    unfolding s(2) by (rule joinRest_directory [OF a(3,4) s(5,6) a(5) s(1)])
  have j2: "joinRest (fromBytes (printURL f)) (fromBytes (e @ 0x2F # rest)) (length t) = fromBytes (printURL u)"
    unfolding s(2) by (rule joinRest_directory [OF s(3,4,5,6,1) a(5)])
  show ?thesis
    using assms(4) ne unfolding mapAtOwner_def mappingAllowed_def rest_def [symmetric]
    by (simp add: cstring_plain [OF s(7)] cstring_plain [OF s(8)] cstring_plain [OF a(2)] cstring_plain [OF a(6)] s(9) a(1) j1 j2)
qed

text \<open>The parser keeps the text of the mapped URL.\<close>

lemma mapped_text:
  assumes "applicationDirectory t e" "fileUnder f d p u"
  shows "m_string (parseString (fromBytes (e @ 0x2F # p @ queryText u @ fragmentText u))) = fromBytes (e @ 0x2F # p @ queryText u @ fragmentText u)"
proof -
  obtain s a where e: "e = s @ 0x3A # 0x2F # a" "a \<noteq> []" "hd a \<noteq> 0x2F" "list_all pathChar a" "dotFree (0x2F # a)"
    "s \<noteq> []" "isSchemeFirstChar (hd s)" "list_all isSchemeChar s" "\<not> (length s = 4 \<and> matchesWord s 0 ''file'')"
    using assms(1) by (auto simp: applicationDirectory_def)
  have u: "canonical u" "path u = d @ 0x2F # p" "p \<noteq> []" "hd p \<noteq> 0x2F" using assms(2) by (auto simp: fileUnder_def)
  have sl: "pathChar 0x2F" by (auto simp: pathChar_def bad_range badCode_def)
  have pc: "list_all pathChar p" using canonicalD(11) [OF u(1)] u(2) by simp
  have "dotFree (0x2F # p)" using canonical_dotFree [OF u(1)] u(2) dotFree_suffix by auto
  from dotFree_append [OF e(5) this] have df: "dotFree (0x2F # (a @ 0x2F # p))" by simp
  note k = parseBytes_rootless [OF e(6-9) refl _ _ _ df canonical_plain [OF u(1)]]
  have "e @ 0x2F # p @ queryText u @ fragmentText u = s @ 0x3A # (0x2F # (a @ 0x2F # p)) @ queryText u @ fragmentText u"
    by (simp add: e(1))
  then show ?thesis using k e(2-4) pc sl by (simp add: parseString_fromBytes)
qed

text \<open>
  C10: Below the two roots of an element in a document of the application the mapping of AIR is a bijection: for
  a frame that this element owns (itself or through its openers), mapFrameUrl maps the parsed URL of a file under
  the sandbox root to a URL whose text is that of the same file under the document root, whether the roots are given
  with or without a slash at the end, and unmapFrameUrl gives the very object back, although both parse the text
  again. The document root is one of the schemes app or app-storage.
\<close>

theorem mapping_roundtrip:
  assumes "findOwner store fr = Some (Some w)" "w_sandboxroot w = fromBytes (printURL f)" "w_documentroot w = fromBytes t"
    "sandboxDirectory f d" "applicationDirectory t e" "fileUnder f d p u" "mappingAllowed f t (w_documentURL w)"
  shows "\<exists>k. mapFrameUrl store (Some fr) (parsed u) = Some (True, k) \<and>
    m_string k = fromBytes (e @ 0x2F # p @ queryText u @ fragmentText u) \<and>
    unmapFrameUrl store (Some fr) k = Some (True, parsed u)"
proof -
  let ?k = "parseString (fromBytes (e @ 0x2F # p @ queryText u @ fragmentText u))"
  have u: "canonical u" using assms(6) by (simp add: fileUnder_def)
  have t: "m_string ?k = fromBytes (e @ 0x2F # p @ queryText u @ fragmentText u)" by (rule mapped_text [OF assms(5,6)])
  have m: "mapLevel False (m_string (parsed u)) w = Some (Some ?k)" "mapLevel True (m_string ?k) w = Some (Some (parsed u))"
    using mapAtOwner_inverse [OF assms(4-7)] by (simp_all add: mapLevel_def assms(2,3) t parsed_fields parseString_printed [OF u])
  have "mapFrameUrl store (Some fr) (parsed u) = Some (True, ?k)"
    unfolding mapFrameUrl_def mapWith_def by (subst mapLoop.simps) (simp add: assms(1) m)
  moreover have "unmapFrameUrl store (Some fr) ?k = Some (True, parsed u)"
    unfolding unmapFrameUrl_def mapWith_def by (subst mapLoop.simps) (simp add: assms(1) m)
  ultimately show ?thesis using t by blast
qed

definition exampleSandbox :: url_parts where
  "exampleSandbox = \<lparr>scheme = bstr ''http'', user = [], password = [], host = bstr ''h.com'', port = None, path = bstr ''/d/'',
     query = None, fragment = None\<rparr>"

subsection \<open>The walk through the hierarchy\<close>

text \<open>The elements that own a frame of the store.\<close>

definition ownerIn :: "frameStore \<Rightarrow> ownerElement \<Rightarrow> bool" where
  "ownerIn store e \<longleftrightarrow> (\<exists>n \<in> ran store. n_owner n = Some e)"

lemma findOwner_in:
  assumes "findOwner store f = Some r"
  shows "case r of None \<Rightarrow> True | Some e \<Rightarrow> ownerIn store e"
proof (rule findOwner.raw_induct [where P = "\<lambda>store f r. case r of None \<Rightarrow> True | Some e \<Rightarrow> ownerIn store e", OF _ assms])
  fix walk store f r
  assume ih: "\<And>store f r. walk store f = Some r \<Longrightarrow> case r of None \<Rightarrow> True | Some e \<Rightarrow> ownerIn store e"
    and "(case store f of None \<Rightarrow> None
      | Some n \<Rightarrow> (case n_owner n of None \<Rightarrow> (case n_opener n of None \<Rightarrow> Some None | Some g \<Rightarrow> if g = f then Some None else walk store g)
                   | Some e \<Rightarrow> Some (Some e))) = Some r"
  then obtain n where n: "store f = Some n" "r = None \<or> n_owner n = r \<or> (\<exists>g. walk store g = Some r)"
    by (auto split: option.splits if_splits)
  show "case r of None \<Rightarrow> True | Some e \<Rightarrow> ownerIn store e"
  proof (cases r)
    case (Some e)
    then show ?thesis using n ih [of store] by (fastforce simp: ownerIn_def ran_def)
  qed simp
qed

lemma mapLoop_in:
  assumes "mapLoop store level frame = Some r"
  shows "case r of None \<Rightarrow> True | Some u \<Rightarrow> \<exists>e. ownerIn store e \<and> level e = Some (Some u)"
proof (rule mapLoop.raw_induct [where P = "\<lambda>store level frame r.
      case r of None \<Rightarrow> True | Some u \<Rightarrow> \<exists>e. ownerIn store e \<and> level e = Some (Some u)", OF _ assms])
  fix walk :: "frameStore \<Rightarrow> (ownerElement \<Rightarrow> KURL option option) \<Rightarrow> nat option \<Rightarrow> KURL option option"
    and store level frame r
  assume ih: "\<And>store level frame r. walk store level frame = Some r \<Longrightarrow>
      case r of None \<Rightarrow> True | Some u \<Rightarrow> \<exists>e. ownerIn store e \<and> level e = Some (Some u)"
    and r: "(if frame = None then Some None
      else findOwner store (the frame) \<bind> (\<lambda>owner. if owner = None then Some None
             else level (the owner) \<bind> (\<lambda>r. if r \<noteq> None then Some r else walk store level (w_frame (the owner))))) = Some r"
  show "case r of None \<Rightarrow> True | Some u \<Rightarrow> \<exists>e. ownerIn store e \<and> level e = Some (Some u)"
  proof (cases r)
    case (Some u)
    then obtain e where e: "findOwner store (the frame) = Some (Some e)" "level e = Some (Some u) \<or> walk store level (w_frame e) = Some r"
      using r by (auto simp: bind_eq_Some_conv split: if_splits)
    then show ?thesis using ih [of store level "w_frame e" r] findOwner_in [OF e(1)] Some by auto
  qed simp
qed

text \<open>A hierarchy with a rank that falls from a frame to its opener and to the frame of its owner's document.\<close>

definition ranked :: "frameStore \<Rightarrow> (nat \<Rightarrow> nat) \<Rightarrow> bool" where
  "ranked store rank \<longleftrightarrow>
     (\<forall>f n. store f = Some n \<longrightarrow>
        (\<forall>g. n_opener n = Some g \<longrightarrow> g = f \<or> g \<in> dom store \<and> rank g < rank f) \<and>
        (\<forall>e g. n_owner n = Some e \<longrightarrow> w_frame e = Some g \<longrightarrow> g \<in> dom store \<and> rank g < rank f))"

lemma findOwner_returns:
  "ranked store rank \<Longrightarrow> f \<in> dom store \<Longrightarrow>
   \<exists>r. findOwner store f = Some r \<and> (\<forall>e g. r = Some e \<longrightarrow> w_frame e = Some g \<longrightarrow> g \<in> dom store \<and> rank g < rank f)"
proof (induction "rank f" arbitrary: f rule: less_induct)
  case less
  then obtain n where n: "store f = Some n" by blast
  show ?case
  proof (cases "n_owner n = None \<and> (\<exists>g. n_opener n = Some g \<and> g \<noteq> f)")
    case True
    then obtain g where g: "n_owner n = None" "n_opener n = Some g" "g \<noteq> f" by blast
    then have "g \<in> dom store" "rank g < rank f" using less(2) n unfolding ranked_def by blast+
    from less(1) [OF this(2) less(2) this(1)] this(2) show ?thesis
      using n g by (subst findOwner.simps) fastforce
  next
    case False
    then show ?thesis using less(2) n unfolding ranked_def by (subst findOwner.simps) (auto split: option.splits)
  qed
qed

lemma mapLoop_returns:
  assumes "ranked store rank" "\<And>e. level e \<noteq> None"
  shows "f \<in> dom store \<Longrightarrow> mapLoop store level (Some f) \<noteq> None"
proof (induction "rank f" arbitrary: f rule: less_induct)
  case less
  obtain r where r: "findOwner store f = Some r" "\<forall>e g. r = Some e \<longrightarrow> w_frame e = Some g \<longrightarrow> g \<in> dom store \<and> rank g < rank f"
    using findOwner_returns [OF assms(1) less(2)] by blast
  show ?case
  proof (cases r)
    case (Some e)
    obtain v where v: "level e = Some v" using assms(2) [of e] by blast
    have "mapLoop store level (w_frame e) \<noteq> None"
    proof (cases "w_frame e")
      case None
      then show ?thesis by (subst mapLoop.simps) simp
    next
      case (Some g)
      then show ?thesis using less(1) [of g] r(2) \<open>r = Some e\<close> by simp
    qed
    then show ?thesis using r(1) Some v by (subst mapLoop.simps) simp
  qed (use r in \<open>subst mapLoop.simps, simp\<close>)
qed

lemma mapLevel_returns: "mapLevel unmap s e \<noteq> None"
proof -
  have i: "isUrlPrefixOfUrl (cstring a) (cstring b) \<noteq> None" for a b
    by (rule isUrlPrefixOfUrl_inside [OF cstring_no_null cstring_no_null])
  obtain y z where "isUrlPrefixOfUrl (cstring (utf8 (w_documentroot e))) (cstring (utf8 s)) = Some y"
    "isUrlPrefixOfUrl (cstring (utf8 (w_sandboxroot e))) (cstring (utf8 s)) = Some z"
    using i by blast
  then show ?thesis by (simp add: mapLevel_def mapAtOwner_def)
qed

text \<open>
  C11: When owners and openers lead to frames of smaller rank, the walk returns for every
  frame and URL, and it changes the URL only on behalf of an element in a document of the
  application, from a root on the network or in the file system to a local root or back: the new URL is
  what the parser makes of the other root with the rest of the text.
\<close>

theorem mapping_for_application:
  assumes "ranked store rank" "f \<in> dom store"
  shows "\<exists>r new. mapWith unmap store (Some f) url = Some (r, new) \<and>
    (if r then \<exists>e. ownerIn store e \<and> startsWith (w_documentURL e) (ustr ''app:/'') \<and>
            startsWithAny [''http:/'', ''https:/'', ''file:/''] (w_sandboxroot e) \<and>
            startsWithAny [''app:'', ''app-storage:'', ''file:''] (w_documentroot e) \<and>
            (\<exists>rest. isUrlPrefixOfUrl (cstring (utf8 (if unmap then w_documentroot e else w_sandboxroot e))) (cstring (utf8 (m_string url))) = Some (Some rest) \<and>
               new = parseString (joinRest (if unmap then w_sandboxroot e else w_documentroot e) (m_string url) rest))
     else new = url)"
proof -
  obtain r where r: "mapLoop store (mapLevel unmap (m_string url)) (Some f) = Some r"
    using mapLoop_returns [of store rank "mapLevel unmap (m_string url)" f] assms mapLevel_returns by blast
  show ?thesis
  proof (cases r)
    case (Some u)
    then obtain e where e: "ownerIn store e" "mapLevel unmap (m_string url) e = Some (Some u)" using mapLoop_in [OF r] by auto
    then show ?thesis using r Some
      by (intro exI [of _ True] exI [of _ u]) (auto simp: mapWith_def mapLevel_def mapAtOwner_def Let_def bind_eq_Some_conv split: if_splits option.splits)
  qed (use r in \<open>intro exI [of _ False] exI [of _ url], simp add: mapWith_def\<close>)
qed

definition exampleStore :: frameStore where
  "exampleStore =
     [0 \<mapsto> \<lparr>n_owner = Some \<lparr>w_sandboxroot = ustr ''http://h.com/d/'', w_documentroot = ustr ''app:/x'', w_documentURL = ustr ''app:/main.html'',
        w_frame = Some 1, w_allowcrossdomainxhr = None\<rparr>, n_opener = None\<rparr>,
      1 \<mapsto> \<lparr>n_owner = None, n_opener = None\<rparr>]"

text \<open>A file of the sandbox of the example.\<close>

definition exampleFile :: url_parts where
  "exampleFile = exampleSandbox\<lparr>path := bstr ''/d/f'', query := Some (bstr ''q'')\<rparr>"

lemma mapping_roundtrip_witness:
  "\<exists>k. mapFrameUrl exampleStore (Some 0) (parsed exampleFile) = Some (True, k) \<and> m_string k = ustr ''app:/x/f?q'' \<and>
     unmapFrameUrl exampleStore (Some 0) k = Some (True, parsed exampleFile)"
proof -
  define w where "w = the (n_owner (the (exampleStore 0)))"
  have w: "w_sandboxroot w = ustr ''http://h.com/d/''" "w_documentroot w = ustr ''app:/x''" "w_documentURL w = ustr ''app:/main.html''"
    by (simp_all add: w_def exampleStore_def)
  have o: "findOwner exampleStore 0 = Some (Some w)" by (subst findOwner.simps) (simp add: w_def exampleStore_def)
  have f: "sandboxDirectory exampleSandbox (bstr ''/d'')" "fileUnder exampleSandbox (bstr ''/d'') (bstr ''f'') exampleFile" by code_simp+
  have "bstr ''app:/x'' = bstr ''app'' @ 0x3A # 0x2F # bstr ''x'' \<and> bstr ''x'' \<noteq> [] \<and> hd (bstr ''x'') \<noteq> 0x2F \<and> list_all pathChar (bstr ''x'') \<and>
      bstr ''app'' \<noteq> [] \<and> isSchemeFirstChar (hd (bstr ''app'')) \<and> list_all isSchemeChar (bstr ''app'') \<and>
      \<not> (length (bstr ''app'') = 4 \<and> matchesWord (bstr ''app'') 0 ''file'') \<and> last (bstr ''app:/x'') \<noteq> 0x2F \<and> plainText (bstr ''app:/x'') \<and>
      copyPathRemovingDots (0x2F # bstr ''x'') = 0x2F # bstr ''x''"
    by code_simp
  moreover from this have "dotFree (0x2F # bstr ''x'')" using copyPathRemovingDots_slash [of "bstr ''x''"] by metis
  ultimately have t: "applicationDirectory (bstr ''app:/x'') (bstr ''app:/x'')" unfolding applicationDirectory_def by blast
  have c: "mappingAllowed exampleSandbox (bstr ''app:/x'') (ustr ''app:/main.html'') \<and>
      fromBytes (printURL exampleSandbox) = ustr ''http://h.com/d/'' \<and> fromBytes (bstr ''app:/x'') = ustr ''app:/x'' \<and>
      fromBytes (bstr ''app:/x'' @ 0x2F # bstr ''f'' @ queryText exampleFile @ fragmentText exampleFile) = ustr ''app:/x/f?q''"
    by code_simp
  show ?thesis using mapping_roundtrip [OF o _ _ f(1) t f(2), unfolded w] c by simp
qed

lemma mapping_for_application_witness:
  "\<exists>r new. mapWith False exampleStore (Some 0) (parsed otherURL) = Some (r, new) \<and> (\<not> r \<longrightarrow> new = parsed otherURL)"
proof -
  have "ranked exampleStore (\<lambda>f. 1 - f)" "0 \<in> dom exampleStore" by (auto simp: ranked_def exampleStore_def)
  from mapping_for_application [OF this, of False "parsed otherURL"] show ?thesis by (metis (full_types))
qed

text \<open>Two windows without owners, each of which is the opener of the other.\<close>

definition mutualOpeners :: frameStore where
  "mutualOpeners = [0 \<mapsto> \<lparr>n_owner = None, n_opener = Some 1\<rparr>, 1 \<mapsto> \<lparr>n_owner = None, n_opener = Some 0\<rparr>]"

text \<open>
  The inner loop stops only at a window that is its own opener; it runs forever when two
  windows are each other's openers.
\<close>

theorem mutual_openers_hang: "mapFrameUrl mutualOpeners (Some 0) s = None"
proof -
  have m: "mutualOpeners 0 = Some \<lparr>n_owner = None, n_opener = Some 1\<rparr>" "mutualOpeners 1 = Some \<lparr>n_owner = None, n_opener = Some 0\<rparr>"
    by (simp_all add: mutualOpeners_def)
  have "store \<noteq> mutualOpeners \<or> f \<notin> {0, 1}" if "findOwner store f = Some r" for store f r
  proof (rule findOwner.raw_induct [where P = "\<lambda>store f r. store \<noteq> mutualOpeners \<or> f \<notin> {0, 1}", OF _ that])
    fix walk store f r
    assume ih: "\<And>store f r. walk store f = Some r \<Longrightarrow> store \<noteq> mutualOpeners \<or> f \<notin> {0, 1}"
      and r: "(case store f of None \<Rightarrow> None
        | Some n \<Rightarrow> (case n_owner n of None \<Rightarrow> (case n_opener n of None \<Rightarrow> Some None | Some g \<Rightarrow> if g = f then Some None else walk store g)
                     | Some e \<Rightarrow> Some (Some e))) = Some r"
    have "walk mutualOpeners 0 \<noteq> Some r" "walk mutualOpeners 1 \<noteq> Some r" using ih by blast+
    then show "store \<noteq> mutualOpeners \<or> f \<notin> {0, 1}" using r m by (cases "store = mutualOpeners"; cases "f = 0"; cases "f = 1") auto
  qed
  from this [of mutualOpeners 0] have "findOwner mutualOpeners 0 = None" by (cases "findOwner mutualOpeners 0") auto
  then show ?thesis by (subst mapFrameUrl_def, subst mapWith_def, subst mapLoop.simps) simp
qed

end
