(* ===== verification/HttpParsers.thy ===== *)
theory HttpParsers
  imports WtfString
begin

section \<open>Values of HTTP header fields (WebCore/platform/network/HTTPParsers.cpp)\<close>

text \<open>
  The scanners of HTTPParsers.cpp. A position is a natural number; reading at the length of
  the string or behind it gives 0, as \<open>operator[]\<close> of the string class does. The loops test
  for the length by inequality, so they return only when they start inside; every caller
  stays there (the positions of a caller are bounded before each loop). \<open>same\<close> is the
  comparison under case folding, \<open>ws\<close> white space above U+007F, \<open>toDouble\<close> the conversion of
  text to a number of seconds. Date values are read by DateMath.cpp and are not modelled.
\<close>

definition skipWhile :: "(uchar \<Rightarrow> bool) \<Rightarrow> wtf_string \<Rightarrow> nat \<Rightarrow> nat" where
  "skipWhile P s pos = pos + length (takeWhile P (drop pos s))"

definition skipped :: "bool \<Rightarrow> uchar \<Rightarrow> bool" where
  "skipped fromHttpEquivMeta c = (if fromHttpEquivMeta then c \<le> 0x20 else c = 0x09 \<or> c = 0x20)"

text \<open>skipWhiteSpace returns whether there is more to parse, and the new position.\<close>

definition skipWhiteSpace :: "wtf_string \<Rightarrow> nat \<Rightarrow> bool \<Rightarrow> bool \<times> nat" where
  "skipWhiteSpace s pos fromHttpEquivMeta =
     (let pos = skipWhile (skipped fromHttpEquivMeta) s pos in (pos \<noteq> length s, pos))"

fun skipToken :: "wtf_string \<Rightarrow> nat \<Rightarrow> wtf_string \<Rightarrow> bool \<times> nat" where
  "skipToken s pos [] = (True, pos)"
| "skipToken s pos (t # token) =
     (if pos = length s then (True, pos)
      else if toASCIILower (charAt s pos) \<noteq> t then (False, pos)
      else skipToken s (pos + 1) token)"

subsection \<open>Content-Disposition\<close>

datatype contentDisposition = ContentDispositionNone | ContentDispositionInline | ContentDispositionAttachment | ContentDispositionOther

definition startsWithIgnoringCase :: "(wtf_string \<Rightarrow> wtf_string \<Rightarrow> bool) \<Rightarrow> wtf_string \<Rightarrow> wtf_string \<Rightarrow> bool" where
  "startsWithIgnoringCase same s t = (reverseFindString toASCIILower same s t 0 = 0)"

definition contentDispositionType :: "(wtf_string \<Rightarrow> wtf_string \<Rightarrow> bool) \<Rightarrow> wtf_string \<Rightarrow> contentDisposition" where
  "contentDispositionType same s =
     (if s = [] then ContentDispositionNone
      else if startsWith s (ustr '';'') then ContentDispositionNone
      else if startsWithIgnoringCase same s (ustr ''inline'') then ContentDispositionInline
      else if startsWithIgnoringCase same s (ustr ''filename'') then ContentDispositionNone
      else if startsWithIgnoringCase same s (ustr ''name'') then ContentDispositionNone
      else ContentDispositionAttachment)"

text \<open>The length of a value that is one quotation mark wraps around, which reads to the end.\<close>

definition unquote :: "wtf_string \<Rightarrow> wtf_string" where
  "unquote v = (if charAt v 0 = 0x22 then substring v 1 (if 2 \<le> length v then Some (length v - 2) else None) else v)"

fun filenameIn :: "(uchar \<Rightarrow> bool) \<Rightarrow> wtf_string list \<Rightarrow> wtf_string" where
  "filenameIn ws [] = []"
| "filenameIn ws (p # ps) =
     (let valueStartPos = findChar p 0x3D 0
      in if valueStartPos < 0 then filenameIn ws ps
         else let key = stripWhiteSpace ws (left p (nat valueStartPos))
              in if key = [] \<or> key \<noteq> ustr ''filename'' then filenameIn ws ps
                 else unquote (stripWhiteSpace ws (substring p (nat valueStartPos + 1) None)))"

definition filenameFromHTTPContentDisposition :: "(uchar \<Rightarrow> bool) \<Rightarrow> wtf_string \<Rightarrow> wtf_string" where
  "filenameFromHTTPContentDisposition ws value = filenameIn ws (split 0x3B False value 0)"

subsection \<open>Refresh\<close>

text \<open>Where the URL begins, behind an optional \<open>url =\<close>.\<close>

definition refreshURLStart :: "(wtf_string \<Rightarrow> wtf_string \<Rightarrow> bool) \<Rightarrow> bool \<Rightarrow> wtf_string \<Rightarrow> nat \<Rightarrow> nat" where
  "refreshURLStart same fromMeta s pos =
     (if findString toASCIILower same s (ustr ''url'') (int pos) = int pos
      then let start = snd (skipWhiteSpace s (pos + 3) fromMeta)
           in if charAt s start = 0x3D then snd (skipWhiteSpace s (start + 1) fromMeta) else pos
      else pos)"

text \<open>The loop that looks for the closing quotation mark from the end.\<close>

fun closingQuote :: "wtf_string \<Rightarrow> uchar \<Rightarrow> nat \<Rightarrow> nat \<Rightarrow> nat" where
  "closingQuote s quote start stop =
     (if start < stop
      then if charAt s (stop - 1) = quote then stop - 1 else closingQuote s quote start (stop - 1)
      else stop)"

declare closingQuote.simps [simp del]

definition refreshURL :: "(uchar \<Rightarrow> bool) \<Rightarrow> wtf_string \<Rightarrow> nat \<Rightarrow> wtf_string" where
  "refreshURL ws s urlStartPos =
     (let c = charAt s urlStartPos
      in if c = 0x22 \<or> c = 0x27
         then let start = urlStartPos + 1;
                  stop = closingQuote s c start (length s);
                  stop = (if stop = start then length s else stop)
              in stripWhiteSpace ws (substring s start (Some (stop - start)))
         else stripWhiteSpace ws (substring s urlStartPos (Some (length s - urlStartPos))))"

text \<open>The delay and the URL; the null URL stands for the document itself.\<close>

definition parseHTTPRefresh ::
    "(wtf_string \<Rightarrow> wtf_string \<Rightarrow> bool) \<Rightarrow> (uchar \<Rightarrow> bool) \<Rightarrow> (wtf_string \<Rightarrow> 'd option) \<Rightarrow> wtf_string \<Rightarrow> bool \<Rightarrow>
     ('d \<times> wtf_string option) option" where
  "parseHTTPRefresh same ws toDouble refresh fromHttpEquivMeta =
     (let (more, pos) = skipWhiteSpace refresh 0 fromHttpEquivMeta
      in if \<not> more then None
         else let pos = skipWhile (\<lambda>c. c \<noteq> 0x2C \<and> c \<noteq> 0x3B) refresh pos
              in if pos = length refresh
                 then map_option (\<lambda>d. (d, None)) (toDouble (stripWhiteSpace ws refresh))
                 else case toDouble (stripWhiteSpace ws (left refresh pos)) of
                        None \<Rightarrow> None
                      | Some delay \<Rightarrow>
                          let pos = snd (skipWhiteSpace refresh (pos + 1) fromHttpEquivMeta)
                          in Some (delay, Some (refreshURL ws refresh (refreshURLStart same fromHttpEquivMeta refresh pos))))"

subsection \<open>Media types\<close>

fun mimeUnits :: "(uchar \<Rightarrow> bool) \<Rightarrow> wtf_string \<Rightarrow> wtf_string" where
  "mimeUnits ws [] = []"
| "mimeUnits ws (c # s) =
     (if c = 0x3B then [] else if c = 0x2C then []
      else if isSpaceOrNewline ws c then mimeUnits ws s
      else c # mimeUnits ws s)"

definition extractMIMETypeFromMediaType :: "(uchar \<Rightarrow> bool) \<Rightarrow> wtf_string \<Rightarrow> wtf_string" where
  "extractMIMETypeFromMediaType ws mediaType =
     (let mimeType = mimeUnits ws mediaType
      in if length mimeType = length mediaType then mediaType else mimeType)"

text \<open>
  findCharsetInMediaType: the position and the length of the value, starting from \<open>pos\<close>;
  \<open>start\<close> is what is returned as the position when there is none. Every turn moves at
  least seven units on.
\<close>

definition findFolded :: "(wtf_string \<Rightarrow> wtf_string \<Rightarrow> bool) \<Rightarrow> wtf_string \<Rightarrow> wtf_string \<Rightarrow> nat \<Rightarrow> int" where
  "findFolded same s t pos = findString toASCIILower same s t (int pos)"

definition charsetStop :: "uchar \<Rightarrow> bool" where
  "charsetStop c = (c \<le> 0x20 \<or> c = 0x22 \<or> c = 0x27)"

lemma findLoop_bound: "findLoop h same s t hs ht i n = Some j \<Longrightarrow> i \<le> j \<and> j \<le> i + n"
proof (induction n arbitrary: ht i)
  case 0
  then show ?case by (subst (asm) findLoop.simps) (auto split: if_splits)
next
  case (Suc n)
  show ?case
    using Suc.prems Suc.IH by (subst (asm) findLoop.simps) (fastforce split: if_splits)
qed

lemma findFolded_bound:
  "findFolded same s t pos = -1 \<or> int pos \<le> findFolded same s t pos \<and> findFolded same s t pos + int (length t) \<le> int (length s)"
  unfolding findFolded_def findString_def Let_def by (auto split: option.split dest!: findLoop_bound)

function charsetFrom :: "(wtf_string \<Rightarrow> wtf_string \<Rightarrow> bool) \<Rightarrow> wtf_string \<Rightarrow> nat \<Rightarrow> nat \<Rightarrow> nat \<times> nat" where
  "charsetFrom same s start pos =
     (if length s \<le> pos then (start, 0)
      else let found = findFolded same s (ustr ''charset'') pos
           in if found \<le> 0 then (start, 0)
              else let p = nat found
                   in if 0x20 < charAt s (p - 1) \<and> charAt s (p - 1) \<noteq> 0x3B then charsetFrom same s start (p + 7)
                      else let q = skipWhile (\<lambda>c. c \<le> 0x20) s (p + 7)
                           in if charAt s q \<noteq> 0x3D then charsetFrom same s start (q + 1)
                              else let b = skipWhile charsetStop s (q + 1);
                                       e = (if b = length s then b else skipWhile (\<lambda>c. \<not> (charsetStop c \<or> c = 0x3B)) s b)
                                   in (b, e - b))"
  by pat_completeness auto
termination
proof (relation "measure (\<lambda>(_, s, _, p). length s - p)", goal_cases)
  case (2 same s start pos found p)
  then show ?case using findFolded_bound [of same s "ustr ''charset''" pos] by auto
next
  case (3 same s start pos found p q)
  then show ?case using findFolded_bound [of same s "ustr ''charset''" pos] by (auto simp: skipWhile_def)
qed simp

declare charsetFrom.simps [simp del]

definition findCharsetInMediaType :: "(wtf_string \<Rightarrow> wtf_string \<Rightarrow> bool) \<Rightarrow> wtf_string \<Rightarrow> nat \<Rightarrow> nat \<times> nat" where
  "findCharsetInMediaType same mediaType start = charsetFrom same mediaType start start"

definition extractCharsetFromMediaType :: "(wtf_string \<Rightarrow> wtf_string \<Rightarrow> bool) \<Rightarrow> wtf_string \<Rightarrow> wtf_string" where
  "extractCharsetFromMediaType same mediaType =
     (let (pos, len) = findCharsetInMediaType same mediaType 0 in substring mediaType pos (Some len))"

subsection \<open>X-XSS-Protection and the status line\<close>

datatype XSSProtectionDisposition = XSSProtectionDisabled | XSSProtectionEnabled | XSSProtectionBlockEnabled

definition expectChar :: "wtf_string \<Rightarrow> nat \<Rightarrow> uchar \<Rightarrow> (bool \<times> nat)" where
  "expectChar s pos c = (charAt s pos = c, pos + 1)"

definition andThen :: "bool \<times> nat \<Rightarrow> (nat \<Rightarrow> bool \<times> nat) \<Rightarrow> bool \<times> nat" where
  "andThen r f = (if fst r then f (snd r) else r)"

definition parseXSSProtectionHeader :: "(uchar \<Rightarrow> bool) \<Rightarrow> wtf_string \<Rightarrow> XSSProtectionDisposition" where
  "parseXSSProtectionHeader ws header =
     (let s = stripWhiteSpace ws header; space = (\<lambda>p. skipWhiteSpace s p False)
      in if s = [] then XSSProtectionEnabled
         else if charAt s 0 = 0x30 then XSSProtectionDisabled
         else let (ok, pos) =
                    fold (\<lambda>f r. andThen r f)
                      [space, \<lambda>p. expectChar s p 0x3B, space, \<lambda>p. skipToken s p (ustr ''mode''), space,
                       \<lambda>p. expectChar s p 0x3D, space, \<lambda>p. skipToken s p (ustr ''block'')]
                      (expectChar s 0 0x31)
              in if ok \<and> pos = length header then XSSProtectionBlockEnabled else XSSProtectionEnabled)"

definition extractReasonPhraseFromHTTPStatusLine :: "wtf_string \<Rightarrow> wtf_string" where
  "extractReasonPhraseFromHTTPStatusLine statusLine =
     (let spacePos = findChar statusLine 0x20 0;
          spacePos = findChar statusLine 0x20 (spacePos + 1)
      in substring statusLine (nat (spacePos + 1)) None)"

end
