(* ===== verification/CrossOrigin.thy ===== *)
theory CrossOrigin
  imports OriginAccess HttpParsers Complex_Main
begin

section \<open>Cross-origin access control (WebCore/loader/CrossOriginAccessControl.cpp, CrossOriginPreflightResultCache.cpp)\<close>

text \<open>
  The checks of requests and responses between origins, and the cache of preflight
  results. A set or a map of the code with CaseFoldingHash is a list searched with the
  comparison \<open>same\<close> of the environment, in the order in which the code would iterate over it. The time
  is a real number of seconds, an argument of what reads the clock.
\<close>

subsection \<open>Header fields (platform/network/HTTPHeaderMap.h)\<close>

type_synonym headers = "(wtf_string \<times> wtf_string) list"

fun findHeader :: "environment \<Rightarrow> wtf_string \<Rightarrow> headers \<Rightarrow> wtf_string option" where
  "findHeader env name [] = None"
| "findHeader env name ((n, v) # hs) = (if same env n name then Some v else findHeader env name hs)"

text \<open>The null string of a field that is absent is the empty string.\<close>

definition headerField :: "environment \<Rightarrow> wtf_string \<Rightarrow> headers \<Rightarrow> wtf_string" where
  "headerField env name hs = (case findHeader env name hs of Some v \<Rightarrow> v | None \<Rightarrow> [])"

definition removeHeader :: "environment \<Rightarrow> wtf_string \<Rightarrow> headers \<Rightarrow> headers" where
  "removeHeader env name hs = filter (\<lambda>(n, v). \<not> same env n name) hs"

text \<open>HashMap::set keeps the name that is in the map.\<close>

fun setHeader :: "environment \<Rightarrow> wtf_string \<Rightarrow> wtf_string \<Rightarrow> headers \<Rightarrow> headers" where
  "setHeader env name value [] = [(name, value)]"
| "setHeader env name value ((n, v) # hs) = (if same env n name then (n, value) # hs else (n, v) # setHeader env name value hs)"

text \<open>An add that joins the new value to the old one by a separator.\<close>

fun addHeader :: "environment \<Rightarrow> wtf_string \<Rightarrow> wtf_string \<Rightarrow> wtf_string \<Rightarrow> headers \<Rightarrow> headers" where
  "addHeader env separator name value [] = [(name, value)]"
| "addHeader env separator name value ((n, v) # hs) =
     (if same env n name then (n, v @ separator @ value) # hs else (n, v) # addHeader env separator name value hs)"

record request =
  r_url :: KURL
  r_method :: wtf_string
  r_headers :: headers
  r_allowCookies :: bool

definition newRequest :: "KURL \<Rightarrow> request" where
  "newRequest u = \<lparr>r_url = u, r_method = ustr ''GET'', r_headers = [], r_allowCookies = True\<rparr>"

definition removeCredentials :: "request \<Rightarrow> request" where
  "removeCredentials r = r\<lparr>r_url := setPass (setUser (r_url r) []) []\<rparr>"

text \<open>A response, as far as the checks read it.\<close>

record response =
  p_url :: KURL
  p_status :: int
  p_statusText :: "wtf_string option"
  p_mimeType :: wtf_string
  p_textEncodingName :: wtf_string
  p_expectedContentLength :: int
  p_headers :: headers

text \<open>The response that no network has filled in.\<close>

definition nullResponse :: response where
  "nullResponse =
     \<lparr>p_url = nullURL, p_status = 0, p_statusText = None, p_mimeType = [], p_textEncodingName = [], p_expectedContentLength = 0,
      p_headers = []\<rparr>"

definition isMultipart :: "response \<Rightarrow> bool" where
  "isMultipart r = (p_mimeType r = ustr ''multipart/x-mixed-replace'')"

definition isHTTP :: "environment \<Rightarrow> response \<Rightarrow> bool" where
  "isHTTP env r = (same env (protocol (p_url r)) (ustr ''http'') \<or> same env (protocol (p_url r)) (ustr ''https''))"

subsection \<open>Simple requests\<close>

definition isOnAccessControlSimpleRequestMethodWhitelist :: "wtf_string \<Rightarrow> bool" where
  "isOnAccessControlSimpleRequestMethodWhitelist method = (method = ustr ''GET'' \<or> method = ustr ''HEAD'' \<or> method = ustr ''POST'')"

definition isOnAccessControlSimpleRequestHeaderWhitelist :: "environment \<Rightarrow> wtf_string \<Rightarrow> wtf_string \<Rightarrow> bool" where
  "isOnAccessControlSimpleRequestHeaderWhitelist env name value =
     (if same env name (ustr ''accept'') \<or> same env name (ustr ''accept-language'') \<or> same env name (ustr ''content-language'') then True
      else if same env name (ustr ''content-type'')
      then let mimeType = extractMIMETypeFromMediaType (spaceU env) value
           in same env mimeType (ustr ''application/x-www-form-urlencoded'') \<or> same env mimeType (ustr ''multipart/form-data'') \<or>
              same env mimeType (ustr ''text/plain'')
      else False)"

definition isSimpleCrossOriginAccessRequest :: "environment \<Rightarrow> wtf_string \<Rightarrow> headers \<Rightarrow> bool" where
  "isSimpleCrossOriginAccessRequest env method headerMap =
     (if \<not> isOnAccessControlSimpleRequestMethodWhitelist method then False
      else list_all (\<lambda>(n, v). isOnAccessControlSimpleRequestHeaderWhitelist env n v) headerMap)"

definition allowedCrossOriginResponseHeaders :: "wtf_string list" where
  "allowedCrossOriginResponseHeaders =
     [ustr ''cache-control'', ustr ''content-language'', ustr ''content-type'', ustr ''expires'', ustr ''last-modified'', ustr ''pragma'']"

definition isOnAccessControlResponseHeaderWhitelist :: "environment \<Rightarrow> wtf_string \<Rightarrow> bool" where
  "isOnAccessControlResponseHeaderWhitelist env name = containsScheme env allowedCrossOriginResponseHeaders name"

subsection \<open>The check of a response\<close>

definition passesAccessControlCheck :: "environment \<Rightarrow> securityState \<Rightarrow> response \<Rightarrow> bool \<Rightarrow> SecurityOrigin \<Rightarrow> bool" where
  "passesAccessControlCheck env st response includeCredentials securityOrigin =
     (let accessControlOriginString = headerField env (ustr ''Access-Control-Allow-Origin'') (p_headers response)
      in if accessControlOriginString = ustr ''*'' \<and> \<not> includeCredentials then True
         else if m_isUnique securityOrigin then False
         else let accessControlOrigin = createFromString env st accessControlOriginString
              in if \<not> isSameSchemeHostPort env st accessControlOrigin securityOrigin then False
                 else if includeCredentials \<and> headerField env (ustr ''Access-Control-Allow-Credentials'') (p_headers response) \<noteq> ustr ''true''
                 then False else True)"

subsection \<open>The lists of a preflight response\<close>

text \<open>
  addToAccessControlAllowList on the range from \<open>start\<close> to \<open>stop\<close>, both inside. The set
  is a list; \<open>eq\<close> is its comparison.
\<close>

definition addToSet :: "(wtf_string \<Rightarrow> wtf_string \<Rightarrow> bool) \<Rightarrow> wtf_string \<Rightarrow> wtf_string list \<Rightarrow> wtf_string list" where
  "addToSet eq s l = (if list_ex (\<lambda>t. eq t s) l then l else l @ [s])"

fun skipBack :: "(uchar \<Rightarrow> bool) \<Rightarrow> wtf_string \<Rightarrow> nat \<Rightarrow> nat" where
  "skipBack P s 0 = 0"
| "skipBack P s (Suc i) = (if P (charAt s (Suc i)) then skipBack P s i else Suc i)"

definition addToAccessControlAllowList ::
    "(uchar \<Rightarrow> bool) \<Rightarrow> (wtf_string \<Rightarrow> wtf_string \<Rightarrow> bool) \<Rightarrow> wtf_string \<Rightarrow> nat \<Rightarrow> nat \<Rightarrow> wtf_string list \<Rightarrow> wtf_string list" where
  "addToAccessControlAllowList ws eq s start stop l =
     (let start = start + length (takeWhile (isSpaceOrNewline ws) (take (stop + 1 - start) (drop start s)))
      in if stop < start then l
         else let stop = skipBack (isSpaceOrNewline ws) s stop
              in addToSet eq (substring s start (Some (stop - start + 1))) l)"

text \<open>The lists of the loop; \<open>None\<close> is the result false.\<close>

function allowListFrom ::
    "(uchar \<Rightarrow> bool) \<Rightarrow> (wtf_string \<Rightarrow> wtf_string \<Rightarrow> bool) \<Rightarrow> wtf_string \<Rightarrow> nat \<Rightarrow> wtf_string list \<Rightarrow> wtf_string list option" where
  "allowListFrom ws eq s start l =
     (let stop = findChar s 0x2C (int start)
      in if stop \<noteq> -1
         then if int start = stop then None
              else allowListFrom ws eq s (nat stop + 1) (addToAccessControlAllowList ws eq s start (nat stop - 1) l)
         else if start \<noteq> length s then Some (addToAccessControlAllowList ws eq s start (length s - 1) l)
         else Some l)"
  by pat_completeness auto
termination
proof (relation "measure (\<lambda>(_, _, s, p, _). length s - p)", goal_cases)
  case (2 ws eq s start l stop)
  then show ?case using findMatch_range [of s "\<lambda>d. d = 0x2C" "int start"] by (auto simp: findChar_def)
qed simp

declare allowListFrom.simps [simp del]

definition parseAccessControlAllowList ::
    "(uchar \<Rightarrow> bool) \<Rightarrow> (wtf_string \<Rightarrow> wtf_string \<Rightarrow> bool) \<Rightarrow> wtf_string \<Rightarrow> wtf_string list option" where
  "parseAccessControlAllowList ws eq s = allowListFrom ws eq s 0 []"

subsection \<open>Preflight results\<close>

definition defaultPreflightCacheTimeoutSeconds :: int where "defaultPreflightCacheTimeoutSeconds = 5"
definition maxPreflightCacheTimeoutSeconds :: int where "maxPreflightCacheTimeoutSeconds = 600"

definition parseAccessControlMaxAge :: "environment \<Rightarrow> wtf_string \<Rightarrow> int option" where
  "parseAccessControlMaxAge env s = charactersToUIntStrict (spaceU env) 10 s"

record preflightItem =
  m_absoluteExpiryTime :: real
  m_credentials :: bool
  m_methods :: "wtf_string list"
  m_headers :: "wtf_string list"

definition newPreflightItem :: "bool \<Rightarrow> preflightItem" where
  "newPreflightItem credentials = \<lparr>m_absoluteExpiryTime = 0, m_credentials = credentials, m_methods = [], m_headers = []\<rparr>"

definition preflightTimeout :: "environment \<Rightarrow> wtf_string \<Rightarrow> int" where
  "preflightTimeout env s =
     (case parseAccessControlMaxAge env s of
        Some expiryDelta \<Rightarrow> if maxPreflightCacheTimeoutSeconds < expiryDelta then maxPreflightCacheTimeoutSeconds else expiryDelta
      | None \<Rightarrow> defaultPreflightCacheTimeoutSeconds)"

text \<open>CrossOriginPreflightResultCacheItem::parse; \<open>None\<close> is the result false.\<close>

definition parseItem :: "environment \<Rightarrow> real \<Rightarrow> response \<Rightarrow> preflightItem \<Rightarrow> preflightItem option" where
  "parseItem env currentTime response item =
     (case parseAccessControlAllowList (spaceU env) (=) (headerField env (ustr ''Access-Control-Allow-Methods'') (p_headers response)) of
        None \<Rightarrow> None
      | Some methods \<Rightarrow>
          (case parseAccessControlAllowList (spaceU env) (same env) (headerField env (ustr ''Access-Control-Allow-Headers'') (p_headers response)) of
             None \<Rightarrow> None
           | Some headers \<Rightarrow>
               Some (item\<lparr>m_methods := methods, m_headers := headers,
                          m_absoluteExpiryTime := currentTime +
                            of_int (preflightTimeout env (headerField env (ustr ''Access-Control-Max-Age'') (p_headers response)))\<rparr>)))"

definition allowsCrossOriginMethod :: "wtf_string \<Rightarrow> preflightItem \<Rightarrow> bool" where
  "allowsCrossOriginMethod method item = (method \<in> set (m_methods item) \<or> isOnAccessControlSimpleRequestMethodWhitelist method)"

definition allowsCrossOriginHeaders :: "environment \<Rightarrow> headers \<Rightarrow> preflightItem \<Rightarrow> bool" where
  "allowsCrossOriginHeaders env requestHeaders item =
     list_all (\<lambda>(n, v). containsScheme env (m_headers item) n \<or> isOnAccessControlSimpleRequestHeaderWhitelist env n v) requestHeaders"

definition allowsRequest :: "environment \<Rightarrow> real \<Rightarrow> bool \<Rightarrow> wtf_string \<Rightarrow> headers \<Rightarrow> preflightItem \<Rightarrow> bool" where
  "allowsRequest env currentTime includeCredentials method requestHeaders item =
     (if m_absoluteExpiryTime item < currentTime then False
      else if includeCredentials \<and> \<not> m_credentials item then False
      else if \<not> allowsCrossOriginMethod method item then False
      else if \<not> allowsCrossOriginHeaders env requestHeaders item then False
      else True)"

subsection \<open>The cache\<close>

text \<open>The keys of the map: KURLHash compares the strings of the URLs.\<close>

type_synonym preflightCache = "wtf_string \<times> wtf_string \<rightharpoonup> preflightItem"

definition appendEntry :: "wtf_string \<Rightarrow> KURL \<Rightarrow> preflightItem \<Rightarrow> preflightCache \<Rightarrow> preflightCache" where
  "appendEntry origin url preflightResult cache = cache((origin, m_string url) \<mapsto> preflightResult)"

definition canSkipPreflight ::
    "environment \<Rightarrow> real \<Rightarrow> wtf_string \<Rightarrow> KURL \<Rightarrow> bool \<Rightarrow> wtf_string \<Rightarrow> headers \<Rightarrow> preflightCache \<Rightarrow> bool \<times> preflightCache" where
  "canSkipPreflight env currentTime origin url includeCredentials method requestHeaders cache =
     (case cache (origin, m_string url) of
        None \<Rightarrow> (False, cache)
      | Some item \<Rightarrow>
          if allowsRequest env currentTime includeCredentials method requestHeaders item then (True, cache)
          else (False, cache((origin, m_string url) := None)))"

definition emptyCache :: "preflightCache \<Rightarrow> preflightCache" where
  "emptyCache cache = Map.empty"

end
