(* ===== verification/ThreadableLoader.thy ===== *)
theory ThreadableLoader
  imports CrossOrigin ApolloClient
begin

section \<open>Loading for a document (WebCore/loader/DocumentThreadableLoader.cpp, SubresourceLoader.cpp)\<close>

text \<open>
  One loader with its SubresourceLoader and its client. Each handler takes the
  surroundings in which it runs and the session, and returns the session; \<open>None\<close> is a call
  through a null pointer or a cancellation inside a cancellation, which in the code recurses
  and then uses a null pointer. The client is a record of functions: \<open>react\<close> gives its state
  at the point where it calls cancel, and whether it does; \<open>resume\<close> is what it does when
  cancel has returned. The network is the sequence of events that the handlers receive. The
  log, newest entry first, is not part of the code; under the number of the loader it
  records what was sent and what the client was told. That number \<open>l_id\<close> and the text \<open>l_origin\<close> of the
  origin of the document at the start serve the log only; the counter
  \<open>l_count\<close> gives loaders and subresource loaders their numbers.
\<close>

subsection \<open>Data\<close>

datatype crossOriginRequestPolicy = DenyCrossOriginRequests | UseAccessControl | AllowCrossOriginRequests

record ThreadableLoaderOptions =
  o_sendLoadCallbacks :: bool
  o_sniffContent :: bool
  o_allowCredentials :: bool
  o_forcePreflight :: bool
  o_crossOriginRequestPolicy :: crossOriginRequestPolicy

datatype securityCheckPolicy = SkipSecurityCheck | DoSecurityCheck

datatype allowXHR = AllowXHRAlways | AllowXHRNever | AllowXHRDefault

text \<open>A ResourceError: the null error, a cancellation, or another error.\<close>

datatype resourceError = NoError | Cancellation | OtherError

text \<open>What FrameLoader::loadResourceSynchronously hands back.\<close>

record syncResult =
  y_error :: resourceError
  y_response :: response
  y_data :: "byte list"
  y_identifier :: nat

text \<open>
  The frame of the document: the state of its FrameLoader, what its client answers
  (about cross-domain requests, restrictions of the application and requests about to be
  sent), and what the platform loads synchronously.
\<close>

record frameState =
  f_provisional :: bool
  f_activeDocumentLoader :: bool
  f_stopping :: bool
  f_outgoingReferrer :: wtf_string
  f_allowXHR :: "KURL \<Rightarrow> allowXHR"
  f_hasApplicationRestrictions :: bool
  f_admits :: "request \<Rightarrow> bool"
  f_sync :: "request \<Rightarrow> syncResult"

record surroundings =
  x_env :: environment
  x_security :: securityState
  x_origin :: SecurityOrigin
  x_documentURL :: KURL
  x_frame :: "frameState option"
  x_clock :: real

datatype callback =
    DidSendData int int
  | DidReceiveResponse response
  | DidReceiveData "byte list"
  | DidFinishLoading nat
  | DidFail resourceError
  | DidFailRedirectCheck
  | DidReceiveAuthenticationCancellation response

record 'c client =
  react :: "callback \<Rightarrow> 'c \<Rightarrow> 'c \<times> bool"
  resume :: "'c \<Rightarrow> 'c"

record subloader =
  s_id :: nat
  s_request :: request
  s_sendLoadCallbacks :: bool
  s_sniffContent :: bool
  s_loadingMultipartContent :: bool
  s_resourceData :: "byte list"
  s_identifier :: nat
  s_responded :: bool
  s_connected :: bool
  s_reachedTerminalState :: bool

datatype entry =
    Sent nat surroundings ThreadableLoaderOptions request
  | Granted nat surroundings ThreadableLoaderOptions request response
  | Redirected nat surroundings ThreadableLoaderOptions KURL
  | Told nat surroundings ThreadableLoaderOptions callback

record 'c session =
  m_loader :: "subloader option"
  m_clientSet :: bool
  m_options :: ThreadableLoaderOptions
  m_sameOriginRequest :: bool
  m_async :: bool
  m_actualRequest :: "request option"
  l_client :: 'c
  l_cache :: preflightCache
  l_log :: "entry list"
  l_count :: nat
  l_id :: nat
  l_origin :: wtf_string

subsection \<open>What the document may request\<close>

definition canRequestExt :: "surroundings \<Rightarrow> KURL \<Rightarrow> bool" where
  "canRequestExt x url =
     (case x_frame x of
        None \<Rightarrow> False
      | Some f \<Rightarrow>
          (case f_allowXHR f url of
             AllowXHRAlways \<Rightarrow> True
           | AllowXHRNever \<Rightarrow> False
           | AllowXHRDefault \<Rightarrow> canRequest (x_env x) (x_security x) (x_origin x) url))"

definition mayRequest :: "surroundings \<Rightarrow> KURL \<Rightarrow> bool" where
  "mayRequest x url =
     (if apollo (x_env x) then canRequestExt x url else canRequest (x_env x) (x_security x) (x_origin x) url)"

definition mayLoad :: "surroundings \<Rightarrow> KURL \<Rightarrow> bool" where
  "mayLoad x url =
     (if apollo (x_env x)
      then apolloCanLoad (x_env x) (case x_frame x of Some f \<Rightarrow> f_hasApplicationRestrictions f | None \<Rightarrow> False) (x_documentURL x) url
      else canLoad (x_env x) (x_security x) url [] (Some (x_origin x)))"

definition isAllowedRedirect :: "surroundings \<Rightarrow> KURL \<Rightarrow> 'c session \<Rightarrow> bool" where
  "isAllowedRedirect x url s =
     (if o_crossOriginRequestPolicy (m_options s) = AllowCrossOriginRequests then True
      else m_sameOriginRequest s \<and> mayRequest x url)"

subsection \<open>Calls to the client\<close>

definition logged :: "entry \<Rightarrow> 'c session \<Rightarrow> 'c session" where
  "logged e s = s\<lparr>l_log := e # l_log s\<rparr>"

definition toldEntry :: "surroundings \<Rightarrow> callback \<Rightarrow> 'c session \<Rightarrow> entry" where
  "toldEntry x cb s = Told (l_id s) x (m_options s) cb"

text \<open>The call that a cancellation makes; the client must not cancel again.\<close>

definition tellInsideCancel :: "'c client \<Rightarrow> surroundings \<Rightarrow> callback \<Rightarrow> 'c session \<Rightarrow> 'c session option" where
  "tellInsideCancel client x cb s =
     (if \<not> m_clientSet s then None
      else let (c, again) = react client cb (l_client s)
           in if again then None else Some (logged (toldEntry x cb s) (s\<lparr>l_client := c\<rparr>)))"

definition cancel :: "'c client \<Rightarrow> surroundings \<Rightarrow> 'c session \<Rightarrow> 'c session option" where
  "cancel client x s =
     (case m_loader s of
        None \<Rightarrow> Some s
      | Some l \<Rightarrow>
          do {
            s \<leftarrow> (if s_reachedTerminalState l then Some s else tellInsideCancel client x (DidFail Cancellation) s);
            Some (s\<lparr>m_loader := None, m_clientSet := False\<rparr>)
          })"

definition tell :: "'c client \<Rightarrow> surroundings \<Rightarrow> callback \<Rightarrow> 'c session \<Rightarrow> 'c session option" where
  "tell client x cb s =
     (if \<not> m_clientSet s then None
      else let (c, cancels) = react client cb (l_client s);
               s = logged (toldEntry x cb s) (s\<lparr>l_client := c\<rparr>)
           in if cancels
              then do { s \<leftarrow> cancel client x s; Some (s\<lparr>l_client := resume client (l_client s)\<rparr>) }
              else Some s)"

subsection \<open>Sending a request\<close>

definition addHTTPOriginIfNeeded :: "environment \<Rightarrow> request \<Rightarrow> wtf_string \<Rightarrow> request" where
  "addHTTPOriginIfNeeded env r outgoing =
     (if headerField env (ustr ''Origin'') (r_headers r) \<noteq> [] then r
      else if r_method r = ustr ''GET'' \<or> r_method r = ustr ''HEAD'' then r
      else r\<lparr>r_headers := setHeader env (ustr ''Origin'') (if outgoing = [] then ustr ''null'' else outgoing) (r_headers r)\<rparr>)"

definition outgoingRequest :: "surroundings \<Rightarrow> frameState \<Rightarrow> request \<Rightarrow> request" where
  "outgoingRequest x f r =
     (let r = (if shouldHideReferrer (r_url r) (f_outgoingReferrer f) then r\<lparr>r_headers := removeHeader (x_env x) (ustr ''Referer'') (r_headers r)\<rparr>
               else if findHeader (x_env x) (ustr ''Referer'') (r_headers r) = None
               then r\<lparr>r_headers := setHeader (x_env x) (ustr ''Referer'') (f_outgoingReferrer f) (r_headers r)\<rparr>
               else r)
      in addHTTPOriginIfNeeded (x_env x) r (toString (x_origin x)))"

definition newSubloader :: "nat \<Rightarrow> request \<Rightarrow> bool \<Rightarrow> bool \<Rightarrow> subloader" where
  "newSubloader n r sendLoadCallbacks sniffContent =
     \<lparr>s_id = n, s_request = r, s_sendLoadCallbacks = sendLoadCallbacks, s_sniffContent = sniffContent,
      s_loadingMultipartContent = False, s_resourceData = [], s_identifier = (if sendLoadCallbacks then Suc n else 0),
      s_responded = False, s_connected = True, s_reachedTerminalState = False\<rparr>"

definition createSubloader ::
    "'c client \<Rightarrow> surroundings \<Rightarrow> request \<Rightarrow> securityCheckPolicy \<Rightarrow> bool \<Rightarrow> bool \<Rightarrow> 'c session \<Rightarrow> (subloader option \<times> 'c session) option" where
  "createSubloader client x r securityCheck sendLoadCallbacks sniffContent s =
     (case x_frame x of
        None \<Rightarrow> Some (None, s)
      | Some f \<Rightarrow>
          if securityCheck = DoSecurityCheck \<and> (f_provisional f \<or> \<not> f_activeDocumentLoader f \<or> f_stopping f) then Some (None, s)
          else if securityCheck = DoSecurityCheck \<and> restrictAccessToLocal (x_security x) \<and> \<not> mayLoad x (r_url r) then Some (None, s)
          else let r' = outgoingRequest x f r
               in if f_admits f r'
                  then Some (Some (newSubloader (l_count s) r' sendLoadCallbacks sniffContent),
                             logged (Sent (l_id s) x (m_options s) r) (s\<lparr>l_count := Suc (l_count s)\<rparr>))
                  else do { s \<leftarrow> tell client x (DidFail Cancellation) s; Some (None, s) })"

definition loadAsynchronously :: "'c client \<Rightarrow> surroundings \<Rightarrow> request \<Rightarrow> securityCheckPolicy \<Rightarrow> 'c session \<Rightarrow> 'c session option" where
  "loadAsynchronously client x r securityCheck s =
     (let sendLoadCallbacks = (o_sendLoadCallbacks (m_options s) \<and> m_actualRequest s = None);
          sniffContent = (o_sniffContent (m_options s) \<and> m_actualRequest s = None)
      in do {
        (l, s) \<leftarrow> createSubloader client x r securityCheck sendLoadCallbacks sniffContent (s\<lparr>m_loader := None\<rparr>);
        Some (s\<lparr>m_loader := l\<rparr>)
      })"

subsection \<open>Preflight and response\<close>

definition preflightFailure :: "'c client \<Rightarrow> surroundings \<Rightarrow> 'c session \<Rightarrow> 'c session option" where
  "preflightFailure client x s = tell client x (DidFail NoError) (s\<lparr>m_actualRequest := None\<rparr>)"

definition didReceiveResponse :: "'c client \<Rightarrow> surroundings \<Rightarrow> response \<Rightarrow> 'c session \<Rightarrow> 'c session option" where
  "didReceiveResponse client x response s =
     (let creds = o_allowCredentials (m_options s);
          passes = passesAccessControlCheck (x_env x) (x_security x) response creds (x_origin x)
      in case m_actualRequest s of
           Some a \<Rightarrow>
             if \<not> passes then preflightFailure client x s
             else (case parseItem (x_env x) (x_clock x) response (newPreflightItem creds) of
                     None \<Rightarrow> preflightFailure client x s
                   | Some item \<Rightarrow>
                       if \<not> allowsCrossOriginMethod (r_method a) item \<or> \<not> allowsCrossOriginHeaders (x_env x) (r_headers a) item
                       then preflightFailure client x s
                       else Some (logged (Granted (l_id s) x (m_options s) a response)
                              (s\<lparr>l_cache := appendEntry (toString (x_origin x)) (r_url a) item (l_cache s)\<rparr>)))
         | None \<Rightarrow>
             if \<not> m_sameOriginRequest s \<and> o_crossOriginRequestPolicy (m_options s) = UseAccessControl \<and> \<not> passes
             then tell client x (DidFail NoError) s
             else tell client x (DidReceiveResponse response) s)"

definition didReceiveData :: "'c client \<Rightarrow> surroundings \<Rightarrow> byte list \<Rightarrow> 'c session \<Rightarrow> 'c session option" where
  "didReceiveData client x d s =
     (if m_actualRequest s \<noteq> None then Some s else tell client x (DidReceiveData d) s)"

text \<open>
  A synchronous load runs the handlers one after the other. \<open>k\<close> is what the end of the
  load does: the load of the actual request, which is the last one, tells the client.
\<close>

definition loadSynchronously ::
    "'c client \<Rightarrow> surroundings \<Rightarrow> request \<Rightarrow> (nat \<Rightarrow> 'c session \<Rightarrow> 'c session option) \<Rightarrow> 'c session \<Rightarrow> 'c session option" where
  "loadSynchronously client x r k s =
     (let y = (case x_frame x of
                 None \<Rightarrow> \<lparr>y_error = NoError, y_response = nullResponse, y_data = [], y_identifier = 2 ^ 32 - 1\<rparr>
               | Some f \<Rightarrow> f_sync f (let r = (if shouldHideReferrer (r_url r) (f_outgoingReferrer f) \<or> f_outgoingReferrer f = [] then r
                                                else r\<lparr>r_headers := setHeader (x_env x) (ustr ''Referer'') (f_outgoingReferrer f) (r_headers r)\<rparr>)
                                       in addHTTPOriginIfNeeded (x_env x) r (toString (x_origin x))));
          s = (if x_frame x = None then s else logged (Sent (l_id s) x (m_options s) r) s)
      in if y_error y \<noteq> NoError \<and> \<not> isLocalFile (r_url r) \<and> p_status (y_response y) \<le> 0
         then tell client x (DidFail (y_error y)) s
         else if m_string (r_url r) \<noteq> m_string (p_url (y_response y)) \<and> \<not> isAllowedRedirect x (p_url (y_response y)) s
         then tell client x DidFailRedirectCheck s
         else do {
           s \<leftarrow> didReceiveResponse client x (y_response y) s;
           s \<leftarrow> didReceiveData client x (y_data y) s;
           k (y_identifier y) s
         })"

definition loadActualRequest :: "'c client \<Rightarrow> surroundings \<Rightarrow> request \<Rightarrow> securityCheckPolicy \<Rightarrow> 'c session \<Rightarrow> 'c session option" where
  "loadActualRequest client x r securityCheck s =
     (if m_async s then loadAsynchronously client x r securityCheck s
      else loadSynchronously client x r (\<lambda>n. tell client x (DidFinishLoading n)) s)"

definition preflightSuccess :: "'c client \<Rightarrow> surroundings \<Rightarrow> request \<Rightarrow> 'c session \<Rightarrow> 'c session option" where
  "preflightSuccess client x actualRequest s =
     loadActualRequest client x actualRequest SkipSecurityCheck (s\<lparr>m_actualRequest := None\<rparr>)"

definition didFinishLoading :: "'c client \<Rightarrow> surroundings \<Rightarrow> nat \<Rightarrow> 'c session \<Rightarrow> 'c session option" where
  "didFinishLoading client x identifier s =
     (case m_actualRequest s of
        Some a \<Rightarrow> preflightSuccess client x a s
      | None \<Rightarrow> tell client x (DidFinishLoading identifier) s)"

definition loadRequest :: "'c client \<Rightarrow> surroundings \<Rightarrow> request \<Rightarrow> securityCheckPolicy \<Rightarrow> 'c session \<Rightarrow> 'c session option" where
  "loadRequest client x r securityCheck s =
     (if m_async s then loadAsynchronously client x r securityCheck s
      else loadSynchronously client x r (didFinishLoading client x) s)"

subsection \<open>The constructor\<close>

definition setHTTPOrigin :: "surroundings \<Rightarrow> request \<Rightarrow> request" where
  "setHTTPOrigin x r = r\<lparr>r_headers := setHeader (x_env x) (ustr ''Origin'') (toString (x_origin x)) (r_headers r)\<rparr>"

definition makeSimpleCrossOriginAccessRequest :: "'c client \<Rightarrow> surroundings \<Rightarrow> request \<Rightarrow> 'c session \<Rightarrow> 'c session option" where
  "makeSimpleCrossOriginAccessRequest client x r s =
     (if \<not> m_protocolInHTTPFamily (r_url r) then tell client x (DidFail NoError) s
      else loadRequest client x (setHTTPOrigin x r) DoSecurityCheck s)"

fun headerNames :: "headers \<Rightarrow> wtf_string" where
  "headerNames [] = []"
| "headerNames [(n, v)] = n"
| "headerNames ((n, v) # h # hs) = n @ [0x2C, 0x20] @ headerNames (h # hs)"

definition preflightRequest :: "surroundings \<Rightarrow> bool \<Rightarrow> request \<Rightarrow> request" where
  "preflightRequest x creds r =
     (let p = setHTTPOrigin x (removeCredentials (newRequest (r_url r)));
          hs = setHeader (x_env x) (ustr ''Access-Control-Request-Method'') (r_method r) (r_headers p);
          hs = (if r_headers r \<noteq> []
                then setHeader (x_env x) (ustr ''Access-Control-Request-Headers'') (headerNames (r_headers r)) hs else hs)
      in p\<lparr>r_allowCookies := creds, r_method := ustr ''OPTIONS'', r_headers := hs\<rparr>)"

definition makeCrossOriginAccessRequestWithPreflight :: "'c client \<Rightarrow> surroundings \<Rightarrow> request \<Rightarrow> 'c session \<Rightarrow> 'c session option" where
  "makeCrossOriginAccessRequestWithPreflight client x r s =
     loadRequest client x (preflightRequest x (o_allowCredentials (m_options s)) r) DoSecurityCheck s"

definition newSession :: "surroundings \<Rightarrow> ThreadableLoaderOptions \<Rightarrow> bool \<Rightarrow> KURL \<Rightarrow> 'c \<Rightarrow> preflightCache \<Rightarrow> entry list \<Rightarrow> nat \<Rightarrow> 'c session" where
  "newSession x options async url c cache entries n =
     \<lparr>m_loader = None, m_clientSet = True, m_options = options, m_sameOriginRequest = mayRequest x url, m_async = async,
      m_actualRequest = None, l_client = c, l_cache = cache, l_log = entries, l_count = Suc n,
      l_id = n, l_origin = toString (x_origin x)\<rparr>"

definition construct ::
    "'c client \<Rightarrow> surroundings \<Rightarrow> ThreadableLoaderOptions \<Rightarrow> bool \<Rightarrow> request \<Rightarrow> 'c \<Rightarrow> preflightCache \<Rightarrow> entry list \<Rightarrow> nat \<Rightarrow> 'c session option" where
  "construct client x options async r c cache entries n =
     (let s = newSession x options async (r_url r) c cache entries n
      in if m_sameOriginRequest s \<or> o_crossOriginRequestPolicy options = AllowCrossOriginRequests
         then loadRequest client x r DoSecurityCheck s
         else if o_crossOriginRequestPolicy options = DenyCrossOriginRequests then tell client x (DidFail NoError) s
         else let r = (removeCredentials r)\<lparr>r_allowCookies := o_allowCredentials options\<rparr>
              in if \<not> o_forcePreflight options \<and> isSimpleCrossOriginAccessRequest (x_env x) (r_method r) (r_headers r)
                 then makeSimpleCrossOriginAccessRequest client x r s
                 else let (skip, cache) = canSkipPreflight (x_env x) (x_clock x) (toString (x_origin x)) (r_url r)
                            (o_allowCredentials options) (r_method r) (r_headers r) (l_cache s);
                          s = s\<lparr>m_actualRequest := Some r, l_cache := cache\<rparr>
                      in if skip then preflightSuccess client x r s
                         else makeCrossOriginAccessRequestWithPreflight client x r s)"

text \<open>ThreadableLoader::create gives the client a loader only when it has a connection.\<close>

definition created :: "'c session \<Rightarrow> bool" where
  "created s = (m_loader s \<noteq> None)"

subsection \<open>Events of the network\<close>

text \<open>
  What the platform reports to a SubresourceLoader. \<open>StopLoading\<close> is the document
  loader that cancels its subresource loaders.
\<close>

datatype event =
    WillSendRequest KURL
  | SentData int int
  | Response response
  | Data "byte list"
  | Finish
  | Fail resourceError
  | Challenge
  | ChallengeCancelled response
  | StopLoading

text \<open>A change of the loader \<open>n\<close>, if it is still the one of the session.\<close>

definition changeLoader :: "nat \<Rightarrow> (subloader \<Rightarrow> subloader) \<Rightarrow> 'c session \<Rightarrow> 'c session" where
  "changeLoader n f s =
     (case m_loader s of Some l \<Rightarrow> if s_id l = n then s\<lparr>m_loader := Some (f l)\<rparr> else s | None \<Rightarrow> s)"

definition reachTerminalState :: "nat \<Rightarrow> 'c session \<Rightarrow> 'c session" where
  "reachTerminalState n s = changeLoader n (\<lambda>l. l\<lparr>s_connected := False, s_reachedTerminalState := True, s_resourceData := []\<rparr>) s"

text \<open>A null request makes the platform drop the connection.\<close>

definition willSendRequest :: "'c client \<Rightarrow> surroundings \<Rightarrow> subloader \<Rightarrow> KURL \<Rightarrow> 'c session \<Rightarrow> 'c session option" where
  "willSendRequest client x l url s =
     (let s = changeLoader (s_id l) (\<lambda>l. l\<lparr>s_request := (s_request l)\<lparr>r_url := url\<rparr>\<rparr>) s
      in if m_string (r_url (s_request l)) = m_string url then Some s
         else if isAllowedRedirect x url s then Some (logged (Redirected (l_id s) x (m_options s) url) s)
         else do {
           s \<leftarrow> tell client x DidFailRedirectCheck s;
           Some (changeLoader (s_id l) (\<lambda>l. l\<lparr>s_connected := False\<rparr>) s)
         })"

definition responseEvent :: "'c client \<Rightarrow> surroundings \<Rightarrow> subloader \<Rightarrow> response \<Rightarrow> 'c session \<Rightarrow> 'c session option" where
  "responseEvent client x l r s =
     do {
       s \<leftarrow> didReceiveResponse client x r
         (changeLoader (s_id l) (\<lambda>l. l\<lparr>s_loadingMultipartContent := s_loadingMultipartContent l \<or> isMultipart r, s_responded := True\<rparr>) s);
       (case m_loader s of
          None \<Rightarrow> Some s
        | Some l \<Rightarrow>
            if s_loadingMultipartContent l \<and> s_resourceData l \<noteq> []
            then do {
              s \<leftarrow> didReceiveData client x (s_resourceData l) s;
              Some (changeLoader (s_id l) (\<lambda>l. l\<lparr>s_resourceData := []\<rparr>) s)
            }
            else Some s)
     }"

definition dataEvent :: "'c client \<Rightarrow> surroundings \<Rightarrow> subloader \<Rightarrow> byte list \<Rightarrow> 'c session \<Rightarrow> 'c session option" where
  "dataEvent client x l d s =
     (let s = changeLoader (s_id l) (\<lambda>l. l\<lparr>s_resourceData := s_resourceData l @ d\<rparr>) s
      in if s_loadingMultipartContent l then Some s else didReceiveData client x d s)"

definition challengeEvent :: "'c client \<Rightarrow> surroundings \<Rightarrow> 'c session \<Rightarrow> 'c session option" where
  "challengeEvent client x s =
     (if \<not> m_sameOriginRequest s
      then do { s \<leftarrow> tell client x (DidFail OtherError) s; cancel client x s }
      else Some s)"

text \<open>ResourceLoader::cancel on the loader that the event is for.\<close>

definition cancelLoader :: "'c client \<Rightarrow> surroundings \<Rightarrow> subloader \<Rightarrow> 'c session \<Rightarrow> 'c session option" where
  "cancelLoader client x l s =
     (if m_loader s = None then Some s
      else do { s \<leftarrow> tell client x (DidFail Cancellation) s; Some (reachTerminalState (s_id l) s) })"

definition handle :: "'c client \<Rightarrow> surroundings \<Rightarrow> event \<Rightarrow> 'c session \<Rightarrow> 'c session option" where
  "handle client x ev s =
     (case m_loader s of
        None \<Rightarrow> Some s
      | Some l \<Rightarrow>
          if ev = StopLoading \<and> \<not> s_reachedTerminalState l then cancelLoader client x l s
          else if \<not> s_connected l then Some s
          else (case ev of
                  WillSendRequest url \<Rightarrow> willSendRequest client x l url s
                | SentData a b \<Rightarrow> tell client x (DidSendData a b) s
                | Response r \<Rightarrow> responseEvent client x l r s
                | Data d \<Rightarrow> dataEvent client x l d s
                | Finish \<Rightarrow> do { s \<leftarrow> didFinishLoading client x (s_identifier l) s; Some (reachTerminalState (s_id l) s) }
                | Fail e \<Rightarrow> do { s \<leftarrow> tell client x (DidFail e) s; Some (reachTerminalState (s_id l) s) }
                | Challenge \<Rightarrow> challengeEvent client x s
                | ChallengeCancelled r \<Rightarrow>
                    do { s \<leftarrow> tell client x (DidReceiveAuthenticationCancellation r) s; cancelLoader client x l s }
                | StopLoading \<Rightarrow> Some s))"

definition getShouldUseCredentialStorage :: "'c session \<Rightarrow> bool option" where
  "getShouldUseCredentialStorage s = (if \<not> o_allowCredentials (m_options s) then Some False else None)"

end
