(* ===== verification/LoaderSafety.thy ===== *)
theory LoaderSafety
  imports ThreadableLoader
begin

section \<open>What loaders send and hand out\<close>

text \<open>
  Any number of loaders share the cache of preflight results. The invariant is over their
  common log: every request that leaves for a URL that its document may not request is simple,
  a preflight, or permitted by a preflight response that is in the log; every response
  that reaches a client passes the access check or is for a URL that the document may
  request; no body reaches a client that was told of neither a response nor a failure before.
\<close>

subsection \<open>Entries that are in order\<close>

definition passes :: "surroundings \<Rightarrow> ThreadableLoaderOptions \<Rightarrow> response \<Rightarrow> bool" where
  "passes x o' r = passesAccessControlCheck (x_env x) (x_security x) r (o_allowCredentials o') (x_origin x)"

definition itemOf :: "surroundings \<Rightarrow> ThreadableLoaderOptions \<Rightarrow> response \<Rightarrow> preflightItem option" where
  "itemOf x o' r = parseItem (x_env x) (x_clock x) r (newPreflightItem (o_allowCredentials o'))"

definition allowed :: "environment \<Rightarrow> request \<Rightarrow> preflightItem \<Rightarrow> bool" where
  "allowed env r item \<longleftrightarrow> allowsCrossOriginMethod (r_method r) item \<and> allowsCrossOriginHeaders env (r_headers r) item"

text \<open>A request that needs no permission: its fields before the origin was added are simple.\<close>

definition simpleRequest :: "surroundings \<Rightarrow> request \<Rightarrow> bool" where
  "simpleRequest x r \<longleftrightarrow>
     (\<exists>r0. r = setHTTPOrigin x r0 \<and> isSimpleCrossOriginAccessRequest (x_env x) (r_method r0) (r_headers r0) \<and> m_protocolInHTTPFamily (r_url r0))"

definition isPreflight :: "surroundings \<Rightarrow> ThreadableLoaderOptions \<Rightarrow> request \<Rightarrow> bool" where
  "isPreflight x o' r \<longleftrightarrow> (\<exists>r0. r = preflightRequest x (o_allowCredentials o') r0)"

text \<open>
  Loader \<open>i\<close> has a permission for \<open>r\<close>: a preflight response to a document of the same origin
  for the same URL, which passed the access check and whose item covers the request. It answered
  the preflight of this loader for this request, or it is at most 600 seconds old.
\<close>

definition permitted :: "nat \<Rightarrow> surroundings \<Rightarrow> ThreadableLoaderOptions \<Rightarrow> request \<Rightarrow> entry list \<Rightarrow> bool" where
  "permitted i x o' r earlier \<longleftrightarrow>
     (\<exists>j x0 o0 a resp item.
        Granted j x0 o0 a resp \<in> set earlier \<and> passes x0 o0 resp \<and> itemOf x0 o0 resp = Some item \<and> allowed (x_env x) r item \<and>
        (o_allowCredentials o' \<longrightarrow> o_allowCredentials o0) \<and> m_string (r_url a) = m_string (r_url r) \<and>
        toString (x_origin x0) = toString (x_origin x) \<and> (j = i \<and> a = r \<or> x_clock x \<le> x_clock x0 + 600))"

text \<open>What loader \<open>i\<close> sent or followed for a URL that its document could request.\<close>

definition opened :: "nat \<Rightarrow> wtf_string \<Rightarrow> entry list \<Rightarrow> bool" where
  "opened i from earlier \<longleftrightarrow>
     (\<exists>x o' r. Sent i x o' r \<in> set earlier \<and> toString (x_origin x) = from \<and> mayRequest x (r_url r))"

definition vouched :: "nat \<Rightarrow> wtf_string \<Rightarrow> wtf_string \<Rightarrow> entry list \<Rightarrow> bool" where
  "vouched i from text earlier \<longleftrightarrow>
     (\<exists>x o' u. m_string u = text \<and> toString (x_origin x) = from \<and> mayRequest x u \<and>
        ((\<exists>r. Sent i x o' r \<in> set earlier \<and> r_url r = u) \<or> Redirected i x o' u \<in> set earlier))"

definition ownURL :: "nat \<Rightarrow> surroundings \<Rightarrow> wtf_string \<Rightarrow> entry list \<Rightarrow> bool" where
  "ownURL i x text earlier \<longleftrightarrow> (\<exists>u. m_string u = text \<and> mayRequest x u) \<or> vouched i (toString (x_origin x)) text earlier"

definition heard :: "nat \<Rightarrow> entry list \<Rightarrow> bool" where
  "heard i earlier \<longleftrightarrow> (\<exists>x o' cb. Told i x o' cb \<in> set earlier \<and> ((\<exists>r. cb = DidReceiveResponse r) \<or> (\<exists>e. cb = DidFail e)))"

definition inOrder :: "environment \<Rightarrow> entry \<Rightarrow> entry list \<Rightarrow> bool" where
  "inOrder env e earlier =
     (case e of
        Sent i x o' r \<Rightarrow>
          x_env x = env \<and>
          (mayRequest x (r_url r) \<or> o_crossOriginRequestPolicy o' = AllowCrossOriginRequests \<or>
           o_crossOriginRequestPolicy o' = UseAccessControl \<and> (simpleRequest x r \<or> isPreflight x o' r \<or> permitted i x o' r earlier))
      | Granted i x o' a resp \<Rightarrow>
          x_env x = env \<and> passes x o' resp \<and> (\<exists>item. itemOf x o' resp = Some item \<and> allowed env a item)
      | Redirected i x o' url \<Rightarrow>
          o_crossOriginRequestPolicy o' = AllowCrossOriginRequests \<or> mayRequest x url \<and> opened i (toString (x_origin x)) earlier
      | Told i x o' cb \<Rightarrow>
          (case cb of
             DidReceiveResponse resp \<Rightarrow>
               o_crossOriginRequestPolicy o' = AllowCrossOriginRequests \<or> passes x o' resp \<or> ownURL i x (m_string (p_url resp)) earlier
           | DidReceiveData d \<Rightarrow> heard i earlier
           | _ \<Rightarrow> True))"

fun allInOrder :: "environment \<Rightarrow> entry list \<Rightarrow> bool" where
  "allInOrder env [] = True"
| "allInOrder env (e # l) = (inOrder env e l \<and> allInOrder env l)"

lemma allInOrder_split: "allInOrder env (later @ e # earlier) \<Longrightarrow> inOrder env e earlier"
  by (induction later) auto

fun loaderOf :: "entry \<Rightarrow> nat" where
  "loaderOf (Sent i x o' r) = i"
| "loaderOf (Granted i x o' a resp) = i"
| "loaderOf (Redirected i x o' url) = i"
| "loaderOf (Told i x o' cb) = i"

lemma more_entries:
  assumes "set l \<subseteq> set l'"
  shows "opened i t l \<Longrightarrow> opened i t l'" "vouched i t u l \<Longrightarrow> vouched i t u l'" "heard i l \<Longrightarrow> heard i l'"
proof -
  have e: "e \<in> set l \<Longrightarrow> e \<in> set l'" for e using assms by blast
  show "opened i t l \<Longrightarrow> opened i t l'" unfolding opened_def using e by blast
  show "vouched i t u l \<Longrightarrow> vouched i t u l'" unfolding vouched_def using e by blast
  show "heard i l \<Longrightarrow> heard i l'" unfolding heard_def using e by blast
qed

subsection \<open>The invariant of a session\<close>

definition cacheFromLog :: "environment \<Rightarrow> preflightCache \<Rightarrow> entry list \<Rightarrow> bool" where
  "cacheFromLog env cache l \<longleftrightarrow>
     (\<forall>k item. cache k = Some item \<longrightarrow>
        (\<exists>j x0 o0 a resp. Granted j x0 o0 a resp \<in> set l \<and> x_env x0 = env \<and> passes x0 o0 resp \<and> itemOf x0 o0 resp = Some item \<and>
           k = (toString (x_origin x0), m_string (r_url a))))"

text \<open>After the response of a preflight the actual request is granted; after another one the client knows.\<close>

definition granted :: "'c session \<Rightarrow> bool" where
  "granted s \<longleftrightarrow>
     (case m_actualRequest s of
        Some a \<Rightarrow> (\<exists>x0 resp. Granted (l_id s) x0 (m_options s) a resp \<in> set (l_log s) \<and> toString (x_origin x0) = l_origin s)
      | None \<Rightarrow> heard (l_id s) (l_log s))"

text \<open>Under the control of the code, the URL of a connected loader is one that its document could request.\<close>

definition linked :: "'c session \<Rightarrow> subloader \<Rightarrow> bool" where
  "linked s l \<longleftrightarrow>
     (m_sameOriginRequest s \<and> o_crossOriginRequestPolicy (m_options s) \<noteq> AllowCrossOriginRequests \<longrightarrow>
        opened (l_id s) (l_origin s) (l_log s) \<and> vouched (l_id s) (l_origin s) (m_string (r_url (s_request l))) (l_log s))"

definition base :: "environment \<Rightarrow> 'c session \<Rightarrow> bool" where
  "base env s \<longleftrightarrow>
     allInOrder env (l_log s) \<and> cacheFromLog env (l_cache s) (l_log s) \<and> l_id s < l_count s \<and>
     (m_actualRequest s \<noteq> None \<longrightarrow> o_crossOriginRequestPolicy (m_options s) = UseAccessControl \<and> \<not> m_sameOriginRequest s) \<and>
     (m_loader s \<noteq> None \<longrightarrow>
        m_async s \<and> (m_sameOriginRequest s \<or> o_crossOriginRequestPolicy (m_options s) \<noteq> DenyCrossOriginRequests))"

definition answered :: "'c session \<Rightarrow> bool" where
  "answered s \<longleftrightarrow> (\<forall>l. m_loader s = Some l \<longrightarrow> (s_responded l \<longrightarrow> granted s) \<and> (s_connected l \<longrightarrow> linked s l))"

definition grows :: "'c session \<Rightarrow> 'c session \<Rightarrow> bool" where
  "grows s s' \<longleftrightarrow>
     m_options s' = m_options s \<and> m_sameOriginRequest s' = m_sameOriginRequest s \<and> m_async s' = m_async s \<and>
     l_id s' = l_id s \<and> l_origin s' = l_origin s \<and> l_count s \<le> l_count s' \<and>
     (\<exists>new. l_log s' = new @ l_log s \<and> (\<forall>e \<in> set new. loaderOf e = l_id s))"

lemma grows_refl [simp]: "grows s s"
  by (simp add: grows_def)

lemma grows_trans: "grows a b \<Longrightarrow> grows b c \<Longrightarrow> grows a c"
  unfolding grows_def by (auto simp: ball_Un)

lemma grows_subset: "grows s s' \<Longrightarrow> set (l_log s) \<subseteq> set (l_log s')"
  by (auto simp: grows_def)

lemma granted_grows:
  assumes "granted s" "grows s s'" "m_actualRequest s' = m_actualRequest s"
  shows "granted s'"
  using assms more_entries(3) [OF grows_subset [OF assms(2)]] grows_subset [OF assms(2)]
  by (auto simp: granted_def grows_def split: option.splits)

lemma linked_grows: "linked s l \<Longrightarrow> grows s s' \<Longrightarrow> linked s' l"
  using more_entries [OF grows_subset [of s s']] by (auto simp: linked_def grows_def)

lemma cacheFromLog_mono: "cacheFromLog env cache l \<Longrightarrow> set l \<subseteq> set l' \<Longrightarrow> cacheFromLog env cache l'"
  unfolding cacheFromLog_def by (meson subsetD)

text \<open>Adding an entry that is in order, and changing what the invariant does not mention.\<close>

lemma base_logged: "base env s \<Longrightarrow> inOrder env e (l_log s) \<Longrightarrow> base env (logged e s)"
  by (auto simp: base_def logged_def intro: cacheFromLog_mono)

lemma grows_logged: "loaderOf e = l_id s \<Longrightarrow> grows s (logged e s)"
  by (simp add: grows_def logged_def)

lemma base_client [simp]:
  "base env (s\<lparr>l_client := c\<rparr>) = base env s" "granted (s\<lparr>l_client := c\<rparr>) = granted s" "linked (s\<lparr>l_client := c\<rparr>) l = linked s l"
  "answered (s\<lparr>l_client := c\<rparr>) = answered s" "grows s' (s\<lparr>l_client := c\<rparr>) = grows s' s"
  by (simp_all add: base_def granted_def linked_def answered_def grows_def split: option.split)

lemma dropped_loader [simp]:
  "base env s \<Longrightarrow> base env (s\<lparr>m_loader := None, m_clientSet := b\<rparr>)" "answered (s\<lparr>m_loader := None, m_clientSet := b\<rparr>)"
  "grows s' (s\<lparr>m_loader := None, m_clientSet := b\<rparr>) = grows s' s"
  by (simp_all add: base_def answered_def grows_def)

lemma answered_none: "m_loader s = None \<Longrightarrow> answered s"
  by (simp add: answered_def)

fun plainCall :: "callback \<Rightarrow> bool" where
  "plainCall (DidReceiveResponse r) = False"
| "plainCall (DidReceiveData d) = False"
| "plainCall _ = True"

lemma told_in_order: "plainCall cb \<Longrightarrow> inOrder env (toldEntry x cb s) l"
  by (cases cb) (auto simp: inOrder_def toldEntry_def)

subsection \<open>Calls to the client keep it\<close>

lemma tellInsideCancel_keeps:
  assumes "tellInsideCancel client x cb s = Some s'" "base env s" "inOrder env (toldEntry x cb s) (l_log s)"
  shows "base env s' \<and> grows s s' \<and> m_actualRequest s' = m_actualRequest s"
  using assms base_logged [of env s "toldEntry x cb s"]
  by (auto simp: tellInsideCancel_def logged_def base_def grows_def toldEntry_def split: if_splits prod.splits)

lemma cancel_keeps:
  assumes "cancel client x s = Some s'" "base env s"
  shows "base env s' \<and> grows s s' \<and> m_actualRequest s' = m_actualRequest s \<and> m_loader s' = None"
proof (cases "m_loader s")
  case None
  then show ?thesis using assms by (simp add: cancel_def)
next
  case (Some l)
  then obtain t where t: "(if s_reachedTerminalState l then Some s else tellInsideCancel client x (DidFail Cancellation) s) = Some t"
    "s' = t\<lparr>m_loader := None, m_clientSet := False\<rparr>"
    using assms(1) by (auto simp: cancel_def bind_eq_Some_conv)
  have "base env t \<and> grows s t \<and> m_actualRequest t = m_actualRequest s"
    using t(1) tellInsideCancel_keeps [OF _ assms(2) told_in_order, of client x "DidFail Cancellation" t] assms(2) by (auto split: if_splits)
  then show ?thesis by (simp add: t(2))
qed

lemma tell_keeps:
  assumes "tell client x cb s = Some s'" "base env s" "inOrder env (toldEntry x cb s) (l_log s)"
  shows "base env s' \<and> grows s s' \<and> m_actualRequest s' = m_actualRequest s \<and> (m_loader s' = m_loader s \<or> m_loader s' = None) \<and>
    toldEntry x cb s \<in> set (l_log s')"
proof -
  obtain c b where c: "react client cb (l_client s) = (c, b)" by fastforce
  let ?t = "logged (toldEntry x cb s) (s\<lparr>l_client := c\<rparr>)"
  have t: "base env ?t" "grows s ?t" "m_actualRequest ?t = m_actualRequest s" "m_loader ?t = m_loader s" "toldEntry x cb s \<in> set (l_log ?t)"
    using base_logged [OF assms(2,3)] by (simp_all add: logged_def base_def grows_def toldEntry_def)
  show ?thesis
  proof (cases b)
    case True
    then obtain u where u: "cancel client x ?t = Some u" "s' = u\<lparr>l_client := resume client (l_client u)\<rparr>"
      using assms(1) c by (auto simp: tell_def bind_eq_Some_conv split: if_splits)
    have k: "base env u" "grows ?t u" "m_actualRequest u = m_actualRequest ?t" "m_loader u = None" using cancel_keeps [OF u(1) t(1)] by auto
    then show ?thesis using t(3) grows_trans [OF t(2) k(2)] grows_subset [OF k(2)] t(5) by (auto simp: u(2))
  next
    case False
    then have "s' = ?t" using assms(1) c by (auto simp: tell_def split: if_splits)
    then show ?thesis using t by simp
  qed
qed

lemma answered_same:
  assumes "answered s" "grows s s'" "m_actualRequest s' = m_actualRequest s" "m_loader s' = m_loader s \<or> m_loader s' = None"
  shows "answered s'"
  using assms(1,4) granted_grows [OF _ assms(2,3)] linked_grows [OF _ assms(2)] by (auto simp: answered_def)

lemma tell_answered:
  assumes "tell client x cb s = Some s'" "base env s" "inOrder env (toldEntry x cb s) (l_log s)" "answered s"
  shows "answered s'"
  using answered_same [OF assms(4)] tell_keeps [OF assms(1-3)] by blast

lemmas tell_plain = tell_keeps [OF _ _ told_in_order]
lemmas tell_plain_answered = tell_answered [OF _ _ told_in_order]

subsection \<open>Sending keeps it\<close>

definition maySend :: "surroundings \<Rightarrow> 'c session \<Rightarrow> request \<Rightarrow> bool" where
  "maySend x s r \<longleftrightarrow>
     toString (x_origin x) = l_origin s \<and> inOrder (x_env x) (Sent (l_id s) x (m_options s) r) (l_log s) \<and>
     (if m_sameOriginRequest s then mayRequest x (r_url r) else o_crossOriginRequestPolicy (m_options s) \<noteq> DenyCrossOriginRequests)"

lemma outgoing_url: "r_url (outgoingRequest x f r) = r_url r"
  by (simp add: outgoingRequest_def addHTTPOriginIfNeeded_def Let_def)

lemma loadAsynchronously_keeps:
  assumes "loadAsynchronously client x r securityCheck s = Some s'" "base (x_env x) s" "maySend x s r" "m_async s"
  shows "base (x_env x) s' \<and> grows s s' \<and> answered s'"
proof -
  let ?s = "s\<lparr>m_loader := None\<rparr>"
  have b: "base (x_env x) ?s" "grows s ?s" using assms(2) by (simp_all add: base_def grows_def)
  obtain l t where c: "createSubloader client x r securityCheck (o_sendLoadCallbacks (m_options s) \<and> m_actualRequest s = None)
      (o_sniffContent (m_options s) \<and> m_actualRequest s = None) ?s = Some (l, t)" "s' = t\<lparr>m_loader := l\<rparr>"
    using assms(1) by (auto simp: loadAsynchronously_def bind_eq_Some_conv)
  from c(1) consider "l = None" "t = ?s"
    | n f a b' where "l = Some (newSubloader n (outgoingRequest x f r) a b')"
        "t = logged (Sent (l_id s) x (m_options s) r) (?s\<lparr>l_count := Suc (l_count s)\<rparr>)"
    | "l = None" "tell client x (DidFail Cancellation) ?s = Some t"
    by (auto simp: createSubloader_def Let_def bind_eq_Some_conv split: option.splits if_splits)
  then show ?thesis
  proof cases
    case 1
    then show ?thesis using b c(2) by (simp add: base_def answered_def grows_def)
  next
    case (2 n f a b')
    note u = outgoing_url [of x f r]
    have "base (x_env x) (logged (Sent (l_id s) x (m_options s) r) ?s)"
      using base_logged [OF b(1)] assms(3) by (simp add: maySend_def)
    then have "base (x_env x) s'" using 2 c(2) assms(3,4) by (auto simp: base_def logged_def maySend_def split: if_splits)
    moreover have "grows s s'" using 2 c(2) by (simp add: grows_def logged_def)
    moreover have "opened (l_id s) (l_origin s) (l_log s') \<and> vouched (l_id s) (l_origin s) (m_string (r_url r)) (l_log s')" if "m_sameOriginRequest s"
    proof -
      have m: "toString (x_origin x) = l_origin s" "mayRequest x (r_url r)" "Sent (l_id s) x (m_options s) r \<in> set (l_log s')"
        using assms(3) that 2 c(2) by (simp_all add: maySend_def logged_def)
      then show ?thesis unfolding opened_def vouched_def by blast
    qed
    then have "answered s'" using 2 c(2) u by (auto simp: answered_def linked_def newSubloader_def logged_def)
    ultimately show ?thesis by simp
  next
    case 3
    have "base (x_env x) t \<and> grows ?s t" using tell_plain [OF 3(2) b(1)] by simp
    then show ?thesis using 3(1) c(2) by (auto simp: base_def answered_def grows_def)
  qed
qed

subsection \<open>Preflight and response keep it\<close>

lemma heardI: "Told (l_id s) x o' cb \<in> set (l_log s) \<Longrightarrow> (\<exists>r. cb = DidReceiveResponse r) \<or> (\<exists>e. cb = DidFail e) \<Longrightarrow> heard (l_id s) (l_log s)"
  unfolding heard_def by blast

lemma tell_grants:
  assumes "tell client x cb s = Some s'" "base env s" "inOrder env (toldEntry x cb s) (l_log s)" "m_actualRequest s = None"
    "(\<exists>r. cb = DidReceiveResponse r) \<or> (\<exists>e. cb = DidFail e)"
  shows "granted s'"
proof -
  have k: "grows s s'" "m_actualRequest s' = None" "toldEntry x cb s \<in> set (l_log s')" using tell_keeps [OF assms(1-3)] assms(4) by auto
  then have "Told (l_id s') x (m_options s) cb \<in> set (l_log s')" by (simp add: toldEntry_def grows_def)
  from heardI [OF this assms(5)] k(2) show ?thesis by (simp add: granted_def)
qed

lemma preflightFailure_keeps:
  assumes "preflightFailure client x s = Some s'" "base env s"
  shows "base env s' \<and> grows s s' \<and> granted s' \<and> (m_loader s' = m_loader s \<or> m_loader s' = None)"
proof -
  let ?t = "s\<lparr>m_actualRequest := None\<rparr>"
  have b: "base env ?t" "grows s ?t" using assms(2) by (simp_all add: base_def grows_def)
  have t: "tell client x (DidFail NoError) ?t = Some s'" using assms(1) by (simp add: preflightFailure_def)
  have "base env s' \<and> grows ?t s' \<and> (m_loader s' = m_loader s \<or> m_loader s' = None)"
    using tell_plain [OF t b(1)] by simp
  moreover have "granted s'" using tell_grants [OF t b(1) told_in_order] by simp
  moreover from calculation have "grows s s'" by (metis grows_trans [OF b(2)])
  ultimately show ?thesis by simp
qed

text \<open>The responses that the network may report: for a URL of the document when the loader is for one.\<close>

definition fitting :: "surroundings \<Rightarrow> 'c session \<Rightarrow> response \<Rightarrow> bool" where
  "fitting x s r \<longleftrightarrow>
     (m_sameOriginRequest s \<longrightarrow> o_crossOriginRequestPolicy (m_options s) = AllowCrossOriginRequests \<or>
        ownURL (l_id s) x (m_string (p_url r)) (l_log s))"

lemma didReceiveResponse_keeps:
  assumes "didReceiveResponse client x r s = Some s'" "base (x_env x) s" "toString (x_origin x) = l_origin s"
    "m_sameOriginRequest s \<or> o_crossOriginRequestPolicy (m_options s) \<noteq> DenyCrossOriginRequests" "fitting x s r"
  shows "base (x_env x) s' \<and> grows s s' \<and> granted s' \<and> (m_loader s' = m_loader s \<or> m_loader s' = None)"
proof (cases "m_actualRequest s")
  case None
  let ?p = "passesAccessControlCheck (x_env x) (x_security x) r (o_allowCredentials (m_options s)) (x_origin x)"
  show ?thesis
  proof (cases "\<not> m_sameOriginRequest s \<and> o_crossOriginRequestPolicy (m_options s) = UseAccessControl \<and> \<not> ?p")
    case True
    then have t: "tell client x (DidFail NoError) s = Some s'" using assms(1) None by (simp add: didReceiveResponse_def)
    have "granted s'" using tell_grants [OF t assms(2) told_in_order None] by simp
    then show ?thesis using tell_plain [OF t assms(2)] by simp
  next
    case False
    then have t: "tell client x (DidReceiveResponse r) s = Some s'" using assms(1) None by (auto simp: didReceiveResponse_def)
    have "o_crossOriginRequestPolicy (m_options s) = AllowCrossOriginRequests \<or> ?p \<or> ownURL (l_id s) x (m_string (p_url r)) (l_log s)"
      using False assms(4,5) by (cases "o_crossOriginRequestPolicy (m_options s)") (auto simp: fitting_def)
    then have i: "inOrder (x_env x) (toldEntry x (DidReceiveResponse r) s) (l_log s)" by (simp add: inOrder_def toldEntry_def passes_def)
    have "granted s'" using tell_grants [OF t assms(2) i None] by simp
    then show ?thesis using tell_keeps [OF t assms(2) i] by simp
  qed
next
  case (Some a)
  let ?creds = "o_allowCredentials (m_options s)"
  have pf: "preflightFailure client x s = Some s' \<Longrightarrow> ?thesis" by (rule preflightFailure_keeps [OF _ assms(2)])
  show ?thesis
  proof (cases "passesAccessControlCheck (x_env x) (x_security x) r ?creds (x_origin x)")
    case False
    then show ?thesis using pf assms(1) Some by (simp add: didReceiveResponse_def)
  next
    case True
    show ?thesis
    proof (cases "parseItem (x_env x) (x_clock x) r (newPreflightItem ?creds)")
      case None
      then show ?thesis using pf assms(1) Some True by (simp add: didReceiveResponse_def)
    next
      case item: (Some item)
      show ?thesis
      proof (cases "allowed (x_env x) a item")
        case False
        then show ?thesis using pf assms(1) Some True item by (simp add: didReceiveResponse_def allowed_def split: if_splits)
      next
        case ok: True
        then have s': "s' = logged (Granted (l_id s) x (m_options s) a r)
            (s\<lparr>l_cache := appendEntry (toString (x_origin x)) (r_url a) item (l_cache s)\<rparr>)"
          using assms(1) Some True item by (auto simp: didReceiveResponse_def allowed_def)
        let ?log = "Granted (l_id s) x (m_options s) a r # l_log s"
        have "cacheFromLog (x_env x) (l_cache s) ?log" using assms(2) by (auto simp: base_def intro: cacheFromLog_mono)
        then have "cacheFromLog (x_env x) (appendEntry (toString (x_origin x)) (r_url a) item (l_cache s)) ?log"
          unfolding cacheFromLog_def appendEntry_def
        proof (intro allI impI)
          fix k i assume c: "\<forall>k i. l_cache s k = Some i \<longrightarrow> (\<exists>j x0 o0 a resp. Granted j x0 o0 a resp \<in> set ?log \<and> x_env x0 = x_env x \<and>
              passes x0 o0 resp \<and> itemOf x0 o0 resp = Some i \<and> k = (toString (x_origin x0), m_string (r_url a)))"
            and k: "((l_cache s)((toString (x_origin x), m_string (r_url a)) \<mapsto> item)) k = Some i"
          show "\<exists>j x0 o0 a resp. Granted j x0 o0 a resp \<in> set ?log \<and> x_env x0 = x_env x \<and>
              passes x0 o0 resp \<and> itemOf x0 o0 resp = Some i \<and> k = (toString (x_origin x0), m_string (r_url a))"
          proof (cases "k = (toString (x_origin x), m_string (r_url a))")
            case here: True
            show ?thesis
              by (intro exI [of _ "l_id s"] exI [of _ x] exI [of _ "m_options s"] exI [of _ a] exI [of _ r])
                (use k True item here in \<open>simp add: passes_def itemOf_def\<close>)
          next
            case False
            then have "l_cache s k = Some i" using k by simp
            from c [rule_format, OF this] show ?thesis .
          qed
        qed
        moreover have "inOrder (x_env x) (Granted (l_id s) x (m_options s) a r) (l_log s)"
          using True item ok by (simp add: inOrder_def passes_def itemOf_def)
        ultimately have "base (x_env x) s'" using assms(2) by (simp add: base_def s' logged_def)
        moreover have "granted s'" using Some assms(3) by (auto simp: granted_def s' logged_def)
        ultimately show ?thesis by (simp add: s' grows_def logged_def)
      qed
    qed
  qed
qed

lemma data_in_order: "granted s \<Longrightarrow> m_actualRequest s = None \<Longrightarrow> inOrder env (toldEntry x (DidReceiveData d) s) (l_log s)"
  by (simp add: inOrder_def toldEntry_def granted_def)

lemma didReceiveData_keeps:
  assumes "didReceiveData client x d s = Some s'" "base env s" "granted s"
  shows "base env s' \<and> grows s s' \<and> granted s' \<and> m_actualRequest s' = m_actualRequest s \<and> (m_loader s' = m_loader s \<or> m_loader s' = None)"
proof (cases "m_actualRequest s")
  case None
  then have t: "tell client x (DidReceiveData d) s = Some s'" using assms(1) by (simp add: didReceiveData_def)
  have k: "base env s'" "grows s s'" "m_actualRequest s' = m_actualRequest s" "m_loader s' = m_loader s \<or> m_loader s' = None"
    using tell_keeps [OF t assms(2) data_in_order [OF assms(3) None]] by simp_all
  show ?thesis using k granted_grows [OF assms(3) k(2,3)] by simp
qed (use assms in \<open>simp add: didReceiveData_def\<close>)

subsection \<open>Synchronous loads keep it\<close>

lemma loadSynchronously_keeps:
  assumes "loadSynchronously client x r k s = Some s'" "base (x_env x) s" "maySend x s r"
    "\<And>n t t'. k n t = Some t' \<Longrightarrow> base (x_env x) t \<Longrightarrow> grows s t \<Longrightarrow> granted t \<Longrightarrow> m_loader t = None \<Longrightarrow> base (x_env x) t' \<and> grows s t' \<and> answered t'"
    "m_loader s = None"
  shows "base (x_env x) s' \<and> grows s s' \<and> answered s'"
proof -
  define s1 where "s1 = (if x_frame x = None then s else logged (Sent (l_id s) x (m_options s) r) s)"
  have m: "inOrder (x_env x) (Sent (l_id s) x (m_options s) r) (l_log s)" "toString (x_origin x) = l_origin s"
    "if m_sameOriginRequest s then mayRequest x (r_url r) else o_crossOriginRequestPolicy (m_options s) \<noteq> DenyCrossOriginRequests"
    using assms(3) by (simp_all add: maySend_def)
  have s1: "base (x_env x) s1" "grows s s1" "m_loader s1 = None"
  proof -
    show "base (x_env x) s1" using base_logged [OF assms(2) m(1)] assms(2) by (simp add: s1_def)
    show "grows s s1" by (simp add: s1_def grows_logged)
    show "m_loader s1 = None" using assms(5) by (simp add: s1_def logged_def)
  qed
  have e: "m_sameOriginRequest s1 = m_sameOriginRequest s" "m_options s1 = m_options s" "l_origin s1 = l_origin s"
    using s1(2) by (simp_all add: grows_def)
  have told: "base (x_env x) s' \<and> grows s s' \<and> answered s'" if "tell client x cb s1 = Some s'" "plainCall cb" for cb
  proof -
    have "base (x_env x) s' \<and> grows s1 s' \<and> m_loader s' = None" using tell_plain [OF that(1) s1(1) that(2)] s1(3) by auto
    then show ?thesis using grows_trans [OF s1(2)] answered_none by blast
  qed
  from assms(1) consider cb where "tell client x cb s1 = Some s'" "plainCall cb"
    | n resp d t u where "didReceiveResponse client x resp s1 = Some t" "didReceiveData client x d t = Some u" "k n u = Some s'"
        "m_string (r_url r) = m_string (p_url resp) \<or> isAllowedRedirect x (p_url resp) s1"
    unfolding loadSynchronously_def Let_def s1_def [symmetric]
    by (auto simp: bind_eq_Some_conv split: if_splits)
  then show ?thesis
  proof cases
    case 1
    then show ?thesis using told by blast
  next
    case (2 n resp d t u)
    have f: "fitting x s1 resp"
      using 2(4) m(3) unfolding fitting_def ownURL_def e isAllowedRedirect_def by (auto split: if_splits)
    have pol: "m_sameOriginRequest s1 \<or> o_crossOriginRequestPolicy (m_options s1) \<noteq> DenyCrossOriginRequests"
      using m(3) by (auto simp: e split: if_splits)
    have t: "base (x_env x) t" "grows s1 t" "granted t" "m_loader t = None"
      using didReceiveResponse_keeps [OF 2(1) s1(1) _ pol f] s1(3) m(2) e(3) by auto
    have u: "base (x_env x) u" "grows t u" "m_loader u = None" "granted u" using didReceiveData_keeps [OF 2(2) t(1,3)] t(4) by auto
    have "grows s u" using grows_trans [OF s1(2) grows_trans [OF t(2) u(2)]] .
    then show ?thesis using assms(4) [OF 2(3) u(1)] u(3,4) by blast
  qed
qed

lemma loadActualRequest_keeps:
  assumes "loadActualRequest client x r securityCheck s = Some s'" "base (x_env x) s" "maySend x s r" "m_async s \<or> m_loader s = None"
  shows "base (x_env x) s' \<and> grows s s' \<and> answered s'"
proof (cases "m_async s")
  case True
  then show ?thesis using loadAsynchronously_keeps assms by (simp add: loadActualRequest_def)
next
  case False
  then have l: "loadSynchronously client x r (\<lambda>n. tell client x (DidFinishLoading n)) s = Some s'" "m_loader s = None"
    using assms(1,4) by (simp_all add: loadActualRequest_def)
  show ?thesis
  proof (rule loadSynchronously_keeps [OF l(1) assms(2,3) _ l(2)])
    fix n t t'
    assume t: "tell client x (DidFinishLoading n) t = Some t'" "base (x_env x) t" "grows s t" "m_loader t = None"
    have "base (x_env x) t' \<and> grows t t' \<and> m_loader t' = None" using tell_plain [OF t(1,2)] t(4) by auto
    then show "base (x_env x) t' \<and> grows s t' \<and> answered t'" using grows_trans [OF t(3)] answered_none by blast
  qed
qed

text \<open>The request behind a preflight has the permission of the response in the log.\<close>

lemma grantedD:
  assumes "granted s" "base (x_env x) s" "m_actualRequest s = Some a" "toString (x_origin x) = l_origin s"
  shows "maySend x (s\<lparr>m_actualRequest := None\<rparr>) a"
proof -
  obtain x0 resp where g: "Granted (l_id s) x0 (m_options s) a resp \<in> set (l_log s)" "toString (x_origin x0) = l_origin s"
    using assms(1,3) by (auto simp: granted_def)
  then obtain later earlier where "l_log s = later @ Granted (l_id s) x0 (m_options s) a resp # earlier" by (metis split_list)
  then have "inOrder (x_env x) (Granted (l_id s) x0 (m_options s) a resp) earlier" using assms(2) allInOrder_split by (metis base_def)
  then obtain item where "x_env x0 = x_env x" "passes x0 (m_options s) resp" "itemOf x0 (m_options s) resp = Some item" "allowed (x_env x) a item"
    by (auto simp: inOrder_def)
  moreover have "toString (x_origin x0) = toString (x_origin x)" using g(2) assms(4) by simp
  ultimately have "permitted (l_id s) x (m_options s) a (l_log s)" using g(1) unfolding permitted_def by blast
  moreover have "o_crossOriginRequestPolicy (m_options s) = UseAccessControl" "\<not> m_sameOriginRequest s" "x_env x = x_env x"
    using assms(2,3) by (simp_all add: base_def)
  ultimately show ?thesis using assms(4) by (simp add: maySend_def inOrder_def)
qed

lemma preflightSuccess_keeps:
  assumes "preflightSuccess client x a s = Some s'" "base (x_env x) s" "maySend x (s\<lparr>m_actualRequest := None\<rparr>) a" "m_async s \<or> m_loader s = None"
  shows "base (x_env x) s' \<and> grows s s' \<and> answered s'"
proof -
  let ?t = "s\<lparr>m_actualRequest := None\<rparr>"
  have t: "base (x_env x) ?t" "grows s ?t" "m_async ?t \<or> m_loader ?t = None" using assms(2,4) by (simp_all add: base_def grows_def)
  have "base (x_env x) s' \<and> grows ?t s' \<and> answered s'"
    by (rule loadActualRequest_keeps [OF assms(1) [unfolded preflightSuccess_def] t(1) assms(3) t(3)])
  then show ?thesis using grows_trans [OF t(2)] by blast
qed

lemma didFinishLoading_keeps:
  assumes "didFinishLoading client x n s = Some s'" "base (x_env x) s" "granted s" "m_async s \<or> m_loader s = None" "answered s"
    "toString (x_origin x) = l_origin s"
  shows "base (x_env x) s' \<and> grows s s' \<and> answered s'"
proof (cases "m_actualRequest s")
  case None
  then have t: "tell client x (DidFinishLoading n) s = Some s'" using assms(1) by (simp add: didFinishLoading_def)
  show ?thesis using tell_plain [OF t assms(2)] tell_plain_answered [OF t assms(2) _ assms(5)] by simp
next
  case (Some a)
  then show ?thesis
    using preflightSuccess_keeps [OF _ assms(2) grantedD [OF assms(3,2) Some assms(6)] assms(4)] assms(1) by (simp add: didFinishLoading_def)
qed

lemma loadRequest_keeps:
  assumes "loadRequest client x r securityCheck s = Some s'" "base (x_env x) s" "maySend x s r" "m_loader s = None"
  shows "base (x_env x) s' \<and> grows s s' \<and> answered s'"
proof (cases "m_async s")
  case True
  then show ?thesis using loadAsynchronously_keeps assms by (simp add: loadRequest_def)
next
  case False
  then have l: "loadSynchronously client x r (didFinishLoading client x) s = Some s'" using assms(1) by (simp add: loadRequest_def)
  have og: "toString (x_origin x) = l_origin s" using assms(3) by (simp add: maySend_def)
  show ?thesis
  proof (rule loadSynchronously_keeps [OF l assms(2,3) _ assms(4)])
    fix n t t'
    assume t: "didFinishLoading client x n t = Some t'" "base (x_env x) t" "grows s t" "granted t" "m_loader t = None"
    have "toString (x_origin x) = l_origin t" using og t(3) by (simp add: grows_def)
    then show "base (x_env x) t' \<and> grows s t' \<and> answered t'"
      using didFinishLoading_keeps [OF t(1,2,4)] t(5) answered_none [OF t(5)] grows_trans [OF t(3)] by blast
  qed
qed

subsection \<open>The constructor and the events keep it\<close>

lemma preflightTimeout_bound: "preflightTimeout env v \<le> 600"
  by (simp add: preflightTimeout_def maxPreflightCacheTimeoutSeconds_def defaultPreflightCacheTimeoutSeconds_def Let_def split: option.split)

lemma itemOf_fields:
  assumes "itemOf x o' r = Some item"
  shows "m_credentials item = o_allowCredentials o'" "m_absoluteExpiryTime item \<le> x_clock x + 600"
proof -
  have "of_int (preflightTimeout (x_env x) v) \<le> (600 :: real)" for v
    using preflightTimeout_bound [of "x_env x" v] by (metis of_int_le_iff of_int_numeral)
  then show "m_credentials item = o_allowCredentials o'" "m_absoluteExpiryTime item \<le> x_clock x + 600"
    using assms by (auto simp: itemOf_def parseItem_def newPreflightItem_def split: option.splits)
qed

lemma canSkipPreflight_permitted:
  assumes "canSkipPreflight (x_env x) (x_clock x) (toString (x_origin x)) (r_url r) (o_allowCredentials o') (r_method r) (r_headers r) cache
      = (True, cache')"
    "cacheFromLog (x_env x) cache l"
  shows "permitted i x o' r l"
proof -
  obtain item where it: "cache (toString (x_origin x), m_string (r_url r)) = Some item"
    "allowsRequest (x_env x) (x_clock x) (o_allowCredentials o') (r_method r) (r_headers r) item"
    using assms(1) by (auto simp: canSkipPreflight_def split: option.splits if_splits)
  then obtain j x0 o0 a resp where g: "Granted j x0 o0 a resp \<in> set l" "x_env x0 = x_env x" "passes x0 o0 resp" "itemOf x0 o0 resp = Some item"
    "toString (x_origin x0) = toString (x_origin x)" "m_string (r_url a) = m_string (r_url r)"
    using assms(2) unfolding cacheFromLog_def by (metis prod.inject)
  have a: "allowed (x_env x) r item" "o_allowCredentials o' \<longrightarrow> m_credentials item" "x_clock x \<le> m_absoluteExpiryTime item"
    using it(2) by (auto simp: allowsRequest_def allowed_def split: if_splits)
  have "o_allowCredentials o' \<longrightarrow> o_allowCredentials o0" "x_clock x \<le> x_clock x0 + 600"
    using a(2,3) itemOf_fields [OF g(4)] by auto
  then have "Granted j x0 o0 a resp \<in> set l \<and> passes x0 o0 resp \<and> itemOf x0 o0 resp = Some item \<and> allowed (x_env x) r item \<and>
      (o_allowCredentials o' \<longrightarrow> o_allowCredentials o0) \<and> m_string (r_url a) = m_string (r_url r) \<and>
      toString (x_origin x0) = toString (x_origin x) \<and> (j = i \<and> a = r \<or> x_clock x \<le> x_clock x0 + 600)"
    using g(1,3-) a(1) by simp
  then show ?thesis unfolding permitted_def by blast
qed

lemma canSkipPreflight_cache:
  assumes "canSkipPreflight env t org url cr m hs cache = (b, cache')" "cacheFromLog env' cache l"
  shows "cacheFromLog env' cache' l"
  using assms by (auto simp: canSkipPreflight_def cacheFromLog_def split: option.splits if_splits)

lemma construct_keeps:
  assumes "construct client x options async r c cache entries n = Some s'" "allInOrder (x_env x) entries" "cacheFromLog (x_env x) cache entries"
  shows "base (x_env x) s' \<and> answered s' \<and> grows (newSession x options async (r_url r) c cache entries n) s'"
proof -
  let ?s = "newSession x options async (r_url r) c cache entries n"
  have s: "base (x_env x) ?s" "m_loader ?s = None" using assms(2,3) by (simp_all add: base_def newSession_def)
  have f: "toString (x_origin x) = l_origin ?s" "m_options ?s = options" "m_sameOriginRequest ?s = mayRequest x (r_url r)" "l_log ?s = entries"
    by (simp_all add: newSession_def)
  show ?thesis
  proof (cases "m_sameOriginRequest ?s \<or> o_crossOriginRequestPolicy options = AllowCrossOriginRequests")
    case True
    then have "maySend x ?s r" by (auto simp: maySend_def inOrder_def newSession_def)
    then show ?thesis using loadRequest_keeps [of client x r DoSecurityCheck ?s s'] s True assms(1) by (simp add: construct_def)
  next
    case other: False
    show ?thesis
    proof (cases "o_crossOriginRequestPolicy options = DenyCrossOriginRequests")
      case True
      then have "tell client x (DidFail NoError) ?s = Some s'" using other assms(1) by (simp add: construct_def)
      from tell_plain [OF this s(1)] show ?thesis using s(2) answered_none [of s'] by auto
    next
      case False
      then have pol: "o_crossOriginRequestPolicy options = UseAccessControl" using other by (cases "o_crossOriginRequestPolicy options") auto
      define r1 where "r1 = (removeCredentials r)\<lparr>r_allowCookies := o_allowCredentials options\<rparr>"
      show ?thesis
      proof (cases "\<not> o_forcePreflight options \<and> isSimpleCrossOriginAccessRequest (x_env x) (r_method r1) (r_headers r1)")
        case True
        then have m: "makeSimpleCrossOriginAccessRequest client x r1 ?s = Some s'"
          using other pol assms(1) by (simp add: construct_def Let_def flip: r1_def)
        show ?thesis
        proof (cases "m_protocolInHTTPFamily (r_url r1)")
          case http: True
          then have "simpleRequest x (setHTTPOrigin x r1)" using True by (auto simp: simpleRequest_def)
          then have "maySend x ?s (setHTTPOrigin x r1)" using pol other f by (simp add: maySend_def inOrder_def)
          then show ?thesis using loadRequest_keeps [of client x _ DoSecurityCheck ?s s'] s m http
            by (simp add: makeSimpleCrossOriginAccessRequest_def)
        next
          case False
          then have "tell client x (DidFail NoError) ?s = Some s'" using m by (simp add: makeSimpleCrossOriginAccessRequest_def)
          from tell_plain [OF this s(1)] show ?thesis using s(2) answered_none [of s'] by auto
        qed
      next
        case False
        obtain skip cache' where k: "canSkipPreflight (x_env x) (x_clock x) (toString (x_origin x)) (r_url r1)
            (o_allowCredentials options) (r_method r1) (r_headers r1) cache = (skip, cache')" by fastforce
        let ?t = "?s\<lparr>m_actualRequest := Some r1, l_cache := cache'\<rparr>"
        have e: "(if skip then preflightSuccess client x r1 ?t else makeCrossOriginAccessRequestWithPreflight client x r1 ?t) = Some s'"
          using other pol False assms(1) k by (auto simp: construct_def Let_def newSession_def simp flip: r1_def split: if_splits)
        have "\<not> m_sameOriginRequest ?s" using other by blast
        then have t: "base (x_env x) ?t" "m_loader ?t = None" "grows ?s ?t"
          using assms(2) canSkipPreflight_cache [OF k assms(3)] pol by (simp_all add: base_def newSession_def grows_def)
        have fin: ?thesis if "base (x_env x) s' \<and> grows ?t s' \<and> answered s'" using that grows_trans [OF t(3)] by simp
        show ?thesis
        proof (cases skip)
          case True
          then have "permitted n x options r1 entries" using canSkipPreflight_permitted [of x r1 options cache cache' entries n] k assms(3) by simp
          then have "maySend x (?t\<lparr>m_actualRequest := None\<rparr>) r1" using pol other by (simp add: maySend_def inOrder_def newSession_def)
          then show ?thesis using preflightSuccess_keeps [of client x r1 ?t s'] e True t fin by simp
        next
          case False
          have "maySend x ?t (preflightRequest x (o_allowCredentials options) r1)"
            using pol other by (auto simp: maySend_def inOrder_def newSession_def isPreflight_def)
          moreover have "loadRequest client x (preflightRequest x (o_allowCredentials options) r1) DoSecurityCheck ?t = Some s'"
            using e False by (simp add: makeCrossOriginAccessRequestWithPreflight_def newSession_def)
          ultimately show ?thesis using loadRequest_keeps [of client x _ DoSecurityCheck ?t s'] t fin by simp
        qed
      qed
    qed
  qed
qed


lemma changeLoader_same:
  "l_id (changeLoader n f s) = l_id s" "l_origin (changeLoader n f s) = l_origin s" "l_log (changeLoader n f s) = l_log s"
  "m_options (changeLoader n f s) = m_options s" "m_sameOriginRequest (changeLoader n f s) = m_sameOriginRequest s"
  "m_actualRequest (changeLoader n f s) = m_actualRequest s"
  by (simp_all add: changeLoader_def split: option.split)

lemma changeLoader_mine: "m_loader s = Some l \<Longrightarrow> m_loader (changeLoader (s_id l) f s) = Some (f l)"
  by (simp add: changeLoader_def)

lemma changeLoader_keeps:
  assumes "base env s"
  shows "base env (changeLoader n f s)" "grows s (changeLoader n f s)" "(m_loader (changeLoader n f s) = None) = (m_loader s = None)"
  using assms by (auto simp: changeLoader_def base_def grows_def split: option.splits)

lemma changeLoader_linked: "granted (changeLoader n f s) = granted s" "linked (changeLoader n f s) l = linked s l"
  by (simp_all add: granted_def linked_def changeLoader_same split: option.split)

lemma changeLoader_answered:
  assumes "answered s"
    "\<And>l. m_loader s = Some l \<Longrightarrow> (s_responded (f l) \<longrightarrow> s_responded l \<or> granted s) \<and>
      (s_connected (f l) \<longrightarrow> s_connected l \<and> m_string (r_url (s_request (f l))) = m_string (r_url (s_request l)))"
  shows "answered (changeLoader n f s)"
  unfolding answered_def changeLoader_linked
proof (intro allI impI)
  fix l assume "m_loader (changeLoader n f s) = Some l"
  then obtain k where k: "m_loader s = Some k" "l = k \<or> l = f k" by (auto simp: changeLoader_def split: option.splits if_splits)
  then show "(s_responded l \<longrightarrow> granted s) \<and> (s_connected l \<longrightarrow> linked s l)"
    using assms(1) assms(2) [OF k(1)] by (auto simp: answered_def linked_def)
qed

lemma reachTerminalState_keeps:
  assumes "base env s" "grows s0 s" "answered s"
  shows "base env (reachTerminalState n s) \<and> grows s0 (reachTerminalState n s) \<and> answered (reachTerminalState n s)"
proof (intro conjI)
  show "base env (reachTerminalState n s)" unfolding reachTerminalState_def by (rule changeLoader_keeps [OF assms(1)])
  show "grows s0 (reachTerminalState n s)" unfolding reachTerminalState_def by (rule grows_trans [OF assms(2) changeLoader_keeps(2) [OF assms(1)]])
  show "answered (reachTerminalState n s)" unfolding reachTerminalState_def by (rule changeLoader_answered [OF assms(3)]) simp
qed

lemma cancel_answered: "cancel client x s = Some s' \<Longrightarrow> base env s \<Longrightarrow> base env s' \<and> grows s s' \<and> answered s'"
  using cancel_keeps [of client x s s' env] by (simp add: answered_def)

lemma tell_reach_keeps:
  assumes "tell client x cb s = Some t" "plainCall cb" "base env s" "answered s"
  shows "base env (reachTerminalState n t) \<and> grows s (reachTerminalState n t) \<and> answered (reachTerminalState n t)"
  using reachTerminalState_keeps tell_plain [OF assms(1,3,2)] tell_plain_answered [OF assms(1,3,2,4)] by blast

lemma cancelLoader_keeps:
  assumes "cancelLoader client x l s = Some s'" "base env s" "answered s"
  shows "base env s' \<and> grows s s' \<and> answered s'"
  using assms tell_reach_keeps [of client x "DidFail Cancellation" s]
  by (auto simp: cancelLoader_def bind_eq_Some_conv split: if_splits)

lemma willSendRequest_keeps:
  assumes "willSendRequest client x l url s = Some s'" "base env s" "answered s" "m_loader s = Some l" "s_connected l"
    "toString (x_origin x) = l_origin s"
  shows "base env s' \<and> grows s s' \<and> answered s'"
proof -
  let ?f = "\<lambda>l. l\<lparr>s_request := (s_request l)\<lparr>r_url := url\<rparr>\<rparr>"
  define t where "t = changeLoader (s_id l) ?f s"
  have t: "base env t" "grows s t" "m_loader t = Some (?f l)" "granted t = granted s" "\<And>k. linked t k = linked s k"
    unfolding t_def using changeLoader_keeps [OF assms(2)] changeLoader_linked [of "s_id l" ?f s] changeLoader_mine [OF assms(4)] by simp_all
  have e: "l_id t = l_id s" "l_origin t = l_origin s" "m_options t = m_options s" "m_sameOriginRequest t = m_sameOriginRequest s" "l_log t = l_log s"
    by (simp_all add: t_def changeLoader_same)
  have a: "s_responded l \<longrightarrow> granted s" "linked s l" using assms(3-5) by (simp_all add: answered_def)
  have "s' = t \<and> m_string (r_url (s_request l)) = m_string url \<or>
      isAllowedRedirect x url t \<and> s' = logged (Redirected (l_id t) x (m_options t) url) t \<or>
      (\<exists>u. tell client x DidFailRedirectCheck t = Some u \<and> s' = changeLoader (s_id l) (\<lambda>l. l\<lparr>s_connected := False\<rparr>) u)"
    using assms(1) unfolding willSendRequest_def Let_def t_def [symmetric]
    by (simp add: bind_eq_Some_conv eq_commute [of s'] split: if_splits)
  then consider "s' = t" "m_string (r_url (s_request l)) = m_string url"
    | "isAllowedRedirect x url t" "s' = logged (Redirected (l_id t) x (m_options t) url) t"
    | u where "tell client x DidFailRedirectCheck t = Some u" "s' = changeLoader (s_id l) (\<lambda>l. l\<lparr>s_connected := False\<rparr>) u"
    by blast
  then show ?thesis
  proof cases
    case 1
    have "answered t" using a 1(2) by (simp add: answered_def t(3,4,5)) (simp add: linked_def)
    then show ?thesis using t 1(1) by simp
  next
    case 2
    have allow: "o_crossOriginRequestPolicy (m_options s) = AllowCrossOriginRequests \<or>
        mayRequest x url \<and> m_sameOriginRequest s \<and> opened (l_id s) (l_origin s) (l_log s)"
      using 2(1) a(2) by (auto simp: isAllowedRedirect_def linked_def e split: if_splits)
    then have "inOrder env (Redirected (l_id t) x (m_options t) url) (l_log t)" using assms(6) by (auto simp: inOrder_def e)
    then have "base env s'" using base_logged [OF t(1)] 2(2) by simp
    moreover have g: "grows t s'" by (simp add: 2(2) grows_logged)
    moreover have "answered s'"
    proof -
      have "granted s' \<longleftrightarrow> granted t \<or> granted s'" using granted_grows [OF _ g] by (auto simp: 2(2) logged_def)
      moreover have "linked s' (?f l)"
      proof (cases "o_crossOriginRequestPolicy (m_options s) = AllowCrossOriginRequests")
        case False
        then have m: "mayRequest x url" "opened (l_id s) (l_origin s) (l_log s)" using allow by simp_all
        have "vouched (l_id s) (l_origin s) (m_string url) (l_log s')"
          unfolding vouched_def using m(1) assms(6)
          by (intro exI [of _ x] exI [of _ "m_options s"] exI [of _ url]) (simp add: 2(2) logged_def e)
        moreover have "opened (l_id s) (l_origin s) (l_log s')" using more_entries(1) [OF grows_subset [OF g], of "l_id s"] m(2) by (simp add: e)
        ultimately show ?thesis by (simp add: linked_def 2(2) logged_def e)
      qed (simp add: linked_def 2(2) logged_def e)
      moreover have "m_loader s' = Some (?f l)" using t(3) by (simp add: 2(2) logged_def)
      ultimately show ?thesis using a(1) t(4) by (simp add: answered_def) blast
    qed
    ultimately show ?thesis using grows_trans [OF t(2)] by blast
  next
    case (3 u)
    have u: "base env u" "grows t u" "m_loader u = Some (?f l) \<or> m_loader u = None" "m_actualRequest u = m_actualRequest t"
      using tell_plain [OF 3(1) t(1)] t(3) by auto
    have "granted t \<longrightarrow> granted u" using granted_grows [OF _ u(2,4)] by blast
    then have "answered s'" unfolding 3(2) answered_def changeLoader_linked using u(3) a(1) t(4) by (auto simp: changeLoader_def)
    moreover have "base env s'" "grows u s'" unfolding 3(2) by (rule changeLoader_keeps [OF u(1)])+
    ultimately show ?thesis using grows_trans [OF t(2)] grows_trans [OF u(2)] by blast
  qed
qed

lemma data_answered:
  assumes "didReceiveData client x d s = Some s'" "base env s" "granted s" "answered s"
  shows "base env s' \<and> grows s s' \<and> answered s'"
  using didReceiveData_keeps [OF assms(1-3)] answered_same [OF assms(4)] by blast

lemma responseEvent_keeps:
  assumes "responseEvent client x l r s = Some s'" "base (x_env x) s" "answered s" "m_loader s = Some l" "s_connected l"
    "toString (x_origin x) = l_origin s" "m_string (p_url r) = m_string (r_url (s_request l))"
  shows "base (x_env x) s' \<and> grows s s' \<and> answered s'"
proof -
  let ?f = "\<lambda>l. l\<lparr>s_loadingMultipartContent := s_loadingMultipartContent l \<or> isMultipart r, s_responded := True\<rparr>"
  define t where "t = changeLoader (s_id l) ?f s"
  have t: "base (x_env x) t" "grows s t" "m_loader t = Some (?f l)" "\<And>k. linked t k = linked s k"
    unfolding t_def using changeLoader_keeps [OF assms(2)] changeLoader_linked [of "s_id l" ?f s] changeLoader_mine [OF assms(4)] by simp_all
  have e: "l_id t = l_id s" "l_origin t = l_origin s" "m_options t = m_options s" "m_sameOriginRequest t = m_sameOriginRequest s" "l_log t = l_log s"
    by (simp_all add: t_def changeLoader_same)
  have li: "linked s l" using assms(3-5) by (simp add: answered_def)
  obtain u where u: "didReceiveResponse client x r t = Some u"
    "u = s' \<or> (\<exists>d n v. didReceiveData client x d u = Some v \<and> s' = changeLoader n (\<lambda>l. l\<lparr>s_resourceData := []\<rparr>) v)"
    using assms(1) unfolding responseEvent_def t_def [symmetric] by (fastforce simp: bind_eq_Some_conv split: option.splits if_splits)
  have pol: "m_sameOriginRequest t \<or> o_crossOriginRequestPolicy (m_options t) \<noteq> DenyCrossOriginRequests" using t(1,3) by (simp add: base_def)
  have fit: "fitting x t r" using li assms(6,7) by (auto simp: fitting_def ownURL_def linked_def e)
  have g: "base (x_env x) u" "grows t u" "granted u" "m_loader u = m_loader t \<or> m_loader u = None"
    using didReceiveResponse_keeps [OF u(1) t(1) _ pol fit] assms(6) e(2) by auto
  have "linked t (?f l)" unfolding t(4) using li by (simp add: linked_def)
  from linked_grows [OF this g(2)] have "linked u (?f l)" .
  then have au: "answered u" using g(3,4) t(3) by (auto simp: answered_def)
  have "base (x_env x) s' \<and> grows u s' \<and> answered s'" using u(2)
  proof
    assume "\<exists>d n v. didReceiveData client x d u = Some v \<and> s' = changeLoader n (\<lambda>l. l\<lparr>s_resourceData := []\<rparr>) v"
    then obtain d n v where v: "didReceiveData client x d u = Some v" "s' = changeLoader n (\<lambda>l. l\<lparr>s_resourceData := []\<rparr>) v" by blast
    have w: "base (x_env x) v" "grows u v" "answered v" using data_answered [OF v(1) g(1,3) au] by simp_all
    have "answered s'" unfolding v(2) by (rule changeLoader_answered [OF w(3)]) simp
    moreover have "base (x_env x) s'" "grows v s'" unfolding v(2) by (rule changeLoader_keeps [OF w(1)])+
    ultimately show ?thesis using grows_trans [OF w(2)] by simp
  qed (use g au in simp)
  then show ?thesis using grows_trans [OF t(2)] grows_trans [OF g(2)] by blast
qed

lemma dataEvent_keeps:
  assumes "dataEvent client x l d s = Some s'" "base env s" "answered s" "granted s"
  shows "base env s' \<and> grows s s' \<and> answered s'"
proof -
  define t where "t = changeLoader (s_id l) (\<lambda>l. l\<lparr>s_resourceData := s_resourceData l @ d\<rparr>) s"
  have t: "base env t" "grows s t" "answered t"
    unfolding t_def by (rule changeLoader_keeps [OF assms(2)], rule changeLoader_keeps [OF assms(2)], rule changeLoader_answered [OF assms(3)]) simp
  have gr: "granted t" using assms(4) by (simp add: t_def changeLoader_linked)
  have "s' = t \<or> didReceiveData client x d t = Some s'"
    using assms(1) unfolding dataEvent_def Let_def t_def [symmetric] by (simp split: if_splits)
  then show ?thesis
  proof
    assume h: "didReceiveData client x d t = Some s'"
    show ?thesis using data_answered [OF h t(1) gr t(3)] grows_trans [OF t(2)] by simp
  qed (use t in simp)
qed

lemma challengeEvent_keeps:
  assumes "challengeEvent client x s = Some s'" "base env s" "answered s"
  shows "base env s' \<and> grows s s' \<and> answered s'"
proof -
  from assms(1) consider "s' = s" | t where "tell client x (DidFail OtherError) s = Some t" "cancel client x t = Some s'"
    by (auto simp: challengeEvent_def bind_eq_Some_conv split: if_splits)
  then show ?thesis
  proof cases
    case (2 t)
    have "base env t" "grows s t" using tell_plain [OF 2(1) assms(2)] by simp_all
    then show ?thesis using cancel_answered [OF 2(2)] grows_trans by blast
  qed (use assms in simp)
qed

text \<open>
  What the network reports: data and the end of a load come after a response, and a response is for the URL of
  the request, as it is after the redirects that the loader was told of.
\<close>

definition reported :: "event \<Rightarrow> 'c session \<Rightarrow> bool" where
  "reported ev s \<longleftrightarrow>
     (\<forall>l. m_loader s = Some l \<longrightarrow>
        (case ev of
           Response r \<Rightarrow> m_string (p_url r) = m_string (r_url (s_request l))
         | Data d \<Rightarrow> s_responded l
         | Finish \<Rightarrow> s_responded l
         | _ \<Rightarrow> True))"

lemma handle_keeps:
  assumes "handle client x ev s = Some s'" "base (x_env x) s" "answered s" "reported ev s" "toString (x_origin x) = l_origin s"
  shows "base (x_env x) s' \<and> grows s s' \<and> answered s'"
proof (cases "m_loader s")
  case None
  then show ?thesis using assms by (simp add: handle_def)
next
  case (Some l)
  show ?thesis
  proof (cases "ev = StopLoading \<or> \<not> s_connected l")
    case True
    then have "s' = s \<or> cancelLoader client x l s = Some s'" using assms(1) Some by (auto simp: handle_def split: if_splits)
    then show ?thesis using cancelLoader_keeps [OF _ assms(2,3)] assms(2,3) by auto
  next
    case False
    then have c: "ev \<noteq> StopLoading" "s_connected l" by simp_all
    show ?thesis
    proof (cases ev)
      case (WillSendRequest url)
      then show ?thesis using willSendRequest_keeps [OF _ assms(2,3) Some c(2) assms(5)] assms(1) Some c by (simp add: handle_def)
    next
      case (SentData a b)
      then have "tell client x (DidSendData a b) s = Some s'" using assms(1) Some c by (simp add: handle_def)
      from tell_plain [OF this assms(2)] tell_plain_answered [OF this assms(2) _ assms(3)] show ?thesis by simp
    next
      case (Response r)
      then have "m_string (p_url r) = m_string (r_url (s_request l))" using assms(4) Some by (simp add: reported_def)
      from responseEvent_keeps [OF _ assms(2,3) Some c(2) assms(5) this] show ?thesis using assms(1) Some c Response by (simp add: handle_def)
    next
      case (Data d)
      then have "granted s" using assms(3,4) Some by (auto simp: answered_def reported_def)
      from dataEvent_keeps [OF _ assms(2,3) this] show ?thesis using assms(1) Some c Data by (simp add: handle_def)
    next
      case Finish
      then obtain t where t: "didFinishLoading client x (s_identifier l) s = Some t" "s' = reachTerminalState (s_id l) t"
        using assms(1) Some c by (auto simp: handle_def bind_eq_Some_conv)
      have "granted s" using assms(3,4) Finish Some by (auto simp: answered_def reported_def)
      moreover have "m_async s" using assms(2) Some by (simp add: base_def)
      ultimately have "base (x_env x) t \<and> grows s t \<and> answered t" using didFinishLoading_keeps [OF t(1) assms(2) _ _ assms(3,5)] by blast
      then show ?thesis using reachTerminalState_keeps t(2) by blast
    next
      case (Fail e)
      then obtain t where t: "tell client x (DidFail e) s = Some t" "s' = reachTerminalState (s_id l) t"
        using assms(1) Some c by (auto simp: handle_def bind_eq_Some_conv)
      show ?thesis unfolding t(2) by (rule tell_reach_keeps [OF t(1) _ assms(2,3)]) simp
    next
      case Challenge
      then show ?thesis using challengeEvent_keeps [OF _ assms(2,3)] assms(1) Some c by (simp add: handle_def)
    next
      case (ChallengeCancelled r)
      then obtain t where t: "tell client x (DidReceiveAuthenticationCancellation r) s = Some t" "cancelLoader client x l t = Some s'"
        using assms(1) Some c by (auto simp: handle_def bind_eq_Some_conv)
      have "base (x_env x) t" "grows s t" "answered t"
        using tell_plain [OF t(1) assms(2)] tell_plain_answered [OF t(1) assms(2) _ assms(3)] by simp_all
      then show ?thesis using cancelLoader_keeps [OF t(2)] grows_trans by blast
    qed (use c in simp)
  qed
qed


subsection \<open>All loaders\<close>

text \<open>
  The loaders of the process share the cache, the log and the numbers. A step starts a loader, delivers
  an event, cancels a load, lets a client change its own state, or empties the cache. The
  surroundings may differ from step to step, but a document keeps the text of its origin. Nothing is assumed
  of the clients; the network reports events as in \<open>reported\<close>.
\<close>

record 'c system =
  y_sessions :: "nat \<rightharpoonup> 'c session"
  y_cache :: preflightCache
  y_log :: "entry list"
  y_count :: nat

definition startSystem :: "'c system" where
  "startSystem = \<lparr>y_sessions = Map.empty, y_cache = emptyCache Map.empty, y_log = [], y_count = 0\<rparr>"

definition shared :: "'c system \<Rightarrow> 'c session \<Rightarrow> 'c session" where
  "shared y s = s\<lparr>l_cache := y_cache y, l_log := y_log y, l_count := y_count y\<rparr>"

definition stored :: "'c session \<Rightarrow> 'c system \<Rightarrow> 'c system" where
  "stored s y = \<lparr>y_sessions = (y_sessions y)(l_id s \<mapsto> s), y_cache = l_cache s, y_log = l_log s, y_count = l_count s\<rparr>"

inductive reachable :: "environment \<Rightarrow> 'c system \<Rightarrow> bool" for env :: environment where
  start: "reachable env startSystem"
| create: "reachable env y \<Longrightarrow> x_env x = env \<Longrightarrow>
    construct client x options async r c (y_cache y) (y_log y) (y_count y) = Some s \<Longrightarrow> reachable env (stored s y)"
| event: "reachable env y \<Longrightarrow> x_env x = env \<Longrightarrow> y_sessions y i = Some s \<Longrightarrow> toString (x_origin x) = l_origin s \<Longrightarrow>
    reported ev s \<Longrightarrow> handle client x ev (shared y s) = Some s' \<Longrightarrow> reachable env (stored s' y)"
| canceled: "reachable env y \<Longrightarrow> x_env x = env \<Longrightarrow> y_sessions y i = Some s \<Longrightarrow>
    cancel client x (shared y s) = Some s' \<Longrightarrow> reachable env (stored s' y)"
| script: "reachable env y \<Longrightarrow> y_sessions y i = Some s \<Longrightarrow> reachable env (stored ((shared y s)\<lparr>l_client := c\<rparr>) y)"
| emptied: "reachable env y \<Longrightarrow> reachable env (y\<lparr>y_cache := emptyCache (y_cache y)\<rparr>)"

definition sound :: "environment \<Rightarrow> 'c system \<Rightarrow> bool" where
  "sound env y \<longleftrightarrow>
     allInOrder env (y_log y) \<and> cacheFromLog env (y_cache y) (y_log y) \<and>
     (\<forall>i s. y_sessions y i = Some s \<longrightarrow> l_id s = i \<and> base env (shared y s) \<and> answered (shared y s))"

lemma shared_other:
  assumes "base env (shared y s)" "answered (shared y s)" "base env t" "l_log t = new @ y_log y" "y_count y \<le> l_count t"
  shows "base env (shared (stored t y) s)" "answered (shared (stored t y) s)"
proof -
  show "base env (shared (stored t y) s)" using assms(1,3,5) by (auto simp: base_def shared_def stored_def)
  have sub: "set (y_log y) \<subseteq> set (l_log t)" using assms(4) by simp
  have "granted (shared y s) \<Longrightarrow> granted (shared (stored t y) s)"
    using sub more_entries(3) [OF sub] by (auto simp: granted_def shared_def stored_def split: option.splits)
  moreover have "linked (shared y s) l \<Longrightarrow> linked (shared (stored t y) s) l" for l
    using more_entries(1,2) [OF sub] by (auto simp: linked_def shared_def stored_def)
  moreover have "m_loader (shared (stored t y) s) = m_loader (shared y s)" by (simp add: shared_def)
  ultimately show "answered (shared (stored t y) s)" using assms(2) unfolding answered_def by metis
qed

lemma stored_sound:
  assumes "sound env y" "base env t" "answered t" "\<exists>new. l_log t = new @ y_log y" "y_count y \<le> l_count t"
  shows "sound env (stored t y)"
  unfolding sound_def
proof (intro conjI allI impI)
  show "allInOrder env (y_log (stored t y))" "cacheFromLog env (y_cache (stored t y)) (y_log (stored t y))"
    using assms(2) by (simp_all add: base_def stored_def)
  fix j s assume j: "y_sessions (stored t y) j = Some s"
  show "l_id s = j" "base env (shared (stored t y) s)" "answered (shared (stored t y) s)"
  proof (atomize (full), cases "j = l_id t")
    case True
    then have "s = t" "shared (stored t y) s = t" using j by (simp_all add: shared_def stored_def)
    then show "l_id s = j \<and> base env (shared (stored t y) s) \<and> answered (shared (stored t y) s)" using assms(2,3) True by simp
  next
    case False
    then have "y_sessions y j = Some s" using j by (simp add: stored_def)
    then have "l_id s = j" "base env (shared y s)" "answered (shared y s)" using assms(1) by (simp_all add: sound_def)
    then show "l_id s = j \<and> base env (shared (stored t y) s) \<and> answered (shared (stored t y) s)"
      using shared_other [OF _ _ assms(2) _ assms(5)] assms(4) by blast
  qed
qed

lemma grows_log: "grows (shared y s) t \<Longrightarrow> (\<exists>new. l_log t = new @ y_log y) \<and> y_count y \<le> l_count t"
  by (auto simp: grows_def shared_def)

lemma reachable_sound: "reachable env y \<Longrightarrow> sound env y"
proof (induction rule: reachable.induct)
  case start
  then show ?case by (simp add: sound_def startSystem_def emptyCache_def cacheFromLog_def)
next
  case (create y x client options async r c s)
  have "base (x_env x) s \<and> answered s \<and> grows (newSession x options async (r_url r) c (y_cache y) (y_log y) (y_count y)) s"
    using construct_keeps [OF create.hyps(3)] create.IH create.hyps(2) by (simp add: sound_def)
  then show ?case using create.IH create.hyps(2) by (intro stored_sound) (auto simp: grows_def newSession_def)
next
  case (event y x i s ev client s')
  have "base (x_env x) (shared y s)" "answered (shared y s)" using event.IH event.hyps(2,3) by (auto simp: sound_def)
  moreover have "reported ev (shared y s)" "toString (x_origin x) = l_origin (shared y s)"
    using event.hyps(4,5) by (simp_all add: reported_def shared_def)
  ultimately have "base (x_env x) s' \<and> grows (shared y s) s' \<and> answered s'" using handle_keeps [OF event.hyps(6)] by simp
  then show ?case using event.IH event.hyps(2) grows_log [of y s s'] by (intro stored_sound) simp_all
next
  case (canceled y x i s client s')
  have "base env (shared y s)" using canceled.IH canceled.hyps(3) by (auto simp: sound_def)
  then have "base env s' \<and> grows (shared y s) s' \<and> answered s'" using cancel_answered [OF canceled.hyps(4)] by blast
  then show ?case using canceled.IH grows_log [of y s s'] by (intro stored_sound) simp_all
next
  case (script y i s c)
  then have "base env (shared y s)" "answered (shared y s)" by (auto simp: sound_def)
  then show ?case using script.IH by (intro stored_sound) (auto simp: shared_def)
next
  case (emptied y)
  have e: "shared (y\<lparr>y_cache := emptyCache (y_cache y)\<rparr>) s = (shared y s)\<lparr>l_cache := emptyCache (y_cache y)\<rparr>" for s
    by (simp add: shared_def)
  have "base env (t\<lparr>l_cache := emptyCache c\<rparr>)" "answered (t\<lparr>l_cache := emptyCache c\<rparr>)" if "base env t" "answered t" for t :: "'a session" and c
    using that by (simp_all add: base_def answered_def granted_def linked_def emptyCache_def cacheFromLog_def split: option.splits)
  then show ?case using emptied.IH unfolding sound_def e by (simp add: cacheFromLog_def) (simp add: emptyCache_def)
qed

lemma entry_in_order: "reachable env y \<Longrightarrow> y_log y = later @ e # earlier \<Longrightarrow> inOrder env e earlier"
  using reachable_sound [of env y] allInOrder_split [of env later e earlier] by (simp add: sound_def)

text \<open>
  C7: Cross-origin requests are permitted: whatever loads the clients start and cancel, however
  their scripts behave and whatever servers answer, a request that loader \<open>i\<close> sends is for a URL its document
  may request, or the options say AllowCrossOriginRequests, or they say UseAccessControl and the request is
  simple, or a preflight, or covered by a preflight response that is in the log before it, that was received
  for the same URL by a document of the same origin with at least the same credentials, that passed the access
  check and whose allowed methods and header fields cover the request; that response answered the preflight of
  this very loader for this very request, or it is at most 600 seconds old.
\<close>

theorem cross_origin_requests_permitted:
  assumes "reachable env y" "y_log y = later @ Sent i x options r # earlier"
  shows "x_env x = env \<and>
    (mayRequest x (r_url r) \<or> o_crossOriginRequestPolicy options = AllowCrossOriginRequests \<or>
     o_crossOriginRequestPolicy options = UseAccessControl \<and>
       (simpleRequest x r \<or> isPreflight x options r \<or>
        (\<exists>j x0 o0 a resp item.
           Granted j x0 o0 a resp \<in> set earlier \<and> passes x0 o0 resp \<and> itemOf x0 o0 resp = Some item \<and> allowed (x_env x) r item \<and>
           (o_allowCredentials options \<longrightarrow> o_allowCredentials o0) \<and> m_string (r_url a) = m_string (r_url r) \<and>
           toString (x_origin x0) = toString (x_origin x) \<and> (j = i \<and> a = r \<or> x_clock x \<le> x_clock x0 + 600))))"
  using entry_in_order [OF assms] unfolding inOrder_def permitted_def entry.case .


subsection \<open>An example\<close>

definition quietClient :: "unit client" where
  "quietClient = \<lparr>react = (\<lambda>cb c. (c, False)), resume = (\<lambda>c. c)\<rparr>"

definition exampleFrame :: frameState where
  "exampleFrame =
     \<lparr>f_provisional = False, f_activeDocumentLoader = True, f_stopping = False, f_outgoingReferrer = [], f_allowXHR = (\<lambda>u. AllowXHRDefault),
      f_hasApplicationRestrictions = False, f_admits = (\<lambda>r. True),
      f_sync = (\<lambda>r. \<lparr>y_error = OtherError, y_response = nullResponse, y_data = [], y_identifier = 0\<rparr>)\<rparr>"

definition exampleSurroundings :: surroundings where
  "exampleSurroundings =
     \<lparr>x_env = exampleEnvironment, x_security = exampleState, x_origin = createOrigin exampleEnvironment exampleState (parsed exampleURL) 0,
      x_documentURL = parsed exampleURL, x_frame = Some exampleFrame, x_clock = 0\<rparr>"

definition exampleOptions :: ThreadableLoaderOptions where
  "exampleOptions =
     \<lparr>o_sendLoadCallbacks = True, o_sniffContent = False, o_allowCredentials = False, o_forcePreflight = False,
      o_crossOriginRequestPolicy = UseAccessControl\<rparr>"


lemma example_may: "\<not> mayRequest exampleSurroundings (parsed portURL)"
proof -
  have o: "ordinary exampleEnvironment exampleState exampleURL" "ordinary exampleEnvironment exampleState portURL"
    using examples_ordinary(1) by (simp only: exampleState_def) code_simp
  have n: "hostName exampleURL \<noteq> hostName portURL" by code_simp
  have a: "\<not> apollo exampleEnvironment" "originAccessMap exampleState = Map.empty"
    by (simp_all add: exampleState_def initialState_def exampleEnvironment_def)
  have "isSameSchemeHostPort exampleEnvironment exampleState (tuple p (hostName exampleURL) k) (tuple p' (hostName portURL) k') = False" for p p' k k'
    using n by (simp add: isSameSchemeHostPort_def tuple_def)
  then show ?thesis
    unfolding mayRequest_def exampleSurroundings_def canRequest_def isAccessWhiteListed_def Let_def
    using a by (simp only: surroundings.simps origin_parsed [OF o(1)] origin_parsed [OF o(2)]) (simp add: tuple_def)
qed

lemma example_url:
  "r_url (removeCredentials (newRequest (parsed portURL))) = parsed portURL" "m_protocolInHTTPFamily (parsed portURL)"
  "\<not> shouldTreatURLAsLocal exampleEnvironment exampleState (m_string (parsed portURL))"
  by code_simp+

text \<open>The loader that a page of h.com starts for a resource of g.com, and what it sends.\<close>

definition exampleSent :: request where
  "exampleSent = setHTTPOrigin exampleSurroundings ((newRequest (parsed portURL))\<lparr>r_allowCookies := False\<rparr>)"

lemma example_starts:
  "\<exists>s. construct quietClient exampleSurroundings exampleOptions True (newRequest (parsed portURL)) () Map.empty [] 0 = Some s \<and>
     l_log s = [Sent 0 exampleSurroundings exampleOptions exampleSent] \<and>
     (\<exists>l. m_loader s = Some l \<and> s_connected l \<and> \<not> s_loadingMultipartContent l \<and> s_resourceData l = [] \<and>
        r_url (s_request l) = parsed portURL) \<and>
     m_clientSet s \<and> m_actualRequest s = None \<and> m_options s = exampleOptions \<and> \<not> m_sameOriginRequest s \<and>
     l_id s = 0 \<and> l_origin s = toString (x_origin exampleSurroundings)"
proof -
  have r: "removeCredentials (newRequest (parsed portURL)) = newRequest (parsed portURL)"
    using example_url(1) by (simp add: removeCredentials_def newRequest_def)
  have u: "r_url (newRequest (parsed portURL)) = parsed portURL" "r_url exampleSent = parsed portURL"
    by (simp_all add: newRequest_def exampleSent_def setHTTPOrigin_def)
  have simple: "isSimpleCrossOriginAccessRequest (x_env exampleSurroundings) (r_method (newRequest (parsed portURL))) (r_headers (newRequest (parsed portURL)))"
    by (simp add: newRequest_def isSimpleCrossOriginAccessRequest_def isOnAccessControlSimpleRequestMethodWhitelist_def)
  have load: "mayLoad exampleSurroundings (parsed portURL)"
    using example_url(3) unfolding mayLoad_def exampleSurroundings_def canLoad_def by (simp add: exampleEnvironment_def)
  have f: "x_frame exampleSurroundings = Some exampleFrame" "f_provisional exampleFrame = False" "f_activeDocumentLoader exampleFrame = True"
    "f_stopping exampleFrame = False" "f_admits exampleFrame r = True" for r
    by (simp_all add: exampleSurroundings_def exampleFrame_def)
  have o: "o_crossOriginRequestPolicy exampleOptions = UseAccessControl" "o_forcePreflight exampleOptions = False"
    "o_allowCredentials exampleOptions = False"
    by (simp_all add: exampleOptions_def)
  show ?thesis
    unfolding construct_def Let_def u r newSession_def
    using simple load example_may example_url(2) f o u
    by (simp add: makeSimpleCrossOriginAccessRequest_def loadRequest_def loadAsynchronously_def createSubloader_def logged_def newSubloader_def outgoing_url Let_def
        flip: exampleSent_def)
qed


text \<open>The request leaves, and the response that allows every origin reaches the client.\<close>

lemma example_reached:
  "\<exists>s. construct quietClient exampleSurroundings exampleOptions True (newRequest (parsed portURL)) () Map.empty [] 0 = Some s \<and>
     reachable exampleEnvironment (stored s startSystem)"
proof -
  obtain s where s: "construct quietClient exampleSurroundings exampleOptions True (newRequest (parsed portURL)) () Map.empty [] 0 = Some s"
    using example_starts by auto
  have "reachable exampleEnvironment (stored s startSystem)"
    by (rule reachable.create [OF reachable.start, of exampleSurroundings _ quietClient exampleOptions True "newRequest (parsed portURL)" "()"])
       (use s in \<open>simp_all add: startSystem_def emptyCache_def exampleSurroundings_def\<close>)
  then show ?thesis using s by blast
qed

lemma cross_origin_requests_permitted_witness:
  "\<exists>y :: unit system. reachable exampleEnvironment y \<and> y_log y = [Sent 0 exampleSurroundings exampleOptions exampleSent] \<and>
     \<not> mayRequest exampleSurroundings (r_url exampleSent) \<and>
     (simpleRequest exampleSurroundings exampleSent \<or> isPreflight exampleSurroundings exampleOptions exampleSent)"
proof -
  obtain s where s: "construct quietClient exampleSurroundings exampleOptions True (newRequest (parsed portURL)) () Map.empty [] 0 = Some s"
    and r: "reachable exampleEnvironment (stored s startSystem)" using example_reached by blast
  have l: "y_log (stored s startSystem) = [] @ Sent 0 exampleSurroundings exampleOptions exampleSent # []"
    using s example_starts by (simp add: stored_def)
  have u: "r_url exampleSent = parsed portURL" by (simp add: newRequest_def exampleSent_def setHTTPOrigin_def)
  have o: "o_crossOriginRequestPolicy exampleOptions \<noteq> AllowCrossOriginRequests" by (simp add: exampleOptions_def)
  have "simpleRequest exampleSurroundings exampleSent \<or> isPreflight exampleSurroundings exampleOptions exampleSent"
    using cross_origin_requests_permitted [OF r l] example_may o by (simp add: u)
  then show ?thesis using r l example_may u by (metis append_Nil)
qed





end
