(* ===== verification/Spec2Isabelle.thy ===== *)
theory Spec2Isabelle
  imports JsonGrammar Base64 DateComponents SessionHistory OriginAccess StringMaps ApolloMapping LoaderSafety
begin

text \<open>
  A verification library for parts of WebKit (the AIR branch): the code of JavaScriptCore
  and WebCore that is pure computation or a state machine of its own, translated to
  functions of HOL, with the theorems that make it correct.

  \<^bold>\<open>Parts and theories\<close>

  \<^item> Prelude: the types of units, bytes and machine words, the character predicates of
    JavaScriptCore/wtf/ASCIICType.h, two readers of escapes of parser/Lexer.h, and the
    lemmas on words and lists that the components share (collection \<open>word_value\<close>).
  \<^item> Utf8: JavaScriptCore/wtf/unicode/UTF8.cpp. The conversions take the source, the room
    of the target and what it holds, and return the result code, what is left of the
    source and the target; pointers are positions in lists.
  \<^item> UStrings: searching, comparison, numbers and UTF-8 export of
    JavaScriptCore/runtime/UString.cpp. UriCoding: the global functions encodeURI,
    decodeURI, escape, unescape and parseInt of runtime/JSGlobalObjectFunctions.cpp.
  \<^item> Json: the lexer and the stack machine of runtime/LiteralParser.cpp and the quoting of
    runtime/JSONObject.cpp. JsonGrammar: the grammar the machine implements.
  \<^item> Base64: WebCore/platform/text/Base64.cpp, encoder and in-place decoder.
  \<^item> DateMath: JavaScriptCore/wtf/DateMath.cpp with the cache of daylight saving offsets of
    JSGlobalData; doubles that hold whole numbers are integers, which is exact for the time
    values of ECMAScript, of at most 8.64e15 milliseconds and so below 2 to the 53rd. DateComponents:
    WebCore/html/DateComponents.cpp, an object as a record, parsers and printers.
  \<^item> PageCache: WebCore/history/PageCache.cpp, a doubly linked list through the history
    items with reference counts. BackForwardList: WebCore/history/BackForwardList.cpp on
    top of it. SessionHistory: the state machine of their commands.
  \<^item> HashTable: the open-addressing table of JavaScriptCore/wtf/HashTable.h with double hashing,
    marks for deleted buckets, growth and shrinking. HashTableLaws: its invariant, over the locale
    \<open>hash_functions\<close>. StringMaps: HashMap with string keys (wtf/HashMap.h, StringHashFunctions.h,
    text/StringHash.h), which interprets the locale.
  \<^item> WtfString: JavaScriptCore/wtf/text/WTFString.cpp and StringImpl.cpp on lists of units.
  \<^item> Kurl: the parser of WebCore/platform/KURL.cpp on a byte list, whose result is the
    record KURL with the offsets of the class. KurlParse: its theorems. UrlOps: the accessors,
    setters, escapes, ports and protocols of KURL. UrlParts: their theorems. UrlResolve:
    KURL::init, the resolution of a reference against a base with the encoding of host names, on
    buffers of bytes. UrlReference: the generic syntax of URLs that it implements.
  \<^item> Security: WebCore/page/SecurityOrigin.cpp and OriginAccessEntry.cpp with the static tables of
    schemes, origins and white lists as one record \<open>securityState\<close>. OriginPolicy and OriginAccess: what
    origins allow, and the white lists as a list of grants.
  \<^item> HttpParsers: WebCore/platform/network/HTTPParsers.cpp. CrossOrigin: loader/CrossOriginAccessControl.cpp
    and CrossOriginPreflightResultCache.cpp, the checks of responses and the cache of preflight results.
  \<^item> ApolloClient: loader/apollo/FrameLoaderClientApollo.cpp, what the frames of AIR may load and the
    mapping of URLs between a sandbox root and a document root, on a store of frames. ApolloPrefix and
    ApolloMapping: their theorems.
  \<^item> ThreadableLoader: loader/DocumentThreadableLoader.cpp with the part of SubresourceLoader.cpp and
    ResourceLoader.cpp that its client sees, as handlers on a session. LoaderSafety: any number of loaders
    as a step relation.

  The parts call each other as in the code: the back/forward list the page cache, the origins
  the URLs, access control the origins and the parsers of header values, the document loader
  all of them.

  \<^bold>\<open>What the lemmas show\<close>

  \<^item> History: \<open>page_cache_is_lru\<close> relates the linked list to a list of pairs through the
    predicate \<open>chain\<close>; the locale \<open>evicting_cache\<close> states what the back/forward list relies on
    and is interpreted by the page cache. \<open>reachable\<close> is the inductive closure of the
    commands; \<open>history_refines\<close> maps every command to the specification on a history with a
    current item, which gives that no command indexes outside the vector.
  \<^item> Hash tables: \<open>consistent\<close> says that the probe sequence of every key reaches its bucket before an
    empty one, and that the counters are the numbers of full and deleted buckets; every operation keeps it, so the table
    refines a finite map.
  \<^item> JSON: the machine is related to the inductive grammar in both directions by an
    invariant on its stacks; a measure on the rest of the source bounds its steps.
  \<^item> Text: conversions are related to lists of scalar values; the round trips follow.
  \<^item> URLs: \<open>printURL\<close> prints a record of parts; the parser reads it back to the object with
    exactly these offsets, and every setter is the update of a part. \<open>parse_offsets\<close> holds
    for arbitrary input. Resolution is compared with the merge of paths segment by segment; \<open>resolve_plain\<close> shows that
    the reads of its buffers stay inside, apart from the one copy of \<open>resolve_reads_outside\<close>.
  \<^item> Origins: on \<open>ordinary\<close> URLs an origin is the tuple of scheme, host and port, on every platform;
    the table of white lists refines the list of grants in force.
  \<^item> Loaders: every entry of the common log is in order (\<open>inOrder\<close>): what was sent had a permission,
    what was handed out was checked. The invariant \<open>base\<close> and \<open>answered\<close> of a session is kept by every handler,
    however the client reacts.
  \<^item> Dates: closed formulas are compared with the proleptic Gregorian calendar.

  \<^bold>\<open>Bounds, loops and reads outside\<close>

  Loops over text are structural recursions or recursions with a measure. The loops of
  the page cache, of the JSON machine, of the probes of the hash table and of the walk through
  frames may run forever on damaged states and are
  partial functions into option, with theorems that they return: probing ends because the step is odd, the size a
  power of two and one bucket free, the walk ends when the frames have a rank. A read outside a
  buffer is \<open>None\<close>, so safety is that the result is not \<open>None\<close>. Unsigned arithmetic is on words
  of its width wherever it can wrap around. The theorems on hash maps are for fewer than 2 to the 27th calls, so
  that the doubled sizes and the load tests stay inside 32-bit integers. No theorem uses fuel.

  \<^bold>\<open>Parameters\<close>

  Tables and codecs of the platform are arguments: white space above U+007F, the case
  mappings and case folding, IDN, the text encodings, the decoder of escapes, the local time zone and the clock.
  The record \<open>environment\<close> of theory Security also holds the platform switches, so a theorem without an assumption on
  them is about every build. Clients of a loader are arbitrary functions. What the network is assumed to do is the
  predicate \<open>reported\<close> of theory LoaderSafety: data and the end of a load come after a response, and a response is for the
  URL of the request after the redirects that were announced; and a document keeps the text of its origin.

  \<^bold>\<open>Not modelled\<close>

  The interpreter, the compilers and the garbage collector of JavaScriptCore, the regular
  expression engine, conversions between text and doubles, the document tree, style,
  layout, rendering, editing, the loading of documents and their resources apart from the parts above, XMLHttpRequest and
  its listeners, storage, and the ports to the platforms. They rest on shared
  mutable graphs of objects, on script that runs inside operations, on floating point or on libraries outside the repository.
\<close>

end
